(* ===== verification/Prelude.thy ===== *)
theory Prelude
  imports Main "HOL-Library.Word" "HOL-Library.AList" "HOL-Library.List_Lexorder"
begin

text \<open>
  Shared vocabulary of the development.

  \<^item> The machine integers of the Rust code (\<open>u8\<close>, \<open>u32\<close>, \<open>u64\<close>, \<open>u128\<close>) are words of the same
    width; \<open>usize\<close> values that are lengths or counters are \<open>nat\<close>, with the wrap-around at
    \<open>2 ^ 64\<close> written out where the code can reach it.
  \<^item> \<open>app_error\<close> is the error enum of \<^verbatim>\<open>bitcask-rs/src/errors.rs\<close>.
  \<^item> \<open>'a res\<close> is the outcome of a Rust call: a value, an \<open>Err\<close> of the enum, or a panic
    (\<open>panic!\<close>, \<open>expect\<close>, \<open>unwrap\<close>, \<open>unimplemented!\<close>).
  \<^item> \<open>res_bind\<close> and \<open>and_then\<close> are the \<open>?\<close> operator, without and with a state that the
    failing call may already have changed.
\<close>

named_theorems crate_laws "documented behaviour of the third-party crates"
named_theorems fs_simps "reading a file system after a write"

type_synonym u8 = "8 word"
type_synonym u32 = "32 word"
type_synonym u64 = "64 word"
type_synonym u128 = "128 word"
type_synonym bytes = "u8 list"

subsection \<open>Errors and results\<close>

datatype app_error =
    FailedToReadFromDataFile
  | FailedToWriteDataFile
  | FailedToSyncDataFile
  | FailedToOpenDataFile
  | KeyIsEmpty
  | KeyNotFound
  | FileNotFound
  | DataFileNotFound
  | DirPathIsEmpty
  | DataFileSizeTooSmall
  | FailedToCreateDatabaseDir
  | FailedToReadDatabaseDir
  | FailedToDeleteDatabaseDir
  | FailedToDeleteFile
  | FailedToRename
  | FailedToGetMergeFile
  | DataDirectoryCorrupted
  | ReadDataFileEOF
  | IndexUpdateFailed
  | InvalidPath
  | DecodeError
  | EncodeError
  | GetValueFailed
  | InvalidLogRecordCrc
  | IteratorNextError
  | ExceedMaxBatchNum
  | MergeInProgress
  | ParseError
  | UnableToUserWriteBatch
  | DatabaseIsUsing
  | FailedToUnlockFile
  | InvalidMergeRatio
  | MergeRatioUnreached
  | MergeNoEnoughSpace
  | FailedToCopyDir
  | WrongTypeOperation

datatype 'a res = Ok 'a | Err app_error | Panic

primrec res_bind :: "'a res \<Rightarrow> ('a \<Rightarrow> 'b res) \<Rightarrow> 'b res" where
  "res_bind (Ok a) f = f a"
| "res_bind (Err x) f = Err x"
| "res_bind Panic f = Panic"

primrec res_map :: "('a \<Rightarrow> 'b) \<Rightarrow> 'a res \<Rightarrow> 'b res" where
  "res_map f (Ok a) = Ok (f a)"
| "res_map f (Err x) = Err x"
| "res_map f Panic = Panic"

text \<open>\<open>expect\<close> and \<open>unwrap\<close> on an \<open>Option\<close>.\<close>

primrec expect :: "'a option \<Rightarrow> 'a res" where
  "expect None = Panic"
| "expect (Some a) = Ok a"

text \<open>The \<open>?\<close> operator on a call that also returns the new state.\<close>

definition and_then :: "'a res \<times> 's \<Rightarrow> ('a \<Rightarrow> 's \<Rightarrow> 'b res \<times> 's) \<Rightarrow> 'b res \<times> 's" where
  "and_then m f =
     (case m of
        (Ok a, s) \<Rightarrow> f a s
      | (Err x, s) \<Rightarrow> (Err x, s)
      | (Panic, s) \<Rightarrow> (Panic, s))"

lemma and_then_simps [simp]:
  "and_then (Ok a, s) f = f a s"
  "and_then (Err x, s) f = (Err x, s)"
  "and_then (Panic, s) f = (Panic, s)"
  by (simp_all add: and_then_def)

lemma res_bind_eq_Ok: "res_bind m f = Ok b \<longleftrightarrow> (\<exists>a. m = Ok a \<and> f a = Ok b)"
  by (cases m) auto

lemma res_bind_OkE:
  assumes "res_bind m f = Ok b"
  obtains a where "m = Ok a" "f a = Ok b"
  using assms by (cases m) auto

lemma and_then_eq_Ok:
  "and_then m f = (Ok b, t) \<longleftrightarrow> (\<exists>a s. m = (Ok a, s) \<and> f a s = (Ok b, t))"
  by (cases m; cases "fst m") (auto simp: and_then_def split: res.splits)

lemma and_then_cong [fundef_cong]:
  assumes "m = m'" and "\<And>a s. m' = (Ok a, s) \<Longrightarrow> f a s = g a s"
  shows "and_then m f = and_then m' g"
  using assms by (cases m'; cases "fst m'") (auto simp: and_then_def)

lemma and_then_assoc: "and_then (and_then m f) g = and_then m (\<lambda>a s. and_then (f a s) g)"
  by (auto simp: and_then_def split: prod.split res.split)

text \<open>The same for a call that may not return (\<open>None\<close>): a loop of the code.\<close>

definition loop_then ::
  "('a res \<times> 's) option \<Rightarrow> ('a \<Rightarrow> 's \<Rightarrow> ('b res \<times> 's) option) \<Rightarrow> ('b res \<times> 's) option" where
  "loop_then m f =
     (case m of
        None \<Rightarrow> None
      | Some (Ok a, s) \<Rightarrow> f a s
      | Some (Err x, s) \<Rightarrow> Some (Err x, s)
      | Some (Panic, s) \<Rightarrow> Some (Panic, s))"

lemma loop_then_simps [simp]:
  "loop_then None f = None"
  "loop_then (Some (Ok a, s)) f = f a s"
  "loop_then (Some (Err x, s)) f = Some (Err x, s)"
  "loop_then (Some (Panic, s)) f = Some (Panic, s)"
  by (simp_all add: loop_then_def)

lemma loop_then_total:
  assumes "m \<noteq> None" "\<And>a s. m = Some (Ok a, s) \<Longrightarrow> f a s \<noteq> None"
  shows "loop_then m f \<noteq> None"
  using assms by (auto simp: loop_then_def split: res.splits)

lemma loop_then_mono [partial_function_mono]:
  assumes "mono_option B" "\<And>a s. mono_option (\<lambda>f. C a s f)"
  shows "mono_option (\<lambda>f. loop_then (B f) (\<lambda>a s. C a s f))"
proof -
  have "mono_option (\<lambda>f. case y of (r, s) \<Rightarrow> case r of Ok a \<Rightarrow> C a s f
      | Err x \<Rightarrow> Some (Err x, s) | Panic \<Rightarrow> Some (Panic, s))" for y
  proof -
    obtain r s where y: "y = (r, s)" by (cases y)
    show ?thesis using assms(2) by (cases r) (simp_all add: y option.const_mono)
  qed
  then have "mono_option (\<lambda>f. Option.bind (B f) (\<lambda>y. case y of (r, s) \<Rightarrow> case r of Ok a \<Rightarrow> C a s f
      | Err x \<Rightarrow> Some (Err x, s) | Panic \<Rightarrow> Some (Panic, s)))"
    by (rule bind_mono [OF assms(1)])
  moreover have "loop_then (B f) (\<lambda>a s. C a s f) = Option.bind (B f) (\<lambda>y. case y of (r, s) \<Rightarrow>
      case r of Ok a \<Rightarrow> C a s f | Err x \<Rightarrow> Some (Err x, s) | Panic \<Rightarrow> Some (Panic, s))" for f
    by (auto simp: loop_then_def split: option.split)
  ultimately show ?thesis by simp
qed

subsection \<open>Checked arithmetic\<close>

text \<open>
  Arithmetic of the code with overflow checks on, as the \<^verbatim>\<open>dev\<close> profile of \<^verbatim>\<open>cargo run\<close> builds
  it: an addition or a subtraction that leaves the range of its type panics.
\<close>

definition add_u32 :: "u32 \<Rightarrow> u32 \<Rightarrow> u32 res" where
  "add_u32 a b = (if unat a + unat b < 2 ^ 32 then Ok (a + b) else Panic)"

definition add_u64 :: "u64 \<Rightarrow> u64 \<Rightarrow> u64 res" where
  "add_u64 a b = (if unat a + unat b < 2 ^ 64 then Ok (a + b) else Panic)"

definition add_usize :: "nat \<Rightarrow> nat \<Rightarrow> nat res" where
  "add_usize a b = (if a + b < 2 ^ 64 then Ok (a + b) else Panic)"

definition sub_u32 :: "u32 \<Rightarrow> u32 \<Rightarrow> u32 res" where
  "sub_u32 a b = (if b \<le> a then Ok (a - b) else Panic)"

definition sub_u64 :: "u64 \<Rightarrow> u64 \<Rightarrow> u64 res" where
  "sub_u64 a b = (if b \<le> a then Ok (a - b) else Panic)"

text \<open>\<open>AtomicUsize::fetch_add\<close> wraps around in every profile.\<close>

definition fetch_add :: "nat \<Rightarrow> nat \<Rightarrow> nat" where
  "fetch_add a b = (a + b) mod 2 ^ 64"

lemma add_u64_Ok:
  "unat a + unat b < 2 ^ 64 \<Longrightarrow> add_u64 a b = Ok (a + b) \<and> unat (a + b) = unat a + unat b"
  using unat_add_lem [of a b] by (simp add: add_u64_def)

lemma add_u64_of_nat:
  assumes "unat a + n < 2 ^ 64"
  shows "add_u64 a (of_nat n) = Ok (a + of_nat n)" and "unat (a + of_nat n) = unat a + n"
proof -
  have n: "unat (of_nat n :: u64) = n"
    using assms by (simp add: unat_of_nat)
  show "add_u64 a (of_nat n) = Ok (a + of_nat n)"
    using assms n by (simp add: add_u64_def)
  show "unat (a + of_nat n) = unat a + n"
    using add_u64_Ok [of a "of_nat n"] assms n by simp
qed

lemma add_u32_Ok:
  "unat a + unat b < 2 ^ 32 \<Longrightarrow> add_u32 a b = Ok (a + b) \<and> unat (a + b) = unat a + unat b"
  using unat_add_lem [of a b] by (simp add: add_u32_def)

subsection \<open>Lists\<close>

text \<open>Overwriting the front of a buffer, as a read into \<open>&mut [u8]\<close> does.\<close>

definition fill :: "'a list \<Rightarrow> 'a list \<Rightarrow> 'a list" where
  "fill xs buf = xs @ drop (length xs) buf"

lemma fill_full: "length xs = length buf \<Longrightarrow> fill xs buf = xs"
  by (simp add: fill_def)

lemma fill_Nil [simp]: "fill [] buf = buf"
  by (simp add: fill_def)

lemma length_fill: "length xs \<le> length buf \<Longrightarrow> length (fill xs buf) = length buf"
  by (simp add: fill_def)

lemma fill_replicate:
  "length xs \<le> n \<Longrightarrow> fill xs (replicate n a) = xs @ replicate (n - length xs) a"
  by (simp add: fill_def)

lemma take_drop_append_exact:
  "length pre = n \<Longrightarrow> length mid = m \<Longrightarrow> take m (drop n (pre @ mid @ post)) = mid"
  by simp

text \<open>A prefix that fits survives a longer read: its first \<open>n\<close> bytes and something after.\<close>

lemma take_append_prefix:
  "length xs \<le> n \<Longrightarrow> take n (xs @ ys) = xs @ take (n - length xs) ys"
  by simp

lemma map_of_update [simp]: "map_of (AList.update k v al) = (map_of al)(k \<mapsto> v)"
  by (simp add: update_conv')

lemma distinct_AList_update:
  "distinct (map fst al) \<Longrightarrow> distinct (map fst (AList.update k v al))"
  by (rule distinct_update)

lemma set_AList_update:
  "distinct (map fst al) \<Longrightarrow>
   set (AList.update k v al) = {(k, v)} \<union> {(k', v') \<in> set al. k' \<noteq> k}"
  by (induction al) force+

end
