(* ===== verification/Crates.thy ===== *)
theory Crates
  imports Prelude
begin

text \<open>
  The code the repository calls but does not hold: the crates \<^verbatim>\<open>prost\<close> (length delimiters and
  varints), \<^verbatim>\<open>crc32fast\<close> and \<^verbatim>\<open>bytes\<close> (big-endian integers).  Each is a field of the record
  \<open>crates\<close>, an argument of every definition that calls it.  \<open>crates_ok\<close> collects what the
  crates document and the code relies on.
\<close>

record crates =
  \<comment> \<open>\<^verbatim>\<open>prost::encode_length_delimiter\<close> into a growing buffer: the bytes it appends, or an error\<close>
  encode_length_delimiter :: "nat \<Rightarrow> bytes option"
  \<comment> \<open>\<^verbatim>\<open>prost::decode_length_delimiter\<close>: the length and the rest of the buffer, or an error\<close>
  decode_length_delimiter :: "bytes \<Rightarrow> (nat \<times> bytes) option"
  length_delimiter_len :: "nat \<Rightarrow> nat"
  encode_varint :: "u64 \<Rightarrow> bytes"
  decode_varint :: "bytes \<Rightarrow> (u64 \<times> bytes) option"
  \<comment> \<open>\<^verbatim>\<open>crc32fast::Hasher\<close>: \<open>new\<close>, \<open>update\<close> on one buffer, \<open>finalize\<close>\<close>
  crc32 :: "bytes \<Rightarrow> u32"
  \<comment> \<open>\<^verbatim>\<open>bytes::BufMut::put_u32\<close> and \<^verbatim>\<open>bytes::Buf::get_u32\<close>; \<open>None\<close> is the panic on a short buffer\<close>
  put_u32 :: "u32 \<Rightarrow> bytes"
  get_u32 :: "bytes \<Rightarrow> (u32 \<times> bytes) option"

definition delimiter_ok :: "'z crates_scheme \<Rightarrow> bool" where
  "delimiter_ok C \<longleftrightarrow>
     (\<forall>n < 2 ^ 64. \<exists>bs. encode_length_delimiter C n = Some bs) \<and>
     (\<forall>n bs rest. encode_length_delimiter C n = Some bs \<longrightarrow>
        decode_length_delimiter C (bs @ rest) = Some (n, rest)) \<and>
     (\<forall>n bs. encode_length_delimiter C n = Some bs \<longrightarrow>
        length bs = length_delimiter_len C n) \<and>
     encode_length_delimiter C 0 = Some [0] \<and>
     (\<forall>n. 1 \<le> length_delimiter_len C n) \<and>
     (\<forall>n < 2 ^ 7. length_delimiter_len C n = 1) \<and>
     (\<forall>n < 2 ^ 32. length_delimiter_len C n \<le> 5) \<and>
     length_delimiter_len C (2 ^ 32 - 1) = 5 \<and>
     (\<forall>n < 2 ^ 64. length_delimiter_len C n \<le> 10) \<and>
     (\<forall>m n. m \<le> n \<longrightarrow> length_delimiter_len C m \<le> length_delimiter_len C n) \<and>
     (\<forall>bs n rest. decode_length_delimiter C bs = Some (n, rest) \<longrightarrow> length rest < length bs)"

definition varint_ok :: "'z crates_scheme \<Rightarrow> bool" where
  "varint_ok C \<longleftrightarrow>
     (\<forall>x rest. decode_varint C (encode_varint C x @ rest) = Some (x, rest)) \<and>
     (\<forall>x. 1 \<le> length (encode_varint C x) \<and> length (encode_varint C x) \<le> 10)"

definition be_ok :: "'z crates_scheme \<Rightarrow> bool" where
  "be_ok C \<longleftrightarrow>
     (\<forall>x. length (put_u32 C x) = 4) \<and>
     (\<forall>x rest. get_u32 C (put_u32 C x @ rest) = Some (x, rest)) \<and>
     (\<forall>bs. 4 \<le> length bs \<longrightarrow> get_u32 C bs \<noteq> None)"

definition crates_ok :: "'z crates_scheme \<Rightarrow> bool" where
  "crates_ok C \<longleftrightarrow> delimiter_ok C \<and> varint_ok C \<and> be_ok C"

subsection \<open>The laws as rules\<close>

lemma crates_okD [dest]:
  assumes "crates_ok C"
  shows "delimiter_ok C" "varint_ok C" "be_ok C"
  using assms by (simp_all add: crates_ok_def)

lemma encode_delimiter_total:
  assumes "crates_ok C" "n < 2 ^ 64"
  obtains bs where "encode_length_delimiter C n = Some bs"
  using assms by (auto simp: crates_ok_def delimiter_ok_def)

lemma decode_encode_delimiter [crate_laws]:
  "crates_ok C \<Longrightarrow> encode_length_delimiter C n = Some bs \<Longrightarrow>
   decode_length_delimiter C (bs @ rest) = Some (n, rest)"
  by (simp add: crates_ok_def delimiter_ok_def)

lemma length_encode_delimiter [crate_laws]:
  "crates_ok C \<Longrightarrow> encode_length_delimiter C n = Some bs \<Longrightarrow>
   length bs = length_delimiter_len C n"
  by (simp add: crates_ok_def delimiter_ok_def)

lemma encode_delimiter_0 [crate_laws]:
  "crates_ok C \<Longrightarrow> encode_length_delimiter C 0 = Some [0]"
  by (simp add: crates_ok_def delimiter_ok_def)

lemma delimiter_len_ge_1: "crates_ok C \<Longrightarrow> 1 \<le> length_delimiter_len C n"
  by (simp add: crates_ok_def delimiter_ok_def)

lemma delimiter_len_small [crate_laws]:
  "crates_ok C \<Longrightarrow> n < 2 ^ 7 \<Longrightarrow> length_delimiter_len C n = 1"
  by (simp add: crates_ok_def delimiter_ok_def)

lemma delimiter_len_le_5: "crates_ok C \<Longrightarrow> n < 2 ^ 32 \<Longrightarrow> length_delimiter_len C n \<le> 5"
  by (simp add: crates_ok_def delimiter_ok_def)

lemma delimiter_len_le_10: "crates_ok C \<Longrightarrow> n < 2 ^ 64 \<Longrightarrow> length_delimiter_len C n \<le> 10"
  by (simp add: crates_ok_def delimiter_ok_def)

lemma delimiter_len_mono:
  "crates_ok C \<Longrightarrow> m \<le> n \<Longrightarrow> length_delimiter_len C m \<le> length_delimiter_len C n"
  by (simp add: crates_ok_def delimiter_ok_def)

lemma decode_delimiter_shorter:
  assumes "crates_ok C" "decode_length_delimiter C bs = Some (n, rest)"
  shows "length rest < length bs"
  using assms by (auto simp: crates_ok_def delimiter_ok_def)

lemma delimiter_len_u32_max [crate_laws]:
  "crates_ok C \<Longrightarrow> length_delimiter_len C (2 ^ 32 - 1) = 5"
  by (simp add: crates_ok_def delimiter_ok_def)

lemma decode_delimiter_zero [crate_laws]:
  assumes "crates_ok C"
  shows "decode_length_delimiter C (0 # rest) = Some (0, rest)"
  using decode_encode_delimiter [OF assms encode_delimiter_0 [OF assms], of rest] by simp

lemma decode_encode_varint [crate_laws]:
  "crates_ok C \<Longrightarrow> decode_varint C (encode_varint C x @ rest) = Some (x, rest)"
  by (simp add: crates_ok_def varint_ok_def)

lemma decode_encode_varint_end [crate_laws]:
  "crates_ok C \<Longrightarrow> decode_varint C (encode_varint C x) = Some (x, [])"
  using decode_encode_varint [of C x "[]"] by simp

lemma length_encode_varint:
  "crates_ok C \<Longrightarrow> 1 \<le> length (encode_varint C x) \<and> length (encode_varint C x) \<le> 10"
  by (simp add: crates_ok_def varint_ok_def)

lemma length_put_u32 [crate_laws]: "crates_ok C \<Longrightarrow> length (put_u32 C x) = 4"
  by (simp add: crates_ok_def be_ok_def)

lemma get_put_u32 [crate_laws]: "crates_ok C \<Longrightarrow> get_u32 C (put_u32 C x @ rest) = Some (x, rest)"
  by (simp add: crates_ok_def be_ok_def)

lemma get_put_u32_end [crate_laws]: "crates_ok C \<Longrightarrow> get_u32 C (put_u32 C x) = Some (x, [])"
  using get_put_u32 [of C x "[]"] by simp

lemma get_u32_total:
  assumes "crates_ok C" "4 \<le> length bs"
  obtains x rest where "get_u32 C bs = Some (x, rest)"
  using assms by (auto simp: crates_ok_def be_ok_def)

end
