(* ===== verification/LogRecord.thy ===== *)
theory LogRecord
  imports Crates
begin

text \<open>
  Model of \<^verbatim>\<open>bitcask-rs/src/data/log_record.rs\<close>: the log record, its position, their byte
  encodings and the decoding of a position.  Reading a record back is in \<open>DataFile\<close>.
\<close>

subsection \<open>Data\<close>

datatype log_record_type = Normal | Delete | TxnFinished

record log_record =
  rec_key :: bytes
  rec_value :: bytes
  rec_type :: log_record_type

record log_record_pos =
  pos_file_id :: u32
  pos_offset :: u64
  pos_size :: u32

record read_log_record =
  rlr_record :: log_record
  rlr_size :: nat

record transaction_record =
  txn_record :: log_record
  txn_pos :: log_record_pos

definition LogRecord_new :: "bytes \<Rightarrow> bytes \<Rightarrow> log_record_type \<Rightarrow> log_record" where
  "LogRecord_new k v t = \<lparr>rec_key = k, rec_value = v, rec_type = t\<rparr>"

definition LogRecordPos_new :: "u32 \<Rightarrow> u64 \<Rightarrow> u32 \<Rightarrow> log_record_pos" where
  "LogRecordPos_new fid off sz = \<lparr>pos_file_id = fid, pos_offset = off, pos_size = sz\<rparr>"

lemma LogRecord_new_sel [simp]:
  "rec_key (LogRecord_new k v t) = k"
  "rec_value (LogRecord_new k v t) = v"
  "rec_type (LogRecord_new k v t) = t"
  by (simp_all add: LogRecord_new_def)

lemma LogRecordPos_new_sel [simp]:
  "pos_file_id (LogRecordPos_new f off s) = f"
  "pos_offset (LogRecordPos_new f off s) = off"
  "pos_size (LogRecordPos_new f off s) = s"
  by (simp_all add: LogRecordPos_new_def)

lemma LogRecord_new_collapse [simp]:
  "LogRecord_new (rec_key r) (rec_value r) (rec_type r) = r"
  by (cases r) (simp add: LogRecord_new_def)

lemma LogRecordPos_new_collapse [simp]:
  "LogRecordPos_new (pos_file_id p) (pos_offset p) (pos_size p) = p"
  by (cases p) (simp add: LogRecordPos_new_def)

subsection \<open>The type byte\<close>

text \<open>\<open>self.rec_type as u8\<close>, with the discriminants of the enum.\<close>

primrec type_as_u8 :: "log_record_type \<Rightarrow> u8" where
  "type_as_u8 Normal = 1"
| "type_as_u8 Delete = 2"
| "type_as_u8 TxnFinished = 3"

definition from_u8 :: "u8 \<Rightarrow> log_record_type res" where
  "from_u8 v =
     (if v = 1 then Ok Normal
      else if v = 2 then Ok Delete
      else if v = 3 then Ok TxnFinished
      else Panic)"

lemma from_u8_type_as_u8 [simp]: "from_u8 (type_as_u8 t) = Ok t"
  by (cases t) (simp_all add: from_u8_def)

lemma from_u8_zero [simp]: "from_u8 0 = Panic"
  by (simp add: from_u8_def)

lemma from_u8_panic_iff: "from_u8 v = Panic \<longleftrightarrow> v \<notin> {1, 2, 3}"
  by (simp add: from_u8_def)

subsection \<open>Encoding a record\<close>

definition encode_and_get_crc :: "'z crates_scheme \<Rightarrow> log_record \<Rightarrow> (bytes \<times> u32) res" where
  "encode_and_get_crc C r =
     (case encode_length_delimiter C (length (rec_key r)) of
        None \<Rightarrow> Err EncodeError
      | Some kl \<Rightarrow>
          (case encode_length_delimiter C (length (rec_value r)) of
             None \<Rightarrow> Err EncodeError
           | Some vl \<Rightarrow>
               let buf = [type_as_u8 (rec_type r)] @ kl @ vl @ rec_key r @ rec_value r;
                   crc = crc32 C buf
               in Ok (buf @ put_u32 C crc, crc)))"

definition LogRecord_encode :: "'z crates_scheme \<Rightarrow> log_record \<Rightarrow> bytes res" where
  "LogRecord_encode C r = res_map fst (encode_and_get_crc C r)"

definition get_crc :: "'z crates_scheme \<Rightarrow> log_record \<Rightarrow> u32 res" where
  "get_crc C r = res_map snd (encode_and_get_crc C r)"

definition encoded_length :: "'z crates_scheme \<Rightarrow> log_record \<Rightarrow> nat" where
  "encoded_length C r =
     1 + length_delimiter_len C (length (rec_key r))
       + length_delimiter_len C (length (rec_value r))
       + length (rec_key r) + length (rec_value r) + 4"

definition max_log_record_header_size :: "'z crates_scheme \<Rightarrow> nat" where
  "max_log_record_header_size C = 1 + length_delimiter_len C (2 ^ 32 - 1) * 2"

lemma max_log_record_header_size_eq [crate_laws]:
  "crates_ok C \<Longrightarrow> max_log_record_header_size C = 11"
  using delimiter_len_u32_max [of C] by (simp add: max_log_record_header_size_def)

subsection \<open>Encoding and decoding a position\<close>

definition LogRecordPos_encode :: "'z crates_scheme \<Rightarrow> log_record_pos \<Rightarrow> bytes" where
  "LogRecordPos_encode C p =
     encode_varint C (ucast (pos_file_id p))
     @ encode_varint C (pos_offset p)
     @ encode_varint C (ucast (pos_size p))"

definition decode_log_record_pos :: "'z crates_scheme \<Rightarrow> bytes \<Rightarrow> log_record_pos res" where
  "decode_log_record_pos C pos =
     (case decode_varint C pos of
        None \<Rightarrow> Panic
      | Some (fid, buf) \<Rightarrow>
          (case decode_varint C buf of
             None \<Rightarrow> Panic
           | Some (off, buf') \<Rightarrow>
               (case decode_varint C buf' of
                  None \<Rightarrow> Panic
                | Some (sz, _) \<Rightarrow> Ok (LogRecordPos_new (ucast fid) off (ucast sz)))))"

lemma ucast_down_up_u32 [simp]: "ucast (ucast (x :: u32) :: u64) = x"
  by (rule ucast_up_ucast_id) (simp add: is_up)

lemma decode_encode_pos [crate_laws]:
  "crates_ok C \<Longrightarrow> decode_log_record_pos C (LogRecordPos_encode C p) = Ok p"
  by (simp add: decode_log_record_pos_def LogRecordPos_encode_def crate_laws)

subsection \<open>Records of a size the format is made for\<close>

text \<open>
  The header holds at most five bytes of key length and five of value length
  (\<open>max_log_record_header_size\<close>), so the format is for keys and values below \<open>2 ^ 32\<close> bytes.
  The read loop takes a record with both lengths zero for the end of the file.
\<close>

definition wf_record :: "log_record \<Rightarrow> bool" where
  "wf_record r \<longleftrightarrow> rec_key r \<noteq> [] \<and> length (rec_key r) < 2 ^ 32 \<and> length (rec_value r) < 2 ^ 32"

lemma encode_and_get_crc_eq:
  assumes "crates_ok C" "length (rec_key r) < 2 ^ 64" "length (rec_value r) < 2 ^ 64"
  obtains kl vl where
    "encode_length_delimiter C (length (rec_key r)) = Some kl"
    "encode_length_delimiter C (length (rec_value r)) = Some vl"
    "encode_and_get_crc C r =
       (let buf = [type_as_u8 (rec_type r)] @ kl @ vl @ rec_key r @ rec_value r
        in Ok (buf @ put_u32 C (crc32 C buf), crc32 C buf))"
proof -
  obtain kl where kl: "encode_length_delimiter C (length (rec_key r)) = Some kl"
    using encode_delimiter_total [OF assms(1,2)] .
  obtain vl where vl: "encode_length_delimiter C (length (rec_value r)) = Some vl"
    using encode_delimiter_total [OF assms(1,3)] .
  show ?thesis
    using that [OF kl vl] by (simp add: encode_and_get_crc_def kl vl Let_def)
qed

lemma wf_record_bounds:
  "wf_record r \<Longrightarrow> length (rec_key r) < 2 ^ 64 \<and> length (rec_value r) < 2 ^ 64"
  by (simp add: wf_record_def)

lemma LogRecord_encode_total:
  assumes "crates_ok C" "wf_record r"
  obtains en where "LogRecord_encode C r = Ok en"
proof -
  from wf_record_bounds [OF assms(2)]
  have "length (rec_key r) < 2 ^ 64" "length (rec_value r) < 2 ^ 64" by simp_all
  from encode_and_get_crc_eq [OF assms(1) this]
  have "\<exists>en. LogRecord_encode C r = Ok en"
    by (metis LogRecord_encode_def res_map.simps(1))
  then show ?thesis using that by blast
qed

lemma LogRecord_encode_length:
  assumes "crates_ok C" "LogRecord_encode C r = Ok en"
  shows "length en = encoded_length C r"
  using assms
  by (auto simp: LogRecord_encode_def encode_and_get_crc_def encoded_length_def Let_def
      length_put_u32 length_encode_delimiter split: option.splits)

lemma encoded_length_bounds:
  assumes "crates_ok C" "wf_record r"
  shows "8 \<le> encoded_length C r" and "encoded_length C r < 2 ^ 34"
proof -
  have r: "1 \<le> length (rec_key r)" "length (rec_key r) < 2 ^ 32" "length (rec_value r) < 2 ^ 32"
    using assms(2) by (auto simp: wf_record_def Suc_le_eq)
  note len = delimiter_len_ge_1 [OF assms(1), of "length (rec_key r)"]
    delimiter_len_ge_1 [OF assms(1), of "length (rec_value r)"]
    delimiter_len_le_5 [OF assms(1) r(2)] delimiter_len_le_5 [OF assms(1) r(3)]
  show "8 \<le> encoded_length C r"
    using len r(1) by (simp add: encoded_length_def)
  show "encoded_length C r < 2 ^ 34"
    using len r by (simp add: encoded_length_def)
qed

end
