(* ===== verification/StdText.thy ===== *)
theory StdText
  imports Prelude
begin

text \<open>
  The formatting and parsing of Rust's standard library that the code uses on numbers and file
  names: \<open>to_string\<close> and \<open>{:09}\<close>, \<open>str::parse\<close> to an unsigned integer, \<open>ends_with\<close> and the
  first piece of \<open>split\<close>.  A \<open>char\<close> is a byte of the UTF-8 text.
\<close>

definition digit_char :: "nat \<Rightarrow> char" where
  "digit_char d = char_of (48 + d)"

fun to_decimal :: "nat \<Rightarrow> string" where
  "to_decimal n =
     (if n < 10 then [digit_char n] else to_decimal (n div 10) @ [digit_char (n mod 10)])"

declare to_decimal.simps [simp del]

text \<open>\<open>format!("{:09}", n)\<close>: zeros on the left up to nine digits.\<close>

definition pad9 :: "nat \<Rightarrow> string" where
  "pad9 n = (let s = to_decimal n in replicate (9 - length s) CHR ''0'' @ s)"

definition char_digit :: "char \<Rightarrow> nat option" where
  "char_digit c = (let k = of_char c :: nat in if 48 \<le> k \<and> k \<le> 57 then Some (k - 48) else None)"

text \<open>The digit loop of \<open>from_str_radix\<close>: an overflow of the target type is an error.\<close>

fun parse_digits :: "nat \<Rightarrow> nat \<Rightarrow> string \<Rightarrow> nat option" where
  "parse_digits bound acc [] = Some acc"
| "parse_digits bound acc (c # cs) =
     (case char_digit c of
        None \<Rightarrow> None
      | Some d \<Rightarrow>
          if acc * 10 + d < bound then parse_digits bound (acc * 10 + d) cs else None)"

text \<open>\<open>str::parse\<close> to an unsigned integer below \<open>bound\<close>: an optional \<open>+\<close>, then digits.\<close>

definition parse_unsigned :: "nat \<Rightarrow> string \<Rightarrow> nat option" where
  "parse_unsigned bound s =
     (case s of
        [] \<Rightarrow> None
      | c # cs \<Rightarrow>
          if c = CHR ''+'' then (if cs = [] then None else parse_digits bound 0 cs)
          else parse_digits bound 0 s)"

definition parse_u32 :: "string \<Rightarrow> u32 option" where
  "parse_u32 s = map_option of_nat (parse_unsigned (2 ^ 32) s)"

definition parse_usize :: "string \<Rightarrow> nat option" where
  "parse_usize s = parse_unsigned (2 ^ 64) s"

definition ends_with :: "'a list \<Rightarrow> 'a list \<Rightarrow> bool" where
  "ends_with s suf \<longleftrightarrow> length suf \<le> length s \<and> drop (length s - length suf) s = suf"

definition starts_with :: "'a list \<Rightarrow> 'a list \<Rightarrow> bool" where
  "starts_with s pre \<longleftrightarrow> take (length pre) s = pre"

text \<open>\<open>s.split(".").collect()[0]\<close>.\<close>

definition split_dot_0 :: "string \<Rightarrow> string" where
  "split_dot_0 s = takeWhile (\<lambda>c. c \<noteq> CHR ''.'') s"

definition string_bytes :: "string \<Rightarrow> bytes" where
  "string_bytes s = map (\<lambda>c. of_nat (of_char c)) s"

definition bytes_string :: "bytes \<Rightarrow> string" where
  "bytes_string bs = map (\<lambda>b. char_of (unat b)) bs"

subsection \<open>Round trips\<close>

lemma char_digit_digit_char [simp]: "d < 10 \<Longrightarrow> char_digit (digit_char d) = Some d"
  by (simp add: char_digit_def digit_char_def)

lemma digit_char_neq:
  assumes "d < 10"
  shows "digit_char d \<noteq> CHR ''+''" and "digit_char d \<noteq> CHR ''.''"
proof -
  have k: "of_char (digit_char d) = 48 + d"
    using assms by (simp add: digit_char_def)
  then have "of_char (digit_char d) \<noteq> (43 :: nat)" "of_char (digit_char d) \<noteq> (46 :: nat)"
    by simp_all
  then show "digit_char d \<noteq> CHR ''+''" "digit_char d \<noteq> CHR ''.''" by auto
qed

definition is_digit_char :: "char \<Rightarrow> bool" where
  "is_digit_char c \<longleftrightarrow> (\<exists>d < 10. c = digit_char d)"

lemma is_digit_charI [simp, intro]: "d < 10 \<Longrightarrow> is_digit_char (digit_char d)"
  by (auto simp: is_digit_char_def)

lemma is_digit_char_zero [simp, intro]: "is_digit_char CHR ''0''"
proof -
  have "of_char (digit_char 0) = (of_char CHR ''0'' :: nat)" by (simp add: digit_char_def)
  then have "digit_char 0 = CHR ''0''" by (simp only: of_char_eq_iff)
  then show ?thesis using is_digit_charI [of 0] by simp
qed

lemma to_decimal_nonempty [simp]: "to_decimal n \<noteq> []"
  by (subst to_decimal.simps) simp

lemma length_to_decimal: "n < 10 ^ Suc k \<Longrightarrow> length (to_decimal n) \<le> Suc k"
proof (induction k arbitrary: n)
  case (Suc k)
  then have "n div 10 < 10 ^ Suc k" by (simp add: less_mult_imp_div_less algebra_simps)
  then show ?case using Suc.IH by (subst to_decimal.simps) simp
qed (simp add: to_decimal.simps)

lemma to_decimal_digits: "c \<in> set (to_decimal n) \<Longrightarrow> is_digit_char c"
proof (induction n rule: to_decimal.induct)
  case (1 n)
  then show ?case
    by (cases "n < 10") (auto simp: to_decimal.simps [of n])
qed

lemma pad9_digits: "c \<in> set (pad9 n) \<Longrightarrow> is_digit_char c"
  by (auto simp: pad9_def Let_def to_decimal_digits split: if_splits)

lemma pad9_nonempty [simp]: "pad9 n \<noteq> []"
  by (simp add: pad9_def Let_def)

lemma parse_digits_append:
  "parse_digits b acc (xs @ ys) = Option.bind (parse_digits b acc xs) (\<lambda>a. parse_digits b a ys)"
  by (induction xs arbitrary: acc) (auto split: option.splits)

lemma parse_digits_zeros: "0 < b \<Longrightarrow> parse_digits b 0 (replicate k CHR ''0'') = Some 0"
  by (induction k) (simp_all add: char_digit_def)

lemma parse_digits_to_decimal: "n < b \<Longrightarrow> parse_digits b 0 (to_decimal n) = Some n"
proof (induction n rule: to_decimal.induct)
  case (1 n)
  show ?case
  proof (cases "n < 10")
    case True
    with "1.prems" show ?thesis by (simp add: to_decimal.simps [of n])
  next
    case False
    have "parse_digits b 0 (to_decimal (n div 10)) = Some (n div 10)"
      using "1.IH" [OF False] "1.prems" by simp
    with False "1.prems" show ?thesis
      by (simp add: to_decimal.simps [of n] parse_digits_append)
  qed
qed

lemma parse_unsigned_digits:
  assumes "s \<noteq> []" and "\<And>c. c \<in> set s \<Longrightarrow> is_digit_char c"
  shows "parse_unsigned b s = parse_digits b 0 s"
proof -
  obtain c cs where s: "s = c # cs" using assms(1) by (cases s) auto
  then have "c \<noteq> CHR ''+''"
    using assms(2) [of c] by (auto simp: is_digit_char_def digit_char_neq)
  then show ?thesis by (simp add: parse_unsigned_def s)
qed

lemma parse_unsigned_to_decimal: "n < b \<Longrightarrow> parse_unsigned b (to_decimal n) = Some n"
  using parse_digits_to_decimal [of n b]
  by (simp add: parse_unsigned_digits to_decimal_digits)

lemma parse_unsigned_pad9:
  assumes "n < b"
  shows "parse_unsigned b (pad9 n) = Some n"
proof -
  have "parse_unsigned b (pad9 n) = parse_digits b 0 (pad9 n)"
    by (rule parse_unsigned_digits) (auto simp: pad9_digits)
  also have "\<dots> = Some n"
    using assms
    by (simp add: pad9_def Let_def parse_digits_append parse_digits_zeros parse_digits_to_decimal)
  finally show ?thesis .
qed

lemma parse_u32_pad9: "parse_u32 (pad9 (unat (x :: u32))) = Some x"
proof -
  have "unat x < 2 ^ 32" using unsigned_less [of x] by simp
  then show ?thesis by (simp add: parse_u32_def parse_unsigned_pad9)
qed

lemma parse_u32_to_decimal: "parse_u32 (to_decimal (unat (x :: u32))) = Some x"
proof -
  have "unat x < 2 ^ 32" using unsigned_less [of x] by simp
  then show ?thesis by (simp add: parse_u32_def parse_unsigned_to_decimal)
qed

lemma pad9_inj:
  assumes "pad9 m = pad9 n"
  shows "m = n"
proof -
  define b where "b = Suc (m + n)"
  have "parse_unsigned b (pad9 m) = Some m"
    by (rule parse_unsigned_pad9) (simp add: b_def)
  moreover have "parse_unsigned b (pad9 n) = Some n"
    by (rule parse_unsigned_pad9) (simp add: b_def)
  ultimately show ?thesis unfolding assms by (metis option.inject)
qed

lemma unat_of_char: "unat (of_nat (of_char c) :: u8) = of_char c"
  by (simp add: unat_of_nat)

lemma bytes_string_string_bytes [simp]: "bytes_string (string_bytes s) = s"
  by (induction s) (simp_all add: bytes_string_def string_bytes_def unat_of_char)

lemma ends_with_append [simp]: "ends_with (xs @ suf) suf"
  by (simp add: ends_with_def)

end
