(* ===== verification/Options.thy ===== *)
theory Options
  imports Prelude
begin

text \<open>
  Model of \<^verbatim>\<open>bitcask-rs/src/options.rs\<close>.  A directory path is the list of its components, the
  root directory being the component \<open>''/''\<close>.  The merge ratio is an \<open>f32\<close>, kept as its IEEE 754 bit pattern; only its comparisons are used here.
\<close>

type_synonym path = "string list"
type_synonym f32 = "32 word"

text \<open>\<open>Path::file_name\<close> and \<open>Path::parent\<close>.\<close>

definition path_file_name :: "path \<Rightarrow> string option" where
  "path_file_name p =
     (case rev p of
        [] \<Rightarrow> None
      | c # _ \<Rightarrow> if c \<in> {''/'', ''.'', ''..''} then None else Some c)"

definition path_parent :: "path \<Rightarrow> path option" where
  "path_parent p = (if p = [] \<or> p = [''/''] then None else Some (butlast p))"

datatype index_type = BTree | SkipList | BPlusTree

datatype io_type = StandardFIO | MemoryMap

record options =
  dir_path :: path
  data_file_size :: u64
  bytes_per_sync :: nat
  sync_writes :: bool
  index_type :: index_type
  mmap_at_startup :: bool
  data_file_merge_ratio :: f32

record iterator_options =
  it_prefix :: bytes
  it_reverse :: bool

record write_batch_options =
  max_batch_num :: nat
  wb_sync_writes :: bool

definition WriteBatchOptions_default :: write_batch_options where
  "WriteBatchOptions_default = \<lparr>max_batch_num = 10000, wb_sync_writes = True\<rparr>"

definition IteratorOptions_default :: iterator_options where
  "IteratorOptions_default = \<lparr>it_prefix = [], it_reverse = False\<rparr>"

text \<open>\<open>Options::default\<close>; \<open>tmp\<close> is what \<open>env::temp_dir()\<close> returns, \<open>0x3F000000\<close> is \<open>0.5\<close>.\<close>

definition Options_default :: "path \<Rightarrow> options" where
  "Options_default tmp =
     \<lparr>dir_path = tmp @ [''bitcask-rs''],
      data_file_size = 256 * 1024 * 1024,
      bytes_per_sync = 0,
      sync_writes = False,
      index_type = BTree,
      mmap_at_startup = True,
      data_file_merge_ratio = 0x3F000000\<rparr>"

subsection \<open>Comparing \<open>f32\<close> values\<close>

definition f32_is_nan :: "f32 \<Rightarrow> bool" where
  "f32_is_nan x \<longleftrightarrow> unat x mod 2 ^ 31 > 0x7F800000"

text \<open>Sign and magnitude as an integer: ordered as the numbers are, both zeros at \<open>0\<close>.\<close>

definition f32_key :: "f32 \<Rightarrow> int" where
  "f32_key x = (if unat x < 2 ^ 31 then int (unat x) else - int (unat x - 2 ^ 31))"

definition f32_less :: "f32 \<Rightarrow> f32 \<Rightarrow> bool" where
  "f32_less a b \<longleftrightarrow> \<not> f32_is_nan a \<and> \<not> f32_is_nan b \<and> f32_key a < f32_key b"

abbreviation f32_0 :: f32 where "f32_0 \<equiv> 0"
abbreviation f32_1 :: f32 where "f32_1 \<equiv> 0x3F800000"

end
