(* ===== verification/Fio.thy ===== *)
theory Fio
  imports Crates Options StdText
begin

text \<open>
  The file system the engine works on and the two IO managers of \<^verbatim>\<open>bitcask-rs/src/fio\<close>.

  A file holds its bytes and how many of them the last \<open>sync\<close> made durable; a directory is the
  list of its entries in the order \<open>read_dir\<close> returns them; the file system maps the paths of
  existing directories to them and records the files that hold an exclusive lock.  A handle is
  the name of its file: the code never renames or removes a file that an open engine uses.

  What the operating system decides (whether a call fails, how many bytes a \<open>write\<close> takes) is
  not under \<^verbatim>\<open>src\<close>: it is given by the functions of the record \<open>os\<close>, which see the whole file
  system, so a call may fail in one state and succeed in the next.
\<close>

subsection \<open>Files and directories\<close>

record inode =
  fdata :: bytes
  fsynced :: nat

type_synonym dir = "(string \<times> inode) list"
type_synonym fpath = "path \<times> string"

record fs =
  fs_dirs :: "path \<Rightarrow> dir option"
  fs_locks :: "fpath list"

definition new_inode :: inode where
  "new_inode = \<lparr>fdata = [], fsynced = 0\<rparr>"

definition lookup_file :: "fs \<Rightarrow> fpath \<Rightarrow> inode option" where
  "lookup_file fs f = Option.bind (fs_dirs fs (fst f)) (\<lambda>es. map_of es (snd f))"

definition file_data :: "fs \<Rightarrow> fpath \<Rightarrow> bytes" where
  "file_data fs f = (case lookup_file fs f of None \<Rightarrow> [] | Some i \<Rightarrow> fdata i)"

definition put_file :: "fs \<Rightarrow> fpath \<Rightarrow> inode \<Rightarrow> fs" where
  "put_file fs f i =
     (case fs_dirs fs (fst f) of
        None \<Rightarrow> fs
      | Some es \<Rightarrow> fs\<lparr>fs_dirs := (fs_dirs fs)(fst f \<mapsto> AList.update (snd f) i es)\<rparr>)"

definition is_dir :: "fs \<Rightarrow> path \<Rightarrow> bool" where
  "is_dir fs d \<longleftrightarrow> fs_dirs fs d \<noteq> None"

definition is_file :: "fs \<Rightarrow> fpath \<Rightarrow> bool" where
  "is_file fs f \<longleftrightarrow> lookup_file fs f \<noteq> None"

text \<open>A directory lists each name once.\<close>

definition fs_wf :: "fs \<Rightarrow> bool" where
  "fs_wf fs \<longleftrightarrow> (\<forall>d es. fs_dirs fs d = Some es \<longrightarrow> distinct (map fst es))"

lemma fs_wf_put_file [intro]: "fs_wf fs \<Longrightarrow> fs_wf (put_file fs f i)"
  by (auto simp: fs_wf_def put_file_def distinct_AList_update split: option.splits)

lemma lookup_put_file [fs_simps]:
  "lookup_file (put_file fs f i) g =
     (if g = f \<and> is_dir fs (fst f) then Some i else lookup_file fs g)"
  by (cases f; cases g) (auto simp: lookup_file_def put_file_def is_dir_def split: option.splits)

lemma is_dir_put_file [fs_simps]: "is_dir (put_file fs f i) d = is_dir fs d"
  by (auto simp: is_dir_def put_file_def split: option.splits)

lemma is_file_is_dir: "is_file fs f \<Longrightarrow> is_dir fs (fst f)"
  by (auto simp: is_file_def is_dir_def lookup_file_def split: bind_splits)

lemma lookup_file_is_dir: "lookup_file fs f = Some i \<Longrightarrow> is_dir fs (fst f)"
  by (rule is_file_is_dir) (simp add: is_file_def)

lemma file_data_put_file [fs_simps]:
  "file_data (put_file fs f i) g =
     (if g = f \<and> is_dir fs (fst f) then fdata i else file_data fs g)"
  by (simp add: file_data_def fs_simps)

lemma is_file_put_file [fs_simps]:
  "is_file (put_file fs f i) g \<longleftrightarrow> g = f \<and> is_dir fs (fst f) \<or> is_file fs g"
  by (auto simp: is_file_def fs_simps)

lemma fs_locks_put_file [simp]: "fs_locks (put_file fs f i) = fs_locks fs"
  by (simp add: put_file_def split: option.splits)

lemma lookup_file_Some: "is_file fs f \<Longrightarrow> \<exists>i. lookup_file fs f = Some i \<and> fdata i = file_data fs f"
  by (auto simp: is_file_def file_data_def)

subsection \<open>The operating system\<close>

record os = crates +
  open_fails :: "fs \<Rightarrow> fpath \<Rightarrow> bool"
  read_fails :: "fs \<Rightarrow> fpath \<Rightarrow> u64 \<Rightarrow> bool"
  \<comment> \<open>\<open>None\<close> for an error, else the number of bytes the call takes\<close>
  write_accepts :: "fs \<Rightarrow> fpath \<Rightarrow> bytes \<Rightarrow> nat option"
  sync_fails :: "fs \<Rightarrow> fpath \<Rightarrow> bool"
  unlock_fails :: "fs \<Rightarrow> fpath \<Rightarrow> bool"
  create_dir_fails :: "fs \<Rightarrow> path \<Rightarrow> bool"
  read_dir_fails :: "fs \<Rightarrow> path \<Rightarrow> bool"
  remove_file_fails :: "fs \<Rightarrow> fpath \<Rightarrow> bool"
  remove_dir_fails :: "fs \<Rightarrow> path \<Rightarrow> bool"
  rename_fails :: "fs \<Rightarrow> fpath \<Rightarrow> fpath \<Rightarrow> bool"
  copy_fails :: "fs \<Rightarrow> fpath \<Rightarrow> fpath \<Rightarrow> bool"
  \<comment> \<open>the entries of a directory, sub-directories included: \<open>None\<close> for an error, else the name and whether
     it is a directory, when that can be found out\<close>
  list_dir :: "fs \<Rightarrow> path \<Rightarrow> (string \<times> bool option) option list"
  \<comment> \<open>\<^verbatim>\<open>fs_extra::dir::get_size\<close> and \<^verbatim>\<open>fs2::available_space\<close>; \<open>None\<close> for an error\<close>
  get_size :: "fs \<Rightarrow> path \<Rightarrow> u64 option"
  available_space :: "fs \<Rightarrow> path \<Rightarrow> u64 option"
  \<comment> \<open>the order in which a \<open>HashMap\<close> of pending writes is iterated\<close>
  hash_order :: "bytes list \<Rightarrow> bytes list"

text \<open>A system on which no call fails and every write is taken whole.\<close>

definition os_ok :: "'z os_scheme \<Rightarrow> bool" where
  "os_ok E \<longleftrightarrow>
     (\<forall>fs f. \<not> open_fails E fs f) \<and>
     (\<forall>fs f off. \<not> read_fails E fs f off) \<and>
     (\<forall>fs f buf. write_accepts E fs f buf = Some (length buf)) \<and>
     (\<forall>fs f. \<not> sync_fails E fs f) \<and>
     (\<forall>fs f. \<not> unlock_fails E fs f) \<and>
     (\<forall>fs d. \<not> create_dir_fails E fs d) \<and>
     (\<forall>fs d. \<not> read_dir_fails E fs d) \<and>
     (\<forall>fs f. \<not> remove_file_fails E fs f) \<and>
     (\<forall>fs d. \<not> remove_dir_fails E fs d) \<and>
     (\<forall>fs f g. \<not> rename_fails E fs f g) \<and>
     (\<forall>fs f g. \<not> copy_fails E fs f g)"

lemma os_ok_open [simp]: "os_ok E \<Longrightarrow> \<not> open_fails E fs f"
  by (simp only: os_ok_def simp_thms)

lemma os_ok_read [simp]: "os_ok E \<Longrightarrow> \<not> read_fails E fs f off"
  by (simp only: os_ok_def simp_thms)

lemma os_ok_write [simp]: "os_ok E \<Longrightarrow> write_accepts E fs f buf = Some (length buf)"
  by (simp only: os_ok_def simp_thms)

lemma os_ok_sync [simp]: "os_ok E \<Longrightarrow> \<not> sync_fails E fs f"
  by (simp only: os_ok_def simp_thms)

lemma os_ok_unlock [simp]: "os_ok E \<Longrightarrow> \<not> unlock_fails E fs f"
  by (simp only: os_ok_def simp_thms)

lemma os_ok_create_dir [simp]: "os_ok E \<Longrightarrow> \<not> create_dir_fails E fs d"
  by (simp only: os_ok_def simp_thms)

lemma os_ok_read_dir [simp]: "os_ok E \<Longrightarrow> \<not> read_dir_fails E fs d"
  by (simp only: os_ok_def simp_thms)

lemma os_ok_remove_file [simp]: "os_ok E \<Longrightarrow> \<not> remove_file_fails E fs f"
  by (simp only: os_ok_def simp_thms)

lemma os_ok_remove_dir [simp]: "os_ok E \<Longrightarrow> \<not> remove_dir_fails E fs d"
  by (simp only: os_ok_def simp_thms)

lemma os_ok_rename [simp]: "os_ok E \<Longrightarrow> \<not> rename_fails E fs f g"
  by (simp only: os_ok_def simp_thms)

lemma os_ok_copy [simp]: "os_ok E \<Longrightarrow> \<not> copy_fails E fs f g"
  by (simp only: os_ok_def simp_thms)

text \<open>A \<open>HashMap\<close> goes through each of its keys once, in an order of its own.\<close>

definition hash_ok :: "'z os_scheme \<Rightarrow> bool" where
  "hash_ok E \<longleftrightarrow> (\<forall>ks. distinct ks \<longrightarrow> distinct (hash_order E ks) \<and> set (hash_order E ks) = set ks)"

subsection \<open>Calls of \<^verbatim>\<open>std::fs\<close> on directories and names\<close>

text \<open>
  \<open>read_dir\<close> gives the names of the files of a directory (\<open>None\<close> for an error).  The other calls
  return whether they succeeded.  A directory below another has a path that extends it.
\<close>

definition read_dir :: "'z os_scheme \<Rightarrow> fs \<Rightarrow> path \<Rightarrow> string list option" where
  "read_dir E fs d = (if read_dir_fails E fs d then None else map_option (map fst) (fs_dirs fs d))"

definition create_dir_all :: "'z os_scheme \<Rightarrow> path \<Rightarrow> fs \<Rightarrow> bool \<times> fs" where
  "create_dir_all E d fs =
     (if create_dir_fails E fs d then (False, fs)
      else (True, fs\<lparr>fs_dirs := (\<lambda>p. if starts_with d p \<and> fs_dirs fs p = None then Some []
                                   else fs_dirs fs p)\<rparr>))"

definition remove_dir_all :: "'z os_scheme \<Rightarrow> path \<Rightarrow> fs \<Rightarrow> bool \<times> fs" where
  "remove_dir_all E d fs =
     (if \<not> is_dir fs d \<or> remove_dir_fails E fs d then (False, fs)
      else (True, fs\<lparr>fs_dirs := (\<lambda>p. if starts_with p d then None else fs_dirs fs p)\<rparr>))"

definition del_file :: "fs \<Rightarrow> fpath \<Rightarrow> fs" where
  "del_file fs f =
     (case fs_dirs fs (fst f) of
        None \<Rightarrow> fs
      | Some es \<Rightarrow> fs\<lparr>fs_dirs := (fs_dirs fs)(fst f \<mapsto> AList.delete (snd f) es)\<rparr>)"

definition remove_file :: "'z os_scheme \<Rightarrow> fpath \<Rightarrow> fs \<Rightarrow> bool \<times> fs" where
  "remove_file E f fs =
     (if \<not> is_file fs f \<or> remove_file_fails E fs f then (False, fs) else (True, del_file fs f))"

definition rename_file :: "'z os_scheme \<Rightarrow> fpath \<Rightarrow> fpath \<Rightarrow> fs \<Rightarrow> bool \<times> fs" where
  "rename_file E src dest fs =
     (if rename_fails E fs src dest \<or> \<not> is_dir fs (fst dest) then (False, fs)
      else case lookup_file fs src of
             None \<Rightarrow> (False, fs)
           | Some i \<Rightarrow> (True, put_file (del_file fs src) dest i))"

lemma lookup_del_file [fs_simps]:
  "lookup_file (del_file fs f) g = (if g = f then None else lookup_file fs g)"
  by (cases f; cases g) (auto simp: lookup_file_def del_file_def delete_conv' split: option.splits)

lemma is_dir_del_file [fs_simps]: "is_dir (del_file fs f) d = is_dir fs d"
  by (auto simp: is_dir_def del_file_def split: option.splits)

subsection \<open>\<open>FileIO\<close>\<close>

definition FileIO_new :: "'z os_scheme \<Rightarrow> fpath \<Rightarrow> fs \<Rightarrow> fpath res \<times> fs" where
  "FileIO_new E f fs =
     (if \<not> is_dir fs (fst f) \<or> open_fails E fs f then (Err FailedToOpenDataFile, fs)
      else (Ok f, if is_file fs f then fs else put_file fs f new_inode))"

definition fio_read :: "'z os_scheme \<Rightarrow> fs \<Rightarrow> fpath \<Rightarrow> bytes \<Rightarrow> u64 \<Rightarrow> (nat \<times> bytes) res" where
  "fio_read E fs f buf off =
     (if read_fails E fs f off then Err FailedToReadFromDataFile
      else let got = take (length buf) (drop (unat off) (file_data fs f))
           in Ok (length got, fill got buf))"

definition fio_write :: "'z os_scheme \<Rightarrow> fpath \<Rightarrow> bytes \<Rightarrow> fs \<Rightarrow> nat res \<times> fs" where
  "fio_write E f buf fs =
     (case write_accepts E fs f buf of
        None \<Rightarrow> (Err FailedToWriteDataFile, fs)
      | Some n \<Rightarrow>
          let taken = take n buf in
          (Ok (length taken),
           case lookup_file fs f of
             None \<Rightarrow> fs
           | Some i \<Rightarrow> put_file fs f (i\<lparr>fdata := fdata i @ taken\<rparr>)))"

definition fio_sync :: "'z os_scheme \<Rightarrow> fpath \<Rightarrow> fs \<Rightarrow> unit res \<times> fs" where
  "fio_sync E f fs =
     (if sync_fails E fs f then (Err FailedToSyncDataFile, fs)
      else (Ok (),
            case lookup_file fs f of
              None \<Rightarrow> fs
            | Some i \<Rightarrow> put_file fs f (i\<lparr>fsynced := length (fdata i)\<rparr>)))"

definition fio_size :: "fs \<Rightarrow> fpath \<Rightarrow> u64" where
  "fio_size fs f = of_nat (length (file_data fs f))"

subsection \<open>\<open>MMapIo\<close>\<close>

text \<open>
  A map is the content of the file when it was mapped.  \<open>mmap_new\<close> truncates, \<open>mmap_open_existing\<close>
  does not.
\<close>

definition mmap_new :: "'z os_scheme \<Rightarrow> fpath \<Rightarrow> fs \<Rightarrow> bytes res \<times> fs" where
  "mmap_new E f fs =
     (if \<not> is_dir fs (fst f) \<or> open_fails E fs f then (Err FailedToOpenDataFile, fs)
      else (Ok [], put_file fs f new_inode))"

definition mmap_open_existing :: "'z os_scheme \<Rightarrow> fpath \<Rightarrow> fs \<Rightarrow> bytes res \<times> fs" where
  "mmap_open_existing E f fs =
     (if \<not> is_file fs f \<or> open_fails E fs f then (Err FailedToOpenDataFile, fs)
      else (Ok (file_data fs f), fs))"

definition mmap_read :: "bytes \<Rightarrow> bytes \<Rightarrow> u64 \<Rightarrow> (nat \<times> bytes) res" where
  "mmap_read m buf off =
     res_bind (add_u64 off (of_nat (length buf))) (\<lambda>end_off.
       if length m < unat end_off then Err ReadDataFileEOF
       else let val = take (unat end_off - unat off) (drop (unat off) m)
            in Ok (length val, val))"

definition mmap_write :: "bytes \<Rightarrow> bytes \<Rightarrow> nat res" where
  "mmap_write m buf = Panic"

definition mmap_sync :: "bytes \<Rightarrow> unit res" where
  "mmap_sync m = Ok ()"

definition mmap_size :: "bytes \<Rightarrow> u64" where
  "mmap_size m = of_nat (length m)"

subsection \<open>\<open>IOManager\<close> trait objects\<close>

datatype io_manager = FileIO fpath | MMapIo bytes

definition new_io_manager ::
  "'z os_scheme \<Rightarrow> fpath \<Rightarrow> io_type \<Rightarrow> bool \<Rightarrow> fs \<Rightarrow> io_manager res \<times> fs" where
  "new_io_manager E f ty create fs =
     (case ty of
        StandardFIO \<Rightarrow>
          (case FileIO_new E f fs of
             (Ok h, fs') \<Rightarrow> (Ok (FileIO h), fs')
           | (_, fs') \<Rightarrow> (Panic, fs'))
      | MemoryMap \<Rightarrow>
          (case (if create then mmap_new E f fs else mmap_open_existing E f fs) of
             (Ok m, fs') \<Rightarrow> (Ok (MMapIo m), fs')
           | (_, fs') \<Rightarrow> (Panic, fs')))"

fun io_read :: "'z os_scheme \<Rightarrow> fs \<Rightarrow> io_manager \<Rightarrow> bytes \<Rightarrow> u64 \<Rightarrow> (nat \<times> bytes) res" where
  "io_read E fs (FileIO f) buf off = fio_read E fs f buf off"
| "io_read E fs (MMapIo m) buf off = mmap_read m buf off"

lemma io_read_eq [simp]:
  "io_read E fs (FileIO f) = fio_read E fs f"
  "io_read E fs (MMapIo m) = mmap_read m"
  by (simp_all add: fun_eq_iff)

fun io_write :: "'z os_scheme \<Rightarrow> io_manager \<Rightarrow> bytes \<Rightarrow> fs \<Rightarrow> nat res \<times> fs" where
  "io_write E (FileIO f) buf fs = fio_write E f buf fs"
| "io_write E (MMapIo m) buf fs = (mmap_write m buf, fs)"

fun io_sync :: "'z os_scheme \<Rightarrow> io_manager \<Rightarrow> fs \<Rightarrow> unit res \<times> fs" where
  "io_sync E (FileIO f) fs = fio_sync E f fs"
| "io_sync E (MMapIo m) fs = (mmap_sync m, fs)"

fun io_size :: "fs \<Rightarrow> io_manager \<Rightarrow> u64" where
  "io_size fs (FileIO f) = fio_size fs f"
| "io_size fs (MMapIo m) = mmap_size m"

subsection \<open>The reading contract\<close>

text \<open>
  What a reader of log records needs of \<open>IOManager::read\<close>: a range inside the content is read
  whole.  A standard file also answers a range that passes the end, with a short read that leaves
  the rest of the buffer as it was; a map refuses it.
\<close>

locale io_reader =
  fixes rd :: "bytes \<Rightarrow> u64 \<Rightarrow> (nat \<times> bytes) res"
    and contents :: bytes
    and usable :: bool
  assumes read_within:
    "usable \<Longrightarrow> length contents < 2 ^ 64 \<Longrightarrow> unat off + length buf \<le> length contents \<Longrightarrow>
     rd buf off = Ok (length buf, take (length buf) (drop (unat off) contents))"

locale io_padding_reader = io_reader +
  assumes read_any:
    "usable \<Longrightarrow> rd buf off =
       (let got = take (length buf) (drop (unat off) contents) in Ok (length got, fill got buf))"

lemma take_drop_fill_full:
  "n + length buf \<le> length xs \<Longrightarrow>
   fill (take (length buf) (drop n xs)) buf = take (length buf) (drop n xs)"
  by (simp add: fill_full)

interpretation fio: io_padding_reader "fio_read E fs f" "file_data fs f" "os_ok E"
  for E :: "'z os_scheme" and fs f
  by unfold_locales (auto simp: fio_read_def Let_def take_drop_fill_full min_def)

lemma mmap_read_within:
  assumes "length m < 2 ^ 64" and le: "unat off + length buf \<le> length m"
  shows "mmap_read m buf off = Ok (length buf, take (length buf) (drop (unat off) m))"
proof -
  from assms have b: "unat off + length buf < 2 ^ 64" by simp
  show ?thesis
    using le add_u64_of_nat [OF b] by (auto simp: mmap_read_def min_def)
qed

interpretation mmap: io_reader "mmap_read m" m True for m
  by unfold_locales (rule mmap_read_within)

text \<open>A map refuses every read that passes its end.\<close>

lemma mmap_read_past:
  assumes "length m < unat off + length buf" "unat off + length buf < 2 ^ 64"
  shows "mmap_read m buf off = Err ReadDataFileEOF"
  using add_u64_of_nat [OF assms(2)] assms(1) by (simp add: mmap_read_def)

subsection \<open>Frame lemmas\<close>

lemma FileIO_new_ok:
  assumes "os_ok E" "is_dir fs (fst f)"
  shows "FileIO_new E f fs = (Ok f, if is_file fs f then fs else put_file fs f new_inode)"
  using assms by (simp add: FileIO_new_def)

lemma new_io_manager_fio:
  assumes "os_ok E" "is_dir fs (fst f)"
  shows "new_io_manager E f StandardFIO c fs =
    (Ok (FileIO f), if is_file fs f then fs else put_file fs f new_inode)"
  by (simp add: new_io_manager_def FileIO_new_ok [OF assms])

lemma fio_write_ok:
  assumes "os_ok E" "lookup_file fs f = Some i"
  shows "fio_write E f buf fs =
    (Ok (length buf), put_file fs f (i\<lparr>fdata := fdata i @ buf\<rparr>))"
  using assms by (simp add: fio_write_def)

lemma fio_sync_ok:
  assumes "os_ok E" "lookup_file fs f = Some i"
  shows "fio_sync E f fs = (Ok (), put_file fs f (i\<lparr>fsynced := length (fdata i)\<rparr>))"
  using assms by (simp add: fio_sync_def)

text \<open>A sync changes no content and no file name.\<close>

lemma fio_sync_data:
  "file_data (snd (fio_sync E f fs)) g = file_data fs g"
  "is_file (snd (fio_sync E f fs)) g = is_file fs g"
  "is_dir (snd (fio_sync E f fs)) d = is_dir fs d"
  "fs_locks (snd (fio_sync E f fs)) = fs_locks fs"
  "fs_wf fs \<Longrightarrow> fs_wf (snd (fio_sync E f fs))"
  by (auto simp: fio_sync_def fs_simps file_data_def is_file_def split: option.splits)

end
