(* ===== verification/DataFile.thy ===== *)
theory DataFile
  imports LogRecord StdText Fio
begin

text \<open>
  Model of \<^verbatim>\<open>bitcask-rs/src/data/data_file.rs\<close>: opening data files, appending to them and reading a
  record back.  The lemmas of the IO contracts \<open>io_reader\<close> and \<open>io_padding_reader\<close> say when a
  record that was appended is read back.
\<close>

record data_file =
  df_file_id :: u32
  df_write_off :: u64
  df_io :: io_manager

definition DATA_FILE_NAME_SUFFIX :: string where "DATA_FILE_NAME_SUFFIX = ''.data''"
definition HINT_FILE_NAME :: string where "HINT_FILE_NAME = ''hint-index''"
definition MERGE_FINISHED_FILE_NAME :: string where "MERGE_FINISHED_FILE_NAME = ''merge-finished''"
definition SEQ_NO_FILE_NAME :: string where "SEQ_NO_FILE_NAME = ''seq-no''"

definition data_file_name :: "u32 \<Rightarrow> string" where
  "data_file_name fid = pad9 (unat fid) @ DATA_FILE_NAME_SUFFIX"

definition get_data_file_name :: "path \<Rightarrow> u32 \<Rightarrow> fpath" where
  "get_data_file_name dir fid = (dir, data_file_name fid)"

subsection \<open>Opening\<close>

definition open_with_name ::
  "'z os_scheme \<Rightarrow> fpath \<Rightarrow> u32 \<Rightarrow> io_type \<Rightarrow> bool \<Rightarrow> fs \<Rightarrow> data_file res \<times> fs" where
  "open_with_name E f fid ty create fs =
     and_then (new_io_manager E f ty create fs) (\<lambda>io fs'.
       (Ok \<lparr>df_file_id = fid, df_write_off = 0, df_io = io\<rparr>, fs'))"

definition new_with_create ::
  "'z os_scheme \<Rightarrow> path \<Rightarrow> u32 \<Rightarrow> io_type \<Rightarrow> bool \<Rightarrow> fs \<Rightarrow> data_file res \<times> fs" where
  "new_with_create E dir fid ty create fs =
     open_with_name E (get_data_file_name dir fid) fid ty create fs"

definition DataFile_new :: "'z os_scheme \<Rightarrow> path \<Rightarrow> u32 \<Rightarrow> io_type \<Rightarrow> fs \<Rightarrow> data_file res \<times> fs" where
  "DataFile_new E dir fid ty fs = new_with_create E dir fid ty True fs"

definition DataFile_open :: "'z os_scheme \<Rightarrow> path \<Rightarrow> u32 \<Rightarrow> io_type \<Rightarrow> fs \<Rightarrow> data_file res \<times> fs" where
  "DataFile_open E dir fid ty fs = new_with_create E dir fid ty False fs"

definition new_hint_file :: "'z os_scheme \<Rightarrow> path \<Rightarrow> fs \<Rightarrow> data_file res \<times> fs" where
  "new_hint_file E dir fs = open_with_name E (dir, HINT_FILE_NAME) 0 StandardFIO True fs"

definition new_merge_fin_file :: "'z os_scheme \<Rightarrow> path \<Rightarrow> fs \<Rightarrow> data_file res \<times> fs" where
  "new_merge_fin_file E dir fs = open_with_name E (dir, MERGE_FINISHED_FILE_NAME) 0 StandardFIO True fs"

definition new_seq_no_file :: "'z os_scheme \<Rightarrow> path \<Rightarrow> fs \<Rightarrow> data_file res \<times> fs" where
  "new_seq_no_file E dir fs = open_with_name E (dir, SEQ_NO_FILE_NAME) 0 StandardFIO True fs"

definition df_file_size :: "fs \<Rightarrow> data_file \<Rightarrow> u64" where
  "df_file_size fs df = io_size fs (df_io df)"

definition set_write_off :: "u64 \<Rightarrow> data_file \<Rightarrow> data_file" where
  "set_write_off off df = df\<lparr>df_write_off := off\<rparr>"

definition set_io_manager ::
  "'z os_scheme \<Rightarrow> path \<Rightarrow> io_type \<Rightarrow> data_file \<Rightarrow> fs \<Rightarrow> data_file res \<times> fs" where
  "set_io_manager E dir ty df fs =
     and_then (new_io_manager E (get_data_file_name dir (df_file_id df)) ty False fs) (\<lambda>io fs'.
       (Ok (df\<lparr>df_io := io\<rparr>), fs'))"

subsection \<open>Reading a record\<close>

text \<open>
  \<open>rd\<close> is \<open>self.io_manager.read\<close>.  A buffer of \<open>2 ^ 63\<close> bytes or more cannot be allocated
  (\<open>BytesMut::zeroed\<close> panics).
\<close>

definition read_log_record_with ::
  "'z crates_scheme \<Rightarrow> (bytes \<Rightarrow> u64 \<Rightarrow> (nat \<times> bytes) res) \<Rightarrow> u64 \<Rightarrow> read_log_record res" where
  "read_log_record_with C rd off =
     res_bind (rd (replicate (max_log_record_header_size C) 0) off) (\<lambda>(_, header_buf).
       case header_buf of
         [] \<Rightarrow> Panic
       | ty # buf1 \<Rightarrow>
           (case decode_length_delimiter C buf1 of
              None \<Rightarrow> Err DecodeError
            | Some (key_size, buf2) \<Rightarrow>
                (case decode_length_delimiter C buf2 of
                   None \<Rightarrow> Err DecodeError
                 | Some (value_size, _) \<Rightarrow>
                     if key_size = 0 \<and> value_size = 0 then Err ReadDataFileEOF
                     else
                       let actual_header_size =
                             length_delimiter_len C key_size + length_delimiter_len C value_size + 1
                       in if 2 ^ 63 \<le> key_size + value_size + 4 then Panic
                       else
                         res_bind (add_u64 off (of_nat actual_header_size)) (\<lambda>kv_off.
                         res_bind (rd (replicate (key_size + value_size + 4) 0) kv_off) (\<lambda>(_, kv_buf).
                           if length kv_buf < key_size then Err GetValueFailed
                           else if length kv_buf < key_size + 4 then Err GetValueFailed
                           else
                             let k = take key_size kv_buf;
                                 v = take (length kv_buf - 4 - key_size) (drop key_size kv_buf)
                             in res_bind (from_u8 ty) (\<lambda>t.
                                  let record = LogRecord_new k v t in
                                  res_bind (expect (get_u32 C (drop (key_size + value_size) kv_buf)))
                                    (\<lambda>(stored, _).
                                  res_bind (get_crc C record) (\<lambda>crc.
                                    if stored \<noteq> crc then Err InvalidLogRecordCrc
                                    else Ok \<lparr>rlr_record = record,
                                             rlr_size = actual_header_size + key_size + value_size + 4\<rparr>))))))))"

definition read_log_record :: "'z os_scheme \<Rightarrow> fs \<Rightarrow> data_file \<Rightarrow> u64 \<Rightarrow> read_log_record res" where
  "read_log_record E fs df off = read_log_record_with E (io_read E fs (df_io df)) off"

subsection \<open>Writing\<close>

definition df_write ::
  "'z os_scheme \<Rightarrow> bytes \<Rightarrow> data_file \<times> fs \<Rightarrow> nat res \<times> data_file \<times> fs" where
  "df_write E buf st =
     (case st of (df, fs) \<Rightarrow>
        if buf = [] then (Err KeyIsEmpty, df, fs)
        else
          (case io_write E (df_io df) buf fs of
             (Ok n, fs') \<Rightarrow>
               (case add_u64 (df_write_off df) (of_nat n) of
                  Ok off \<Rightarrow> (Ok n, df\<lparr>df_write_off := off\<rparr>, fs')
                | Err x \<Rightarrow> (Err x, df, fs')
                | Panic \<Rightarrow> (Panic, df, fs'))
           | (Err x, fs') \<Rightarrow> (Err x, df, fs')
           | (Panic, fs') \<Rightarrow> (Panic, df, fs')))"

definition write_hint_record ::
  "'z os_scheme \<Rightarrow> bytes \<Rightarrow> log_record_pos \<Rightarrow> data_file \<times> fs \<Rightarrow> unit res \<times> data_file \<times> fs" where
  "write_hint_record E k p st =
     (case LogRecord_encode E (LogRecord_new k (LogRecordPos_encode E p) Normal) of
        Ok en \<Rightarrow> and_then (df_write E en st) (\<lambda>_ st'. (Ok (), st'))
      | Err x \<Rightarrow> (Err x, st)
      | Panic \<Rightarrow> (Panic, st))"

definition df_sync :: "'z os_scheme \<Rightarrow> data_file \<Rightarrow> fs \<Rightarrow> unit res \<times> fs" where
  "df_sync E df fs = io_sync E (df_io df) fs"

subsection \<open>Reading back what was written\<close>

text \<open>The bytes of an encoded record, part by part.\<close>

lemma encode_parts:
  assumes "crates_ok C" "LogRecord_encode C r = Ok en"
  obtains kl vl where
    "encode_length_delimiter C (length (rec_key r)) = Some kl"
    "encode_length_delimiter C (length (rec_value r)) = Some vl"
    "length kl = length_delimiter_len C (length (rec_key r))"
    "length vl = length_delimiter_len C (length (rec_value r))"
    "get_crc C r = Ok (crc32 C (type_as_u8 (rec_type r) # kl @ vl @ rec_key r @ rec_value r))"
    "en = type_as_u8 (rec_type r) # kl @ vl @ rec_key r @ rec_value r
          @ put_u32 C (crc32 C (type_as_u8 (rec_type r) # kl @ vl @ rec_key r @ rec_value r))"
  using assms(2) that
  by (auto simp: LogRecord_encode_def get_crc_def encode_and_get_crc_def Let_def
      length_encode_delimiter [OF assms(1)] split: option.splits)

lemma wf_record_sizes:
  assumes "crates_ok C" "wf_record r"
  shows "length_delimiter_len C (length (rec_key r)) \<le> 5"
    and "length_delimiter_len C (length (rec_value r)) \<le> 5"
    and "length (rec_key r) + length (rec_value r) + 4 < 2 ^ 63"
  using assms by (auto simp: wf_record_def delimiter_len_le_5)

text \<open>
  Both reads of \<open>read_log_record\<close> in one step: a header that starts with the record's type and
  lengths, then the key, the value and any four bytes where the CRC is stored.
\<close>

lemma read_log_record_with_parts:
  assumes C: "crates_ok C" and wf: "wf_record r" and en: "LogRecord_encode C r = Ok en"
    and kl: "encode_length_delimiter C (length (rec_key r)) = Some kl"
    and vl: "encode_length_delimiter C (length (rec_value r)) = Some vl"
    and header: "rd (replicate 11 0) off = Ok (n, type_as_u8 (rec_type r) # kl @ vl @ rest)"
    and off: "unat off + (1 + length kl + length vl) < 2 ^ 64"
    and body: "rd (replicate (length (rec_key r) + length (rec_value r) + 4) 0)
                 (off + of_nat (1 + length kl + length vl)) =
               Ok (n', rec_key r @ rec_value r @ put_u32 C stored)"
  shows "read_log_record_with C rd off =
    (if get_crc C r = Ok stored then Ok \<lparr>rlr_record = r, rlr_size = length en\<rparr>
     else Err InvalidLogRecordCrc)"
proof -
  let ?k = "length (rec_key r)" and ?v = "length (rec_value r)"
  have lens: "length kl = length_delimiter_len C ?k" "length vl = length_delimiter_len C ?v"
    using kl vl by (simp_all add: length_encode_delimiter [OF C])
  have k: "0 < ?k" and big: "\<not> 2 ^ 63 \<le> ?k + ?v + 4"
    using wf wf_record_sizes [OF C wf] by (auto simp: wf_record_def)
  define kvo where "kvo = off + of_nat (1 + length kl + length vl)"
  have off': "add_u64 off (of_nat (length_delimiter_len C ?k)
      + of_nat (length_delimiter_len C ?v) + 1) = Ok kvo"
    using add_u64_of_nat(1) [of off "length_delimiter_len C ?k + length_delimiter_len C ?v + 1"] off
    by (simp add: lens kvo_def algebra_simps)
  have size: "length_delimiter_len C ?k + length_delimiter_len C ?v + 1 + ?k + ?v + 4 = length en"
    by (simp add: LogRecord_encode_length [OF C en] encoded_length_def)
  obtain crc where crc: "get_crc C r = Ok crc"
    using encode_parts [OF C en] by blast
  have body': "rd (replicate (?k + ?v + 4) 0) kvo =
               Ok (n', rec_key r @ rec_value r @ put_u32 C stored)"
    using body by (simp only: kvo_def)
  show ?thesis
    using k big
    unfolding read_log_record_with_def max_log_record_header_size_eq [OF C] header res_bind.simps
    by (simp add: decode_encode_delimiter [OF C kl] decode_encode_delimiter [OF C vl]
        off' body' length_put_u32 [OF C] get_put_u32_end [OF C] crc size Let_def del: One_nat_def)
qed

text \<open>\<open>record_at C bs n r\<close>: the encoding of \<open>r\<close> lies in \<open>bs\<close> at offset \<open>n\<close>.\<close>

definition record_at :: "'z crates_scheme \<Rightarrow> bytes \<Rightarrow> nat \<Rightarrow> log_record \<Rightarrow> bool" where
  "record_at C bs n r \<longleftrightarrow>
     wf_record r \<and>
     (\<exists>en. LogRecord_encode C r = Ok en \<and> n + length en \<le> length bs \<and>
           take (length en) (drop n bs) = en)"

lemma record_at_split:
  assumes "record_at C bs n r"
  obtains en post where "wf_record r" "LogRecord_encode C r = Ok en"
    "drop n bs = en @ post" "n + length en + length post = length bs"
proof -
  from assms obtain en where en: "wf_record r" "LogRecord_encode C r = Ok en"
    "n + length en \<le> length bs" "take (length en) (drop n bs) = en"
    by (auto simp: record_at_def)
  have "drop n bs = en @ drop (length en) (drop n bs)"
    using en(4) by (metis append_take_drop_id)
  moreover have "n + length en + length (drop (length en) (drop n bs)) = length bs"
    using en(3) by simp
  ultimately show ?thesis using that en(1,2) by blast
qed

lemma record_atI:
  assumes "wf_record r" "LogRecord_encode C r = Ok en" "bs = pre @ en @ post" "length pre = n"
  shows "record_at C bs n r"
  using assms by (auto simp: record_at_def)

text \<open>What lies in a file stays there when the file grows.\<close>

lemma record_at_append: "record_at C bs n r \<Longrightarrow> record_at C (bs @ tail) n r"
  by (auto simp: record_at_def)

lemma fill_header:
  assumes "length h \<le> n"
  obtains rest where "fill (take n (h @ body)) (replicate n 0) = h @ rest"
proof
  show "fill (take n (h @ body)) (replicate n 0) =
      h @ (take (n - length h) body @ replicate (n - length (take n (h @ body))) 0)"
    using assms by (simp add: fill_replicate)
qed

context io_reader
begin

text \<open>
  Both reads on a frame: type, lengths, key and value of a record and any stored checksum.
\<close>

lemma read_frame:
  assumes usable "crates_ok C" "length contents < 2 ^ 64"
    and wf: "wf_record r" and en: "LogRecord_encode C r = Ok en"
    and kl: "encode_length_delimiter C (length (rec_key r)) = Some kl"
    and vl: "encode_length_delimiter C (length (rec_value r)) = Some vl"
    and split: "drop (unat off) contents =
      (type_as_u8 (rec_type r) # kl @ vl) @ rec_key r @ rec_value r @ put_u32 C stored @ post"
    and header: "rd (replicate 11 0) off =
      Ok (n, fill (take 11 (drop (unat off) contents)) (replicate 11 0))"
  shows "read_log_record_with C rd off =
    (if get_crc C r = Ok stored then Ok \<lparr>rlr_record = r, rlr_size = encoded_length C r\<rparr>
     else Err InvalidLogRecordCrc)"
proof -
  let ?h = "type_as_u8 (rec_type r) # kl @ vl"
  have lens: "length kl = length_delimiter_len C (length (rec_key r))"
      "length vl = length_delimiter_len C (length (rec_value r))"
    using kl vl by (simp_all add: length_encode_delimiter [OF assms(2)])
  have h: "length ?h \<le> 11"
    using wf_record_sizes [OF assms(2) wf] by (simp add: lens)
  obtain rest where rest: "fill (take 11 (drop (unat off) contents)) (replicate 11 0) = ?h @ rest"
    unfolding split using fill_header [OF h] by metis
  have "length (drop (unat off) contents) =
      length ?h + length (rec_key r) + length (rec_value r) + 4 + length post"
    unfolding split by (simp add: length_put_u32 [OF assms(2)])
  then have size: "unat off + (length ?h + length (rec_key r) + length (rec_value r) + 4)
      \<le> length contents" by simp
  then have off_h: "unat off + length ?h < 2 ^ 64"
    using assms(3) by linarith
  let ?kv = "off + of_nat (length ?h)"
  let ?buf = "replicate (length (rec_key r) + length (rec_value r) + 4) (0 :: u8)"
  have kv: "unat ?kv = unat off + length ?h"
    using add_u64_of_nat(2) [OF off_h] .
  have "rd ?buf ?kv = Ok (length ?buf, take (length ?buf) (drop (unat ?kv) contents))"
  proof (rule read_within [OF assms(1,3)])
    show "unat ?kv + length ?buf \<le> length contents"
      unfolding kv using size by (simp only: length_replicate)
  qed
  also have "drop (unat ?kv) contents = drop (length ?h) (drop (unat off) contents)"
    unfolding kv by (simp only: drop_drop add.commute)
  also have "take (length ?buf) \<dots> = rec_key r @ rec_value r @ put_u32 C stored"
    unfolding split by (simp add: length_put_u32 [OF assms(2)])
  finally have body: "rd ?buf ?kv = Ok (length ?buf, rec_key r @ rec_value r @ put_u32 C stored)" .
  have header': "rd (replicate 11 0) off = Ok (n, type_as_u8 (rec_type r) # kl @ vl @ rest)"
    using header unfolding rest by simp
  have h_len: "length ?h = 1 + length kl + length vl" by simp
  show ?thesis
    using read_log_record_with_parts [where rd = rd, OF assms(2) wf en kl vl header'
        off_h [unfolded h_len] body [unfolded h_len]]
    by (simp add: LogRecord_encode_length [OF assms(2) en])
qed

lemma read_record:
  assumes usable "crates_ok C" "length contents < 2 ^ 64"
    and at: "record_at C contents (unat off) r"
    and header: "rd (replicate 11 0) off =
      Ok (n, fill (take 11 (drop (unat off) contents)) (replicate 11 0))"
  shows "read_log_record_with C rd off =
    Ok \<lparr>rlr_record = r, rlr_size = encoded_length C r\<rparr>"
proof -
  from at obtain en post where en: "wf_record r" "LogRecord_encode C r = Ok en"
    and split: "drop (unat off) contents = en @ post"
    by (rule record_at_split)
  from encode_parts [OF assms(2) en(2)] obtain kl vl where
    kl: "encode_length_delimiter C (length (rec_key r)) = Some kl" and
    vl: "encode_length_delimiter C (length (rec_value r)) = Some vl" and
    crc: "get_crc C r = Ok (crc32 C (type_as_u8 (rec_type r) # kl @ vl @ rec_key r @ rec_value r))" and
    en_eq: "en = type_as_u8 (rec_type r) # kl @ vl @ rec_key r @ rec_value r
      @ put_u32 C (crc32 C (type_as_u8 (rec_type r) # kl @ vl @ rec_key r @ rec_value r))"
    by blast
  let ?crc = "crc32 C (type_as_u8 (rec_type r) # kl @ vl @ rec_key r @ rec_value r)"
  have "drop (unat off) contents =
      (type_as_u8 (rec_type r) # kl @ vl) @ rec_key r @ rec_value r @ put_u32 C ?crc @ post"
    unfolding split en_eq by simp
  from read_frame [OF assms(1-3) en kl vl this header] crc show ?thesis by simp
qed

text \<open>A record is read back when a whole header fits between its offset and the end.\<close>

lemma read_record_within:
  assumes usable "crates_ok C" "length contents < 2 ^ 64"
    and "record_at C contents (unat off) r" "unat off + 11 \<le> length contents"
  shows "read_log_record_with C rd off =
    Ok \<lparr>rlr_record = r, rlr_size = encoded_length C r\<rparr>"
proof (rule read_record [OF assms(1-4)])
  show "rd (replicate 11 0) off =
      Ok (11, fill (take 11 (drop (unat off) contents)) (replicate 11 0))"
    using read_within [OF assms(1,3), of off "replicate 11 0"] assms(5)
    by (simp add: fill_full)
qed

end

context io_padding_reader
begin

text \<open>A padded read needs no room behind the record.\<close>

lemma read_record_anywhere:
  assumes usable "crates_ok C" "length contents < 2 ^ 64"
    and "record_at C contents (unat off) r"
  shows "read_log_record_with C rd off =
    Ok \<lparr>rlr_record = r, rlr_size = encoded_length C r\<rparr>"
  by (rule read_record [OF assms]) (simp add: read_any [OF assms(1)] Let_def)

text \<open>A stored checksum that is not the record's is reported.\<close>

lemma read_patched_crc:
  assumes usable "crates_ok C" "length contents < 2 ^ 64"
    and wf: "wf_record r" and en: "LogRecord_encode C r = Ok en"
    and split: "drop (unat off) contents = take (length en - 4) en @ put_u32 C stored @ post"
    and bad: "get_crc C r \<noteq> Ok stored"
  shows "read_log_record_with C rd off = Err InvalidLogRecordCrc"
proof -
  from encode_parts [OF assms(2) en] obtain kl vl where
    kl: "encode_length_delimiter C (length (rec_key r)) = Some kl" and
    vl: "encode_length_delimiter C (length (rec_value r)) = Some vl" and
    en_eq: "en = type_as_u8 (rec_type r) # kl @ vl @ rec_key r @ rec_value r
      @ put_u32 C (crc32 C (type_as_u8 (rec_type r) # kl @ vl @ rec_key r @ rec_value r))"
    by blast
  have "take (length en - 4) en = type_as_u8 (rec_type r) # kl @ vl @ rec_key r @ rec_value r"
    by (simp add: en_eq length_put_u32 [OF assms(2)])
  then have "drop (unat off) contents =
      (type_as_u8 (rec_type r) # kl @ vl) @ rec_key r @ rec_value r @ put_u32 C stored @ post"
    unfolding split by simp
  from read_frame [OF assms(1-3) wf en kl vl this] bad show ?thesis
    by (simp add: read_any [OF assms(1)] Let_def)
qed

text \<open>At the end of the file both lengths read as zero, which ends every scan.\<close>

lemma read_at_end:
  assumes usable "crates_ok C" "length contents \<le> unat off"
  shows "read_log_record_with C rd off = Err ReadDataFileEOF"
proof -
  have ten: "replicate 11 (0::u8) = 0 # 0 # 0 # replicate 8 0"
    by (simp add: numeral_eq_Suc)
  have "rd (replicate 11 0) off = Ok (0, 0 # 0 # 0 # replicate 8 0)"
    using assms(3) by (simp add: read_any [OF assms(1)] Let_def flip: ten)
  then show ?thesis
    by (simp add: read_log_record_with_def max_log_record_header_size_eq [OF assms(2)]
        decode_delimiter_zero [OF assms(2)])
qed

end
end
