(* ===== verification/TxnKey.thy ===== *)
theory TxnKey
  imports LogRecord
begin

text \<open>
  The key of a log record as \<^verbatim>\<open>bitcask-rs/src/batch.rs\<close> builds and parses it: the transaction
  sequence number as a length delimiter, then the user's key.
\<close>

definition NON_TRANSACTION_SEQ_NO :: nat where "NON_TRANSACTION_SEQ_NO = 0"

definition log_record_key_with_seq :: "'z crates_scheme \<Rightarrow> bytes \<Rightarrow> nat \<Rightarrow> bytes res" where
  "log_record_key_with_seq C k n =
     (case encode_length_delimiter C n of
        None \<Rightarrow> Err EncodeError
      | Some enc_key \<Rightarrow> Ok (enc_key @ k))"

definition parse_log_record_key :: "'z crates_scheme \<Rightarrow> bytes \<Rightarrow> (bytes \<times> nat) res" where
  "parse_log_record_key C k =
     (case decode_length_delimiter C k of
        None \<Rightarrow> Err DecodeError
      | Some (n, buf) \<Rightarrow> Ok (buf, n))"

lemma key_with_seq_total:
  assumes "crates_ok C" "n < 2 ^ 64"
  obtains en where "log_record_key_with_seq C k n = Ok (en @ k)"
    "encode_length_delimiter C n = Some en"
  using encode_delimiter_total [OF assms] by (metis log_record_key_with_seq_def option.simps(5))

lemma parse_key_with_seq:
  assumes "crates_ok C" "log_record_key_with_seq C k n = Ok ek"
  shows "parse_log_record_key C ek = Ok (k, n)"
  using assms
  by (auto simp: log_record_key_with_seq_def parse_log_record_key_def decode_encode_delimiter
      split: option.splits)

lemma length_key_with_seq:
  assumes "crates_ok C" "log_record_key_with_seq C k n = Ok ek"
  shows "length ek = length_delimiter_len C n + length k"
  using assms
  by (auto simp: log_record_key_with_seq_def length_encode_delimiter split: option.splits)

lemma key_with_seq_nonempty:
  assumes "crates_ok C" "log_record_key_with_seq C k n = Ok ek"
  shows "ek \<noteq> []"
  using length_key_with_seq [OF assms] delimiter_len_ge_1 [OF assms(1), of n] by auto

text \<open>Outside transactions the prefix is the single byte zero.\<close>

lemma key_with_seq_0:
  "crates_ok C \<Longrightarrow> log_record_key_with_seq C k NON_TRANSACTION_SEQ_NO = Ok (0 # k)"
  by (simp add: log_record_key_with_seq_def NON_TRANSACTION_SEQ_NO_def encode_delimiter_0)

text \<open>
  A key that was stored without the prefix is parsed as if its first bytes were one: below
  \<open>128\<close> the first byte is taken for the sequence number.
\<close>

lemma parse_raw_key:
  assumes C: "crates_ok C" and b: "encode_length_delimiter C n = Some [b]"
  shows "parse_log_record_key C (b # k) = Ok (k, n)"
  using decode_encode_delimiter [OF C b, of k] by (simp add: parse_log_record_key_def)

end
