(* ===== verification/Index.thy ===== *)
theory Index
  imports Fio LogRecord StdText
begin

text \<open>
  Model of \<^verbatim>\<open>bitcask-rs/src/index\<close>: the \<open>Indexer\<close> trait, its three implementations and their
  iterators.

  \<^item> \<open>BTree\<close> holds a \<open>std\<close> \<open>BTreeMap\<close>, modelled as an association list in strictly ascending key
    order.
  \<^item> \<open>SkipList\<close> holds a \<^verbatim>\<open>crossbeam_skiplist::SkipMap\<close>, \<open>BPlusTree\<close> a \<^verbatim>\<open>jammdb::DB\<close>; their operations are
    parameters, with laws \<open>skipmap_ok\<close> and \<open>jammdb_ok\<close>.

  The locale \<open>indexer\<close> is the contract of the trait; it is interpreted on the three models and on
  the dispatch the engine calls.
\<close>

type_synonym items = "(bytes \<times> log_record_pos) list"

subsection \<open>\<open>BTreeMap\<close>\<close>

fun bt_get :: "'k::linorder \<Rightarrow> ('k \<times> 'v) list \<Rightarrow> 'v option" where
  "bt_get k [] = None"
| "bt_get k ((k', v') # xs) = (if k = k' then Some v' else if k < k' then None else bt_get k xs)"

fun bt_put :: "'k::linorder \<Rightarrow> 'v \<Rightarrow> ('k \<times> 'v) list \<Rightarrow> ('k \<times> 'v) list" where
  "bt_put k v [] = [(k, v)]"
| "bt_put k v ((k', v') # xs) =
     (if k < k' then (k, v) # (k', v') # xs
      else if k = k' then (k, v) # xs
      else (k', v') # bt_put k v xs)"

fun bt_del :: "'k::linorder \<Rightarrow> ('k \<times> 'v) list \<Rightarrow> ('k \<times> 'v) list" where
  "bt_del k [] = []"
| "bt_del k ((k', v') # xs) =
     (if k < k' then (k', v') # xs
      else if k = k' then xs
      else (k', v') # bt_del k xs)"

text \<open>\<open>insert\<close> and \<open>remove\<close> return the value that was there.\<close>

definition bt_insert :: "'k::linorder \<Rightarrow> 'v \<Rightarrow> ('k \<times> 'v) list \<Rightarrow> 'v option \<times> ('k \<times> 'v) list" where
  "bt_insert k v xs = (bt_get k xs, bt_put k v xs)"

definition bt_remove :: "'k::linorder \<Rightarrow> ('k \<times> 'v) list \<Rightarrow> 'v option \<times> ('k \<times> 'v) list" where
  "bt_remove k xs = (bt_get k xs, bt_del k xs)"

definition bt_ok :: "('k::linorder \<times> 'v) list \<Rightarrow> bool" where
  "bt_ok xs \<longleftrightarrow> sorted_wrt (<) (map fst xs)"

lemma bt_ok_simps [simp]:
  "bt_ok []"
  "bt_ok ((k, v) # xs) \<longleftrightarrow> (\<forall>k' \<in> fst ` set xs. k < k') \<and> bt_ok xs"
  by (auto simp: bt_ok_def)

lemma map_of_below: "\<forall>k' \<in> fst ` set xs. k < k' \<Longrightarrow> j \<le> k \<Longrightarrow> map_of xs (j :: _::linorder) = None"
  by (force simp: map_of_eq_None_iff)

lemma bt_get_map_of: "bt_ok xs \<Longrightarrow> bt_get k xs = map_of xs k"
  by (induction k xs rule: bt_get.induct) (auto simp: map_of_below)

lemma map_of_bt_put: "map_of (bt_put k v xs) = (map_of xs)(k \<mapsto> v)"
  by (induction k v xs rule: bt_put.induct) (auto simp: fun_eq_iff)

lemma map_of_bt_del: "bt_ok xs \<Longrightarrow> map_of (bt_del k xs) = (map_of xs)(k := None)"
proof (induction k xs rule: bt_del.induct)
  case (2 k k' v' xs)
  then have "\<forall>j \<in> fst ` set xs. k' < j" by auto
  note below = map_of_below [OF this]
  have "map_of xs k' = None" and "k < k' \<Longrightarrow> map_of xs k = None"
    by (simp_all add: below)
  with 2 show ?case by (auto simp: fun_eq_iff)
qed auto

lemma keys_bt_put: "fst ` set (bt_put k v xs) = insert k (fst ` set xs)"
  by (induction k v xs rule: bt_put.induct) auto

lemma keys_bt_del: "fst ` set (bt_del k xs) \<subseteq> fst ` set xs"
  by (induction k xs rule: bt_del.induct) auto

lemma bt_ok_put: "bt_ok xs \<Longrightarrow> bt_ok (bt_put k v xs)"
  by (induction k v xs rule: bt_put.induct) (auto simp: keys_bt_put)

lemma bt_ok_del: "bt_ok xs \<Longrightarrow> bt_ok (bt_del k xs)"
proof (induction k xs rule: bt_del.induct)
  case (2 k k' v' xs)
  then show ?case using keys_bt_del [of k xs] by (auto dest!: subsetD)
qed simp

lemma bt_ok_distinct: "bt_ok xs \<Longrightarrow> distinct (map fst xs)"
  by (auto simp: bt_ok_def strict_sorted_iff)

subsection \<open>The third-party indexes\<close>

text \<open>\<^verbatim>\<open>crossbeam_skiplist::SkipMap\<close>: \<open>sm_iter\<close> goes through the entries in key order.\<close>

record 's skipmap_ops =
  sm_new :: 's
  sm_get :: "'s \<Rightarrow> bytes \<Rightarrow> log_record_pos option"
  sm_insert :: "'s \<Rightarrow> bytes \<Rightarrow> log_record_pos \<Rightarrow> 's"
  sm_remove :: "'s \<Rightarrow> bytes \<Rightarrow> log_record_pos option \<times> 's"
  sm_iter :: "'s \<Rightarrow> items"

definition skipmap_ok :: "'s skipmap_ops \<Rightarrow> bool" where
  "skipmap_ok S \<longleftrightarrow>
     (\<forall>k. sm_get S (sm_new S) k = None) \<and>
     (\<forall>m k p j. sm_get S (sm_insert S m k p) j = (if j = k then Some p else sm_get S m j)) \<and>
     (\<forall>m k. fst (sm_remove S m k) = sm_get S m k) \<and>
     (\<forall>m k j. sm_get S (snd (sm_remove S m k)) j = (if j = k then None else sm_get S m j)) \<and>
     (\<forall>m. bt_ok (sm_iter S m) \<and> map_of (sm_iter S m) = sm_get S m)"

text \<open>
  \<^verbatim>\<open>jammdb\<close>: \<open>jm_open\<close> is the database with its bucket at a path (\<open>DB::open\<close> and
  \<open>get_or_create_bucket\<close>), \<open>jm_tx\<close> says whether a transaction can begin, \<open>jm_bucket\<close> whether
  \<open>get_bucket\<close> succeeds, \<open>jm_commit\<close> whether the changed database commits.
\<close>

record 'b jammdb_ops =
  jm_open :: "path \<Rightarrow> 'b option"
  jm_tx :: "'b \<Rightarrow> bool"
  jm_bucket :: "'b \<Rightarrow> bool"
  jm_get :: "'b \<Rightarrow> bytes \<Rightarrow> bytes option"
  jm_put :: "'b \<Rightarrow> bytes \<Rightarrow> bytes \<Rightarrow> 'b option"
  jm_delete :: "'b \<Rightarrow> bytes \<Rightarrow> (bytes \<times> 'b) option"
  jm_commit :: "'b \<Rightarrow> bool"
  jm_cursor :: "'b \<Rightarrow> (bytes \<times> bytes) list"

definition jammdb_ok :: "'b jammdb_ops \<Rightarrow> bool" where
  "jammdb_ok J \<longleftrightarrow>
     (\<forall>b. jm_tx J b \<and> jm_bucket J b \<and> jm_commit J b) \<and>
     (\<forall>b k v. \<exists>b'. jm_put J b k v = Some b' \<and> jm_get J b' = (jm_get J b)(k \<mapsto> v)) \<and>
     (\<forall>b k. case jm_delete J b k of
              None \<Rightarrow> jm_get J b k = None
            | Some (v, b') \<Rightarrow> jm_get J b k = Some v \<and> jm_get J b' = (jm_get J b)(k := None)) \<and>
     (\<forall>b. bt_ok (jm_cursor J b) \<and> map_of (jm_cursor J b) = jm_get J b)"

text \<open>The environment of the engine: operating system, crates and the two index libraries.\<close>

record ('s, 'b) env = os +
  skipmap :: "'s skipmap_ops"
  jammdb :: "'b jammdb_ops"

subsection \<open>\<open>BTree\<close>\<close>

type_synonym btree = items

definition BTree_new :: btree where "BTree_new = []"

definition btree_put :: "btree \<Rightarrow> bytes \<Rightarrow> log_record_pos \<Rightarrow> log_record_pos option res \<times> btree" where
  "btree_put t k p = (case bt_insert k p t of (old, t') \<Rightarrow> (Ok old, t'))"

definition btree_get :: "btree \<Rightarrow> bytes \<Rightarrow> log_record_pos option res" where
  "btree_get t k = Ok (bt_get k t)"

definition btree_delete :: "btree \<Rightarrow> bytes \<Rightarrow> log_record_pos option res \<times> btree" where
  "btree_delete t k = (case bt_remove k t of (old, t') \<Rightarrow> (Ok old, t'))"

definition btree_list_keys :: "btree \<Rightarrow> bytes list res" where
  "btree_list_keys t = Ok (map fst t)"

subsection \<open>\<open>SkipList\<close>\<close>

definition skl_put ::
  "'s skipmap_ops \<Rightarrow> 's \<Rightarrow> bytes \<Rightarrow> log_record_pos \<Rightarrow> log_record_pos option res \<times> 's" where
  "skl_put S m k p = (let result = sm_get S m k in (Ok result, sm_insert S m k p))"

definition skl_get :: "'s skipmap_ops \<Rightarrow> 's \<Rightarrow> bytes \<Rightarrow> log_record_pos option res" where
  "skl_get S m k = Ok (sm_get S m k)"

definition skl_delete ::
  "'s skipmap_ops \<Rightarrow> 's \<Rightarrow> bytes \<Rightarrow> log_record_pos option res \<times> 's" where
  "skl_delete S m k = (case sm_remove S m k of (old, m') \<Rightarrow> (Ok old, m'))"

definition skl_list_keys :: "'s skipmap_ops \<Rightarrow> 's \<Rightarrow> bytes list res" where
  "skl_list_keys S m = Ok (map fst (sm_iter S m))"

subsection \<open>\<open>BPlusTree\<close>\<close>

definition BPlusTree_new :: "'b jammdb_ops \<Rightarrow> path \<Rightarrow> 'b res" where
  "BPlusTree_new J dir = expect (jm_open J dir)"

definition bptree_put ::
  "'z crates_scheme \<Rightarrow> 'b jammdb_ops \<Rightarrow> 'b \<Rightarrow> bytes \<Rightarrow> log_record_pos \<Rightarrow>
   log_record_pos option res \<times> 'b" where
  "bptree_put C J b k p =
     (if \<not> jm_tx J b then (Panic, b)
      else if \<not> jm_bucket J b then (Ok None, b)
      else
        case (case jm_get J b k of
                None \<Rightarrow> Ok None
              | Some v \<Rightarrow> res_map Some (decode_log_record_pos C v)) of
          Ok ret \<Rightarrow>
            (case jm_put J b k (LogRecordPos_encode C p) of
               None \<Rightarrow> (Panic, b)
             | Some b' \<Rightarrow> if jm_commit J b' then (Ok ret, b') else (Ok None, b))
        | Err x \<Rightarrow> (Err x, b)
        | Panic \<Rightarrow> (Panic, b))"

definition bptree_get ::
  "'z crates_scheme \<Rightarrow> 'b jammdb_ops \<Rightarrow> 'b \<Rightarrow> bytes \<Rightarrow> log_record_pos option res" where
  "bptree_get C J b k =
     (if \<not> jm_tx J b then Panic
      else if \<not> jm_bucket J b then Ok None
      else case jm_get J b k of
             None \<Rightarrow> Ok None
           | Some v \<Rightarrow> res_map Some (decode_log_record_pos C v))"

definition bptree_delete ::
  "'z crates_scheme \<Rightarrow> 'b jammdb_ops \<Rightarrow> 'b \<Rightarrow> bytes \<Rightarrow> log_record_pos option res \<times> 'b" where
  "bptree_delete C J b k =
     (if \<not> jm_tx J b then (Panic, b)
      else if \<not> jm_bucket J b then (Ok None, b)
      else case jm_delete J b k of
             None \<Rightarrow> (Ok None, b)
           | Some (v, b') \<Rightarrow>
               (case decode_log_record_pos C v of
                  Ok p \<Rightarrow> if jm_commit J b' then (Ok (Some p), b') else (Ok None, b)
                | Err x \<Rightarrow> (Err x, b)
                | Panic \<Rightarrow> (Panic, b)))"

definition bptree_list_keys :: "'b jammdb_ops \<Rightarrow> 'b \<Rightarrow> bytes list res" where
  "bptree_list_keys J b =
     (if \<not> jm_tx J b then Panic
      else if \<not> jm_bucket J b then Ok []
      else Ok (map fst (jm_cursor J b)))"

text \<open>The items of an iterator over the B+ tree: every value decoded, in cursor order.\<close>

fun decode_items :: "'z crates_scheme \<Rightarrow> (bytes \<times> bytes) list \<Rightarrow> items res" where
  "decode_items C [] = Ok []"
| "decode_items C ((k, v) # kvs) =
     res_bind (decode_log_record_pos C v) (\<lambda>p.
     res_bind (decode_items C kvs) (\<lambda>items. Ok ((k, p) # items)))"

definition bptree_items :: "'z crates_scheme \<Rightarrow> 'b jammdb_ops \<Rightarrow> 'b \<Rightarrow> items res" where
  "bptree_items C J b =
     (if \<not> jm_tx J b \<or> \<not> jm_bucket J b then Panic else decode_items C (jm_cursor J b))"

subsection \<open>\<open>Box<dyn Indexer>\<close>\<close>

datatype ('s, 'b) index = BTreeIndex btree | SkipListIndex 's | BPlusTreeIndex 'b

definition new_indexer :: "('s, 'b) env \<Rightarrow> index_type \<Rightarrow> path \<Rightarrow> ('s, 'b) index res" where
  "new_indexer E ty dir =
     (case ty of
        BTree \<Rightarrow> Ok (BTreeIndex BTree_new)
      | SkipList \<Rightarrow> Ok (SkipListIndex (sm_new (skipmap E)))
      | BPlusTree \<Rightarrow> res_map BPlusTreeIndex (BPlusTree_new (jammdb E) dir))"

fun index_put ::
  "('s, 'b) env \<Rightarrow> ('s, 'b) index \<Rightarrow> bytes \<Rightarrow> log_record_pos \<Rightarrow>
   log_record_pos option res \<times> ('s, 'b) index" where
  "index_put E (BTreeIndex t) k p = map_prod id BTreeIndex (btree_put t k p)"
| "index_put E (SkipListIndex m) k p = map_prod id SkipListIndex (skl_put (skipmap E) m k p)"
| "index_put E (BPlusTreeIndex b) k p = map_prod id BPlusTreeIndex (bptree_put E (jammdb E) b k p)"

fun index_get :: "('s, 'b) env \<Rightarrow> ('s, 'b) index \<Rightarrow> bytes \<Rightarrow> log_record_pos option res" where
  "index_get E (BTreeIndex t) k = btree_get t k"
| "index_get E (SkipListIndex m) k = skl_get (skipmap E) m k"
| "index_get E (BPlusTreeIndex b) k = bptree_get E (jammdb E) b k"

fun index_delete ::
  "('s, 'b) env \<Rightarrow> ('s, 'b) index \<Rightarrow> bytes \<Rightarrow> log_record_pos option res \<times> ('s, 'b) index" where
  "index_delete E (BTreeIndex t) k = map_prod id BTreeIndex (btree_delete t k)"
| "index_delete E (SkipListIndex m) k = map_prod id SkipListIndex (skl_delete (skipmap E) m k)"
| "index_delete E (BPlusTreeIndex b) k = map_prod id BPlusTreeIndex (bptree_delete E (jammdb E) b k)"

fun index_list_keys :: "('s, 'b) env \<Rightarrow> ('s, 'b) index \<Rightarrow> bytes list res" where
  "index_list_keys E (BTreeIndex t) = btree_list_keys t"
| "index_list_keys E (SkipListIndex m) = skl_list_keys (skipmap E) m"
| "index_list_keys E (BPlusTreeIndex b) = bptree_list_keys (jammdb E) b"

fun index_items :: "('s, 'b) env \<Rightarrow> ('s, 'b) index \<Rightarrow> items res" where
  "index_items E (BTreeIndex t) = Ok t"
| "index_items E (SkipListIndex m) = Ok (sm_iter (skipmap E) m)"
| "index_items E (BPlusTreeIndex b) = bptree_items E (jammdb E) b"

subsection \<open>The contract of \<open>Indexer\<close>\<close>

text \<open>
  \<open>entries\<close> is the map an index stands for.  \<open>put\<close> and \<open>delete\<close> return what was there, \<open>items\<close>
  lists the entries in ascending key order.
\<close>

locale indexer =
  fixes put :: "'i \<Rightarrow> bytes \<Rightarrow> log_record_pos \<Rightarrow> log_record_pos option res \<times> 'i"
    and get :: "'i \<Rightarrow> bytes \<Rightarrow> log_record_pos option res"
    and delete :: "'i \<Rightarrow> bytes \<Rightarrow> log_record_pos option res \<times> 'i"
    and list_keys :: "'i \<Rightarrow> bytes list res"
    and items :: "'i \<Rightarrow> items res"
    and entries :: "'i \<Rightarrow> bytes \<Rightarrow> log_record_pos option"
    and inv :: "'i \<Rightarrow> bool"
  assumes put_law: "inv i \<Longrightarrow>
      \<exists>i'. put i k p = (Ok (entries i k), i') \<and> inv i' \<and> entries i' = (entries i)(k \<mapsto> p)"
    and get_law: "inv i \<Longrightarrow> get i k = Ok (entries i k)"
    and delete_law: "inv i \<Longrightarrow>
      \<exists>i'. delete i k = (Ok (entries i k), i') \<and> inv i' \<and> entries i' = (entries i)(k := None)"
    and items_law: "inv i \<Longrightarrow> \<exists>xs. items i = Ok xs \<and> bt_ok xs \<and> map_of xs = entries i"
    and keys_law: "inv i \<Longrightarrow> list_keys i = res_map (map fst) (items i)"
begin

lemma putE:
  assumes "inv i"
  obtains i' where "put i k p = (Ok (entries i k), i')" "inv i'" "entries i' = (entries i)(k \<mapsto> p)"
  using put_law [OF assms] by blast

lemma deleteE:
  assumes "inv i"
  obtains i' where "delete i k = (Ok (entries i k), i')" "inv i'"
    "entries i' = (entries i)(k := None)"
  using delete_law [OF assms] by blast

lemma itemsE:
  assumes "inv i"
  obtains xs where "items i = Ok xs" "bt_ok xs" "map_of xs = entries i"
  using items_law [OF assms] by blast

lemma list_keys_sorted:
  assumes "inv i"
  shows "\<exists>ks. list_keys i = Ok ks \<and> sorted_wrt (<) ks \<and> set ks = dom (entries i)"
proof -
  obtain xs where "items i = Ok xs" "bt_ok xs" "map_of xs = entries i"
    using itemsE [OF assms] .
  moreover from this have "dom (entries i) = set (map fst xs)"
    by (metis dom_map_of_conv_image_fst set_map)
  ultimately show ?thesis
    using keys_law [OF assms] by (simp add: bt_ok_def)
qed

end

definition bptree_entries ::
  "'z crates_scheme \<Rightarrow> 'b jammdb_ops \<Rightarrow> 'b \<Rightarrow> bytes \<Rightarrow> log_record_pos option" where
  "bptree_entries C J b k =
     (case jm_get J b k of
        None \<Rightarrow> None
      | Some v \<Rightarrow> (case decode_log_record_pos C v of Ok p \<Rightarrow> Some p | _ \<Rightarrow> None))"

definition bptree_inv :: "'z crates_scheme \<Rightarrow> 'b jammdb_ops \<Rightarrow> 'b \<Rightarrow> bool" where
  "bptree_inv C J b \<longleftrightarrow> crates_ok C \<and> jammdb_ok J \<and>
     (\<forall>k v. jm_get J b k = Some v \<longrightarrow> (\<exists>p. decode_log_record_pos C v = Ok p))"

lemma jammdb_ok_tx:
  assumes "jammdb_ok J"
  shows "jm_tx J b" "jm_bucket J b" "jm_commit J b"
  using assms by (simp_all add: jammdb_ok_def)

lemma jammdb_ok_put:
  "jammdb_ok J \<Longrightarrow> \<exists>b'. jm_put J b k v = Some b' \<and> jm_get J b' = (jm_get J b)(k \<mapsto> v)"
  by (simp add: jammdb_ok_def)

lemma jammdb_ok_delete:
  "jammdb_ok J \<Longrightarrow>
    (case jm_delete J b k of
       None \<Rightarrow> jm_get J b k = None
     | Some (v, b') \<Rightarrow> jm_get J b k = Some v \<and> jm_get J b' = (jm_get J b)(k := None))"
  unfolding jammdb_ok_def by blast

lemma jammdb_ok_cursor:
  assumes "jammdb_ok J"
  shows "bt_ok (jm_cursor J b)" "map_of (jm_cursor J b) = jm_get J b"
  using assms by (simp_all add: jammdb_ok_def)

lemma bptree_put_law:
  assumes "bptree_inv C J b"
  shows "\<exists>b'. bptree_put C J b k p = (Ok (bptree_entries C J b k), b') \<and> bptree_inv C J b' \<and>
    bptree_entries C J b' = (bptree_entries C J b)(k \<mapsto> p)"
proof -
  have C: "crates_ok C" and J: "jammdb_ok J"
    and dec: "\<And>k v. jm_get J b k = Some v \<Longrightarrow> \<exists>p. decode_log_record_pos C v = Ok p"
    using assms by (auto simp: bptree_inv_def)
  obtain b' where b': "jm_put J b k (LogRecordPos_encode C p) = Some b'"
    "jm_get J b' = (jm_get J b)(k \<mapsto> LogRecordPos_encode C p)"
    using jammdb_ok_put [OF J] by blast
  have "bptree_put C J b k p = (Ok (bptree_entries C J b k), b')"
    using jammdb_ok_tx [OF J] b'(1) dec
    by (fastforce simp: bptree_put_def bptree_entries_def split: option.splits)
  moreover have "bptree_inv C J b'"
    using C J dec by (auto simp: bptree_inv_def b'(2) decode_encode_pos)
  moreover have "bptree_entries C J b' = (bptree_entries C J b)(k \<mapsto> p)"
    by (auto simp: bptree_entries_def b'(2) decode_encode_pos [OF C])
  ultimately show ?thesis by blast
qed

lemma bptree_delete_law:
  assumes "bptree_inv C J b"
  shows "\<exists>b'. bptree_delete C J b k = (Ok (bptree_entries C J b k), b') \<and> bptree_inv C J b' \<and>
    bptree_entries C J b' = (bptree_entries C J b)(k := None)"
proof -
  have C: "crates_ok C" and J: "jammdb_ok J"
    and dec: "\<And>k v. jm_get J b k = Some v \<Longrightarrow> \<exists>p. decode_log_record_pos C v = Ok p"
    using assms by (auto simp: bptree_inv_def)
  show ?thesis
  proof (cases "jm_delete J b k")
    case None
    then have "jm_get J b k = None" using jammdb_ok_delete [OF J, of b k] by simp
    then show ?thesis
      using None jammdb_ok_tx [OF J] assms
      by (auto simp: bptree_delete_def bptree_entries_def fun_eq_iff)
  next
    case (Some vb)
    obtain v b' where vb: "vb = (v, b')" by (cases vb)
    have b': "jm_get J b k = Some v" "jm_get J b' = (jm_get J b)(k := None)"
      using jammdb_ok_delete [OF J, of b k] Some vb by simp_all
    obtain p where p: "decode_log_record_pos C v = Ok p" using dec b'(1) by blast
    have "bptree_delete C J b k = (Ok (bptree_entries C J b k), b')"
      using jammdb_ok_tx [OF J] Some vb p b'(1)
      by (simp add: bptree_delete_def bptree_entries_def)
    moreover have "bptree_inv C J b'"
      using C J dec by (auto simp: bptree_inv_def b'(2))
    moreover have "bptree_entries C J b' = (bptree_entries C J b)(k := None)"
      by (auto simp: bptree_entries_def b'(2))
    ultimately show ?thesis by blast
  qed
qed

lemma decode_items_total:
  assumes "\<forall>(k, v) \<in> set kvs. \<exists>p. decode_log_record_pos C v = Ok p"
  shows "\<exists>xs. decode_items C kvs = Ok xs \<and> map fst xs = map fst kvs \<and>
    (\<forall>k. map_of xs k = (case map_of kvs k of None \<Rightarrow> None
       | Some v \<Rightarrow> (case decode_log_record_pos C v of Ok p \<Rightarrow> Some p | _ \<Rightarrow> None)))"
  using assms
proof (induction kvs)
  case (Cons kv kvs)
  then obtain xs where "decode_items C kvs = Ok xs" "map fst xs = map fst kvs"
    "\<forall>k. map_of xs k = (case map_of kvs k of None \<Rightarrow> None
       | Some v \<Rightarrow> (case decode_log_record_pos C v of Ok p \<Rightarrow> Some p | _ \<Rightarrow> None))"
    by auto
  moreover obtain p where "decode_log_record_pos C (snd kv) = Ok p"
    using Cons.prems by (cases kv) auto
  ultimately show ?case by (cases kv) auto
qed simp

lemma bptree_items_law:
  assumes "bptree_inv C J b"
  shows "\<exists>xs. bptree_items C J b = Ok xs \<and> bt_ok xs \<and> map_of xs = bptree_entries C J b \<and>
    map fst xs = map fst (jm_cursor J b)"
proof -
  have J: "jammdb_ok J"
    and dec: "\<And>k v. jm_get J b k = Some v \<Longrightarrow> \<exists>p. decode_log_record_pos C v = Ok p"
    using assms by (auto simp: bptree_inv_def)
  note cur = jammdb_ok_cursor [OF J, of b]
  have "\<forall>(k, v) \<in> set (jm_cursor J b). \<exists>p. decode_log_record_pos C v = Ok p"
    using dec cur by (auto simp: bt_ok_distinct simp flip: map_of_eq_Some_iff)
  from decode_items_total [OF this] obtain xs where
    "decode_items C (jm_cursor J b) = Ok xs" "map fst xs = map fst (jm_cursor J b)"
    "\<forall>k. map_of xs k = bptree_entries C J b k"
    unfolding cur(2) bptree_entries_def by blast
  then show ?thesis
    using cur(1) jammdb_ok_tx [OF J] by (auto simp: bptree_items_def bt_ok_def)
qed

definition index_entries :: "('s, 'b) env \<Rightarrow> ('s, 'b) index \<Rightarrow> bytes \<Rightarrow> log_record_pos option" where
  "index_entries E i =
     (case i of
        BTreeIndex t \<Rightarrow> map_of t
      | SkipListIndex m \<Rightarrow> sm_get (skipmap E) m
      | BPlusTreeIndex b \<Rightarrow> bptree_entries E (jammdb E) b)"

definition index_inv :: "('s, 'b) env \<Rightarrow> ('s, 'b) index \<Rightarrow> bool" where
  "index_inv E i \<longleftrightarrow>
     (case i of
        BTreeIndex t \<Rightarrow> bt_ok t
      | SkipListIndex m \<Rightarrow> skipmap_ok (skipmap E)
      | BPlusTreeIndex b \<Rightarrow> bptree_inv E (jammdb E) b)"

interpretation bt: indexer btree_put btree_get btree_delete btree_list_keys Ok map_of bt_ok
  by unfold_locales
    (simp_all add: btree_put_def btree_get_def btree_delete_def btree_list_keys_def bt_insert_def
      bt_remove_def bt_get_map_of bt_ok_put bt_ok_del map_of_bt_put map_of_bt_del)

lemma skl_delete_eq:
  "skl_delete S m k = (Ok (fst (sm_remove S m k)), snd (sm_remove S m k))"
  by (simp add: skl_delete_def split_beta)

interpretation skl: indexer "skl_put S" "skl_get S" "skl_delete S" "skl_list_keys S"
    "\<lambda>m. Ok (sm_iter S m)" "sm_get S" "\<lambda>m. skipmap_ok S" for S :: "'s skipmap_ops"
  by unfold_locales
    (simp_all add: skl_put_def skl_get_def skl_delete_eq skl_list_keys_def skipmap_ok_def fun_eq_iff
      Let_def)

interpretation bpt: indexer "bptree_put C J" "bptree_get C J" "bptree_delete C J"
    "bptree_list_keys J" "bptree_items C J" "bptree_entries C J" "bptree_inv C J"
  for C :: "'z crates_scheme" and J :: "'b jammdb_ops"
proof
  fix b k p assume inv: "bptree_inv C J b"
  show "\<exists>b'. bptree_put C J b k p = (Ok (bptree_entries C J b k), b') \<and> bptree_inv C J b' \<and>
    bptree_entries C J b' = (bptree_entries C J b)(k \<mapsto> p)"
    by (rule bptree_put_law [OF inv])
  show "bptree_get C J b k = Ok (bptree_entries C J b k)"
    using inv by (fastforce simp: bptree_get_def bptree_entries_def bptree_inv_def jammdb_ok_tx
        split: option.splits)
  show "\<exists>b'. bptree_delete C J b k = (Ok (bptree_entries C J b k), b') \<and> bptree_inv C J b' \<and>
    bptree_entries C J b' = (bptree_entries C J b)(k := None)"
    by (rule bptree_delete_law [OF inv])
  show "\<exists>xs. bptree_items C J b = Ok xs \<and> bt_ok xs \<and> map_of xs = bptree_entries C J b"
    using bptree_items_law [OF inv] by blast
  show "bptree_list_keys J b = res_map (map fst) (bptree_items C J b)"
    using bptree_items_law [OF inv] inv
    by (auto simp: bptree_list_keys_def bptree_inv_def jammdb_ok_tx)
qed

text \<open>The dispatch keeps the contract of whichever index it holds.\<close>

lemma index_put_law:
  assumes "index_inv E i"
  shows "\<exists>i'. index_put E i k p = (Ok (index_entries E i k), i') \<and> index_inv E i' \<and>
    index_entries E i' = (index_entries E i)(k \<mapsto> p)"
proof (cases i)
  case (BTreeIndex t)
  with assms bt.put_law [of t k p] show ?thesis by (auto simp: index_inv_def index_entries_def)
next
  case (SkipListIndex m)
  with assms skl.put_law [of "skipmap E" m k p] show ?thesis
    by (auto simp: index_inv_def index_entries_def)
next
  case (BPlusTreeIndex b)
  with assms bpt.put_law [of E "jammdb E" b k p] show ?thesis
    by (auto simp: index_inv_def index_entries_def)
qed

lemma index_delete_law:
  assumes "index_inv E i"
  shows "\<exists>i'. index_delete E i k = (Ok (index_entries E i k), i') \<and> index_inv E i' \<and>
    index_entries E i' = (index_entries E i)(k := None)"
proof (cases i)
  case (BTreeIndex t)
  with assms bt.delete_law [of t k] show ?thesis by (auto simp: index_inv_def index_entries_def)
next
  case (SkipListIndex m)
  with assms skl.delete_law [of "skipmap E" m k] show ?thesis
    by (auto simp: index_inv_def index_entries_def)
next
  case (BPlusTreeIndex b)
  with assms bpt.delete_law [of E "jammdb E" b k] show ?thesis
    by (auto simp: index_inv_def index_entries_def)
qed

lemma index_items_law:
  assumes "index_inv E i"
  shows "\<exists>xs. index_items E i = Ok xs \<and> bt_ok xs \<and> map_of xs = index_entries E i"
  using assms bt.items_law skl.items_law [of "skipmap E"] bpt.items_law [of E "jammdb E"]
  by (cases i) (simp_all add: index_inv_def index_entries_def)

interpretation ix: indexer "index_put E" "index_get E" "index_delete E" "index_list_keys E"
    "index_items E" "index_entries E" "index_inv E" for E :: "('s, 'b) env"
proof
  fix i :: "('s, 'b) index" and k p
  assume inv: "index_inv E i"
  show "\<exists>i'. index_put E i k p = (Ok (index_entries E i k), i') \<and> index_inv E i' \<and>
      index_entries E i' = (index_entries E i)(k \<mapsto> p)"
    by (rule index_put_law [OF inv])
  show "index_get E i k = Ok (index_entries E i k)"
    using inv
    by (cases i) (simp_all add: index_inv_def index_entries_def bt.get_law skl.get_law bpt.get_law)
  show "\<exists>i'. index_delete E i k = (Ok (index_entries E i k), i') \<and> index_inv E i' \<and>
      index_entries E i' = (index_entries E i)(k := None)"
    by (rule index_delete_law [OF inv])
  show "\<exists>xs. index_items E i = Ok xs \<and> bt_ok xs \<and> map_of xs = index_entries E i"
    by (rule index_items_law [OF inv])
  show "index_list_keys E i = res_map (map fst) (index_items E i)"
    using inv by (cases i) (simp_all add: index_inv_def bt.keys_law skl.keys_law bpt.keys_law)
qed

end
