(* ===== verification/IndexIter.thy ===== *)
theory IndexIter
  imports Index
begin

text \<open>
  The iterators of \<^verbatim>\<open>bitcask-rs/src/index/btree.rs\<close> (the ones of \<^verbatim>\<open>skiplist.rs\<close> and \<^verbatim>\<open>bptree.rs\<close> have
  the same code): a copy of the items, a position in it, and the options.
\<close>

record index_iterator =
  it_items :: items
  curr_index :: nat
  it_options :: iterator_options

datatype ordering = Less | Equal | Greater

definition bytes_cmp :: "bytes \<Rightarrow> bytes \<Rightarrow> ordering" where
  "bytes_cmp x y = (if x < y then Less else if x = y then Equal else Greater)"

primrec ordering_reverse :: "ordering \<Rightarrow> ordering" where
  "ordering_reverse Less = Greater"
| "ordering_reverse Equal = Equal"
| "ordering_reverse Greater = Less"

subsection \<open>\<open>slice::binary_search_by\<close>\<close>

datatype search_result = Found nat | NotFound nat

text \<open>The loop of the standard library: \<open>size\<close> is halved while it is above one.\<close>

function bsearch_loop :: "(nat \<Rightarrow> ordering) \<Rightarrow> nat \<Rightarrow> nat \<Rightarrow> nat" where
  "bsearch_loop f base sz =
     (if sz \<le> 1 then base
      else let half = sz div 2; mid = base + half
           in bsearch_loop f (if f mid = Greater then base else mid) (sz - half))"
  by pat_completeness auto
termination
  by (relation "measure (\<lambda>(f, base, sz). sz)") auto

declare bsearch_loop.simps [simp del]

definition binary_search_by :: "(nat \<Rightarrow> ordering) \<Rightarrow> nat \<Rightarrow> search_result" where
  "binary_search_by f n =
     (if n = 0 then NotFound 0
      else let base = bsearch_loop f 0 n
           in if f base = Equal then Found base
              else NotFound (base + (if f base = Less then 1 else 0)))"

subsection \<open>The iterator\<close>

definition iterator_new :: "items \<Rightarrow> iterator_options \<Rightarrow> index_iterator" where
  "iterator_new xs opts =
     \<lparr>it_items = (if it_reverse opts then rev xs else xs), curr_index = 0, it_options = opts\<rparr>"

definition iter_rewind :: "index_iterator \<Rightarrow> index_iterator" where
  "iter_rewind it = it\<lparr>curr_index := 0\<rparr>"

definition iter_seek :: "bytes \<Rightarrow> index_iterator \<Rightarrow> index_iterator" where
  "iter_seek key it =
     it\<lparr>curr_index :=
         (case binary_search_by
                 (\<lambda>i. let x = fst (it_items it ! i) in
                      if it_reverse (it_options it) then ordering_reverse (bytes_cmp x key)
                      else bytes_cmp x key)
                 (length (it_items it)) of
            Found equal_val \<Rightarrow> equal_val
          | NotFound insert_val \<Rightarrow> insert_val)\<rparr>"

function iter_next_from ::
  "items \<Rightarrow> bytes \<Rightarrow> nat \<Rightarrow> (bytes \<times> log_record_pos) option \<times> nat" where
  "iter_next_from xs prefix i =
     (if i < length xs then
        (if prefix = [] \<or> starts_with (fst (xs ! i)) prefix then (Some (xs ! i), i + 1)
         else iter_next_from xs prefix (i + 1))
      else (None, i))"
  by pat_completeness auto
termination
  by (relation "measure (\<lambda>(xs, prefix, i). length xs - i)") auto

declare iter_next_from.simps [simp del]

definition iter_next ::
  "index_iterator \<Rightarrow> (bytes \<times> log_record_pos) option \<times> index_iterator" where
  "iter_next it =
     (if length (it_items it) \<le> curr_index it then (None, it)
      else case iter_next_from (it_items it) (it_prefix (it_options it)) (curr_index it) of
             (item, i) \<Rightarrow> (item, it\<lparr>curr_index := i\<rparr>))"

text \<open>\<open>while let Some(item) = iter.next()\<close>, collecting the items.\<close>

function iter_drain :: "index_iterator \<Rightarrow> items" where
  "iter_drain it =
     (case iter_next it of
        (None, _) \<Rightarrow> []
      | (Some item, it') \<Rightarrow> item # iter_drain it')"
  by pat_completeness auto

lemma iter_next_from_progress:
  "iter_next_from xs prefix i = (Some item, j) \<Longrightarrow> i < j \<and> j \<le> length xs"
proof (induction xs prefix i rule: iter_next_from.induct)
  case (1 xs prefix i)
  then show ?case
    by (auto simp: iter_next_from.simps [of xs prefix i] split: if_splits)
qed

lemma iter_next_progress:
  "iter_next it = (Some item, it') \<Longrightarrow>
   length (it_items it') - curr_index it' < length (it_items it) - curr_index it"
  by (auto simp: iter_next_def split: if_splits prod.splits dest!: iter_next_from_progress)

termination iter_drain
  by (relation "measure (\<lambda>it. length (it_items it) - curr_index it)")
    (auto dest: iter_next_progress [OF sym])

declare iter_drain.simps [simp del]

subsection \<open>Seeking\<close>

text \<open>
  When the comparison says \<open>Less\<close> below \<open>p\<close> and \<open>Greater\<close> above it, the search returns \<open>p\<close>.
\<close>

lemma bsearch_loop_range:
  "0 < sz \<Longrightarrow> base \<le> bsearch_loop f base sz \<and> bsearch_loop f base sz < base + sz"
proof (induction f base sz rule: bsearch_loop.induct)
  case (1 f base sz)
  show ?case
  proof (cases "sz \<le> 1")
    case False
    then have "0 < sz - sz div 2" by simp
    from "1.IH" [OF False refl refl this] show ?thesis
      using False by (auto simp: bsearch_loop.simps [of f base sz] Let_def split: if_splits)
  qed (use "1.prems" in \<open>simp add: bsearch_loop.simps [of f base sz]\<close>)
qed

lemma bsearch_loop_split:
  assumes "base = 0 \<or> f base \<noteq> Greater"
    and "\<And>i. base + sz \<le> i \<Longrightarrow> i < n \<Longrightarrow> f i = Greater"
    and "\<And>i j. i < j \<Longrightarrow> j < n \<Longrightarrow> f i = Greater \<Longrightarrow> f j = Greater"
    and "0 < sz" "base + sz \<le> n"
  defines "b \<equiv> bsearch_loop f base sz"
  shows "(b = 0 \<or> f b \<noteq> Greater) \<and> (\<forall>i. b < i \<and> i < n \<longrightarrow> f i = Greater)"
  using assms(1-5) unfolding b_def
proof (induction f base sz rule: bsearch_loop.induct)
  case (1 f base sz)
  show ?case
  proof (cases "sz \<le> 1")
    case True
    with "1.prems" show ?thesis by (auto simp: bsearch_loop.simps [of f base sz])
  next
    case False
    define half where "half = sz div 2"
    define mid where "mid = base + half"
    define base' where "base' = (if f mid = Greater then base else mid)"
    have h: "0 < half" "half < sz" "mid < n" using False "1.prems"(5) by (auto simp: half_def mid_def)
    have "bsearch_loop f base sz = bsearch_loop f base' (sz - half)"
      using False by (simp add: bsearch_loop.simps [of f base sz] Let_def half_def mid_def base'_def)
    moreover have "(bsearch_loop f base' (sz - half) = 0 \<or> f (bsearch_loop f base' (sz - half)) \<noteq> Greater) \<and>
        (\<forall>i. bsearch_loop f base' (sz - half) < i \<and> i < n \<longrightarrow> f i = Greater)"
      unfolding base'_def
    proof (rule "1.IH" [OF False half_def mid_def])
      show "(if f mid = Greater then base else mid) = 0
          \<or> f (if f mid = Greater then base else mid) \<noteq> Greater"
        using "1.prems"(1) by auto
      fix i assume i: "(if f mid = Greater then base else mid) + (sz - half) \<le> i" "i < n"
      show "f i = Greater"
      proof (cases "f mid = Greater \<and> i < base + sz")
        case True
        then have "mid \<le> i" using i by (auto simp: mid_def half_def)
        then show ?thesis using "1.prems"(3) [of mid i] True i(2) by (cases "mid = i") auto
      next
        case False
        then have "base + sz \<le> i" using i by (auto simp: mid_def split: if_splits)
        then show ?thesis using "1.prems"(2) i(2) by blast
      qed
    qed (use "1.prems" h in \<open>auto simp: mid_def half_def\<close>)
    ultimately show ?thesis by simp
  qed
qed

lemma binary_search_by_boundary:
  assumes "p \<le> n" and less: "\<And>i. i < p \<Longrightarrow> f i = Less"
    and above: "\<And>i. p < i \<Longrightarrow> i < n \<Longrightarrow> f i = Greater"
    and at: "p < n \<Longrightarrow> f p \<noteq> Less"
  shows "binary_search_by f n = (if p < n \<and> f p = Equal then Found p else NotFound p)"
proof (cases "n = 0")
  case True
  then show ?thesis using assms(1) by (simp add: binary_search_by_def)
next
  case False
  define b where "b = bsearch_loop f 0 n"
  have mono: "f i = Greater \<Longrightarrow> f j = Greater" if "i < j" "j < n" for i j
    using less [of i] above [of j] that by (cases "i < p") auto
  have b: "(b = 0 \<or> f b \<noteq> Greater) \<and> (\<forall>i. b < i \<and> i < n \<longrightarrow> f i = Greater)"
    unfolding b_def using False mono by (intro bsearch_loop_split) auto
  have bn: "b < n"
    unfolding b_def using bsearch_loop_range [of n 0 f] False by simp
  have "p \<le> Suc b"
    using b less [of "Suc b"] assms(1) by (metis Suc_lessI lessI not_less_eq_eq ordering.distinct(3) order_less_le_trans not_less)
  then consider "p = Suc b" | "p = b" | "p < b" by linarith
  then show ?thesis
  proof cases
    case 1
    with less [of b] b bn show ?thesis
      using at by (auto simp: binary_search_by_def False simp flip: b_def)
  next
    case 2
    with at b bn show ?thesis
      by (cases "f b") (auto simp: binary_search_by_def False simp flip: b_def)
  next
    case 3
    with above [of b] b bn show ?thesis by auto
  qed
qed

lemma takeWhile_boundary:
  assumes "p = length (takeWhile P xs)"
  shows "p \<le> length xs" and "i < p \<Longrightarrow> P (xs ! i)" and "p < length xs \<Longrightarrow> \<not> P (xs ! p)"
  using assms by (auto simp: length_takeWhile_le nth_length_takeWhile)
    (metis nth_mem set_takeWhileD takeWhile_nth)

text \<open>A sequence sorted by a strict order, searched for a key.\<close>

lemma iter_seek_boundary:
  fixes it :: index_iterator and key :: bytes
  defines "xs \<equiv> it_items it"
  defines "f \<equiv> \<lambda>i. let x = fst (xs ! i) in
      if it_reverse (it_options it) then ordering_reverse (bytes_cmp x key) else bytes_cmp x key"
  assumes sorted: "\<And>i j. i < j \<Longrightarrow> j < length xs \<Longrightarrow>
      (if it_reverse (it_options it) then fst (xs ! j) < fst (xs ! i) else fst (xs ! i) < fst (xs ! j))"
  shows "curr_index (iter_seek key it) =
    length (takeWhile (\<lambda>x. if it_reverse (it_options it) then key < fst x else fst x < key) xs)"
proof -
  define P where "P = (\<lambda>x :: bytes \<times> log_record_pos.
      if it_reverse (it_options it) then key < fst x else fst x < key)"
  define p where "p = length (takeWhile P xs)"
  note bound = takeWhile_boundary [OF p_def]
  have less: "f i = Less \<longleftrightarrow> P (xs ! i)" for i
    by (auto simp: f_def P_def bytes_cmp_def Let_def)
  have above: "f i = Greater" if "p < i" "i < length xs" for i
  proof -
    have "\<not> P (xs ! p)" using bound(3) that by simp
    then show ?thesis
      using sorted [OF that] by (auto simp: f_def P_def bytes_cmp_def Let_def split: if_splits)
  qed
  have "binary_search_by f (length xs) = (if p < length xs \<and> f p = Equal then Found p else NotFound p)"
    by (rule binary_search_by_boundary) (use bound less above in auto)
  then have "curr_index (iter_seek key it) = p"
    by (simp add: iter_seek_def f_def xs_def)
  then show ?thesis by (simp add: p_def P_def)
qed

lemma starts_with_Nil [simp]: "starts_with s []"
  by (simp add: starts_with_def)

lemma iter_next_from_filter:
  "iter_next_from xs prefix i = (res, j) \<Longrightarrow>
   filter (\<lambda>x. starts_with (fst x) prefix) (drop i xs) =
     (case res of
        None \<Rightarrow> []
      | Some y \<Rightarrow> y # filter (\<lambda>x. starts_with (fst x) prefix) (drop j xs))"
proof (induction xs prefix i rule: iter_next_from.induct)
  case (1 xs prefix i)
  show ?case
  proof (cases "i < length xs")
    case True
    then have "drop i xs = xs ! i # drop (i + 1) xs" by (simp add: Cons_nth_drop_Suc)
    with True 1 show ?thesis
      by (auto simp: iter_next_from.simps [of xs prefix i] split: if_splits)
  next
    case False
    with "1.prems" show ?thesis by (simp add: iter_next_from.simps [of xs prefix i])
  qed
qed

text \<open>Draining an iterator returns the items with the prefix, from its position on.\<close>

lemma iter_drain_filter:
  "iter_drain it =
     filter (\<lambda>x. starts_with (fst x) (it_prefix (it_options it))) (drop (curr_index it) (it_items it))"
proof (induction it rule: iter_drain.induct)
  case (1 it)
  show ?case
  proof (cases "length (it_items it) \<le> curr_index it")
    case True
    then show ?thesis by (simp add: iter_drain.simps [of it] iter_next_def)
  next
    case False
    obtain y j where yj: "iter_next_from (it_items it) (it_prefix (it_options it)) (curr_index it) = (y, j)"
      by fastforce
    from False yj have nxt: "iter_next it = (y, it\<lparr>curr_index := j\<rparr>)" by (simp add: iter_next_def)
    show ?thesis
    proof (cases y)
      case None
      then show ?thesis
        using iter_next_from_filter [OF yj] nxt by (simp add: iter_drain.simps [of it])
    next
      case (Some item)
      with nxt have "iter_next it = (Some item, it\<lparr>curr_index := j\<rparr>)" by simp
      from "1.IH" [OF this [symmetric] refl] this Some show ?thesis
        using iter_next_from_filter [OF yj] by (simp add: iter_drain.simps [of it])
    qed
  qed
qed

lemma sorted_nth_less:
  "bt_ok xs \<Longrightarrow> i < j \<Longrightarrow> j < length xs \<Longrightarrow> fst (xs ! i) < fst (xs ! j)"
  unfolding bt_ok_def by (simp add: sorted_wrt_iff_nth_less)

lemma drop_takeWhile_eq_filter:
  "bt_ok xs \<Longrightarrow> drop (length (takeWhile (\<lambda>x. fst x < k) xs)) xs = filter (\<lambda>x. k \<le> fst x) xs"
proof (induction xs)
  case (Cons x xs)
  then have x: "bt_ok xs" "\<And>y. y \<in> set xs \<Longrightarrow> fst x < fst y" by (cases x; auto)+
  show ?case
  proof (cases "fst x < k")
    case True
    then show ?thesis using Cons.IH x(1) by simp
  next
    case False
    then have "\<And>y. y \<in> set xs \<Longrightarrow> k \<le> fst y" using x(2) by (meson leI less_imp_le order.trans)
    then show ?thesis using False by (simp add: leI)
  qed
qed simp

lemma drop_takeWhile_rev_eq_filter:
  "bt_ok xs \<Longrightarrow> drop (length (takeWhile (\<lambda>x. k < fst x) (rev xs))) (rev xs)
     = filter (\<lambda>x. fst x \<le> k) (rev xs)"
proof (induction xs rule: rev_induct)
  case (snoc x xs)
  then have x: "bt_ok xs" "\<And>y. y \<in> set xs \<Longrightarrow> fst y < fst x"
    by (auto simp: bt_ok_def sorted_wrt_append)
  show ?case
  proof (cases "k < fst x")
    case True
    then show ?thesis using snoc.IH x(1) by simp
  next
    case False
    then have "\<And>y. y \<in> set xs \<Longrightarrow> fst y \<le> k" using x(2) by (meson leI less_imp_le order.trans)
    then show ?thesis using False by (simp add: leI)
  qed
qed simp

lemma iter_seek_drain:
  assumes "bt_ok xs"
  shows "iter_drain (iter_seek key (iterator_new xs opts)) =
    (if it_reverse opts
     then filter (\<lambda>x. fst x \<le> key \<and> starts_with (fst x) (it_prefix opts)) (rev xs)
     else filter (\<lambda>x. key \<le> fst x \<and> starts_with (fst x) (it_prefix opts)) xs)"
proof -
  let ?it = "iterator_new xs opts"
  have sorted: "if it_reverse (it_options ?it) then fst (it_items ?it ! j) < fst (it_items ?it ! i)
      else fst (it_items ?it ! i) < fst (it_items ?it ! j)"
    if "i < j" "j < length (it_items ?it)" for i j
    using that sorted_nth_less [OF assms] by (auto simp: iterator_new_def rev_nth)
  have seek: "curr_index (iter_seek key ?it) = length (takeWhile
      (\<lambda>x. if it_reverse (it_options ?it) then key < fst x else fst x < key) (it_items ?it))"
    by (rule iter_seek_boundary [OF sorted])
  have frame: "it_items (iter_seek key ?it) = it_items ?it"
    "it_options (iter_seek key ?it) = it_options ?it"
    by (simp_all add: iter_seek_def)
  show ?thesis
    unfolding iter_drain_filter seek frame
    using drop_takeWhile_eq_filter [OF assms, of key] drop_takeWhile_rev_eq_filter [OF assms, of key]
    by (cases "it_reverse opts")
      (simp_all add: iterator_new_def filter_filter conj_commute)
qed

lemma iter_rewind_drain:
  "iter_drain (iter_rewind it) =
     filter (\<lambda>x. starts_with (fst x) (it_prefix (it_options it))) (it_items it)"
  by (simp add: iter_drain_filter iter_rewind_def)

end
