(* ===== verification/Engine.thy ===== *)
theory Engine
  imports DataFile TxnKey IndexIter
begin

text \<open>
  The engine of \<^verbatim>\<open>bitcask-rs/src/db.rs\<close> while it runs: its state and the operations that append to
  the log, look keys up and close.  Opening and loading are in \<open>Load\<close>.

  An operation maps the engine and the file system to its result and their new values.  The locks
  of the struct serialise the operations; here an operation is one step.
\<close>

record ('s, 'b) engine =
  eng_options :: options
  active_file :: data_file
  older_files :: "(u32 \<times> data_file) list"
  eng_index :: "('s, 'b) index"
  file_ids :: "u32 list"
  seq_no :: nat
  seq_file_exists :: bool
  is_initial :: bool
  lock_file :: fpath
  bytes_write :: nat
  reclaim_size :: nat

type_synonym ('s, 'b) st = "('s, 'b) engine \<times> fs"

definition INITIAL_FILE_ID :: u32 where "INITIAL_FILE_ID = 0"
definition SEQ_NO_KEY :: string where "SEQ_NO_KEY = ''seq.no''"
definition FILE_LOCK_NAME :: string where "FILE_LOCK_NAME = ''flock''"

subsection \<open>Calls on a part of the state\<close>

definition on_fs :: "(fs \<Rightarrow> 'a res \<times> fs) \<Rightarrow> 'e \<times> fs \<Rightarrow> 'a res \<times> 'e \<times> fs" where
  "on_fs op st = (case st of (e, fs) \<Rightarrow> (case op fs of (r, fs') \<Rightarrow> (r, e, fs')))"

definition on_active ::
  "(data_file \<times> fs \<Rightarrow> 'a res \<times> data_file \<times> fs) \<Rightarrow> ('s, 'b) st \<Rightarrow> 'a res \<times> ('s, 'b) st" where
  "on_active op st =
     (case st of (e, fs) \<Rightarrow>
        (case op (active_file e, fs) of (r, df, fs') \<Rightarrow> (r, e\<lparr>active_file := df\<rparr>, fs')))"

definition on_index ::
  "(('s, 'b) index \<Rightarrow> 'a res \<times> ('s, 'b) index) \<Rightarrow> ('s, 'b) st \<Rightarrow> 'a res \<times> ('s, 'b) st" where
  "on_index op st =
     (case st of (e, fs) \<Rightarrow>
        (case op (eng_index e) of (r, i) \<Rightarrow> (r, e\<lparr>eng_index := i\<rparr>, fs)))"

definition on_engine :: "('e \<Rightarrow> 'e) \<Rightarrow> 'e \<times> fs \<Rightarrow> 'e \<times> fs" where
  "on_engine f st = (case st of (e, fs) \<Rightarrow> (f e, fs))"

text \<open>\<open>reclaim_size.fetch_add\<close> of the size of a replaced record.\<close>

definition add_reclaim :: "log_record_pos option \<Rightarrow> ('s, 'b) engine \<Rightarrow> ('s, 'b) engine" where
  "add_reclaim old e =
     (case old of
        None \<Rightarrow> e
      | Some p \<Rightarrow> e\<lparr>reclaim_size := fetch_add (reclaim_size e) (unat (pos_size p))\<rparr>)"

lemma on_simps [simp]:
  "on_fs op (e, fs) = (case op fs of (r, fs') \<Rightarrow> (r, e, fs'))"
  "on_active op' (e', fs) =
    (case op' (active_file e', fs) of (r, df, fs') \<Rightarrow> (r, e'\<lparr>active_file := df\<rparr>, fs'))"
  "on_index op'' (e', fs) =
    (case op'' (eng_index e') of (r, i) \<Rightarrow> (r, e'\<lparr>eng_index := i\<rparr>, fs))"
  "on_engine f (e, fs) = (f e, fs)"
  by (simp_all add: on_fs_def on_active_def on_index_def on_engine_def)

subsection \<open>Appending a record\<close>

text \<open>The active file reached its size: sync it, keep it as an old file, open the next one.\<close>

definition rotate_active :: "('s, 'b) env \<Rightarrow> ('s, 'b) st \<Rightarrow> unit res \<times> ('s, 'b) st" where
  "rotate_active E st =
     (let dir = dir_path (eng_options (fst st));
          current_file_id = df_file_id (active_file (fst st))
      in and_then (on_fs (df_sync E (active_file (fst st))) st) (\<lambda>_ st.
         and_then (on_fs (DataFile_new E dir current_file_id StandardFIO) st) (\<lambda>old_file st.
         let st = on_engine (\<lambda>e. e\<lparr>older_files :=
                    AList.update current_file_id old_file (older_files e)\<rparr>) st
         in and_then (add_u32 current_file_id 1, st) (\<lambda>new_id st.
            and_then (on_fs (DataFile_new E dir new_id StandardFIO) st) (\<lambda>new_active_file st.
              (Ok (), on_engine (\<lambda>e. e\<lparr>active_file := new_active_file\<rparr>) st))))))"

text \<open>Whether this write has to be made durable, from the options and the bytes written so far.\<close>

definition need_sync :: "options \<Rightarrow> nat \<Rightarrow> nat \<Rightarrow> bool res" where
  "need_sync opts previous len =
     (if sync_writes opts then Ok True
      else if bytes_per_sync opts = 0 then Ok False
      else res_map (\<lambda>total. bytes_per_sync opts \<le> total) (add_usize previous len))"

definition append_log_record ::
  "('s, 'b) env \<Rightarrow> log_record \<Rightarrow> ('s, 'b) st \<Rightarrow> log_record_pos res \<times> ('s, 'b) st" where
  "append_log_record E r st =
     and_then (LogRecord_encode E r, st) (\<lambda>en_record st.
     and_then (add_u64 (df_write_off (active_file (fst st))) (of_nat (length en_record)), st)
       (\<lambda>total st.
     and_then (if data_file_size (eng_options (fst st)) < total then rotate_active E st
               else (Ok (), st)) (\<lambda>_ st.
     let write_off = df_write_off (active_file (fst st)) in
     and_then (on_active (df_write E en_record) st) (\<lambda>_ st.
     let previous = bytes_write (fst st);
         st = on_engine (\<lambda>e. e\<lparr>bytes_write := fetch_add previous (length en_record)\<rparr>) st
     in and_then (need_sync (eng_options (fst st)) previous (length en_record), st) (\<lambda>sync st.
        and_then (if sync
                  then and_then (on_fs (df_sync E (active_file (fst st))) st) (\<lambda>_ st.
                         (Ok (), on_engine (\<lambda>e. e\<lparr>bytes_write := 0\<rparr>) st))
                  else (Ok (), st)) (\<lambda>_ st.
        (Ok (LogRecordPos_new (df_file_id (active_file (fst st))) write_off
               (of_nat (length en_record))), st)))))))"

subsection \<open>\<open>put\<close>, \<open>get\<close>, \<open>delete\<close>\<close>

definition put ::
  "('s, 'b) env \<Rightarrow> bytes \<Rightarrow> bytes \<Rightarrow> ('s, 'b) st \<Rightarrow> unit res \<times> ('s, 'b) st" where
  "put E k v st =
     (if k = [] then (Err KeyIsEmpty, st)
      else
        and_then (log_record_key_with_seq E k NON_TRANSACTION_SEQ_NO, st) (\<lambda>enc_key st.
        and_then (append_log_record E (LogRecord_new enc_key v Normal) st) (\<lambda>pos st.
        and_then (on_index (\<lambda>i. index_put E i k pos) st) (\<lambda>old_pos st.
          (Ok (), on_engine (add_reclaim old_pos) st)))))"

definition get_value_by_position ::
  "('s, 'b) env \<Rightarrow> log_record_pos \<Rightarrow> ('s, 'b) st \<Rightarrow> bytes res" where
  "get_value_by_position E p st =
     (case st of (e, fs) \<Rightarrow>
        res_bind
          (if df_file_id (active_file e) = pos_file_id p
           then read_log_record E fs (active_file e) (pos_offset p)
           else (case map_of (older_files e) (pos_file_id p) of
                   Some df \<Rightarrow> read_log_record E fs df (pos_offset p)
                 | None \<Rightarrow> Err DataFileNotFound))
          (\<lambda>rlr. if rec_type (rlr_record rlr) = Delete then Err KeyNotFound
                 else Ok (rec_value (rlr_record rlr))))"

definition get :: "('s, 'b) env \<Rightarrow> bytes \<Rightarrow> ('s, 'b) st \<Rightarrow> bytes res" where
  "get E k st =
     (if k = [] then Err KeyIsEmpty
      else res_bind (index_get E (eng_index (fst st)) k) (\<lambda>found.
             case found of
               None \<Rightarrow> Err KeyNotFound
             | Some p \<Rightarrow> get_value_by_position E p st))"

text \<open>The tombstone holds the key as it is, without the sequence number of the other records.\<close>

definition delete :: "('s, 'b) env \<Rightarrow> bytes \<Rightarrow> ('s, 'b) st \<Rightarrow> unit res \<times> ('s, 'b) st" where
  "delete E k st =
     (if k = [] then (Err KeyIsEmpty, st)
      else
        and_then (index_get E (eng_index (fst st)) k, st) (\<lambda>found st.
          case found of
            None \<Rightarrow> (Ok (), st)
          | Some _ \<Rightarrow>
              and_then (append_log_record E (LogRecord_new k [] Delete) st) (\<lambda>pos st.
              let st = on_engine (add_reclaim (Some pos)) st in
              and_then (on_index (\<lambda>i. index_delete E i k) st) (\<lambda>old_pos st.
                (Ok (), on_engine (add_reclaim old_pos) st)))))"

subsection \<open>\<open>sync\<close>, \<open>stat\<close>, \<open>close\<close>\<close>

definition engine_sync :: "('s, 'b) env \<Rightarrow> ('s, 'b) st \<Rightarrow> unit res \<times> ('s, 'b) st" where
  "engine_sync E st = on_fs (df_sync E (active_file (fst st))) st"

definition list_keys :: "('s, 'b) env \<Rightarrow> ('s, 'b) st \<Rightarrow> bytes list res" where
  "list_keys E st = index_list_keys E (eng_index (fst st))"

record stat =
  stat_key_num :: nat
  stat_data_file_num :: nat
  stat_reclaim_size :: nat
  stat_disk_size :: u64

definition dir_dis_size :: "'z os_scheme \<Rightarrow> fs \<Rightarrow> path \<Rightarrow> u64" where
  "dir_dis_size E fs d = (case get_size E fs d of None \<Rightarrow> 0 | Some n \<Rightarrow> n)"

definition available_disk_size :: "'z os_scheme \<Rightarrow> fs \<Rightarrow> u64" where
  "available_disk_size E fs = (case available_space E fs [''/''] of None \<Rightarrow> 0 | Some n \<Rightarrow> n)"

definition engine_stat :: "('s, 'b) env \<Rightarrow> ('s, 'b) st \<Rightarrow> stat res" where
  "engine_stat E st =
     (case st of (e, fs) \<Rightarrow>
        res_map (\<lambda>keys.
          \<lparr>stat_key_num = length keys,
           stat_data_file_num = length (older_files e) + 1,
           stat_reclaim_size = reclaim_size e,
           stat_disk_size = dir_dis_size E fs (dir_path (eng_options e))\<rparr>)
          (list_keys E st))"

definition unlock :: "'z os_scheme \<Rightarrow> fpath \<Rightarrow> fs \<Rightarrow> unit res \<times> fs" where
  "unlock E f fs =
     (if unlock_fails E fs f then (Err FailedToUnlockFile, fs)
      else (Ok (), fs\<lparr>fs_locks := filter (\<lambda>g. g \<noteq> f) (fs_locks fs)\<rparr>))"

definition close :: "('s, 'b) env \<Rightarrow> ('s, 'b) st \<Rightarrow> unit res \<times> ('s, 'b) st" where
  "close E st =
     (let dir = dir_path (eng_options (fst st)) in
      if \<not> is_dir (snd st) dir then (Ok (), st)
      else
        and_then (on_fs (new_seq_no_file E dir) st) (\<lambda>seq_no_file st.
        let record = LogRecord_new (string_bytes SEQ_NO_KEY)
                       (string_bytes (to_decimal (seq_no (fst st)))) Normal
        in and_then (LogRecord_encode E record, st) (\<lambda>en st.
           and_then (on_fs (\<lambda>fs. case df_write E en (seq_no_file, fs) of (r, _, fs') \<Rightarrow> (r, fs')) st)
             (\<lambda>_ st.
           and_then (on_fs (df_sync E seq_no_file) st) (\<lambda>_ st.
           and_then (on_fs (df_sync E (active_file (fst st))) st) (\<lambda>_ st.
             on_fs (unlock E (lock_file (fst st))) st))))))"

subsection \<open>Iterating over the engine\<close>

text \<open>\<open>Engine::iter\<close> copies the index entries; each \<open>next\<close> then reads the value of its entry.\<close>

definition engine_iter :: "('s, 'b) env \<Rightarrow> iterator_options \<Rightarrow> ('s, 'b) st \<Rightarrow> index_iterator res" where
  "engine_iter E opts st = res_map (\<lambda>xs. iterator_new xs opts) (index_items E (eng_index (fst st)))"

definition iterator_next ::
  "('s, 'b) env \<Rightarrow> ('s, 'b) st \<Rightarrow> index_iterator \<Rightarrow> (bytes \<times> bytes) option res \<times> index_iterator" where
  "iterator_next E st it =
     (case iter_next it of
        (None, it') \<Rightarrow> (Ok None, it')
      | (Some (k, p), it') \<Rightarrow>
          (case get_value_by_position E p st of
             Ok v \<Rightarrow> (Ok (Some (k, v)), it')
           | Err _ \<Rightarrow> (Ok None, it')
           | Panic \<Rightarrow> (Panic, it')))"

end
