(* ===== verification/RefEnv.thy ===== *)
theory RefEnv
  imports Engine "HOL-Library.RBT"
begin

unbundle bit_operations_syntax

text \<open>
  A concrete environment for the closed examples: protobuf varints (LEB128), CRC-32 as
  \<^verbatim>\<open>crc32fast\<close> computes it, big-endian integers, an operating system on which nothing fails and no
  directory takes more than 1 GiB, and red-black trees for the two index libraries.  It satisfies
  every law the theorems assume; no definition of the model uses it.
\<close>

subsection \<open>Varints\<close>

fun leb128 :: "nat \<Rightarrow> bytes" where
  "leb128 n = (if n < 128 then [of_nat n] else of_nat (n mod 128 + 128) # leb128 (n div 128))"

declare leb128.simps [simp del]

fun leb128_decode :: "bytes \<Rightarrow> (nat \<times> bytes) option" where
  "leb128_decode [] = None"
| "leb128_decode (b # bs) =
     (if unat b < 128 then Some (unat b, bs)
      else case leb128_decode bs of
             None \<Rightarrow> None
           | Some (n, rest) \<Rightarrow> Some (unat b - 128 + 128 * n, rest))"

fun leb128_len :: "nat \<Rightarrow> nat" where
  "leb128_len n = (if n < 128 then 1 else Suc (leb128_len (n div 128)))"

declare leb128_len.simps [simp del]

lemma unat_u8_of_nat: "n < 256 \<Longrightarrow> unat (of_nat n :: u8) = n"
  by (simp add: unat_of_nat)

lemma leb128_decode_encode: "leb128_decode (leb128 n @ rest) = Some (n, rest)"
proof (induction n rule: leb128.induct)
  case (1 n)
  show ?case
  proof (cases "n < 128")
    case True
    then show ?thesis by (simp add: leb128.simps [of n] unat_u8_of_nat)
  next
    case False
    have "unat (of_nat (n mod 128 + 128) :: u8) = n mod 128 + 128"
      by (rule unat_u8_of_nat) simp
    then show ?thesis
      using 1 [OF False] False by (simp add: leb128.simps [of n] del: of_nat_add)
  qed
qed

lemma length_leb128: "length (leb128 n) = leb128_len n"
  by (induction n rule: leb128.induct) (simp add: leb128.simps leb128_len.simps)

lemma leb128_len_pos: "Suc 0 \<le> leb128_len n"
  by (subst leb128_len.simps) simp

lemma leb128_len_bound: "n < 128 ^ Suc k \<Longrightarrow> leb128_len n \<le> Suc k"
proof (induction k arbitrary: n)
  case 0
  then show ?case by (simp add: leb128_len.simps)
next
  case (Suc k)
  then have "n div 128 < 128 ^ Suc k" by (simp add: less_mult_imp_div_less algebra_simps)
  then show ?case using Suc.IH by (subst leb128_len.simps) auto
qed

lemma leb128_len_mono: "m \<le> n \<Longrightarrow> leb128_len m \<le> leb128_len n"
proof (induction n arbitrary: m rule: leb128_len.induct)
  case (1 n)
  show ?case
  proof (cases "n < 128 \<or> m < 128")
    case True
    then show ?thesis using 1(2) leb128_len_pos [of n] by (auto simp: leb128_len.simps [of m] leb128_len.simps [of n])
  next
    case False
    then show ?thesis
      using 1(1) [of "m div 128"] div_le_mono [OF 1(2), of 128] by (simp add: leb128_len.simps [of m] leb128_len.simps [of n])
  qed
qed

lemma leb128_decode_shorter: "leb128_decode bs = Some (n, rest) \<Longrightarrow> length rest < length bs"
  by (induction bs arbitrary: n rest) (auto split: if_splits option.splits intro: less_SucI)

subsection \<open>CRC-32 and big-endian integers\<close>

definition crc_step :: "nat \<Rightarrow> nat" where
  "crc_step c = (if odd c then (c div 2) XOR 0xEDB88320 else c div 2)"

fun crc_steps :: "nat \<Rightarrow> nat \<Rightarrow> nat" where
  "crc_steps 0 c = c"
| "crc_steps (Suc n) c = crc_steps n (crc_step c)"

fun crc_bytes :: "nat \<Rightarrow> bytes \<Rightarrow> nat" where
  "crc_bytes c [] = c XOR 0xFFFFFFFF"
| "crc_bytes c (b # bs) = crc_bytes (crc_steps 8 (c XOR unat b)) bs"

definition crc32_ieee :: "bytes \<Rightarrow> u32" where
  "crc32_ieee bs = of_nat (crc_bytes 0xFFFFFFFF bs)"

text \<open>Rules that let the simplifier compute a checksum.\<close>

lemma crc_step_numeral:
  "crc_step (numeral (num.Bit0 n)) = numeral n"
  "crc_step (numeral (num.Bit1 n)) = numeral n XOR 0xEDB88320"
  by (simp_all add: crc_step_def)

lemma crc_steps_8:
  "crc_steps 8 c =
     crc_step (crc_step (crc_step (crc_step (crc_step (crc_step (crc_step (crc_step c)))))))"
  by (simp add: eval_nat_numeral)

lemmas crc_eval = crc32_ieee_def crc_steps_8 crc_step_numeral

definition be_u32 :: "u32 \<Rightarrow> bytes" where
  "be_u32 x =
     (let n = unat x in
      [of_nat (n div 2 ^ 24 mod 256), of_nat (n div 2 ^ 16 mod 256),
       of_nat (n div 2 ^ 8 mod 256), of_nat (n mod 256)])"

fun be_get_u32 :: "bytes \<Rightarrow> (u32 \<times> bytes) option" where
  "be_get_u32 (a # b # c # d # rest) =
     Some (of_nat (unat a * 2 ^ 24 + unat b * 2 ^ 16 + unat c * 2 ^ 8 + unat d), rest)"
| "be_get_u32 _ = None"

lemma be_digits:
  fixes n :: nat
  assumes "n < 4294967296"
  shows "n div 16777216 mod 256 * 16777216 + n div 65536 mod 256 * 65536
    + n div 256 mod 256 * 256 + n mod 256 = n"
proof -
  have "n = n div 256 * 256 + n mod 256" by simp
  moreover have "n div 256 = n div 65536 * 256 + n div 256 mod 256"
    using div_mult_mod_eq [of "n div 256" 256] by (simp add: div_mult2_eq [symmetric])
  moreover have "n div 65536 = n div 16777216 * 256 + n div 65536 mod 256"
    using div_mult_mod_eq [of "n div 65536" 256] by (simp add: div_mult2_eq [symmetric])
  moreover have "n div 16777216 mod 256 = n div 16777216"
    using assms by simp
  ultimately show ?thesis by linarith
qed

lemma be_get_put: "be_get_u32 (be_u32 x @ rest) = Some (x, rest)"
proof -
  have "unat x < 4294967296" using unsigned_less [of x] by simp
  note digits = be_digits [OF this]
  have "of_nat (unat x div 16777216 mod 256 * 16777216 + unat x div 65536 mod 256 * 65536
    + unat x div 256 mod 256 * 256 + unat x mod 256) = x"
    unfolding digits by simp
  then show ?thesis
    by (simp only: be_u32_def Let_def append.simps be_get_u32.simps power_numeral)
      (simp add: unat_u8_of_nat del: of_nat_add of_nat_mult)
qed

lemma length_be_u32: "length (be_u32 x) = 4"
  by (simp add: be_u32_def Let_def)

lemma be_get_u32_total: "4 \<le> length bs \<Longrightarrow> be_get_u32 bs \<noteq> None"
  by (cases bs rule: be_get_u32.cases) auto

subsection \<open>The environment\<close>

definition E0 :: "((bytes, log_record_pos) rbt, (bytes, bytes) rbt) env" where
  "E0 =
     \<lparr>encode_length_delimiter = (\<lambda>n. Some (leb128 n)),
      decode_length_delimiter = leb128_decode,
      length_delimiter_len = leb128_len,
      encode_varint = (\<lambda>x. leb128 (unat x)),
      decode_varint = (\<lambda>bs. map_option (map_prod of_nat id) (leb128_decode bs)),
      crc32 = crc32_ieee,
      put_u32 = be_u32,
      get_u32 = be_get_u32,
      open_fails = (\<lambda>_ _. False),
      read_fails = (\<lambda>_ _ _. False),
      write_accepts = (\<lambda>_ _ buf. Some (length buf)),
      sync_fails = (\<lambda>_ _. False),
      unlock_fails = (\<lambda>_ _. False),
      create_dir_fails = (\<lambda>_ _. False),
      read_dir_fails = (\<lambda>_ _. False),
      remove_file_fails = (\<lambda>_ _. False),
      remove_dir_fails = (\<lambda>_ _. False),
      rename_fails = (\<lambda>_ _ _. False),
      copy_fails = (\<lambda>_ _ _. False),
      list_dir = (\<lambda>fs d. case fs_dirs fs d of None \<Rightarrow> []
                           | Some es \<Rightarrow> map (\<lambda>e. Some (fst e, Some False)) es),
      get_size = (\<lambda>fs d. map_option (\<lambda>es. of_nat (min (2 ^ 30)
                             (sum_list (map (\<lambda>e. length (fdata (snd e))) es)))) (fs_dirs fs d)),
      available_space = (\<lambda>_ _. Some (2 ^ 40)),
      hash_order = id,
      skipmap = \<lparr>sm_new = RBT.empty, sm_get = RBT.lookup,
                 sm_insert = (\<lambda>m k p. RBT.insert k p m),
                 sm_remove = (\<lambda>m k. (RBT.lookup m k, RBT.delete k m)),
                 sm_iter = RBT.entries\<rparr>,
      jammdb = \<lparr>jm_open = (\<lambda>_. Some RBT.empty), jm_tx = (\<lambda>_. True), jm_bucket = (\<lambda>_. True),
                jm_get = RBT.lookup,
                jm_put = (\<lambda>b k v. Some (RBT.insert k v b)),
                jm_delete = (\<lambda>b k. map_option (\<lambda>v. (v, RBT.delete k b)) (RBT.lookup b k)),
                jm_commit = (\<lambda>_. True), jm_cursor = RBT.entries\<rparr>\<rparr>"

lemma E0_sel [simp]:
  "encode_length_delimiter E0 n = Some (leb128 n)"
  "decode_length_delimiter E0 bs = leb128_decode bs"
  "length_delimiter_len E0 n = leb128_len n"
  "encode_varint E0 x = leb128 (unat x)"
  "decode_varint E0 bs = map_option (map_prod of_nat id) (leb128_decode bs)"
  "crc32 E0 bs = crc32_ieee bs"
  "put_u32 E0 c = be_u32 c"
  "get_u32 E0 bs = be_get_u32 bs"
  "hash_order E0 ks = ks"
  by (simp_all add: E0_def)

lemma delimiter_ok_E0: "delimiter_ok E0"
proof -
  have "leb128_len n \<le> 5" if "n < 2 ^ 32" for n
    using leb128_len_bound [of n 4] that by simp
  moreover have "leb128_len n \<le> 10" if "n < 2 ^ 64" for n
    using leb128_len_bound [of n 9] that by simp
  ultimately show ?thesis
    by (simp add: delimiter_ok_def leb128_decode_encode length_leb128 leb128_len_pos leb128_len_mono
        leb128_decode_shorter)
      (simp add: leb128.simps leb128_len.simps)
qed

lemma varint_ok_E0: "varint_ok E0"
proof -
  have "length (leb128 (unat x)) \<le> 10" for x :: u64
  proof -
    have "unat x < 2 ^ 64" using unsigned_less [of x] by simp
    then show ?thesis using leb128_len_bound [of "unat x" 9] by (simp add: length_leb128)
  qed
  then show ?thesis
    by (simp add: varint_ok_def leb128_decode_encode length_leb128 leb128_len_pos)
qed

lemma be_ok_E0: "be_ok E0"
  by (simp add: be_ok_def length_be_u32 be_get_put be_get_u32_total)

lemma crates_ok_E0 [simp]: "crates_ok E0"
  by (simp add: crates_ok_def delimiter_ok_E0 varint_ok_E0 be_ok_E0)

lemma os_ok_E0 [simp]: "os_ok E0"
  by (simp add: os_ok_def E0_def)

lemma hash_ok_E0 [simp]: "hash_ok E0"
  by (simp add: hash_ok_def)

lemma rbt_entries_ok: "bt_ok (RBT.entries t)"
  using RBT.sorted_entries [of t] RBT.distinct_entries [of t]
  by (simp add: bt_ok_def strict_sorted_iff)

lemma skipmap_ok_E0 [simp]: "skipmap_ok (skipmap E0)"
  by (simp add: skipmap_ok_def E0_def rbt_entries_ok)

lemma jammdb_ok_E0 [simp]: "jammdb_ok (jammdb E0)"
  by (simp add: jammdb_ok_def E0_def rbt_entries_ok split: option.splits)

end
