(* ===== verification/Load.thy ===== *)
theory Load
  imports Engine
begin

text \<open>
  Opening a database: \<open>Engine::open\<close> of \<^verbatim>\<open>bitcask-rs/src/db.rs\<close> with all it calls (option check,
  lock file, data files, the replay of the log into the index, the sequence number file), and from
  \<^verbatim>\<open>bitcask-rs/src/merge.rs\<close> what runs on opening: \<open>load_merge_files\<close> and
  \<open>load_index_from_hint_file\<close>.

  The loops over a log file may not end for all we know before a proof: they are in the option
  monad, where \<open>None\<close> is a loop that never returns.
\<close>

definition MERGE_DIR_NAME :: string where "MERGE_DIR_NAME = ''merge''"
definition MERGE_FIN_KEY :: string where "MERGE_FIN_KEY = ''merge.finished''"

subsection \<open>\<open>check_options\<close>\<close>

definition check_options :: "options \<Rightarrow> unit res" where
  "check_options opts =
     (if dir_path opts = [] then Err DirPathIsEmpty
      else if data_file_size opts = 0 then Err DataFileSizeTooSmall
      else if f32_less (data_file_merge_ratio opts) f32_0 \<or> f32_less f32_1 (data_file_merge_ratio opts)
        then Err InvalidMergeRatio
      else Ok ())"

subsection \<open>Reading a log file from its start\<close>

text \<open>
  The loop that \<open>load_index_from_data_files\<close>, \<open>load_index_from_hint_file\<close> and \<open>merge\<close> share: read
  the record at \<open>offset\<close>, stop at the end of the file, handle the record, advance by its size.
\<close>

partial_function (option) scan_log ::
  "('s \<Rightarrow> u64 \<Rightarrow> read_log_record res) \<Rightarrow>
   (u64 \<Rightarrow> read_log_record \<Rightarrow> 's \<Rightarrow> unit res \<times> 's) \<Rightarrow> u64 \<Rightarrow> 's \<Rightarrow> (u64 res \<times> 's) option" where
  [code]: "scan_log rd handle offset s =
     (case rd s offset of
        Ok rlr \<Rightarrow>
          (case handle offset rlr s of
             (Ok u, s') \<Rightarrow>
               (case add_u64 offset (of_nat (rlr_size rlr)) of
                  Ok offset' \<Rightarrow> scan_log rd handle offset' s'
                | Err x \<Rightarrow> Some (Err x, s')
                | Panic \<Rightarrow> Some (Panic, s'))
           | (Err x, s') \<Rightarrow> Some (Err x, s')
           | (Panic, s') \<Rightarrow> Some (Panic, s'))
      | Err x \<Rightarrow> if x = ReadDataFileEOF then Some (Ok offset, s) else Some (Err x, s)
      | Panic \<Rightarrow> Some (Panic, s))"

subsection \<open>Files a merge left behind\<close>

definition get_merge_path :: "path \<Rightarrow> path res" where
  "get_merge_path dir =
     (case (path_file_name dir, path_parent dir) of
        (Some file_name, Some parent) \<Rightarrow> Ok (parent @ [file_name @ ''-'' @ MERGE_DIR_NAME])
      | _ \<Rightarrow> Err FailedToReadDatabaseDir)"

text \<open>The names to move: not the sequence number, not the lock, no empty data file.\<close>

fun merge_file_names :: "fs \<Rightarrow> path \<Rightarrow> string list \<Rightarrow> string list" where
  "merge_file_names fs merge_path [] = []"
| "merge_file_names fs merge_path (file_name # names) =
     (if ends_with file_name SEQ_NO_FILE_NAME \<or> ends_with file_name FILE_LOCK_NAME \<or>
         ends_with file_name DATA_FILE_NAME_SUFFIX \<and> file_data fs (merge_path, file_name) = []
      then merge_file_names fs merge_path names
      else file_name # merge_file_names fs merge_path names)"

fun remove_merged :: "'z os_scheme \<Rightarrow> path \<Rightarrow> nat list \<Rightarrow> fs \<Rightarrow> unit res \<times> fs" where
  "remove_merged E dir [] fs = (Ok (), fs)"
| "remove_merged E dir (fid # fids) fs =
     (let f = get_data_file_name dir (of_nat fid) in
      if is_file fs f then
        (case remove_file E f fs of
           (True, fs') \<Rightarrow> remove_merged E dir fids fs'
         | (False, fs') \<Rightarrow> (Err FailedToDeleteFile, fs'))
      else remove_merged E dir fids fs)"

fun move_files :: "'z os_scheme \<Rightarrow> path \<Rightarrow> path \<Rightarrow> string list \<Rightarrow> fs \<Rightarrow> unit res \<times> fs" where
  "move_files E merge_path dir [] fs = (Ok (), fs)"
| "move_files E merge_path dir (file_name # names) fs =
     (case rename_file E (merge_path, file_name) (dir, file_name) fs of
        (True, fs') \<Rightarrow> move_files E merge_path dir names fs'
      | (False, fs') \<Rightarrow> (Err FailedToRename, fs'))"

definition remove_merge_dir :: "'z os_scheme \<Rightarrow> path \<Rightarrow> fs \<Rightarrow> unit res \<times> fs" where
  "remove_merge_dir E merge_path fs =
     (case remove_dir_all E merge_path fs of
        (True, fs') \<Rightarrow> (Ok (), fs')
      | (False, fs') \<Rightarrow> (Err FailedToDeleteDatabaseDir, fs'))"

text \<open>The number in the \<open>merge-finished\<close> file: the first data file the merge left out.\<close>

definition read_non_merge_fid :: "'z os_scheme \<Rightarrow> path \<Rightarrow> fs \<Rightarrow> u32 res \<times> fs" where
  "read_non_merge_fid E dir fs =
     and_then (new_merge_fin_file E dir fs) (\<lambda>merge_fin_file fs.
     and_then (read_log_record E fs merge_fin_file 0, fs) (\<lambda>merge_fin_record fs.
       case parse_u32 (bytes_string (rec_value (rlr_record merge_fin_record))) of
         Some fid \<Rightarrow> (Ok fid, fs)
       | None \<Rightarrow> (Err ParseError, fs)))"

definition load_merge_files :: "'z os_scheme \<Rightarrow> path \<Rightarrow> fs \<Rightarrow> unit res \<times> fs" where
  "load_merge_files E dir fs =
     and_then (get_merge_path dir, fs) (\<lambda>merge_path fs.
       if \<not> is_dir fs merge_path then (Ok (), fs)
       else
         (case read_dir E fs merge_path of
            None \<Rightarrow> (Err FailedToReadDatabaseDir, fs)
          | Some names \<Rightarrow>
              let merge_finished = list_ex (\<lambda>n. ends_with n MERGE_FINISHED_FILE_NAME) names;
                  file_names = merge_file_names fs merge_path names
              in if \<not> merge_finished then remove_merge_dir E merge_path fs
                 else
                   and_then (read_non_merge_fid E merge_path fs) (\<lambda>non_merge_fid fs.
                   and_then (remove_merged E dir [0..<unat non_merge_fid] fs) (\<lambda>_ fs.
                   and_then (move_files E merge_path dir file_names fs) (\<lambda>_ fs.
                     remove_merge_dir E merge_path fs)))))"

subsection \<open>Opening the data files\<close>

fun collect_file_ids :: "string list \<Rightarrow> u32 list res" where
  "collect_file_ids [] = Ok []"
| "collect_file_ids (file_name # names) =
     (if ends_with file_name DATA_FILE_NAME_SUFFIX
      then (case parse_u32 (split_dot_0 file_name) of
              Some fid \<Rightarrow> res_map (\<lambda>fids. fid # fids) (collect_file_ids names)
            | None \<Rightarrow> Err DataDirectoryCorrupted)
      else collect_file_ids names)"

text \<open>With \<open>use_mmap\<close>, all files but the last are mapped.\<close>

fun open_data_files ::
  "'z os_scheme \<Rightarrow> path \<Rightarrow> bool \<Rightarrow> u32 list \<Rightarrow> fs \<Rightarrow> data_file list res \<times> fs" where
  "open_data_files E dir use_mmap [] fs = (Ok [], fs)"
| "open_data_files E dir use_mmap (fid # fids) fs =
     and_then (DataFile_open E dir fid (if use_mmap \<and> fids \<noteq> [] then MemoryMap else StandardFIO) fs)
       (\<lambda>df fs.
     and_then (open_data_files E dir use_mmap fids fs) (\<lambda>dfs fs. (Ok (df # dfs), fs)))"

definition load_data_files :: "'z os_scheme \<Rightarrow> path \<Rightarrow> bool \<Rightarrow> fs \<Rightarrow> data_file list res \<times> fs" where
  "load_data_files E dir use_mmap fs =
     (case read_dir E fs dir of
        None \<Rightarrow> (Err FailedToReadDatabaseDir, fs)
      | Some names \<Rightarrow>
          and_then (collect_file_ids names, fs) (\<lambda>fids fs.
            open_data_files E dir use_mmap (sort fids) fs))"

text \<open>
  \<open>while data_file.len() > 1\<close>: the last file of the list goes to the old files.  What stays is
  the first one, the file with the lowest id.
\<close>

function pop_older_files ::
  "data_file list \<Rightarrow> (u32 \<times> data_file) list \<Rightarrow> data_file list \<times> (u32 \<times> data_file) list" where
  "pop_older_files dfs older =
     (if 1 < length dfs
      then pop_older_files (butlast dfs) (AList.update (df_file_id (last dfs)) (last dfs) older)
      else (dfs, older))"
  by auto
termination by (relation "measure (\<lambda>(dfs, _). length dfs)") auto

declare pop_older_files.simps [simp del]

subsection \<open>Replaying the log into the index\<close>

definition update_index ::
  "('s, 'b) env \<Rightarrow> bytes \<Rightarrow> log_record_type \<Rightarrow> log_record_pos \<Rightarrow> ('s, 'b) st \<Rightarrow>
   unit res \<times> ('s, 'b) st" where
  "update_index E k ty p st =
     and_then
       (if ty = Delete then
          and_then (on_index (\<lambda>i. index_delete E i k) st) (\<lambda>old_pos st.
          and_then (case old_pos of
                      Some old \<Rightarrow> add_u32 (pos_size p) (pos_size old)
                    | None \<Rightarrow> Ok (pos_size p), st) (\<lambda>size st.
            (Ok (), on_engine (\<lambda>e. e\<lparr>reclaim_size := fetch_add (reclaim_size e) (unat size)\<rparr>) st)))
        else (Ok (), st)) (\<lambda>_ st.
     if ty = Normal then
       and_then (on_index (\<lambda>i. index_put E i k p) st) (\<lambda>old_pos st.
         (Ok (), on_engine (add_reclaim old_pos) st))
     else (Ok (), st))"

fun update_index_all ::
  "('s, 'b) env \<Rightarrow> transaction_record list \<Rightarrow> ('s, 'b) st \<Rightarrow> unit res \<times> ('s, 'b) st" where
  "update_index_all E [] st = (Ok (), st)"
| "update_index_all E (t # ts) st =
     and_then (update_index E (rec_key (txn_record t)) (rec_type (txn_record t)) (txn_pos t) st)
       (\<lambda>_ st. update_index_all E ts st)"

text \<open>The local variables of the replay: the records of open transactions, the highest number.\<close>

record replay_vars =
  transaction_records :: "(nat \<times> transaction_record list) list"
  current_seq_no :: nat

definition on_vars :: "(replay_vars \<Rightarrow> replay_vars) \<Rightarrow> replay_vars \<times> 't \<Rightarrow> replay_vars \<times> 't" where
  "on_vars f s = (f (fst s), snd s)"

definition on_st :: "('t \<Rightarrow> 'a res \<times> 't) \<Rightarrow> replay_vars \<times> 't \<Rightarrow> 'a res \<times> replay_vars \<times> 't" where
  "on_st op s = (case op (snd s) of (r, t) \<Rightarrow> (r, fst s, t))"

definition load_record ::
  "('s, 'b) env \<Rightarrow> u32 \<Rightarrow> u64 \<Rightarrow> read_log_record \<Rightarrow> replay_vars \<times> ('s, 'b) st \<Rightarrow>
   unit res \<times> replay_vars \<times> ('s, 'b) st" where
  "load_record E fid offset rlr s =
     and_then (parse_log_record_key E (rec_key (rlr_record rlr)), s) (\<lambda>(real_key, seq) s.
       let log_record = rlr_record rlr;
           log_record_pos = LogRecordPos_new fid offset (of_nat (rlr_size rlr))
       in and_then
            (if seq = NON_TRANSACTION_SEQ_NO then
               on_st (update_index E real_key (rec_type log_record) log_record_pos) s
             else if rec_type log_record = TxnFinished then
               (case map_of (transaction_records (fst s)) seq of
                  Some records \<Rightarrow>
                    and_then (on_st (update_index_all E records) s) (\<lambda>_ s.
                      (Ok (), on_vars (\<lambda>v. v\<lparr>transaction_records :=
                                 AList.delete seq (transaction_records v)\<rparr>) s))
                | None \<Rightarrow> (Ok (), s))
             else
               (Ok (), on_vars (\<lambda>v. v\<lparr>transaction_records :=
                  (let records = (case map_of (transaction_records v) seq of
                                    Some records \<Rightarrow> records | None \<Rightarrow> [])
                   in AList.update seq
                        (records @ [\<lparr>txn_record = log_record\<lparr>rec_key := real_key\<rparr>,
                                     txn_pos = log_record_pos\<rparr>])
                        (transaction_records v))\<rparr>) s))
            (\<lambda>_ s.
          (Ok (), on_vars (\<lambda>v. if current_seq_no v < seq then v\<lparr>current_seq_no := seq\<rparr> else v) s)))"

text \<open>Reading a file of the engine by its id.\<close>

definition read_file_id ::
  "('s, 'b) env \<Rightarrow> u32 \<Rightarrow> replay_vars \<times> ('s, 'b) st \<Rightarrow> u64 \<Rightarrow> read_log_record res" where
  "read_file_id E fid s offset =
     (case s of (_, e, fs) \<Rightarrow>
        if fid = df_file_id (active_file e) then read_log_record E fs (active_file e) offset
        else case map_of (older_files e) fid of
               Some data_file \<Rightarrow> read_log_record E fs data_file offset
             | None \<Rightarrow> Err FileNotFound)"

text \<open>\<open>skip fid\<close>: the file is covered by the hint file.  The last file sets the write offset.\<close>

fun load_files ::
  "('s, 'b) env \<Rightarrow> (u32 \<Rightarrow> bool) \<Rightarrow> u32 list \<Rightarrow> replay_vars \<times> ('s, 'b) st \<Rightarrow>
   (unit res \<times> replay_vars \<times> ('s, 'b) st) option" where
  "load_files E skip [] s = Some (Ok (), s)"
| "load_files E skip (fid # fids) s =
     (if skip fid then load_files E skip fids s
      else
        loop_then (scan_log (read_file_id E fid) (load_record E fid) 0 s) (\<lambda>offset s.
          load_files E skip fids
            (if fids = []
             then (fst s, on_engine (\<lambda>e. e\<lparr>active_file := set_write_off offset (active_file e)\<rparr>) (snd s))
             else s)))"

definition load_index_from_data_files ::
  "('s, 'b) env \<Rightarrow> ('s, 'b) st \<Rightarrow> (nat res \<times> ('s, 'b) st) option" where
  "load_index_from_data_files E st =
     (if file_ids (fst st) = [] then Some (Ok NON_TRANSACTION_SEQ_NO, st)
      else
        let dir = dir_path (eng_options (fst st));
            has_merge = is_file (snd st) (dir, MERGE_FINISHED_FILE_NAME)
        in loop_then (Some (if has_merge then on_fs (read_non_merge_fid E dir) st else (Ok 0, st)))
             (\<lambda>non_merge_fid st.
           map_option (\<lambda>(r, vars, st). (res_map (\<lambda>_. current_seq_no vars) r, st))
             (load_files E (\<lambda>fid. has_merge \<and> fid < non_merge_fid) (file_ids (fst st))
                (\<lparr>transaction_records = [], current_seq_no = NON_TRANSACTION_SEQ_NO\<rparr>, st))))"

text \<open>The hint file: each record holds a key and the encoding of a position.\<close>

definition load_hint ::
  "('s, 'b) env \<Rightarrow> u64 \<Rightarrow> read_log_record \<Rightarrow> ('s, 'b) st \<Rightarrow> unit res \<times> ('s, 'b) st" where
  "load_hint E offset rlr st =
     and_then (decode_log_record_pos E (rec_value (rlr_record rlr)), st) (\<lambda>log_record_pos st.
     and_then (on_index (\<lambda>i. index_put E i (rec_key (rlr_record rlr)) log_record_pos) st) (\<lambda>_ st.
       (Ok (), st)))"

definition load_index_from_hint_file ::
  "('s, 'b) env \<Rightarrow> ('s, 'b) st \<Rightarrow> (unit res \<times> ('s, 'b) st) option" where
  "load_index_from_hint_file E st =
     (let dir = dir_path (eng_options (fst st)) in
      if \<not> is_file (snd st) (dir, HINT_FILE_NAME) then Some (Ok (), st)
      else
        loop_then (Some (on_fs (new_hint_file E dir) st)) (\<lambda>hint_file st.
        loop_then (scan_log (\<lambda>st. read_log_record E (snd st) hint_file) (load_hint E) 0 st) (\<lambda>_ st.
          Some (Ok (), st))))"

subsection \<open>The sequence number of a B+ tree database\<close>

definition load_seq_no :: "('s, 'b) env \<Rightarrow> ('s, 'b) st \<Rightarrow> (bool \<times> nat) res \<times> ('s, 'b) st" where
  "load_seq_no E st =
     (let dir = dir_path (eng_options (fst st)) in
      if \<not> is_file (snd st) (dir, SEQ_NO_FILE_NAME) then (Ok (False, 0), st)
      else
        (case on_fs (new_seq_no_file E dir) st of
           (Ok seq_no_file, st) \<Rightarrow>
             (case read_log_record E (snd st) seq_no_file 0 of
                Ok rlr \<Rightarrow>
                  (case parse_usize (bytes_string (rec_value (rlr_record rlr))) of
                     Some n \<Rightarrow>
                       (case remove_file E (dir, SEQ_NO_FILE_NAME) (snd st) of
                          (True, fs) \<Rightarrow> (Ok (True, n), fst st, fs)
                        | (False, fs) \<Rightarrow> (Panic, fst st, fs))
                   | None \<Rightarrow> (Panic, st))
              | _ \<Rightarrow> (Panic, st))
         | (_, st) \<Rightarrow> (Panic, st)))"

subsection \<open>Resetting the IO type\<close>

fun reset_older_files ::
  "'z os_scheme \<Rightarrow> path \<Rightarrow> (u32 \<times> data_file) list \<Rightarrow> fs \<Rightarrow> (u32 \<times> data_file) list res \<times> fs" where
  "reset_older_files E dir [] fs = (Ok [], fs)"
| "reset_older_files E dir ((fid, df) # rest) fs =
     and_then (set_io_manager E dir StandardFIO df fs) (\<lambda>df' fs.
     and_then (reset_older_files E dir rest fs) (\<lambda>rest' fs. (Ok ((fid, df') # rest'), fs)))"

definition reset_io_type :: "('s, 'b) env \<Rightarrow> ('s, 'b) st \<Rightarrow> unit res \<times> ('s, 'b) st" where
  "reset_io_type E st =
     (let dir = dir_path (eng_options (fst st)) in
      and_then (on_fs (set_io_manager E dir StandardFIO (active_file (fst st))) st) (\<lambda>df st.
      let st = on_engine (\<lambda>e. e\<lparr>active_file := df\<rparr>) st
      in and_then (on_fs (reset_older_files E dir (older_files (fst st))) st) (\<lambda>dfs st.
           (Ok (), on_engine (\<lambda>e. e\<lparr>older_files := dfs\<rparr>) st))))"

subsection \<open>\<open>Engine::open\<close>\<close>

text \<open>
  The lock file is created, emptied when it exists, then locked.  The lock belongs to the open
  handle: it goes when the handle is dropped, on each early return too.
\<close>

definition take_lock :: "'z os_scheme \<Rightarrow> path \<Rightarrow> fs \<Rightarrow> fpath res \<times> fs" where
  "take_lock E dir fs =
     (let f = (dir, FILE_LOCK_NAME) in
      if \<not> is_dir fs dir \<or> open_fails E fs f then (Err FailedToCreateDatabaseDir, fs)
      else
        let fs = put_file fs f new_inode in
        if f \<in> set (fs_locks fs) then (Err DatabaseIsUsing, fs)
        else (Ok f, fs\<lparr>fs_locks := f # fs_locks fs\<rparr>))"

definition drop_lock :: "fpath \<Rightarrow> fs \<Rightarrow> fs" where
  "drop_lock f fs = fs\<lparr>fs_locks := filter (\<lambda>g. g \<noteq> f) (fs_locks fs)\<rparr>"

text \<open>\<open>Drop for Engine\<close> closes it; its handles go after that.\<close>

definition drop_engine :: "('s, 'b) env \<Rightarrow> ('s, 'b) st \<Rightarrow> unit res \<times> fs" where
  "drop_engine E st =
     (case close E st of
        (Panic, e, fs) \<Rightarrow> (Panic, drop_lock (lock_file e) fs)
      | (_, e, fs) \<Rightarrow> (Ok (), drop_lock (lock_file e) fs))"

definition new_engine ::
  "options \<Rightarrow> bool \<Rightarrow> fpath \<Rightarrow> data_file \<Rightarrow> (u32 \<times> data_file) list \<Rightarrow> ('s, 'b) index \<Rightarrow>
   u32 list \<Rightarrow> ('s, 'b) engine" where
  "new_engine opts initial lock active older idx fids =
     \<lparr>eng_options = opts, active_file = active, older_files = older, eng_index = idx,
      file_ids = fids, seq_no = 1, seq_file_exists = False, is_initial = initial,
      lock_file = lock, bytes_write = 0, reclaim_size = 0\<rparr>"

text \<open>From the lock to the engine value: move merged files, open the data files, make the index.\<close>

definition open_files ::
  "('s, 'b) env \<Rightarrow> options \<Rightarrow> bool \<Rightarrow> fpath \<Rightarrow> fs \<Rightarrow> ('s, 'b) engine res \<times> fs" where
  "open_files E opts initial lock fs =
     (let dir = dir_path opts in
      case read_dir E fs dir of
        None \<Rightarrow> (Err FailedToReadDatabaseDir, fs)
      | Some entries \<Rightarrow>
          let initial = (initial \<or> length entries = 0) in
          and_then (load_merge_files E dir fs) (\<lambda>_ fs.
          and_then (load_data_files E dir (mmap_at_startup opts) fs) (\<lambda>data_files fs.
          case pop_older_files data_files [] of
            (rest, older) \<Rightarrow>
              and_then (if rest = [] then DataFile_new E dir INITIAL_FILE_ID StandardFIO fs
                        else (Ok (last rest), fs)) (\<lambda>active fs.
              and_then (new_indexer E (index_type opts) dir, fs) (\<lambda>idx fs.
                (Ok (new_engine opts initial lock active older idx (map df_file_id data_files)),
                 fs))))))"

text \<open>The rest of \<open>open\<close>, on the engine value.\<close>

definition load_engine :: "('s, 'b) env \<Rightarrow> ('s, 'b) st \<Rightarrow> (unit res \<times> ('s, 'b) st) option" where
  "load_engine E st =
     (if index_type (eng_options (fst st)) \<noteq> BPlusTree then
        loop_then (load_index_from_hint_file E st) (\<lambda>_ st.
        loop_then (load_index_from_data_files E st) (\<lambda>current_seq_no st.
        loop_then (Some (if 0 < current_seq_no
                         then and_then (add_usize current_seq_no 1, st) (\<lambda>n st.
                                (Ok (), on_engine (\<lambda>e. e\<lparr>seq_no := n\<rparr>) st))
                         else (Ok (), st))) (\<lambda>_ st.
          Some (if mmap_at_startup (eng_options (fst st)) then reset_io_type E st else (Ok (), st)))))
      else
        Some (and_then (load_seq_no E st) (\<lambda>(exists, n) st.
          let st = (if exists
                    then on_engine (\<lambda>e. e\<lparr>seq_no := n, seq_file_exists := exists\<rparr>) st
                    else st)
          in (Ok (), on_engine (\<lambda>e. e\<lparr>active_file :=
                       set_write_off (df_file_size (snd st) (active_file e)) (active_file e)\<rparr>) st))))"

definition open_locked ::
  "('s, 'b) env \<Rightarrow> options \<Rightarrow> bool \<Rightarrow> fpath \<Rightarrow> fs \<Rightarrow> (('s, 'b) engine res \<times> fs) option" where
  "open_locked E opts initial lock fs =
     (case open_files E opts initial lock fs of
        (Err x, fs) \<Rightarrow> Some (Err x, drop_lock lock fs)
      | (Panic, fs) \<Rightarrow> Some (Panic, drop_lock lock fs)
      | (Ok e, fs) \<Rightarrow>
          map_option (\<lambda>(r, st).
            case r of
              Ok _ \<Rightarrow> (Ok (fst st), snd st)
            | Err x \<Rightarrow> (case drop_engine E st of (r', fs) \<Rightarrow> (res_bind r' (\<lambda>_. Err x), fs))
            | Panic \<Rightarrow> (case drop_engine E st of (_, fs) \<Rightarrow> (Panic, fs)))
            (load_engine E (e, fs)))"

definition engine_open ::
  "('s, 'b) env \<Rightarrow> options \<Rightarrow> fs \<Rightarrow> (('s, 'b) engine res \<times> fs) option" where
  "engine_open E opts fs =
     loop_then (Some (check_options opts, fs)) (\<lambda>_ fs.
     let dir = dir_path opts; fresh = \<not> is_dir fs dir in
     loop_then (Some (if fresh
                      then (case create_dir_all E dir fs of
                              (True, fs) \<Rightarrow> (Ok (), fs)
                            | (False, fs) \<Rightarrow> (Err FailedToCreateDatabaseDir, fs))
                      else (Ok (), fs))) (\<lambda>_ fs.
     loop_then (Some (take_lock E dir fs)) (\<lambda>lock fs.
       open_locked E opts fresh lock fs)))"

end
