(* ===== verification/EngineFiles.thy ===== *)
theory EngineFiles
  imports Engine
begin

text \<open>
  The files of a running engine: the invariant that ties the active file, the old files and the
  directory together, and what rotating, writing and syncing do to it.  The main lemma is
  \<open>append_log_record_ok\<close>.
\<close>

subsection \<open>Files\<close>

definition data_path :: "('s, 'b) engine \<Rightarrow> u32 \<Rightarrow> fpath" where
  "data_path e fid = get_data_file_name (dir_path (eng_options e)) fid"

definition file_bytes :: "('s, 'b) st \<Rightarrow> u32 \<Rightarrow> bytes" where
  "file_bytes st fid = file_data (snd st) (data_path (fst st) fid)"

definition handle_ok :: "('s, 'b) engine \<Rightarrow> u32 \<Rightarrow> data_file \<Rightarrow> bool" where
  "handle_ok e fid df \<longleftrightarrow> df_file_id df = fid \<and> df_io df = FileIO (data_path e fid)"

definition active_id :: "('s, 'b) engine \<Rightarrow> u32" where
  "active_id e = df_file_id (active_file e)"

definition known_ids :: "('s, 'b) engine \<Rightarrow> u32 set" where
  "known_ids e = insert (active_id e) (fst ` set (older_files e))"

definition files_inv :: "('s, 'b) st \<Rightarrow> bool" where
  "files_inv st \<longleftrightarrow>
     (case st of (e, fs) \<Rightarrow>
        handle_ok e (active_id e) (active_file e) \<and>
        is_file fs (data_path e (active_id e)) \<and>
        unat (df_write_off (active_file e)) = length (file_bytes st (active_id e)) \<and>
        distinct (map fst (older_files e)) \<and>
        (\<forall>(fid, df) \<in> set (older_files e).
           handle_ok e fid df \<and> fid < active_id e) \<and>
        (\<forall>fid. active_id e < fid \<longrightarrow> \<not> is_file fs (data_path e fid)) \<and>
        (\<forall>fid. length (file_bytes st fid) \<le> 2 ^ 63) \<and>
        unat (data_file_size (eng_options e)) \<le> 2 ^ 63)"

text \<open>What reading needs: every handle is on its data file.  Weaker than \<open>files_inv\<close>.\<close>

definition handles_inv :: "('s, 'b) st \<Rightarrow> bool" where
  "handles_inv st \<longleftrightarrow>
     (case st of (e, fs) \<Rightarrow>
        handle_ok e (active_id e) (active_file e) \<and>
        (\<forall>(fid, df) \<in> set (older_files e). handle_ok e fid df) \<and>
        (\<forall>fid. length (file_bytes st fid) \<le> 2 ^ 63))"

lemma files_inv_handles: "files_inv st \<Longrightarrow> handles_inv st"
  by (auto simp: files_inv_def handles_inv_def)

definition grows :: "fs \<Rightarrow> fs \<Rightarrow> bool" where
  "grows fs fs' \<longleftrightarrow> (\<forall>f. \<exists>tail. file_data fs' f = file_data fs f @ tail)"

lemma grows_refl [simp]: "grows fs fs"
  by (simp add: grows_def)

lemma grows_trans: "grows a b \<Longrightarrow> grows b c \<Longrightarrow> grows a c"
  unfolding grows_def by (metis append.assoc)

lemma grows_record_at:
  "grows fs fs' \<Longrightarrow> record_at C (file_data fs f) n r \<Longrightarrow> record_at C (file_data fs' f) n r"
  unfolding grows_def by (metis record_at_append)

lemma data_file_name_inj [simp]: "data_file_name a = data_file_name b \<longleftrightarrow> a = b"
  by (auto simp: data_file_name_def word_eq_iff_unsigned [where 'a = nat] dest: pad9_inj)

lemma data_path_inj [simp]: "data_path e a = data_path e b \<longleftrightarrow> a = b"
  by (simp add: data_path_def get_data_file_name_def)

lemma fst_data_path [simp]: "fst (data_path e fid) = dir_path (eng_options e)"
  by (simp add: data_path_def get_data_file_name_def)

lemma grows_sync: "grows fs (snd (fio_sync E f fs))"
  by (simp add: grows_def fio_sync_data)

lemma file_data_new: "\<not> is_file fs f \<Longrightarrow> file_data fs f = []"
  by (simp add: is_file_def file_data_def)

lemma open_standard:
  assumes "os_ok E" "is_dir fs d"
  shows "DataFile_new E d fid StandardFIO fs =
    (Ok \<lparr>df_file_id = fid, df_write_off = 0, df_io = FileIO (get_data_file_name d fid)\<rparr>,
     if is_file fs (get_data_file_name d fid) then fs
     else put_file fs (get_data_file_name d fid) new_inode)"
  using assms new_io_manager_fio [of E fs "get_data_file_name d fid" True]
  by (simp add: DataFile_new_def new_with_create_def open_with_name_def get_data_file_name_def)

lemma open_data_path:
  assumes "os_ok E" "is_dir fs (dir_path (eng_options e))"
  shows "DataFile_new E (dir_path (eng_options e)) fid StandardFIO fs =
    (Ok \<lparr>df_file_id = fid, df_write_off = 0, df_io = FileIO (data_path e fid)\<rparr>,
     if is_file fs (data_path e fid) then fs else put_file fs (data_path e fid) new_inode)"
  using open_standard [OF assms] by (simp add: data_path_def)

lemma u32_succ:
  assumes "unat (a :: u32) + 1 < 2 ^ 32"
  shows "add_u32 a 1 = Ok (a + 1)" and "unat (a + 1) = unat a + 1" and "a < a + 1"
proof -
  show "add_u32 a 1 = Ok (a + 1)" "unat (a + 1) = unat a + 1"
    using add_u32_Ok [of a 1] assms by simp_all
  then show "a < a + 1" by (simp add: word_less_nat_alt)
qed

text \<open>
  What an append of the bytes \<open>en\<close> does to the directory: they are added to the file that is
  active afterwards, which may be a new one; nothing else changes.
\<close>

definition appended ::
  "('s, 'b) engine \<Rightarrow> fs \<Rightarrow> bytes \<Rightarrow> ('s, 'b) engine \<Rightarrow> fs \<Rightarrow> bool" where
  "appended e fs en e' fs' \<longleftrightarrow>
     (\<forall>g. file_data fs' g =
        (if g = data_path e (active_id e') then file_data fs g @ en else file_data fs g)) \<and>
     (\<forall>g. is_file fs' g \<longleftrightarrow> g = data_path e (active_id e') \<or> is_file fs g) \<and>
     (\<forall>d. is_dir fs' d \<longleftrightarrow> is_dir fs d) \<and> fs_locks fs' = fs_locks fs \<and> (fs_wf fs \<longrightarrow> fs_wf fs') \<and>
     known_ids e' = insert (active_id e') (known_ids e) \<and> active_id e \<le> active_id e' \<and>
     eng_options e' = eng_options e \<and> lock_file e' = lock_file e \<and>
     seq_file_exists e' = seq_file_exists e \<and> is_initial e' = is_initial e"

lemma appended_data_path: "appended e fs en e' fs' \<Longrightarrow> data_path e' = data_path e"
  by (simp add: appended_def data_path_def fun_eq_iff)

lemma appended_trans:
  assumes "appended e fs [] e1 fs1" "appended e1 fs1 en e2 fs2" "active_id e2 = active_id e1"
  shows "appended e fs en e2 fs2"
  using assms appended_data_path [OF assms(1)] unfolding appended_def
  by (simp split: if_splits) blast

lemma appended_after:
  assumes "appended e fs en e1 fs1" "appended e1 fs1 [] e2 fs2" "active_id e2 = active_id e1"
  shows "appended e fs en e2 fs2"
  using assms appended_data_path [OF assms(1)] unfolding appended_def
  by (simp split: if_splits) blast

lemma appendedD:
  assumes "appended e fs en e' fs'"
  shows "file_data fs' g = (if g = data_path e (active_id e') then file_data fs g @ en else file_data fs g)"
    and "is_file fs' g \<longleftrightarrow> g = data_path e (active_id e') \<or> is_file fs g"
    and "is_dir fs' d \<longleftrightarrow> is_dir fs d" and "fs_locks fs' = fs_locks fs" and "fs_wf fs \<Longrightarrow> fs_wf fs'"
    and "known_ids e' = insert (active_id e') (known_ids e)" and "active_id e \<le> active_id e'"
    and "eng_options e' = eng_options e" and "lock_file e' = lock_file e"
  using assms unfolding appended_def by blast+

lemma appended_bytes:
  assumes "appended e fs en e' fs'"
  shows "file_bytes (e', fs') fid =
    (if fid = active_id e' then file_bytes (e, fs) fid @ en else file_bytes (e, fs) fid)"
  unfolding file_bytes_def fst_conv snd_conv appended_data_path [OF assms] appendedD(1) [OF assms]
  by simp

lemma appended_grows: "appended e fs en e' fs' \<Longrightarrow> grows fs fs'"
  by (auto simp: appended_def grows_def)

lemma appended_refl:
  assumes "files_inv (e, fs)"
  shows "appended e fs [] e fs"
  using assms by (auto simp: appended_def files_inv_def known_ids_def)

text \<open>The state after a rotation, in one step.\<close>

definition rotated :: "('s, 'b) engine \<Rightarrow> ('s, 'b) engine" where
  "rotated e =
     e\<lparr>older_files := AList.update (active_id e)
         \<lparr>df_file_id = active_id e, df_write_off = 0, df_io = FileIO (data_path e (active_id e))\<rparr>
         (older_files e),
       active_file := \<lparr>df_file_id = active_id e + 1, df_write_off = 0,
                       df_io = FileIO (data_path e (active_id e + 1))\<rparr>\<rparr>"

lemma rotate_active_eq:
  assumes "os_ok E" and inv: "files_inv (e, fs)" and "unat (active_id e) + 1 < 2 ^ 32"
  shows "rotate_active E (e, fs) =
    (Ok (), rotated e,
     put_file (snd (fio_sync E (data_path e (active_id e)) fs)) (data_path e (active_id e + 1)) new_inode)"
proof -
  let ?a = "data_path e (active_id e)"
  define fs1 where "fs1 = snd (fio_sync E ?a fs)"
  have io: "df_io (active_file e) = FileIO ?a" and a: "is_file fs ?a"
    and n: "\<not> is_file fs (data_path e (active_id e + 1))"
    using inv u32_succ(3) [OF assms(3)] by (auto simp: files_inv_def handle_ok_def)
  have sync: "fio_sync E ?a fs = (Ok (), fs1)"
    using assms(1) by (simp add: fs1_def fio_sync_def)
  have dir: "is_dir fs1 (dir_path (eng_options e))"
    using is_file_is_dir [OF a] by (simp add: fs1_def fio_sync_data)
  have a1: "is_file fs1 ?a" and n1: "\<not> is_file fs1 (data_path e (active_id e + 1))"
    using a n by (simp_all add: fs1_def fio_sync_data)
  show ?thesis
    using sync a1 n1 u32_succ(1) [OF assms(3)]
    by (simp add: rotate_active_def df_sync_def io open_data_path [OF assms(1) dir] Let_def
        rotated_def active_id_def [symmetric])
qed

lemma rotated_sel [simp]:
  "eng_options (rotated e) = eng_options e" "eng_index (rotated e) = eng_index e"
  "seq_no (rotated e) = seq_no e" "file_ids (rotated e) = file_ids e"
  "bytes_write (rotated e) = bytes_write e" "reclaim_size (rotated e) = reclaim_size e"
  "active_id (rotated e) = active_id e + 1" "df_write_off (active_file (rotated e)) = 0"
  "data_path (rotated e) = data_path e"
  by (simp_all add: rotated_def active_id_def data_path_def fun_eq_iff)

lemma older_ids_rotated:
  "fst ` set (older_files (rotated e)) = insert (active_id e) (fst ` set (older_files e))"
  by (simp add: rotated_def dom_update)

lemma older_rotated_set:
  "distinct (map fst (older_files e)) \<Longrightarrow> (fid, df) \<in> set (older_files (rotated e)) \<Longrightarrow>
   fid = active_id e \<and> handle_ok e fid df \<or> (fid, df) \<in> set (older_files e)"
  by (auto simp: rotated_def set_AList_update handle_ok_def)

lemma known_ids_rotated [simp]: "known_ids (rotated e) = insert (active_id e + 1) (known_ids e)"
  by (simp add: known_ids_def older_ids_rotated insert_commute)

lemma rotate_active_inv:
  assumes "os_ok E" and inv: "files_inv (e, fs)" and id: "unat (active_id e) + 1 < 2 ^ 32"
  shows "\<exists>fs'. rotate_active E (e, fs) = (Ok (), rotated e, fs') \<and> files_inv (rotated e, fs')
    \<and> grows fs fs' \<and> file_bytes (rotated e, fs') (active_id e + 1) = []
    \<and> appended e fs [] (rotated e) fs'"
proof -
  let ?fs1 = "snd (fio_sync E (data_path e (active_id e)) fs)" and ?n = "data_path e (active_id e + 1)"
  let ?fs' = "put_file ?fs1 ?n new_inode"
  have a: "is_file fs (data_path e (active_id e))" and n: "\<not> is_file fs ?n"
    using inv u32_succ(3) [OF id] by (auto simp: files_inv_def)
  have dir: "is_dir ?fs1 (dir_path (eng_options e))"
    using is_file_is_dir [OF a] by (simp add: fio_sync_data)
  have data: "file_data ?fs' f = file_data fs f" for f
    using file_data_new [OF n] by (simp add: fs_simps fio_sync_data new_inode_def)
  have files: "is_file ?fs' f \<longleftrightarrow> f = ?n \<or> is_file fs f" for f
    using dir by (auto simp: fs_simps fio_sync_data)
  have lt: "fid < active_id e + 1" if "fid < active_id e" for fid
    using that u32_succ(3) [OF id] by simp
  have gt: "active_id e < fid" if "active_id e + 1 < fid" for fid
    using that u32_succ(3) [OF id] by simp
  have bytes: "file_bytes (rotated e, ?fs') fid = file_bytes (e, fs) fid" for fid
    by (simp add: file_bytes_def data)
  have inv1: "handle_ok e (active_id e) (active_file e)" "distinct (map fst (older_files e))"
    "\<And>fid df. (fid, df) \<in> set (older_files e) \<Longrightarrow> handle_ok e fid df \<and> fid < active_id e"
    "\<And>fid. active_id e < fid \<Longrightarrow> \<not> is_file fs (data_path e fid)"
    "\<And>fid. length (file_bytes (e, fs) fid) \<le> 2 ^ 63"
    "unat (data_file_size (eng_options e)) \<le> 2 ^ 63"
    using inv by (auto simp: files_inv_def)
  have empty: "file_bytes (e, fs) (active_id e + 1) = []"
    using file_data_new [OF n] by (simp add: file_bytes_def)
  have handle: "handle_ok (rotated e) fid df \<longleftrightarrow> handle_ok e fid df" for fid df
    by (simp add: handle_ok_def)
  have "handle_ok (rotated e) (active_id e + 1) (active_file (rotated e))"
    by (simp add: handle_ok_def) (simp add: rotated_def)
  moreover have "distinct (map fst (older_files (rotated e)))"
    using inv1(2) by (simp add: rotated_def distinct_AList_update)
  moreover have "handle_ok (rotated e) fid df \<and> fid < active_id e + 1"
    if "(fid, df) \<in> set (older_files (rotated e))" for fid df
    using older_rotated_set [OF inv1(2) that] inv1(3) [of fid df] lt u32_succ(3) [OF id]
    by (auto simp: handle)
  moreover have "\<not> is_file ?fs' (data_path e fid)" if "active_id e + 1 < fid" for fid
    using that inv1(4) gt [OF that] by (auto simp: files)
  ultimately have "files_inv (rotated e, ?fs')"
    unfolding files_inv_def using inv1(5,6) by (auto simp: bytes empty files)
  moreover have "grows fs ?fs'" by (simp add: grows_def data)
  moreover have "file_bytes (rotated e, ?fs') (active_id e + 1) = []"
    by (simp add: bytes empty)
  moreover have "appended e fs [] (rotated e) ?fs'"
    unfolding appended_def
  proof (intro conjI allI impI)
    show "is_file ?fs' g \<longleftrightarrow> g = data_path e (active_id (rotated e)) \<or> is_file fs g" for g
      by (simp add: files)
    show "active_id e \<le> active_id (rotated e)" using u32_succ(3) [OF id] by simp
    show "fs_wf ?fs'" if "fs_wf fs" using that by (intro fs_wf_put_file fio_sync_data)
    show "lock_file (rotated e) = lock_file e" "seq_file_exists (rotated e) = seq_file_exists e"
      "is_initial (rotated e) = is_initial e" by (simp_all add: rotated_def)
  qed (simp_all add: data is_dir_put_file fio_sync_data)
  ultimately show ?thesis
    using rotate_active_eq [OF assms] by blast
qed

subsection \<open>Writing to the active file\<close>

definition written :: "nat \<Rightarrow> ('s, 'b) engine \<Rightarrow> ('s, 'b) engine" where
  "written n e = e\<lparr>active_file := (active_file e)\<lparr>df_write_off := df_write_off (active_file e) + of_nat n\<rparr>\<rparr>"

lemma written_sel [simp]:
  "eng_options (written n e) = eng_options e" "eng_index (written n e) = eng_index e"
  "seq_no (written n e) = seq_no e" "older_files (written n e) = older_files e"
  "bytes_write (written n e) = bytes_write e" "reclaim_size (written n e) = reclaim_size e"
  "active_id (written n e) = active_id e" "data_path (written n e) = data_path e"
  "known_ids (written n e) = known_ids e" "df_io (active_file (written n e)) = df_io (active_file e)"
  "df_file_id (active_file (written n e)) = df_file_id (active_file e)"
  "df_write_off (active_file (written n e)) = df_write_off (active_file e) + of_nat n"
  by (simp_all add: written_def active_id_def data_path_def fun_eq_iff known_ids_def)

lemma write_active:
  assumes "os_ok E" and inv: "files_inv (e, fs)" and "en \<noteq> []"
    and fits: "unat (df_write_off (active_file e)) + length en \<le> 2 ^ 63"
  shows "\<exists>fs'. on_active (df_write E en) (e, fs) = (Ok (length en), written (length en) e, fs')
    \<and> files_inv (written (length en) e, fs') \<and> grows fs fs'
    \<and> file_bytes (written (length en) e, fs') (active_id e) = file_bytes (e, fs) (active_id e) @ en
    \<and> appended e fs en (written (length en) e) fs'"
proof -
  let ?a = "data_path e (active_id e)" and ?off = "df_write_off (active_file e)"
  have io: "df_io (active_file e) = FileIO ?a" and a: "is_file fs ?a"
    and off: "unat ?off = length (file_bytes (e, fs) (active_id e))"
    using inv by (auto simp: files_inv_def handle_ok_def)
  obtain i where i: "lookup_file fs ?a = Some i" "fdata i = file_data fs ?a"
    using lookup_file_Some [OF a] by blast
  have dir: "is_dir fs (fst ?a)" by (rule is_file_is_dir [OF a])
  let ?fs' = "put_file fs ?a (i\<lparr>fdata := fdata i @ en\<rparr>)"
  have data: "file_data ?fs' f = (if f = ?a then file_data fs ?a @ en else file_data fs f)" for f
    using dir i(2) by (simp add: fs_simps)
  have files: "is_file ?fs' f = is_file fs f" for f
    using a dir by (auto simp: fs_simps)
  have "unat ?off + length en < 2 ^ 64" using fits by simp
  note sum = add_u64_of_nat [OF this]
  have "on_active (df_write E en) (e, fs) = (Ok (length en), written (length en) e, ?fs')"
    using sum(1) assms(3) fio_write_ok [OF assms(1) i(1), of en]
    by (simp add: df_write_def io written_def)
  moreover have bytes: "file_bytes (written (length en) e, ?fs') fid =
      (if fid = active_id e then file_bytes (e, fs) fid @ en else file_bytes (e, fs) fid)" for fid
    by (simp add: file_bytes_def data)
  moreover have "files_inv (written (length en) e, ?fs')"
    using inv sum(2) off fits unfolding files_inv_def
    by (auto simp: bytes files handle_ok_def)
  moreover have "grows fs ?fs'" by (simp add: grows_def data)
  moreover have "appended e fs en (written (length en) e) ?fs'"
    unfolding appended_def
  proof (intro conjI allI impI)
    show "known_ids (written (length en) e) =
        insert (active_id (written (length en) e)) (known_ids e)"
      by (auto simp: known_ids_def)
    show "is_file ?fs' g \<longleftrightarrow> g = data_path e (active_id (written (length en) e)) \<or> is_file fs g" for g
      using a by (auto simp: files)
    show "fs_wf ?fs'" if "fs_wf fs" using that by (rule fs_wf_put_file)
  qed (simp_all add: data is_dir_put_file, simp_all add: written_def)
  ultimately show ?thesis by auto
qed

text \<open>A sync of the active file keeps the invariant and every content.\<close>

lemma sync_active:
  assumes "os_ok E" and inv: "files_inv (e, fs)"
  shows "\<exists>fs'. on_fs (df_sync E (active_file e)) (e, fs) = (Ok (), e, fs') \<and> files_inv (e, fs')
    \<and> grows fs fs' \<and> (\<forall>fid. file_bytes (e, fs') fid = file_bytes (e, fs) fid)
    \<and> appended e fs [] e fs'"
proof -
  let ?a = "data_path e (active_id e)"
  define fs1 where "fs1 = snd (fio_sync E ?a fs)"
  have io: "df_io (active_file e) = FileIO ?a"
    using inv by (auto simp: files_inv_def handle_ok_def)
  have "on_fs (df_sync E (active_file e)) (e, fs) = (Ok (), e, fs1)"
    using assms(1) by (simp add: df_sync_def io fs1_def fio_sync_def)
  moreover have bytes: "file_bytes (e, fs1) fid = file_bytes (e, fs) fid" for fid
    by (simp add: file_bytes_def fs1_def fio_sync_data)
  moreover have "files_inv (e, fs1)"
    using inv unfolding files_inv_def by (simp add: bytes) (simp add: fs1_def fio_sync_data)
  moreover have "grows fs fs1" by (simp add: fs1_def grows_sync)
  moreover have "appended e fs [] e fs1"
    using inv fio_sync_data(5) [of fs E]
    by (auto simp: appended_def fs1_def fio_sync_data files_inv_def known_ids_def)
  ultimately show ?thesis by blast
qed

lemma bytes_write_inv [simp]:
  "files_inv (e\<lparr>bytes_write := n\<rparr>, fs) = files_inv (e, fs)"
  "active_id (e\<lparr>bytes_write := n\<rparr>) = active_id e"
  "known_ids (e\<lparr>bytes_write := n\<rparr>) = known_ids e"
  "data_path (e\<lparr>bytes_write := n\<rparr>) = data_path e"
  "file_bytes (e\<lparr>bytes_write := n\<rparr>, fs) = file_bytes (e, fs)"
  by (simp_all add: files_inv_def active_id_def known_ids_def handle_ok_def file_bytes_def
      data_path_def fun_eq_iff)

text \<open>
  With a sync threshold, the count of bytes written since the last sync stays below it.
\<close>

definition bw_ok :: "('s, 'b) engine \<Rightarrow> bool" where
  "bw_ok e \<longleftrightarrow>
     bytes_per_sync (eng_options e) \<le> 2 ^ 63 \<and>
     (0 < bytes_per_sync (eng_options e) \<and> \<not> sync_writes (eng_options e) \<longrightarrow>
        bytes_write e < bytes_per_sync (eng_options e))"

lemma need_sync_ok:
  assumes "bw_ok e" "n < 2 ^ 34"
  shows "\<exists>b. need_sync (eng_options e) (bytes_write e) n = Ok b \<and>
    bw_ok (e\<lparr>bytes_write := if b then 0 else fetch_add (bytes_write e) n\<rparr>)"
  using assms by (auto simp: need_sync_def add_usize_def bw_ok_def fetch_add_def)

text \<open>What an append leaves alone.\<close>

definition same_index :: "('s, 'b) engine \<Rightarrow> ('s, 'b) engine \<Rightarrow> bool" where
  "same_index e e' \<longleftrightarrow>
     eng_options e' = eng_options e \<and> eng_index e' = eng_index e \<and> seq_no e' = seq_no e \<and>
     reclaim_size e' = reclaim_size e \<and> known_ids e \<subseteq> known_ids e'"

lemma same_index_refl [simp]: "same_index e e"
  by (simp add: same_index_def)

lemma same_index_trans: "same_index a b \<Longrightarrow> same_index b c \<Longrightarrow> same_index a c"
  by (auto simp: same_index_def)

text \<open>
  An append succeeds, keeps the files in order and every record in place, and puts the record
  where the returned position says.
\<close>

lemma append_log_record_ok:
  assumes ok: "crates_ok E" "os_ok E" and inv: "files_inv (e, fs)" and wf: "wf_record r"
    and id: "unat (active_id e) + 1 < 2 ^ 32" and bw: "bw_ok e"
  shows "\<exists>p e' fs'. append_log_record E r (e, fs) = (Ok p, e', fs') \<and> files_inv (e', fs')
    \<and> grows fs fs' \<and> same_index e e' \<and> bw_ok e' \<and> unat (active_id e') \<le> unat (active_id e) + 1
    \<and> pos_file_id p = active_id e' \<and> unat (pos_size p) = encoded_length E r mod 2 ^ 32
    \<and> record_at E (file_bytes (e', fs') (pos_file_id p)) (unat (pos_offset p)) r
    \<and> unat (pos_offset p) + encoded_length E r = length (file_bytes (e', fs') (pos_file_id p))
    \<and> (\<exists>en. LogRecord_encode E r = Ok en \<and> appended e fs en e' fs')
    \<and> p = LogRecordPos_new (active_id e') (of_nat (length (file_bytes (e, fs) (active_id e'))))
          (of_nat (encoded_length E r))"
proof -
  obtain en where en: "LogRecord_encode E r = Ok en"
    using LogRecord_encode_total [OF ok(1) wf] .
  have len: "length en = encoded_length E r" "8 \<le> length en" "length en < 2 ^ 34"
    using LogRecord_encode_length [OF ok(1) en] encoded_length_bounds [OF ok(1) wf] by simp_all
  let ?off = "df_write_off (active_file e)"
  have off: "unat ?off = length (file_bytes (e, fs) (active_id e))"
    and max: "length (file_bytes (e, fs) (active_id e)) \<le> 2 ^ 63"
    and dfs: "unat (data_file_size (eng_options e)) \<le> 2 ^ 63"
    using inv by (auto simp: files_inv_def)
  have "unat ?off + length en < 2 ^ 64" using off max len(3) by simp
  note total = add_u64_of_nat [OF this]
  obtain e1 fs1 where rot:
    "(if data_file_size (eng_options e) < ?off + of_nat (length en) then rotate_active E (e, fs)
      else (Ok (), e, fs)) = (Ok (), e1, fs1)"
    and inv1: "files_inv (e1, fs1)" "grows fs fs1" "same_index e e1"
      "unat (active_id e1) \<le> unat (active_id e) + 1"
    and fits: "unat (df_write_off (active_file e1)) + length en \<le> 2 ^ 63"
    and bw1: "bytes_write e1 = bytes_write e" and app1: "appended e fs [] e1 fs1"
  proof (cases "data_file_size (eng_options e) < ?off + of_nat (length en)")
    case True
    from rotate_active_inv [OF ok(2) inv id] obtain fs' where
      "rotate_active E (e, fs) = (Ok (), rotated e, fs')" "files_inv (rotated e, fs')" "grows fs fs'"
      "appended e fs [] (rotated e) fs'" by blast
    moreover have "same_index e (rotated e)" "unat (active_id (rotated e)) \<le> unat (active_id e) + 1"
      using u32_succ(2) [OF id] by (auto simp: same_index_def)
    ultimately show ?thesis using that True len(3) by simp
  next
    case False
    then have "unat ?off + length en \<le> 2 ^ 63"
      using total(2) dfs by (simp add: word_less_nat_alt)
    with False that inv appended_refl [OF inv] show ?thesis by simp
  qed
  have "en \<noteq> []" using len(2) by auto
  from write_active [OF ok(2) inv1(1) this fits] obtain fs2 where
    wr: "on_active (df_write E en) (e1, fs1) = (Ok (length en), written (length en) e1, fs2)" and
    inv2: "files_inv (written (length en) e1, fs2)" "grows fs1 fs2" and
    bytes: "file_bytes (written (length en) e1, fs2) (active_id e1) = file_bytes (e1, fs1) (active_id e1) @ en" and
    app2: "appended e1 fs1 en (written (length en) e1) fs2"
    by blast
  let ?e2 = "written (length en) e1" and ?n = "fetch_add (bytes_write e1) (length en)"
  have bw2: "bw_ok ?e2" using bw bw1 inv1(3) by (simp add: bw_ok_def same_index_def)
  from need_sync_ok [OF bw2 len(3), unfolded written_sel] obtain b where
    b: "need_sync (eng_options e1) (bytes_write e1) (length en) = Ok b" and
    bw3: "bw_ok (?e2\<lparr>bytes_write := if b then 0 else ?n\<rparr>)" by blast
  let ?p = "LogRecordPos_new (active_id e1) (df_write_off (active_file e1)) (of_nat (length en))"
  have off1: "unat (df_write_off (active_file e1)) = length (file_bytes (e1, fs1) (active_id e1))"
    using inv1(1) by (auto simp: files_inv_def)
  have at: "record_at E (file_bytes (?e2, fs2) (active_id e1)) (unat (df_write_off (active_file e1))) r"
    by (rule record_atI [OF wf en, where post = "[]"]) (simp_all add: bytes off1)
  have size: "unat (of_nat (length en) :: u32) = encoded_length E r mod 2 ^ 32"
    by (simp add: unat_of_nat len(1))
  have same2: "same_index e ?e2" using inv1(3) by (simp add: same_index_def)
  have end2: "unat (df_write_off (active_file e1)) + encoded_length E r = length (file_bytes (?e2, fs2) (active_id e1))"
    unfolding bytes off1 by (simp add: len(1))
  obtain fs3 where
    sync: "on_fs (df_sync E (active_file ?e2)) (?e2\<lparr>bytes_write := ?n\<rparr>, fs2) = (Ok (), ?e2\<lparr>bytes_write := ?n\<rparr>, fs3)" and
    inv3: "files_inv (?e2, fs3)" "grows fs2 fs3" "\<forall>fid. file_bytes (?e2, fs3) fid = file_bytes (?e2, fs2) fid" and
    app3: "appended (?e2\<lparr>bytes_write := ?n\<rparr>) fs2 [] (?e2\<lparr>bytes_write := ?n\<rparr>) fs3"
    using sync_active [OF ok(2), of "?e2\<lparr>bytes_write := ?n\<rparr>" fs2] inv2(1) by auto
  define e4 where "e4 = ?e2\<lparr>bytes_write := if b then 0 else ?n\<rparr>"
  define fs4 where "fs4 = (if b then fs3 else fs2)"
  have "append_log_record E r (e, fs) = (Ok ?p, e4, fs4)"
    using rot wr b sync unfolding append_log_record_def
    by (simp add: en total(1) Let_def e4_def fs4_def active_id_def [symmetric])
  moreover have "files_inv (e4, fs4)" "same_index e e4" "active_id e4 = active_id e1"
    "unat (active_id e4) \<le> unat (active_id e) + 1"
    "file_bytes (e4, fs4) = file_bytes (?e2, fs2)"
    using inv1(4) inv2 inv3 same2 by (auto simp: e4_def fs4_def same_index_def)
  moreover have "grows fs fs4"
    using inv1(2) inv2(2) inv3(2) by (auto simp: fs4_def intro: grows_trans)
  moreover have "bw_ok e4" using bw3 by (simp add: e4_def)
  moreover have "appended e fs en e4 fs4"
  proof -
    have 12: "appended e fs en ?e2 fs2"
      by (rule appended_trans [OF app1 app2]) simp
    then have 13: "appended e fs en ?e2 fs3"
      using app3 appended_after [OF 12, of ?e2 fs3] by (simp add: appended_def)
    show ?thesis using 12 13 by (simp add: e4_def fs4_def appended_def)
  qed
  moreover have "df_write_off (active_file e1) = of_nat (length (file_bytes (e, fs) (active_id e1)))"
  proof -
    have "file_bytes (e1, fs1) fid = file_bytes (e, fs) fid" for fid
      using appended_bytes [OF app1, of fid] by simp
    then have "length (file_bytes (e, fs) (active_id e1)) = unat (df_write_off (active_file e1))"
      by (simp add: off1)
    then show ?thesis by simp
  qed
  ultimately show ?thesis
    using at end2 size en len(1) by (intro exI [of _ ?p] exI [of _ e4] exI [of _ fs4]) simp
qed
end
