(* ===== verification/EngineInv.thy ===== *)
theory EngineInv
  imports EngineFiles
begin

text \<open>
  The engine invariant, and \<open>put\<close>, \<open>get\<close> and \<open>delete\<close> against a map from keys to values.
\<close>

definition entry_ok :: "('s, 'b) env \<Rightarrow> ('s, 'b) st \<Rightarrow> bytes \<Rightarrow> log_record_pos \<Rightarrow> bool" where
  "entry_ok E st k p \<longleftrightarrow>
     k \<noteq> [] \<and> pos_file_id p \<in> known_ids (fst st) \<and>
     (\<exists>r n. record_at E (file_bytes st (pos_file_id p)) (unat (pos_offset p)) r \<and>
            rec_type r = Normal \<and> parse_log_record_key E (rec_key r) = Ok (k, n))"

definition engine_inv :: "('s, 'b) env \<Rightarrow> ('s, 'b) st \<Rightarrow> bool" where
  "engine_inv E st \<longleftrightarrow>
     files_inv st \<and> bw_ok (fst st) \<and> index_inv E (eng_index (fst st)) \<and>
     (\<forall>k p. index_entries E (eng_index (fst st)) k = Some p \<longrightarrow> entry_ok E st k p)"

text \<open>The part of the invariant that reading needs.\<close>

definition reads_inv :: "('s, 'b) env \<Rightarrow> ('s, 'b) st \<Rightarrow> bool" where
  "reads_inv E st \<longleftrightarrow>
     handles_inv st \<and> index_inv E (eng_index (fst st)) \<and>
     (\<forall>k p. index_entries E (eng_index (fst st)) k = Some p \<longrightarrow> entry_ok E st k p)"

lemma engine_inv_reads: "engine_inv E st \<Longrightarrow> reads_inv E st"
  by (simp add: engine_inv_def reads_inv_def files_inv_handles)

lemma engine_inv_iff: "engine_inv E st \<longleftrightarrow> reads_inv E st \<and> files_inv st \<and> bw_ok (fst st)"
  by (auto simp: engine_inv_def reads_inv_def files_inv_handles)

text \<open>The abstract state: the value that \<open>get\<close> returns for each key.\<close>

definition kv :: "('s, 'b) env \<Rightarrow> ('s, 'b) st \<Rightarrow> bytes \<Rightarrow> bytes option" where
  "kv E st k = (case get E k st of Ok v \<Rightarrow> Some v | Err _ \<Rightarrow> None | Panic \<Rightarrow> None)"

subsection \<open>Reading\<close>

lemma read_handle:
  assumes "crates_ok E" "os_ok E" "handle_ok e fid df" "df_io df = FileIO f"
    and "length (file_data fs f) \<le> 2 ^ 63"
    and "record_at E (file_data fs f) (unat off) r"
  shows "read_log_record E fs df off = Ok \<lparr>rlr_record = r, rlr_size = encoded_length E r\<rparr>"
proof -
  have "length (file_data fs f) < 2 ^ 64" using assms(5) by simp
  then show ?thesis
    unfolding read_log_record_def assms(4)
    using fio.read_record_anywhere [OF assms(2,1) _ assms(6)] by simp
qed

lemma handle_of_id:
  assumes "handles_inv (e, fs)" "fid \<in> known_ids e"
  obtains df where "handle_ok e fid df"
    "if active_id e = fid then df = active_file e else map_of (older_files e) fid = Some df"
proof (cases "active_id e = fid")
  case True
  then show ?thesis using that [of "active_file e"] assms(1) by (auto simp: handles_inv_def)
next
  case False
  then have "fid \<in> fst ` set (older_files e)" using assms(2) by (simp add: known_ids_def)
  then obtain df where df: "map_of (older_files e) fid = Some df"
    by (metis map_of_eq_None_iff not_None_eq)
  then have "(fid, df) \<in> set (older_files e)" by (rule map_of_SomeD)
  then have "handle_ok e fid df" using assms(1) by (auto simp: handles_inv_def)
  with df False show ?thesis using that by simp
qed

lemma get_value_by_position_ok:
  assumes "crates_ok E" "os_ok E" "handles_inv st" "pos_file_id p \<in> known_ids (fst st)"
    and at: "record_at E (file_bytes st (pos_file_id p)) (unat (pos_offset p)) r"
  shows "get_value_by_position E p st =
    (if rec_type r = Delete then Err KeyNotFound else Ok (rec_value r))"
proof -
  obtain e fs where st: "st = (e, fs)" by (cases st)
  from handle_of_id [of e fs "pos_file_id p"] assms(3,4) st obtain df where
    df: "handle_ok e (pos_file_id p) df"
      "if active_id e = pos_file_id p then df = active_file e
       else map_of (older_files e) (pos_file_id p) = Some df" by auto
  have "length (file_bytes st (pos_file_id p)) \<le> 2 ^ 63"
    using assms(3) by (auto simp: handles_inv_def)
  then have "read_log_record E fs df (pos_offset p) =
      Ok \<lparr>rlr_record = r, rlr_size = encoded_length E r\<rparr>"
    using read_handle [OF assms(1,2) df(1)] df(1) at st
    by (simp add: handle_ok_def file_bytes_def)
  then show ?thesis
    using df(2) by (auto simp: get_value_by_position_def st active_id_def)
qed

lemma entry_okE:
  assumes "entry_ok E st k p"
  obtains r n where "k \<noteq> []" "pos_file_id p \<in> known_ids (fst st)"
    "record_at E (file_bytes st (pos_file_id p)) (unat (pos_offset p)) r"
    "rec_type r = Normal" "parse_log_record_key E (rec_key r) = Ok (k, n)"
  using assms by (auto simp: entry_ok_def)

lemma get_unindexed:
  assumes "reads_inv E st" "index_entries E (eng_index (fst st)) k = None" "k \<noteq> []"
  shows "get E k st = Err KeyNotFound"
  using assms ix.get_law [of E "eng_index (fst st)" k] by (simp add: get_def reads_inv_def)

lemma get_indexed:
  assumes "crates_ok E" "os_ok E" "reads_inv E st"
    and "index_entries E (eng_index (fst st)) k = Some p"
    and "record_at E (file_bytes st (pos_file_id p)) (unat (pos_offset p)) r"
    and "rec_type r = Normal"
  shows "get E k st = Ok (rec_value r)"
proof -
  have "entry_ok E st k p" and inv: "handles_inv st" "index_inv E (eng_index (fst st))"
    using assms(3,4) by (auto simp: reads_inv_def)
  then have "k \<noteq> []" "pos_file_id p \<in> known_ids (fst st)" by (auto simp: entry_ok_def)
  then show ?thesis
    using get_value_by_position_ok [OF assms(1,2) inv(1) _ assms(5)] assms(4,6)
      ix.get_law [OF inv(2), of k]
    by (simp add: get_def)
qed

text \<open>An indexed key always has a value; nothing else can come back.\<close>

lemma get_cases:
  assumes "crates_ok E" "os_ok E" "reads_inv E st"
  shows "get E k st =
    (if k = [] then Err KeyIsEmpty
     else case kv E st k of None \<Rightarrow> Err KeyNotFound | Some v \<Rightarrow> Ok v)"
proof (cases "index_entries E (eng_index (fst st)) k")
  case None
  then show ?thesis
    using get_unindexed [OF assms(3) None] by (cases "k = []") (auto simp: kv_def get_def)
next
  case (Some p)
  then have "entry_ok E st k p" using assms(3) by (auto simp: reads_inv_def)
  then obtain r n where r: "record_at E (file_bytes st (pos_file_id p)) (unat (pos_offset p)) r"
    "rec_type r = Normal" "k \<noteq> []" by (auto elim: entry_okE)
  from get_indexed [OF assms Some r(1,2)] r(3) show ?thesis by (simp add: kv_def)
qed

lemma kv_indexed_iff:
  assumes "crates_ok E" "os_ok E" "reads_inv E st"
  shows "kv E st k = None \<longleftrightarrow> index_entries E (eng_index (fst st)) k = None"
proof (cases "index_entries E (eng_index (fst st)) k")
  case None
  then show ?thesis
    using get_unindexed [OF assms(3) None] by (cases "k = []") (auto simp: kv_def get_def)
next
  case (Some p)
  then have "entry_ok E st k p" using assms(3) by (auto simp: reads_inv_def)
  then obtain r n where "record_at E (file_bytes st (pos_file_id p)) (unat (pos_offset p)) r"
    "rec_type r = Normal" by (auto elim: entry_okE)
  from get_indexed [OF assms Some this] Some show ?thesis by (simp add: kv_def)
qed

subsection \<open>What a growing log preserves\<close>

lemma entry_ok_grows:
  assumes "entry_ok E (e, fs) k p" "grows fs fs'" "known_ids e \<subseteq> known_ids e'"
    "eng_options e' = eng_options e"
  shows "entry_ok E (e', fs') k p"
proof -
  have "data_path e' = data_path e" using assms(4) by (simp add: data_path_def fun_eq_iff)
  then have "record_at E (file_bytes (e', fs') fid) n r"
    if "record_at E (file_bytes (e, fs) fid) n r" for fid n r
    using that grows_record_at [OF assms(2)] by (simp add: file_bytes_def)
  then show ?thesis
    using assms(1,3) unfolding entry_ok_def fst_conv by blast
qed

lemma get_bytes_frame:
  assumes "crates_ok E" "os_ok E" "reads_inv E (e, fs)" "reads_inv E (e', fs')"
    and grow: "\<And>fid. \<exists>tail. file_bytes (e', fs') fid = file_bytes (e, fs) fid @ tail"
    and same: "index_entries E (eng_index e') k = index_entries E (eng_index e) k"
  shows "get E k (e', fs') = get E k (e, fs)"
proof (cases "index_entries E (eng_index e) k")
  case None
  then show ?thesis
    using get_unindexed [OF assms(3)] get_unindexed [OF assms(4)] same
    by (cases "k = []") (simp_all add: get_def)
next
  case (Some p)
  then have "entry_ok E (e, fs) k p" using assms(3) by (auto simp: reads_inv_def)
  then obtain r n where r: "record_at E (file_bytes (e, fs) (pos_file_id p)) (unat (pos_offset p)) r"
    "rec_type r = Normal" by (auto elim: entry_okE)
  then have r': "record_at E (file_bytes (e', fs') (pos_file_id p)) (unat (pos_offset p)) r"
    using grow [of "pos_file_id p"] by (auto simp: record_at_append)
  show ?thesis
    using get_indexed [OF assms(1,2,3), of k p r] get_indexed [OF assms(1,2,4), of k p r] Some same r r'
    by simp
qed

lemma get_log_frame:
  assumes "crates_ok E" "os_ok E" "reads_inv E (e, fs)" "reads_inv E (e', fs')"
    and grow: "\<And>fid. \<exists>tail. file_data fs' (data_path e fid) = file_data fs (data_path e fid) @ tail"
    and "dir_path (eng_options e') = dir_path (eng_options e)"
    and same: "index_entries E (eng_index e') k = index_entries E (eng_index e) k"
  shows "get E k (e', fs') = get E k (e, fs)"
proof (rule get_bytes_frame [OF assms(1-4) _ same])
  have "data_path e' = data_path e" using assms(6) by (simp add: data_path_def fun_eq_iff)
  then show "\<exists>tail. file_bytes (e', fs') fid = file_bytes (e, fs) fid @ tail" for fid
    using grow [of fid] by (simp add: file_bytes_def)
qed

text \<open>Only the files of its directory matter to an engine.\<close>

lemma same_files_engine:
  assumes ok: "crates_ok E" "os_ok E" and inv: "engine_inv E (e, fs)"
    and same: "\<And>f. fst f = dir_path (eng_options e) \<Longrightarrow> file_data fs' f = file_data fs f \<and> is_file fs' f = is_file fs f"
  shows "engine_inv E (e, fs')" and "kv E (e, fs') = kv E (e, fs)"
proof -
  have bytes: "file_bytes (e, fs') fid = file_bytes (e, fs) fid" for fid
    by (simp add: file_bytes_def same)
  then show inv': "engine_inv E (e, fs')"
    using inv by (simp add: engine_inv_def files_inv_def entry_ok_def same)
  have "get E k (e, fs') = get E k (e, fs)" for k
    by (rule get_bytes_frame [OF ok engine_inv_reads [OF inv] engine_inv_reads [OF inv']]) (simp_all add: bytes)
  then show "kv E (e, fs') = kv E (e, fs)" by (simp add: kv_def fun_eq_iff)
qed

lemma get_frame:
  assumes "crates_ok E" "os_ok E" "reads_inv E (e, fs)" "reads_inv E (e', fs')"
    and grow: "grows fs fs'" and "dir_path (eng_options e') = dir_path (eng_options e)"
    and "index_entries E (eng_index e') k = index_entries E (eng_index e) k"
  shows "get E k (e', fs') = get E k (e, fs)"
proof (rule get_log_frame [OF assms(1-4) _ assms(6,7)])
  show "\<exists>tail. file_data fs' (data_path e fid) = file_data fs (data_path e fid) @ tail" for fid
    using grow unfolding grows_def by blast
qed

text \<open>Appends that leave the index alone keep the invariant and every value.\<close>

lemma engine_inv_frame:
  assumes ok: "crates_ok E" "os_ok E" and inv: "engine_inv E (e, fs)"
    and files: "files_inv (e', fs')" "grows fs fs'" "same_index e e'" "bw_ok e'"
  shows "engine_inv E (e', fs')" and "kv E (e', fs') = kv E (e, fs)"
proof -
  have same: "eng_index e' = eng_index e" "eng_options e' = eng_options e" "known_ids e \<subseteq> known_ids e'"
    using files(3) by (simp_all add: same_index_def)
  have "entry_ok E (e', fs') k p" if "index_entries E (eng_index e) k = Some p" for k p
    using that inv entry_ok_grows [OF _ files(2), of E e k p e'] same by (auto simp: engine_inv_def)
  then show inv': "engine_inv E (e', fs')"
    using inv files(1,4) same(1) by (simp add: engine_inv_def)
  have "get E k (e', fs') = get E k (e, fs)" for k
    using get_frame [OF ok engine_inv_reads [OF inv] engine_inv_reads [OF inv'] files(2)] same
    by simp
  then show "kv E (e', fs') = kv E (e, fs)" by (simp add: kv_def fun_eq_iff)
qed

subsection \<open>\<open>put\<close>\<close>

definition storable :: "bytes \<Rightarrow> bytes \<Rightarrow> bool" where
  "storable k v \<longleftrightarrow> k \<noteq> [] \<and> length k + 10 < 2 ^ 32 \<and> length v < 2 ^ 32"

lemma add_reclaim_sel [simp]:
  "eng_index (add_reclaim old e) = eng_index e" "eng_options (add_reclaim old e) = eng_options e"
  "active_id (add_reclaim old e) = active_id e" "known_ids (add_reclaim old e) = known_ids e"
  "data_path (add_reclaim old e) = data_path e" "seq_no (add_reclaim old e) = seq_no e"
  "files_inv (add_reclaim old e, fs) = files_inv (e, fs)" "bw_ok (add_reclaim old e) = bw_ok e"
  "file_bytes (add_reclaim old e, fs) = file_bytes (e, fs)"
  by (auto simp: add_reclaim_def active_id_def known_ids_def data_path_def files_inv_def handle_ok_def
      bw_ok_def file_bytes_def fun_eq_iff split: option.splits)

lemma index_update_sel [simp]:
  "active_id (e\<lparr>eng_index := i\<rparr>) = active_id e" "known_ids (e\<lparr>eng_index := i\<rparr>) = known_ids e"
  "data_path (e\<lparr>eng_index := i\<rparr>) = data_path e" "bw_ok (e\<lparr>eng_index := i\<rparr>) = bw_ok e"
  "files_inv (e\<lparr>eng_index := i\<rparr>, fs) = files_inv (e, fs)"
  "file_bytes (e\<lparr>eng_index := i\<rparr>, fs) = file_bytes (e, fs)"
  by (auto simp: active_id_def known_ids_def data_path_def files_inv_def handle_ok_def
      bw_ok_def file_bytes_def fun_eq_iff)

lemma engine_inv_add_reclaim [simp]: "engine_inv E (add_reclaim old e, fs) = engine_inv E (e, fs)"
  by (simp add: engine_inv_def entry_ok_def)

lemma kv_add_reclaim [simp]: "kv E (add_reclaim old e, fs) = kv E (e, fs)"
proof -
  have "get_value_by_position E p (add_reclaim old e, fs) = get_value_by_position E p (e, fs)" for p
    by (cases old) (simp_all add: add_reclaim_def get_value_by_position_def)
  then show ?thesis by (simp add: kv_def get_def fun_eq_iff)
qed

text \<open>
  Appending a \<open>Normal\<close> record for \<open>k\<close> and pointing the index at it stores the value.  Both \<open>put\<close>
  and the commit of a batch do this.
\<close>

lemma point_index:
  assumes ok: "crates_ok E" "os_ok E" and inv: "engine_inv E (e, fs)"
    and files: "files_inv (e', fs')" "grows fs fs'" "same_index e e'" "bw_ok e'"
    and at: "record_at E (file_bytes (e', fs') (pos_file_id p)) (unat (pos_offset p)) r"
      "pos_file_id p \<in> known_ids e'" "rec_type r = Normal"
      "parse_log_record_key E (rec_key r) = Ok (k, n)" "k \<noteq> []"
  shows "\<exists>i. index_put E (eng_index e') k p = (Ok (index_entries E (eng_index e) k), i) \<and>
    engine_inv E (e'\<lparr>eng_index := i\<rparr>, fs') \<and>
    kv E (e'\<lparr>eng_index := i\<rparr>, fs') = (kv E (e, fs))(k \<mapsto> rec_value r) \<and>
    index_entries E i = (index_entries E (eng_index e))(k \<mapsto> p)"
proof -
  have same: "eng_index e' = eng_index e" "eng_options e' = eng_options e" "known_ids e \<subseteq> known_ids e'"
    using files(3) by (simp_all add: same_index_def)
  have idx: "index_inv E (eng_index e)" using inv by (simp add: engine_inv_def)
  obtain i where i: "index_put E (eng_index e) k p = (Ok (index_entries E (eng_index e) k), i)"
    "index_inv E i" "index_entries E i = (index_entries E (eng_index e))(k \<mapsto> p)"
    using ix.putE [OF idx] .
  let ?e = "e'\<lparr>eng_index := i\<rparr>"
  have old: "entry_ok E (?e, fs') k' p'" if "index_entries E (eng_index e) k' = Some p'" for k' p'
    using that inv entry_ok_grows [OF _ files(2), of E e k' p' ?e] same by (auto simp: engine_inv_def)
  have new: "entry_ok E (?e, fs') k p"
    using at by (auto simp: entry_ok_def)
  have inv': "engine_inv E (?e, fs')"
    using files(1,4) i(2,3) old new by (simp add: engine_inv_def)
  moreover have "kv E (?e, fs') k' = ((kv E (e, fs))(k \<mapsto> rec_value r)) k'" for k'
  proof (cases "k' = k")
    case True
    then show ?thesis
      using get_indexed [OF ok engine_inv_reads [OF inv'], of k p r] at i(3) by (simp add: kv_def)
  next
    case False
    then show ?thesis
      using get_frame [OF ok engine_inv_reads [OF inv] engine_inv_reads [OF inv'] files(2)] same i(3) by (simp add: kv_def)
  qed
  ultimately show ?thesis using i(1,3) same(1) by auto
qed

lemma put_ok:
  assumes ok: "crates_ok E" "os_ok E" and inv: "engine_inv E (e, fs)" and kv: "storable k v"
    and id: "unat (active_id e) + 1 < 2 ^ 32"
  shows "\<exists>e' fs'. put E k v (e, fs) = (Ok (), e', fs') \<and> engine_inv E (e', fs') \<and>
    kv E (e', fs') = (kv E (e, fs))(k \<mapsto> v) \<and>
    unat (active_id e') \<le> unat (active_id e) + 1 \<and> seq_no e' = seq_no e \<and>
    eng_options e' = eng_options e"
proof -
  let ?r = "LogRecord_new (0 # k) v Normal"
  have wf: "wf_record ?r" and k: "k \<noteq> []" using kv by (auto simp: storable_def wf_record_def)
  have files: "files_inv (e, fs)" and bw: "bw_ok e" using inv by (simp_all add: engine_inv_def)
  from append_log_record_ok [OF ok files wf id bw] obtain p e1 fs1 where
    ap: "append_log_record E ?r (e, fs) = (Ok p, e1, fs1)" and
    inv1: "files_inv (e1, fs1)" "grows fs fs1" "same_index e e1" "bw_ok e1" and
    up: "unat (active_id e1) \<le> unat (active_id e) + 1" and
    at: "pos_file_id p = active_id e1"
      "record_at E (file_bytes (e1, fs1) (pos_file_id p)) (unat (pos_offset p)) ?r" by blast
  have parse: "parse_log_record_key E (rec_key ?r) = Ok (k, 0)"
    using parse_key_with_seq [OF ok(1) key_with_seq_0 [OF ok(1)]]
    by (simp add: NON_TRANSACTION_SEQ_NO_def)
  have "pos_file_id p \<in> known_ids e1" by (simp add: at(1) known_ids_def)
  from point_index [OF ok inv inv1 at(2) this _ parse k] obtain i where
    i: "index_put E (eng_index e1) k p = (Ok (index_entries E (eng_index e) k), i)"
      "engine_inv E (e1\<lparr>eng_index := i\<rparr>, fs1)"
      "kv E (e1\<lparr>eng_index := i\<rparr>, fs1) = (kv E (e, fs))(k \<mapsto> v)" by auto
  let ?e2 = "add_reclaim (index_entries E (eng_index e) k) (e1\<lparr>eng_index := i\<rparr>)"
  have "put E k v (e, fs) = (Ok (), ?e2, fs1)"
    using ap i(1) k by (simp add: put_def key_with_seq_0 [OF ok(1)])
  then show ?thesis
    using i(2,3) inv1(3) up by (intro exI [of _ ?e2] exI [of _ fs1]) (auto simp: same_index_def)
qed

subsection \<open>\<open>delete\<close>\<close>

lemma unpoint_index:
  assumes ok: "crates_ok E" "os_ok E" and inv: "engine_inv E (e, fs)"
    and files: "files_inv (e', fs')" "grows fs fs'" "same_index e e'" "bw_ok e'"
  shows "\<exists>i. index_delete E (eng_index e') k = (Ok (index_entries E (eng_index e) k), i) \<and>
    engine_inv E (e'\<lparr>eng_index := i\<rparr>, fs') \<and>
    kv E (e'\<lparr>eng_index := i\<rparr>, fs') = (kv E (e, fs))(k := None) \<and>
    index_entries E i = (index_entries E (eng_index e))(k := None)"
proof -
  have same: "eng_index e' = eng_index e" "eng_options e' = eng_options e" "known_ids e \<subseteq> known_ids e'"
    using files(3) by (simp_all add: same_index_def)
  have idx: "index_inv E (eng_index e)" using inv by (simp add: engine_inv_def)
  obtain i where i: "index_delete E (eng_index e) k = (Ok (index_entries E (eng_index e) k), i)"
    "index_inv E i" "index_entries E i = (index_entries E (eng_index e))(k := None)"
    using ix.deleteE [OF idx] .
  let ?e = "e'\<lparr>eng_index := i\<rparr>"
  have old: "entry_ok E (?e, fs') k' p'" if "index_entries E (eng_index e) k' = Some p'" for k' p'
    using that inv entry_ok_grows [OF _ files(2), of E e k' p' ?e] same by (auto simp: engine_inv_def)
  have inv': "engine_inv E (?e, fs')"
    using files(1,4) i(2,3) old by (simp add: engine_inv_def)
  moreover have "kv E (?e, fs') k' = ((kv E (e, fs))(k := None)) k'" for k'
  proof (cases "k' = k")
    case True
    then show ?thesis
      using kv_indexed_iff [OF ok engine_inv_reads [OF inv'], of k] i(3) by simp
  next
    case False
    then show ?thesis
      using get_frame [OF ok engine_inv_reads [OF inv] engine_inv_reads [OF inv'] files(2)] same i(3) by (simp add: kv_def)
  qed
  ultimately show ?thesis using i(1,3) same(1) by auto
qed

lemma delete_ok:
  assumes ok: "crates_ok E" "os_ok E" and inv: "engine_inv E (e, fs)"
    and k: "k \<noteq> []" "length k < 2 ^ 32" and id: "unat (active_id e) + 1 < 2 ^ 32"
  shows "\<exists>e' fs'. delete E k (e, fs) = (Ok (), e', fs') \<and> engine_inv E (e', fs') \<and>
    kv E (e', fs') = (kv E (e, fs))(k := None) \<and>
    unat (active_id e') \<le> unat (active_id e) + 1 \<and> seq_no e' = seq_no e \<and>
    eng_options e' = eng_options e"
proof (cases "index_entries E (eng_index e) k")
  case None
  have idx: "index_inv E (eng_index e)" using inv by (simp add: engine_inv_def)
  have "delete E k (e, fs) = (Ok (), e, fs)"
    using None ix.get_law [OF idx, of k] k by (simp add: delete_def)
  moreover have "kv E (e, fs) k = None"
    using None kv_indexed_iff [OF ok engine_inv_reads [OF inv], of k] by simp
  ultimately show ?thesis using inv by (auto simp: fun_eq_iff)
next
  case (Some old)
  let ?r = "LogRecord_new k [] Delete"
  have wf: "wf_record ?r" using k by (simp add: wf_record_def)
  have files: "files_inv (e, fs)" and bw: "bw_ok e" and idx: "index_inv E (eng_index e)"
    using inv by (simp_all add: engine_inv_def)
  from append_log_record_ok [OF ok files wf id bw] obtain p e1 fs1 where
    ap: "append_log_record E ?r (e, fs) = (Ok p, e1, fs1)" and
    inv1: "files_inv (e1, fs1)" "grows fs fs1" "same_index e e1" "bw_ok e1" and
    up: "unat (active_id e1) \<le> unat (active_id e) + 1" by blast
  from unpoint_index [OF ok inv inv1, of k] obtain i where
    i: "index_delete E (eng_index e1) k = (Ok (Some old), i)"
      "engine_inv E (e1\<lparr>eng_index := i\<rparr>, fs1)"
      "kv E (e1\<lparr>eng_index := i\<rparr>, fs1) = (kv E (e, fs))(k := None)"
    using Some by auto
  let ?e2 = "add_reclaim (Some old) ((add_reclaim (Some p) e1)\<lparr>eng_index := i\<rparr>)"
  have comm: "(add_reclaim (Some p) e1)\<lparr>eng_index := i\<rparr> = add_reclaim (Some p) (e1\<lparr>eng_index := i\<rparr>)"
    by (simp add: add_reclaim_def)
  have "delete E k (e, fs) = (Ok (), ?e2, fs1)"
    using ap i(1) k Some ix.get_law [OF idx, of k] by (simp add: delete_def Let_def)
  moreover have "engine_inv E (?e2, fs1)" "kv E (?e2, fs1) = (kv E (e, fs))(k := None)"
    unfolding comm using i(2,3) by simp_all
  ultimately show ?thesis
    using inv1(3) up by (intro exI [of _ ?e2] exI [of _ fs1]) (auto simp: same_index_def)
qed
end
