(* ===== verification/Replay.thy ===== *)
theory Replay
  imports Load EngineInv
begin

text \<open>
  What a log means: the records of the data files in the order of the files, each with its
  position, replayed one by one into the index.  The definitions here are the specification that
  \<open>load_index_from_data_files\<close> is proved to implement.
\<close>

subsection \<open>A log file as a list of records\<close>

definition record_bytes :: "'z crates_scheme \<Rightarrow> log_record \<Rightarrow> bytes" where
  "record_bytes C r = (case LogRecord_encode C r of Ok en \<Rightarrow> en | _ \<Rightarrow> [])"

definition log_bytes :: "'z crates_scheme \<Rightarrow> log_record list \<Rightarrow> bytes" where
  "log_bytes C rs = concat (map (record_bytes C) rs)"

fun log_length :: "'z crates_scheme \<Rightarrow> log_record list \<Rightarrow> nat" where
  "log_length C [] = 0"
| "log_length C (r # rs) = encoded_length C r + log_length C rs"

fun layout :: "'z crates_scheme \<Rightarrow> u32 \<Rightarrow> nat \<Rightarrow> log_record list \<Rightarrow> (log_record_pos \<times> log_record) list" where
  "layout C fid n [] = []"
| "layout C fid n (r # rs) =
     (LogRecordPos_new fid (of_nat n) (of_nat (encoded_length C r)), r)
     # layout C fid (n + encoded_length C r) rs"

lemma record_bytes_encode:
  assumes "crates_ok C" "wf_record r"
  shows "LogRecord_encode C r = Ok (record_bytes C r)"
    and "length (record_bytes C r) = encoded_length C r"
proof -
  obtain en where en: "LogRecord_encode C r = Ok en"
    using LogRecord_encode_total [OF assms] .
  show "LogRecord_encode C r = Ok (record_bytes C r)"
    "length (record_bytes C r) = encoded_length C r"
    using LogRecord_encode_length [OF assms(1) en] by (simp_all add: record_bytes_def en)
qed

lemma log_bytes_simps [simp]:
  "log_bytes C [] = []"
  "log_bytes C (r # rs) = record_bytes C r @ log_bytes C rs"
  "log_bytes C (rs @ rs') = log_bytes C rs @ log_bytes C rs'"
  by (simp_all add: log_bytes_def)

lemma log_length_append [simp]: "log_length C (rs @ rs') = log_length C rs + log_length C rs'"
  by (induction rs) simp_all

lemma layout_append:
  "layout C fid n (rs @ rs') = layout C fid n rs @ layout C fid (n + log_length C rs) rs'"
  by (induction rs arbitrary: n) (simp_all add: add.assoc)

lemma length_log_bytes:
  "crates_ok C \<Longrightarrow> list_all wf_record rs \<Longrightarrow> length (log_bytes C rs) = log_length C rs"
  by (induction rs) (simp_all add: record_bytes_encode)

lemma layout_record_at:
  assumes "crates_ok C" "list_all wf_record rs" "(p, r) \<in> set (layout C fid n rs)"
    and "bs = pre @ log_bytes C rs" "length pre = n" "length bs < 2 ^ 64"
  shows "pos_file_id p = fid \<and> record_at C bs (unat (pos_offset p)) r \<and> r \<in> set rs \<and>
    pos_size p = of_nat (encoded_length C r)"
  using assms(2-)
proof (induction rs arbitrary: n pre)
  case (Cons a rs)
  have wf: "wf_record a" "list_all wf_record rs" using Cons.prems(1) by simp_all
  show ?case
  proof (cases "(p, r) \<in> set (layout C fid (n + encoded_length C a) rs)")
    case True
    have "bs = (pre @ record_bytes C a) @ log_bytes C rs" using Cons.prems(3) by simp
    from Cons.IH [OF wf(2) True this _ Cons.prems(5)] show ?thesis
      using Cons.prems(4) record_bytes_encode(2) [OF assms(1) wf(1)] by simp
  next
    case False
    then have p: "p = LogRecordPos_new fid (of_nat n) (of_nat (encoded_length C a))" "r = a"
      using Cons.prems(2) by auto
    have "n < 2 ^ 64" using Cons.prems(3-5) by simp
    then have n: "unat (of_nat n :: u64) = n" by (simp add: unat_of_nat)
    have "record_at C bs n a"
      by (rule record_atI [OF wf(1) record_bytes_encode(1) [OF assms(1) wf(1)]
            _ Cons.prems(4), where post = "log_bytes C rs"]) (simp add: Cons.prems(3))
    then show ?thesis by (simp add: p n)
  qed
qed simp

subsection \<open>Scanning a log file\<close>

text \<open>\<open>rd\<close> reads every record of the file where it lies, and the end of the file after the last.\<close>

definition log_readable ::
  "'z crates_scheme \<Rightarrow> (u64 \<Rightarrow> read_log_record res) \<Rightarrow> u32 \<Rightarrow> nat \<Rightarrow> log_record list \<Rightarrow> bool" where
  "log_readable C rd fid n rs \<longleftrightarrow>
     (\<forall>(p, r) \<in> set (layout C fid n rs).
        rd (pos_offset p) = Ok \<lparr>rlr_record = r, rlr_size = encoded_length C r\<rparr>) \<and>
     rd (of_nat (n + log_length C rs)) = Err ReadDataFileEOF"

lemma log_readable_Cons:
  "log_readable C rd fid n (r # rs) \<longleftrightarrow>
     rd (of_nat n) = Ok \<lparr>rlr_record = r, rlr_size = encoded_length C r\<rparr> \<and>
     log_readable C rd fid (n + encoded_length C r) rs"
  by (auto simp: log_readable_def add.assoc)

text \<open>
  The contract of a loop body: on a record of the file it succeeds and follows an abstract step.
  \<open>R n\<close> relates the abstract state to the state of the loop, before the record at \<open>n\<close>.
\<close>

locale log_scan =
  fixes C :: "'z crates_scheme"
    and rd :: "'s \<Rightarrow> u64 \<Rightarrow> read_log_record res"
    and handle :: "u64 \<Rightarrow> read_log_record \<Rightarrow> 's \<Rightarrow> unit res \<times> 's"
    and fid :: u32
    and good :: "log_record \<Rightarrow> bool"
    and step :: "log_record_pos \<times> log_record \<Rightarrow> 'a \<Rightarrow> 'a"
    and R :: "nat \<Rightarrow> 'a \<Rightarrow> 's \<Rightarrow> bool"
    and limit :: nat
  assumes limit_law: "limit < 2 ^ 64"
    and handle_law: "R n a s \<Longrightarrow> good r \<Longrightarrow> n + encoded_length C r \<le> limit \<Longrightarrow>
    \<exists>s'. handle (of_nat n) \<lparr>rlr_record = r, rlr_size = encoded_length C r\<rparr> s = (Ok (), s') \<and>
      R (n + encoded_length C r) (step (LogRecordPos_new fid (of_nat n) (of_nat (encoded_length C r)), r) a) s'"
begin

text \<open>The loop ends at the end of the file, having made one step for each record.\<close>

lemma scan_log_fold:
  assumes "R n a s" "list_all good rs" "n + log_length C rs \<le> limit"
    and "\<And>m a s. R m a s \<Longrightarrow> log_readable C (rd s) fid n rs"
  shows "\<exists>s'. scan_log rd handle (of_nat n) s = Some (Ok (of_nat (n + log_length C rs)), s') \<and>
    R (n + log_length C rs) (fold step (layout C fid n rs) a) s'"
  using assms
proof (induction rs arbitrary: n a s)
  case Nil
  then have "rd s (of_nat n) = Err ReadDataFileEOF" by (auto simp: log_readable_def)
  then show ?case using Nil.prems(1) by (simp add: scan_log.simps [of rd])
next
  case (Cons r rs)
  let ?p = "LogRecordPos_new fid (of_nat n) (of_nat (encoded_length C r))"
  have rd: "rd s (of_nat n) = Ok \<lparr>rlr_record = r, rlr_size = encoded_length C r\<rparr>"
    using Cons.prems(4) [OF Cons.prems(1)] by (simp add: log_readable_Cons)
  obtain s1 where s1: "handle (of_nat n) \<lparr>rlr_record = r, rlr_size = encoded_length C r\<rparr> s = (Ok (), s1)"
    "R (n + encoded_length C r) (step (?p, r) a) s1"
    using handle_law [OF Cons.prems(1), of r] Cons.prems(2,3) by auto
  have n: "n + encoded_length C r < 2 ^ 64" "unat (of_nat n :: u64) = n"
    using Cons.prems(3) limit_law by (simp_all add: unat_of_nat)
  have off: "add_u64 (of_nat n) (of_nat (encoded_length C r)) = Ok (of_nat (n + encoded_length C r))"
    using add_u64_of_nat(1) [of "of_nat n" "encoded_length C r"] n by simp
  have "log_readable C (rd s) fid (n + encoded_length C r) rs" if "R m a s" for m a s
    using Cons.prems(4) [OF that] by (simp add: log_readable_Cons)
  moreover have "n + encoded_length C r + log_length C rs \<le> limit" "list_all good rs"
    using Cons.prems(2,3) by simp_all
  ultimately obtain s' where
    "scan_log rd handle (of_nat (n + encoded_length C r)) s1 =
       Some (Ok (of_nat (n + encoded_length C r + log_length C rs)), s')"
    "R (n + encoded_length C r + log_length C rs) (fold step (layout C fid (n + encoded_length C r) rs) (step (?p, r) a)) s'"
    using Cons.IH [OF s1(2)] by blast
  then show ?case
    by (simp add: scan_log.simps [of rd handle "of_nat n"] rd s1(1) off add.assoc
        del: of_nat_add)
qed

end

text \<open>Every loop of this shape ends, whatever the file holds: each record moves the offset on.\<close>

lemma scan_log_total:
  assumes size: "\<And>s offset rlr. rd s offset = Ok rlr \<Longrightarrow> 0 < rlr_size rlr \<and> rlr_size rlr < 2 ^ 64"
  shows "scan_log rd handle offset s \<noteq> None"
proof (induction "2 ^ 64 - unat offset" arbitrary: offset s rule: less_induct)
  case less
  have "scan_log rd handle offset' s' \<noteq> None"
    if rlr: "rd s offset = Ok rlr" and off: "add_u64 offset (of_nat (rlr_size rlr)) = Ok offset'"
    for rlr offset' s'
  proof (rule less.hyps)
    have "unat (of_nat (rlr_size rlr) :: u64) = rlr_size rlr"
      using size [OF rlr] by (simp add: unat_of_nat)
    then have "unat offset + rlr_size rlr < 2 ^ 64"
      using off by (simp add: add_u64_def split: if_splits)
    then have "unat offset' = unat offset + rlr_size rlr" "unat offset < 2 ^ 64"
      using off add_u64_of_nat [of offset "rlr_size rlr"] by simp_all
    then show "2 ^ 64 - unat offset' < 2 ^ 64 - unat offset"
      using size [OF rlr] by linarith
  qed
  then show ?case
    by (subst scan_log.simps) (auto split: res.split prod.split)
qed

lemma read_log_record_size:
  assumes "crates_ok C" "read_log_record_with C rd offset = Ok rlr"
  shows "0 < rlr_size rlr \<and> rlr_size rlr < 2 ^ 64"
proof -
  obtain k v where kv: "k + v + 4 < 2 ^ 63"
    "rlr_size rlr = length_delimiter_len C k + length_delimiter_len C v + 1 + k + v + 4"
    using assms(2) unfolding read_log_record_with_def Let_def
    by (auto simp: not_le simp del: of_nat_add elim!: res_bind_OkE
        split: list.split_asm option.split_asm if_split_asm prod.split_asm)
  then have "length_delimiter_len C k \<le> 10" "length_delimiter_len C v \<le> 10"
    using delimiter_len_le_10 [OF assms(1)] by simp_all
  then show ?thesis using kv by simp
qed

subsection \<open>Replaying records\<close>

text \<open>
  The state of a replay: the index so far, the updates of each open transaction, the highest
  sequence number seen.
\<close>

type_synonym index_update = "bytes \<times> log_record_type \<times> log_record_pos"

type_synonym replay_state =
  "(bytes \<Rightarrow> log_record_pos option) \<times> (nat \<Rightarrow> index_update list) \<times> nat"

fun apply_update ::
  "index_update \<Rightarrow> (bytes \<Rightarrow> log_record_pos option) \<Rightarrow> bytes \<Rightarrow> log_record_pos option" where
  "apply_update (k, Normal, p) m = m(k \<mapsto> p)"
| "apply_update (k, Delete, p) m = m(k := None)"
| "apply_update (k, TxnFinished, p) m = m"

fun replay_step ::
  "'z crates_scheme \<Rightarrow> log_record_pos \<times> log_record \<Rightarrow> replay_state \<Rightarrow> replay_state" where
  "replay_step C (p, r) (m, txns, cur) =
     (case parse_log_record_key C (rec_key r) of
        Ok (k, n) \<Rightarrow>
          if n = NON_TRANSACTION_SEQ_NO then (apply_update (k, rec_type r, p) m, txns, max cur n)
          else if rec_type r = TxnFinished then
            (fold apply_update (txns n) m, txns(n := []), max cur n)
          else (m, txns(n := txns n @ [(k, rec_type r, p)]), max cur n)
      | _ \<Rightarrow> (m, txns, cur))"

definition replay :: "'z crates_scheme \<Rightarrow> (log_record_pos \<times> log_record) list \<Rightarrow> replay_state" where
  "replay C entries = fold (replay_step C) entries (Map.empty, \<lambda>_. [], 0)"

lemma replay_append: "replay C (xs @ ys) = fold (replay_step C) ys (replay C xs)"
  by (simp add: replay_def)

text \<open>Every entry of the replayed index comes from a \<open>Normal\<close> record of the log.\<close>

lemma apply_update_entry:
  "apply_update u m k = Some p \<Longrightarrow> m k = Some p \<or> u = (k, Normal, p)"
  by (cases "(u, m)" rule: apply_update.cases) (auto split: if_splits)

lemma fold_apply_update_entry:
  "fold apply_update us m k = Some p \<Longrightarrow> m k = Some p \<or> (k, Normal, p) \<in> set us"
proof (induction us arbitrary: m)
  case (Cons u us)
  from Cons.IH [of "apply_update u m"] Cons.prems show ?case
    by (auto dest: apply_update_entry)
qed simp

definition from_log ::
  "'z crates_scheme \<Rightarrow> (log_record_pos \<times> log_record) list \<Rightarrow> index_update \<Rightarrow> bool" where
  "from_log C xs u \<longleftrightarrow>
     (case u of (k, ty, p) \<Rightarrow> \<exists>r n. (p, r) \<in> set xs \<and> rec_type r = ty \<and>
        parse_log_record_key C (rec_key r) = Ok (k, n))"

lemma from_log_mono: "from_log C xs u \<Longrightarrow> from_log C (xs @ ys) u"
  by (auto simp: from_log_def)

lemma replay_from_log:
  "case replay C xs of (m, txns, cur) \<Rightarrow>
     (\<forall>k p. m k = Some p \<longrightarrow> from_log C xs (k, Normal, p)) \<and>
     (\<forall>j. \<forall>u \<in> set (txns j). from_log C xs u)"
proof (induction xs rule: rev_induct)
  case Nil
  then show ?case by (simp add: replay_def)
next
  case (snoc x xs)
  obtain q r where x: "x = (q, r)" by (cases x)
  obtain m txns cur where R: "replay C xs = (m, txns, cur)" by (cases "replay C xs")
  have m: "from_log C (xs @ [x]) (k, Normal, p)" if "m k = Some p" for k p
    using that snoc.IH by (simp add: R from_log_mono)
  have t: "from_log C (xs @ [x]) u" if "u \<in> set (txns j)" for u j
    using that snoc.IH by (auto simp: R from_log_mono)
  show ?case
  proof (cases "parse_log_record_key C (rec_key r)")
    case (Ok kn)
    obtain k n where kn: "kn = (k, n)" by (cases kn)
    have new: "from_log C (xs @ [x]) (k, rec_type r, q)"
      using Ok by (auto simp: from_log_def x kn)
    consider (plain) "n = NON_TRANSACTION_SEQ_NO"
      | (finished) "n \<noteq> NON_TRANSACTION_SEQ_NO" "rec_type r = TxnFinished"
      | (part) "n \<noteq> NON_TRANSACTION_SEQ_NO" "rec_type r \<noteq> TxnFinished" by blast
    then show ?thesis
    proof cases
      case plain
      then show ?thesis
        using m t new by (auto simp: replay_append R Ok kn x dest!: apply_update_entry)
    next
      case finished
      then show ?thesis
        using m t by (auto simp: replay_append R Ok kn x dest!: fold_apply_update_entry)
    next
      case part
      then show ?thesis
        using m t new by (auto simp: replay_append R Ok kn x)
    qed
  qed (use m t in \<open>auto simp: replay_append R x\<close>)
qed

text \<open>Records the engine can have written: of a size whose sums stay in range, with a parsable key.\<close>

definition good_record :: "'z crates_scheme \<Rightarrow> log_record \<Rightarrow> bool" where
  "good_record C r \<longleftrightarrow>
     wf_record r \<and> encoded_length C r < 2 ^ 31 \<and>
     (\<exists>k n. parse_log_record_key C (rec_key r) = Ok (k, n) \<and> k \<noteq> [])"

definition small_pos :: "log_record_pos \<Rightarrow> bool" where
  "small_pos p \<longleftrightarrow> unat (pos_size p) < 2 ^ 31"

text \<open>The variables of the loop as a replay state.\<close>

definition txn_updates :: "transaction_record list \<Rightarrow> index_update list" where
  "txn_updates ts =
     map (\<lambda>t. (rec_key (txn_record t), rec_type (txn_record t), txn_pos t)) ts"

definition open_updates :: "replay_vars \<Rightarrow> nat \<Rightarrow> index_update list" where
  "open_updates v n =
     (case map_of (transaction_records v) n of None \<Rightarrow> [] | Some ts \<Rightarrow> txn_updates ts)"

definition reindexed :: "('s, 'b) index \<Rightarrow> nat \<Rightarrow> ('s, 'b) engine \<Rightarrow> ('s, 'b) engine" where
  "reindexed i n e = e\<lparr>eng_index := i, reclaim_size := n\<rparr>"

definition load_rel ::
  "('s, 'b) env \<Rightarrow> ('s, 'b) engine \<Rightarrow> fs \<Rightarrow> replay_state \<Rightarrow> replay_vars \<times> ('s, 'b) st \<Rightarrow> bool" where
  "load_rel E e fs a s \<longleftrightarrow>
     (case (a, s) of ((m, txns, cur), (v, e', fs')) \<Rightarrow>
        fs' = fs \<and> e' = reindexed (eng_index e') (reclaim_size e') e \<and>
        index_inv E (eng_index e') \<and> index_entries E (eng_index e') = m \<and>
        open_updates v = txns \<and> current_seq_no v = cur \<and>
        (\<forall>k p. m k = Some p \<longrightarrow> small_pos p) \<and>
        (\<forall>n. \<forall>(k, ty, p) \<in> set (txns n). small_pos p))"

lemma add_reclaim_reindexed: "\<exists>n. add_reclaim old (e\<lparr>eng_index := i\<rparr>) = reindexed i n e"
  unfolding reindexed_def add_reclaim_def
  by (cases old) (auto intro: exI [of _ "reclaim_size e"])

lemma update_index_ok:
  assumes inv: "index_inv E (eng_index e)"
    and small: "\<forall>k p. index_entries E (eng_index e) k = Some p \<longrightarrow> small_pos p" "small_pos p"
  shows "\<exists>i n. update_index E k ty p (e, fs) = (Ok (), reindexed i n e, fs) \<and> index_inv E i \<and>
    index_entries E i = apply_update (k, ty, p) (index_entries E (eng_index e))"
proof (cases ty)
  case Normal
  obtain i where "index_put E (eng_index e) k p = (Ok (index_entries E (eng_index e) k), i)"
    "index_inv E i" "index_entries E i = (index_entries E (eng_index e))(k \<mapsto> p)"
    using ix.putE [OF inv] .
  moreover obtain n where "add_reclaim (index_entries E (eng_index e) k) (e\<lparr>eng_index := i\<rparr>) =
      reindexed i n e" using add_reclaim_reindexed by blast
  ultimately show ?thesis by (auto simp: update_index_def Normal)
next
  case Delete
  obtain i where i: "index_delete E (eng_index e) k = (Ok (index_entries E (eng_index e) k), i)"
    "index_inv E i" "index_entries E i = (index_entries E (eng_index e))(k := None)"
    using ix.deleteE [OF inv] .
  have "\<exists>size. (case index_entries E (eng_index e) k of
      Some old \<Rightarrow> add_u32 (pos_size p) (pos_size old) | None \<Rightarrow> Ok (pos_size p)) = Ok size"
    using small by (auto simp: add_u32_def small_pos_def split: option.splits) fastforce
  then obtain size where "(case index_entries E (eng_index e) k of
      Some old \<Rightarrow> add_u32 (pos_size p) (pos_size old) | None \<Rightarrow> Ok (pos_size p)) = Ok size" by blast
  then have "update_index E k ty p (e, fs) =
      (Ok (), reindexed i (fetch_add (reclaim_size e) (unat size)) e, fs)"
    using i(1) by (simp add: update_index_def Delete reindexed_def)
  then show ?thesis using i(2,3) Delete by auto
next
  case TxnFinished
  then have "update_index E k ty p (e, fs) = (Ok (), reindexed (eng_index e) (reclaim_size e) e, fs)"
    by (simp add: update_index_def reindexed_def)
  then show ?thesis using inv TxnFinished by auto
qed

lemma reindexed_sel [simp]:
  "eng_index (reindexed i n e) = i" "reindexed i n (reindexed i' n' e) = reindexed i n e"
  "reclaim_size (reindexed i n e) = n"
  by (simp_all add: reindexed_def)

lemma apply_update_small:
  assumes "\<forall>k p. m k = Some p \<longrightarrow> small_pos p" "small_pos p"
  shows "apply_update (k, ty, p) m k' = Some p' \<Longrightarrow> small_pos p'"
  using assms by (cases ty) (auto split: if_splits)

lemma update_index_all_ok:
  assumes "index_inv E (eng_index e)"
    and "\<forall>k p. index_entries E (eng_index e) k = Some p \<longrightarrow> small_pos p"
    and "\<forall>(k, ty, p) \<in> set (txn_updates ts). small_pos p"
  shows "\<exists>i n. update_index_all E ts (e, fs) = (Ok (), reindexed i n e, fs) \<and> index_inv E i \<and>
    index_entries E i = fold apply_update (txn_updates ts) (index_entries E (eng_index e)) \<and>
    (\<forall>k p. index_entries E i k = Some p \<longrightarrow> small_pos p)"
  using assms
proof (induction ts arbitrary: e)
  case Nil
  then show ?case
    by (intro exI [of _ "eng_index e"] exI [of _ "reclaim_size e"])
      (simp add: reindexed_def txn_updates_def)
next
  case (Cons t ts)
  let ?k = "rec_key (txn_record t)" and ?ty = "rec_type (txn_record t)"
  have t: "small_pos (txn_pos t)" "\<forall>(k, ty, p) \<in> set (txn_updates ts). small_pos p"
    using Cons.prems(3) by (simp_all add: txn_updates_def)
  obtain i n where i: "update_index E ?k ?ty (txn_pos t) (e, fs) = (Ok (), reindexed i n e, fs)"
    "index_inv E i"
    "index_entries E i = apply_update (?k, ?ty, txn_pos t) (index_entries E (eng_index e))"
    using update_index_ok [OF Cons.prems(1,2) t(1)] by blast
  have "\<forall>k p. index_entries E (eng_index (reindexed i n e)) k = Some p \<longrightarrow> small_pos p"
    using apply_update_small [OF Cons.prems(2) t(1)] by (simp add: i(3))
  from Cons.IH [OF _ this t(2)] i show ?case by (auto simp: txn_updates_def)
qed

text \<open>One record of the log, as \<open>load_record\<close> handles it, is one step of the replay.\<close>

lemma open_updates_simps:
  "open_updates (v\<lparr>transaction_records := AList.delete n (transaction_records v)\<rparr>) =
     (open_updates v)(n := [])"
  "open_updates (v\<lparr>transaction_records := AList.update n ts (transaction_records v)\<rparr>) =
     (open_updates v)(n := txn_updates ts)"
  "open_updates (v\<lparr>current_seq_no := m\<rparr>) = open_updates v"
  "map_of (transaction_records v) n = Some ts \<Longrightarrow> open_updates v n = txn_updates ts"
  "map_of (transaction_records v) n = None \<Longrightarrow> open_updates v n = []"
  by (auto simp: open_updates_def delete_conv' fun_eq_iff)

lemma txn_updates_snoc:
  "txn_updates (ts @ [t]) =
     txn_updates ts @ [(rec_key (txn_record t), rec_type (txn_record t), txn_pos t)]"
  by (simp add: txn_updates_def)


lemma load_record_step:
  assumes rel: "load_rel E e fs a s" and good: "good_record E r"
  shows "\<exists>s'. load_record E fid offset \<lparr>rlr_record = r, rlr_size = encoded_length E r\<rparr> s = (Ok (), s') \<and>
    load_rel E e fs
      (replay_step E (LogRecordPos_new fid offset (of_nat (encoded_length E r)), r) a) s'"
proof -
  obtain k n where key: "parse_log_record_key E (rec_key r) = Ok (k, n)"
    using good by (auto simp: good_record_def)
  obtain m txns cur where a: "a = (m, txns, cur)" by (cases a)
  obtain v e' where s: "s = (v, e', fs)" and e': "e' = reindexed (eng_index e') (reclaim_size e') e"
    and inv: "index_inv E (eng_index e')" and m: "index_entries E (eng_index e') = m"
    and v: "open_updates v = txns" "current_seq_no v = cur"
    and small: "\<forall>k p. m k = Some p \<longrightarrow> small_pos p"
      "\<And>n. \<forall>(k, ty, p) \<in> set (txns n). small_pos p"
    using rel by (cases s) (auto simp: load_rel_def a)
  have re: "reindexed i c e' = reindexed i c e" for i c
    using e' by (metis reindexed_sel(2))
  let ?p = "LogRecordPos_new fid offset (of_nat (encoded_length E r))"
  have p: "small_pos ?p"
    using good by (auto simp: small_pos_def good_record_def unat_of_nat)
  have small': "\<forall>k p. index_entries E (eng_index e') k = Some p \<longrightarrow> small_pos p"
    using small(1) by (simp add: m)
  consider (plain) "n = NON_TRANSACTION_SEQ_NO"
    | (finished) "n \<noteq> NON_TRANSACTION_SEQ_NO" "rec_type r = TxnFinished"
    | (part) "n \<noteq> NON_TRANSACTION_SEQ_NO" "rec_type r \<noteq> TxnFinished" by blast
  then show ?thesis
  proof cases
    case plain
    obtain i c where u: "update_index E k (rec_type r) ?p (e', fs) = (Ok (), reindexed i c e', fs)"
      "index_inv E i" "index_entries E i = apply_update (k, rec_type r, ?p) m"
      using update_index_ok [OF inv small' p] m by blast
    have "\<forall>k' p'. apply_update (k, rec_type r, ?p) m k' = Some p' \<longrightarrow> small_pos p'"
      using apply_update_small [OF small(1) p] by blast
    then show ?thesis
      using u plain v small(2)
      by (auto simp: re load_record_def s a key on_st_def on_vars_def load_rel_def
          open_updates_simps max_def)
  next
    case finished
    show ?thesis
    proof (cases "map_of (transaction_records v) n")
      case None
      then show ?thesis
        using finished inv m small v e' open_updates_simps(5) [OF None]
        by (auto simp: load_record_def s a key on_vars_def load_rel_def
            open_updates_simps max_def)
    next
      case (Some ts)
      then have ts: "txn_updates ts = txns n" using open_updates_simps(4) [OF Some] v by simp
      obtain i c where u: "update_index_all E ts (e', fs) = (Ok (), reindexed i c e', fs)"
        "index_inv E i" "index_entries E i = fold apply_update (txns n) m"
        "\<forall>k p. index_entries E i k = Some p \<longrightarrow> small_pos p"
        using update_index_all_ok [OF inv small', of ts fs] small(2) [of n] unfolding m ts by blast
      then show ?thesis
        using finished Some v small(2)
        by (auto simp: re load_record_def s a key on_st_def on_vars_def load_rel_def
            open_updates_simps max_def)
    qed
  next
    case part
    let ?new = "\<lparr>txn_record = r\<lparr>rec_key := k\<rparr>, txn_pos = ?p\<rparr>"
    have "txn_updates ((case map_of (transaction_records v) n of Some ts \<Rightarrow> ts | None \<Rightarrow> []) @ [?new]) =
        txns n @ [(k, rec_type r, ?p)]"
      using v(1) by (auto simp: open_updates_def txn_updates_def split: option.splits)
    then show ?thesis
      using part inv m small v e' p
      by (auto simp: load_record_def s a key on_vars_def load_rel_def
          open_updates_simps max_def Let_def)
  qed
qed

interpretation load: log_scan E "read_file_id E fid" "load_record E fid" fid "good_record E"
    "replay_step E" "\<lambda>_. load_rel E e fs" "2 ^ 64 - 1"
  for E :: "('s, 'b) env" and fid :: u32 and e :: "('s, 'b) engine" and fs :: fs
  by unfold_locales (simp, rule load_record_step)

subsection \<open>Replaying all files\<close>

type_synonym logs = "(u32 \<times> log_record list) list"

definition log_entries :: "'z crates_scheme \<Rightarrow> logs \<Rightarrow> (log_record_pos \<times> log_record) list" where
  "log_entries C logs = concat (map (\<lambda>(fid, rs). layout C fid 0 rs) logs)"

lemma log_entries_simps [simp]:
  "log_entries C [] = []"
  "log_entries C ((fid, rs) # logs) = layout C fid 0 rs @ log_entries C logs"
  "log_entries C (logs @ logs') = log_entries C logs @ log_entries C logs'"
  by (simp_all add: log_entries_def)

lemma read_file_id_load_rel:
  assumes "load_rel E e fs a s"
  shows "read_file_id E fid s = read_file_id E fid (v, e, fs)"
proof -
  obtain v' i n where "s = (v', reindexed i n e, fs)"
    using assms by (cases s; cases a) (auto simp: load_rel_def)
  then show ?thesis by (simp add: read_file_id_def reindexed_def fun_eq_iff)
qed

lemma load_files_ok:
  assumes "load_rel E e fs a s"
    and "\<forall>(fid, rs) \<in> set logs. list_all (good_record E) rs \<and> log_length E rs < 2 ^ 64 \<and>
      log_readable E (read_file_id E fid (v, e, fs)) fid 0 rs"
    and "logs \<noteq> []"
  shows "\<exists>v' e'. load_files E (\<lambda>_. False) (map fst logs) s =
      Some (Ok (), v', e'\<lparr>active_file :=
        set_write_off (of_nat (log_length E (snd (last logs)))) (active_file e')\<rparr>, fs) \<and>
    load_rel E e fs (fold (replay_step E) (log_entries E logs) a) (v', e', fs)"
  using assms
proof (induction logs arbitrary: a s)
  case (Cons log logs)
  obtain fid rs where log: "log = (fid, rs)" by (cases log)
  have "\<exists>s'. scan_log (read_file_id E fid) (load_record E fid) (of_nat 0) s =
      Some (Ok (of_nat (0 + log_length E rs)), s') \<and>
      load_rel E e fs (fold (replay_step E) (layout E fid 0 rs) a) s'"
  proof (rule load.scan_log_fold [OF Cons.prems(1)])
    show "log_readable E (read_file_id E fid s) fid 0 rs" if "load_rel E e fs a s" for a s
      using Cons.prems(2) read_file_id_load_rel [OF that, of fid v] by (simp add: log)
  qed (use Cons.prems(2) log in auto)
  then obtain s' where s': "scan_log (read_file_id E fid) (load_record E fid) 0 s =
      Some (Ok (of_nat (log_length E rs)), s')"
    "load_rel E e fs (fold (replay_step E) (layout E fid 0 rs) a) s'" by auto
  then obtain v' e' where v': "s' = (v', e', fs)"
    by (cases s'; cases "fold (replay_step E) (layout E fid 0 rs) a") (auto simp: load_rel_def)
  show ?case
  proof (cases "logs = []")
    case True
    then show ?thesis using s' by (auto simp: log v')
  next
    case False
    with Cons.IH [OF s'(2)] Cons.prems(2) show ?thesis by (simp add: log s'(1))
  qed
qed simp

subsection \<open>Files that read as their log\<close>

text \<open>A standard handle reads every record of its file.\<close>

lemma fio_log_readable:
  assumes "crates_ok E" "os_ok E" "list_all wf_record rs" "log_length E rs \<le> 2 ^ 63"
    and "file_data fs f = log_bytes E rs" "df_io df = FileIO f"
  shows "log_readable E (read_log_record E fs df) fid 0 rs"
proof -
  have rd: "read_log_record E fs df = read_log_record_with E (fio_read E fs f)"
    using assms(6) by (simp add: read_log_record_def fun_eq_iff)
  have len: "length (file_data fs f) = log_length E rs" "log_length E rs < 2 ^ 64"
    using assms(4,5) length_log_bytes [OF assms(1,3)] by simp_all
  have "read_log_record E fs df (pos_offset p) = Ok \<lparr>rlr_record = r, rlr_size = encoded_length E r\<rparr>"
    if "(p, r) \<in> set (layout E fid 0 rs)" for p r
    unfolding rd
    using layout_record_at [OF assms(1,3) that, of _ "[]"] assms(5) len
    by (intro fio.read_record_anywhere [OF assms(2,1)]) simp_all
  moreover have "read_log_record E fs df (of_nat (log_length E rs)) = Err ReadDataFileEOF"
    unfolding rd using len by (intro fio.read_at_end [OF assms(2,1)]) (simp add: unat_of_nat)
  ultimately show ?thesis by (auto simp: log_readable_def)
qed

text \<open>
  A map reads the record at the end of its file only when a whole header fits there: the file
  must end with a record of eleven bytes or more.
\<close>

definition ends_long :: "'z crates_scheme \<Rightarrow> log_record list \<Rightarrow> bool" where
  "ends_long C rs \<longleftrightarrow> rs = [] \<or> 11 \<le> encoded_length C (last rs)"

lemma layout_room:
  assumes "(p, r) \<in> set (layout C fid n rs)" "n + log_length C rs < 2 ^ 64"
  shows "unat (pos_offset p) + encoded_length C (last rs) \<le> n + log_length C rs"
  using assms
proof (induction rs arbitrary: n)
  case (Cons a rs)
  have n: "unat (of_nat n :: u64) = n" using Cons.prems(2) by (simp add: unat_of_nat)
  have last: "encoded_length C (last (a # rs)) \<le> log_length C (a # rs)" for a rs
  proof (induction rs arbitrary: a)
    case (Cons b rs)
    show ?case using Cons [of b] by simp
  qed simp
  show ?case
  proof (cases "(p, r) \<in> set (layout C fid (n + encoded_length C a) rs)")
    case True
    then have "rs \<noteq> []" by auto
    then show ?thesis using Cons.IH [OF True] Cons.prems(2) by simp
  next
    case False
    then show ?thesis using Cons.prems(1) last [of a rs] n by auto
  qed
qed simp

lemma mmap_log_readable:
  assumes "crates_ok E" "list_all wf_record rs" "log_length E rs \<le> 2 ^ 63" "ends_long E rs"
    and "df_io df = MMapIo (log_bytes E rs)"
  shows "log_readable E (read_log_record E fs df) fid 0 rs"
proof -
  have rd: "read_log_record E fs df = read_log_record_with E (mmap_read (log_bytes E rs))"
    using assms(5) by (simp add: read_log_record_def fun_eq_iff)
  have len: "length (log_bytes E rs) = log_length E rs" "log_length E rs < 2 ^ 64"
    using assms(3) length_log_bytes [OF assms(1,2)] by simp_all
  have "read_log_record E fs df (pos_offset p) = Ok \<lparr>rlr_record = r, rlr_size = encoded_length E r\<rparr>"
    if at: "(p, r) \<in> set (layout E fid 0 rs)" for p r
  proof -
    have "rs \<noteq> []" using at by auto
    then have "unat (pos_offset p) + 11 \<le> log_length E rs"
      using layout_room [OF at] assms(4) len(2) by (simp add: ends_long_def)
    then show ?thesis
      unfolding rd using layout_record_at [OF assms(1,2) at, of _ "[]"] len
      by (intro mmap.read_record_within [OF TrueI assms(1)]) simp_all
  qed
  moreover have "mmap_read (log_bytes E rs) (replicate 11 0) (of_nat (log_length E rs)) =
      Err ReadDataFileEOF"
    using assms(3) len by (intro mmap_read_past) (simp_all add: unat_of_nat)
  then have "read_log_record E fs df (of_nat (log_length E rs)) = Err ReadDataFileEOF"
    unfolding rd
    by (simp add: read_log_record_with_def max_log_record_header_size_eq [OF assms(1)])
  ultimately show ?thesis by (auto simp: log_readable_def)
qed

end
