(* ===== verification/Recovery.thy ===== *)
theory Recovery
  imports Replay
begin

text \<open>
  Opening a directory that holds a log: \<open>engine_open\<close> returns, and the engine it returns holds
  the index that the log replays to.
\<close>

subsection \<open>A directory that holds a log\<close>

definition disk_log :: "('s, 'b) env \<Rightarrow> path \<Rightarrow> fs \<Rightarrow> logs \<Rightarrow> bool" where
  "disk_log E dir fs logs \<longleftrightarrow>
     is_dir fs dir \<and> fs_wf fs \<and> sorted_wrt (<) (map fst logs) \<and>
     (\<forall>(fid, rs) \<in> set logs.
        is_file fs (get_data_file_name dir fid) \<and>
        file_data fs (get_data_file_name dir fid) = log_bytes E rs \<and>
        list_all (good_record E) rs \<and> log_length E rs \<le> 2 ^ 63) \<and>
     (\<forall>n. is_file fs (dir, n) \<and> ends_with n DATA_FILE_NAME_SUFFIX \<longrightarrow>
        n \<in> data_file_name ` fst ` set logs) \<and>
     \<not> is_file fs (dir, HINT_FILE_NAME) \<and> \<not> is_file fs (dir, MERGE_FINISHED_FILE_NAME) \<and>
     (\<exists>mp. get_merge_path dir = Ok mp \<and> \<not> is_dir fs mp)"

lemma ends_with_data_file_name [simp]: "ends_with (data_file_name fid) DATA_FILE_NAME_SUFFIX"
  by (simp add: data_file_name_def)

lemma split_dot_data_file_name [simp]: "split_dot_0 (data_file_name fid) = pad9 (unat fid)"
proof -
  have "c \<noteq> CHR ''.''" if "c \<in> set (pad9 n)" for c n
    using pad9_digits [OF that] by (auto simp: is_digit_char_def digit_char_neq)
  then show ?thesis
    by (simp add: split_dot_0_def data_file_name_def DATA_FILE_NAME_SUFFIX_def takeWhile_append)
qed

lemma not_data_names [simp]:
  "\<not> ends_with FILE_LOCK_NAME DATA_FILE_NAME_SUFFIX" "\<not> ends_with SEQ_NO_FILE_NAME DATA_FILE_NAME_SUFFIX"
  "\<not> ends_with HINT_FILE_NAME DATA_FILE_NAME_SUFFIX"
  "\<not> ends_with MERGE_FINISHED_FILE_NAME DATA_FILE_NAME_SUFFIX"
  "FILE_LOCK_NAME \<noteq> HINT_FILE_NAME" "FILE_LOCK_NAME \<noteq> MERGE_FINISHED_FILE_NAME"
  "SEQ_NO_FILE_NAME \<noteq> HINT_FILE_NAME" "SEQ_NO_FILE_NAME \<noteq> MERGE_FINISHED_FILE_NAME"
  by (simp_all add: ends_with_def FILE_LOCK_NAME_def SEQ_NO_FILE_NAME_def DATA_FILE_NAME_SUFFIX_def
      HINT_FILE_NAME_def MERGE_FINISHED_FILE_NAME_def)

lemma data_file_name_neq:
  "\<not> ends_with n DATA_FILE_NAME_SUFFIX \<Longrightarrow> data_file_name fid \<noteq> n"
  by (metis ends_with_data_file_name)

text \<open>The data files alone, whatever a merge left beside them.\<close>

definition data_log :: "('s, 'b) env \<Rightarrow> path \<Rightarrow> fs \<Rightarrow> logs \<Rightarrow> bool" where
  "data_log E dir fs logs \<longleftrightarrow>
     is_dir fs dir \<and> fs_wf fs \<and> sorted_wrt (<) (map fst logs) \<and>
     (\<forall>(fid, rs) \<in> set logs.
        is_file fs (get_data_file_name dir fid) \<and>
        file_data fs (get_data_file_name dir fid) = log_bytes E rs \<and>
        list_all (good_record E) rs \<and> log_length E rs \<le> 2 ^ 63) \<and>
     (\<forall>n. is_file fs (dir, n) \<and> ends_with n DATA_FILE_NAME_SUFFIX \<longrightarrow>
        n \<in> data_file_name ` fst ` set logs)"

definition no_merge :: "path \<Rightarrow> fs \<Rightarrow> bool" where
  "no_merge dir fs \<longleftrightarrow> (\<exists>mp. get_merge_path dir = Ok mp \<and> \<not> is_dir fs mp)"

lemma disk_log_iff:
  "disk_log E dir fs logs \<longleftrightarrow> data_log E dir fs logs \<and> no_merge dir fs \<and>
     \<not> is_file fs (dir, HINT_FILE_NAME) \<and> \<not> is_file fs (dir, MERGE_FINISHED_FILE_NAME)"
  unfolding disk_log_def data_log_def no_merge_def by blast

lemma disk_log_data: "disk_log E dir fs logs \<Longrightarrow> data_log E dir fs logs"
  and disk_log_no_merge: "disk_log E dir fs logs \<Longrightarrow> no_merge dir fs"
  by (simp_all add: disk_log_iff)

text \<open>Files with other names may come and grow.\<close>

lemma data_log_frame:
  assumes "data_log E dir fs logs"
    and "\<And>fid. file_data fs' (get_data_file_name dir fid) = file_data fs (get_data_file_name dir fid)"
    and "\<And>n. is_file fs (dir, n) \<Longrightarrow> is_file fs' (dir, n)"
    and "\<And>n. is_file fs' (dir, n) \<Longrightarrow> is_file fs (dir, n) \<or> \<not> ends_with n DATA_FILE_NAME_SUFFIX"
    and "is_dir fs' dir" "fs_wf fs'"
  shows "data_log E dir fs' logs"
proof -
  have files: "is_file fs' (get_data_file_name dir fid)" if "is_file fs (get_data_file_name dir fid)"
    for fid using that assms(3) by (simp add: get_data_file_name_def)
  have names: "n \<in> data_file_name ` fst ` set logs"
    if "is_file fs' (dir, n)" "ends_with n DATA_FILE_NAME_SUFFIX" for n
    using that assms(1,4) unfolding data_log_def by blast
  show ?thesis
    using assms(1,2,5,6) files names unfolding data_log_def by fastforce
qed

lemma disk_log_frame:
  assumes "disk_log E dir fs logs"
    and "\<And>fid. file_data fs' (get_data_file_name dir fid) = file_data fs (get_data_file_name dir fid)"
    and "\<And>n. is_file fs (dir, n) \<Longrightarrow> is_file fs' (dir, n)"
    and "\<And>n. is_file fs' (dir, n) \<Longrightarrow> is_file fs (dir, n) \<or>
      \<not> ends_with n DATA_FILE_NAME_SUFFIX \<and> n \<noteq> HINT_FILE_NAME \<and> n \<noteq> MERGE_FINISHED_FILE_NAME"
    and "\<And>d. is_dir fs' d \<longleftrightarrow> is_dir fs d" "fs_wf fs'"
  shows "disk_log E dir fs' logs"
proof -
  have "\<not> is_file fs' (dir, HINT_FILE_NAME)" "\<not> is_file fs' (dir, MERGE_FINISHED_FILE_NAME)"
    using assms(1) assms(4) [of HINT_FILE_NAME] assms(4) [of MERGE_FINISHED_FILE_NAME]
    by (auto simp: disk_log_def)
  moreover have "is_dir fs' dir" using assms(1,5) by (simp add: disk_log_def)
  moreover have "no_merge dir fs'" using assms(1,5) by (simp add: disk_log_iff no_merge_def)
  ultimately show ?thesis
    using data_log_frame [OF disk_log_data [OF assms(1)] assms(2,3) _ _ assms(6)] assms(4)
    unfolding disk_log_iff by blast
qed

lemma fs_locks_frame [simp]:
  "file_data (fs\<lparr>fs_locks := l\<rparr>) f = file_data fs f" "is_file (fs\<lparr>fs_locks := l\<rparr>) f = is_file fs f"
  "is_dir (fs\<lparr>fs_locks := l\<rparr>) d = is_dir fs d" "fs_wf (fs\<lparr>fs_locks := l\<rparr>) = fs_wf fs"
  by (simp_all add: file_data_def lookup_file_def is_file_def is_dir_def fs_wf_def)

subsection \<open>The lock\<close>

definition locked_fs :: "path \<Rightarrow> fs \<Rightarrow> fs" where
  "locked_fs dir fs =
     put_file fs (dir, FILE_LOCK_NAME) new_inode\<lparr>fs_locks := (dir, FILE_LOCK_NAME) # fs_locks fs\<rparr>"

lemma take_lock_ok:
  assumes "os_ok E" "is_dir fs dir" "(dir, FILE_LOCK_NAME) \<notin> set (fs_locks fs)"
  shows "take_lock E dir fs = (Ok (dir, FILE_LOCK_NAME), locked_fs dir fs)"
  using assms by (simp add: take_lock_def locked_fs_def Let_def)

lemma locked_fs_frame:
  "file_data (locked_fs dir fs) (d, n) =
     (if (d, n) = (dir, FILE_LOCK_NAME) then [] else file_data fs (d, n))"
  "is_dir (locked_fs dir fs) d = is_dir fs d"
  "fs_wf fs \<Longrightarrow> fs_wf (locked_fs dir fs)"
  "is_dir fs dir \<Longrightarrow> is_file (locked_fs dir fs) (d, n) \<longleftrightarrow> (d, n) = (dir, FILE_LOCK_NAME) \<or> is_file fs (d, n)"
  "is_file (locked_fs dir fs) (d, n) \<Longrightarrow> (d, n) = (dir, FILE_LOCK_NAME) \<or> is_file fs (d, n)"
  using is_file_is_dir [of fs "(dir, FILE_LOCK_NAME)"] file_data_new [of fs "(dir, FILE_LOCK_NAME)"]
  by (auto simp: locked_fs_def fs_simps new_inode_def)

lemma data_log_locked:
  assumes "data_log E dir fs logs"
  shows "data_log E dir (locked_fs dir fs) logs"
proof (rule data_log_frame [OF assms])
  show "file_data (locked_fs dir fs) (get_data_file_name dir fid) =
      file_data fs (get_data_file_name dir fid)" for fid
    by (simp add: get_data_file_name_def locked_fs_frame data_file_name_neq)
qed (use assms in \<open>auto simp: data_log_def locked_fs_frame\<close>)

lemma no_merge_locked [simp]: "no_merge d (locked_fs dir fs) = no_merge d fs"
  by (simp add: no_merge_def locked_fs_frame)

lemma disk_log_locked:
  assumes "disk_log E dir fs logs"
  shows "disk_log E dir (locked_fs dir fs) logs"
  using assms data_log_locked [of E dir fs logs] not_data_names(5,6) [THEN not_sym]
  by (auto simp: disk_log_iff locked_fs_frame data_log_def)

subsection \<open>Opening the data files\<close>

lemma collect_file_ids_ok:
  assumes "\<forall>n \<in> set names. ends_with n DATA_FILE_NAME_SUFFIX \<longrightarrow> n \<in> range data_file_name"
  shows "\<exists>fids. collect_file_ids names = Ok fids \<and>
    map data_file_name fids = filter (\<lambda>n. ends_with n DATA_FILE_NAME_SUFFIX) names"
  using assms
proof (induction names)
  case (Cons n names)
  then obtain fids where "collect_file_ids names = Ok fids"
    "map data_file_name fids = filter (\<lambda>n. ends_with n DATA_FILE_NAME_SUFFIX) names" by auto
  with Cons.prems show ?case
    by (auto simp: parse_u32_pad9)
qed simp

lemma read_dir_names:
  assumes "os_ok E" "is_dir fs dir" "fs_wf fs"
  obtains names where "read_dir E fs dir = Some names" "distinct names"
    "\<And>n. n \<in> set names \<longleftrightarrow> is_file fs (dir, n)"
proof -
  obtain es where es: "fs_dirs fs dir = Some es" using assms(2) by (auto simp: is_dir_def)
  have "n \<in> set (map fst es) \<longleftrightarrow> is_file fs (dir, n)" for n
    by (simp add: is_file_def lookup_file_def es map_of_eq_None_iff)
  moreover have "distinct (map fst es)" using assms(3) es by (auto simp: fs_wf_def)
  ultimately show ?thesis using that es assms(1) by (simp add: read_dir_def)
qed

lemma data_sorted_ids:
  assumes "data_log E dir fs logs" "distinct names"
    and "\<And>n. n \<in> set names \<longleftrightarrow> is_file fs (dir, n)"
  shows "\<exists>fids. collect_file_ids names = Ok fids \<and> sort fids = map fst logs"
proof -
  have data: "ends_with n DATA_FILE_NAME_SUFFIX \<and> is_file fs (dir, n) \<longleftrightarrow>
      n \<in> data_file_name ` fst ` set logs" for n
    using assms(1) by (auto simp: data_log_def get_data_file_name_def)
  have "\<forall>n \<in> set names. ends_with n DATA_FILE_NAME_SUFFIX \<longrightarrow> n \<in> range data_file_name"
    using data assms(3) by blast
  from collect_file_ids_ok [OF this] obtain fids where
    fids: "collect_file_ids names = Ok fids"
      "map data_file_name fids = filter (\<lambda>n. ends_with n DATA_FILE_NAME_SUFFIX) names" by blast
  have "distinct (map data_file_name fids)"
    unfolding fids(2) using assms(2) by simp
  moreover have "data_file_name ` set fids = data_file_name ` fst ` set logs"
  proof -
    have "data_file_name ` set fids = {n \<in> set names. ends_with n DATA_FILE_NAME_SUFFIX}"
      using arg_cong [OF fids(2), of set] by simp
    also have "\<dots> = data_file_name ` fst ` set logs"
      using data assms(3) by blast
    finally show ?thesis .
  qed
  moreover have inj: "inj data_file_name" by (auto intro: injI)
  ultimately have "distinct fids" "set fids = set (map fst logs)"
    by (simp_all add: distinct_map inj_image_eq_iff)
  moreover have "sorted (map fst logs)" "distinct (map fst logs)"
    using assms(1) by (simp_all add: data_log_def strict_sorted_iff)
  ultimately have "sort fids = map fst logs"
    by (intro sorted_distinct_set_unique) simp_all
  with fids(1) show ?thesis by blast
qed

lemmas sorted_ids = data_sorted_ids [OF disk_log_data]

text \<open>The handle of a data file on opening: standard, or mapped for all but the last.\<close>

definition opened_handle :: "path \<Rightarrow> fs \<Rightarrow> bool \<Rightarrow> u32 \<Rightarrow> data_file \<Rightarrow> bool" where
  "opened_handle dir fs mapped fid df \<longleftrightarrow>
     df_file_id df = fid \<and>
     (df_io df = FileIO (get_data_file_name dir fid) \<or>
      mapped \<and> df_io df = MMapIo (file_data fs (get_data_file_name dir fid)))"

lemma DataFile_open_ok:
  assumes "os_ok E" "is_file fs (get_data_file_name dir fid)"
  shows "\<exists>df. DataFile_open E dir fid ty fs = (Ok df, fs) \<and>
    opened_handle dir fs (ty = MemoryMap) fid df"
proof (cases ty)
  case StandardFIO
  have "is_dir fs (fst (get_data_file_name dir fid))" by (rule is_file_is_dir [OF assms(2)])
  then show ?thesis
    using assms(2) new_io_manager_fio [OF assms(1), of fs "get_data_file_name dir fid" False]
    by (simp add: StandardFIO DataFile_open_def new_with_create_def open_with_name_def
        opened_handle_def)
next
  case MemoryMap
  then show ?thesis
    using assms by (simp add: DataFile_open_def new_with_create_def open_with_name_def
        opened_handle_def new_io_manager_def mmap_open_existing_def)
qed

lemma open_data_files_ok:
  assumes "os_ok E" "\<forall>fid \<in> set fids. is_file fs (get_data_file_name dir fid)" "distinct fids"
  shows "\<exists>dfs. open_data_files E dir use_mmap fids fs = (Ok dfs, fs) \<and> map df_file_id dfs = fids \<and>
    (\<forall>df \<in> set dfs. opened_handle dir fs (use_mmap \<and> df_file_id df \<in> set (butlast fids))
       (df_file_id df) df)"
  using assms(2,3)
proof (induction fids)
  case (Cons fid fids)
  obtain df where df: "DataFile_open E dir fid
      (if use_mmap \<and> fids \<noteq> [] then MemoryMap else StandardFIO) fs = (Ok df, fs)"
    "opened_handle dir fs (use_mmap \<and> fids \<noteq> []) fid df"
    using DataFile_open_ok [OF assms(1), of fs dir fid
        "if use_mmap \<and> fids \<noteq> [] then MemoryMap else StandardFIO"] Cons.prems(1)
    by (auto split: if_splits)
  obtain dfs where dfs: "open_data_files E dir use_mmap fids fs = (Ok dfs, fs)"
    "map df_file_id dfs = fids"
    "\<forall>df \<in> set dfs. opened_handle dir fs (use_mmap \<and> df_file_id df \<in> set (butlast fids))
       (df_file_id df) df"
    using Cons.IH Cons.prems by auto
  have "df_file_id df = fid" using df(2) by (simp add: opened_handle_def)
  then show ?case
    using df dfs by (cases fids) (auto simp: opened_handle_def)
qed simp

lemma pop_older_files_ok:
  assumes "distinct (map df_file_id dfs)" "distinct (map fst older)"
    and "fst ` set older \<inter> df_file_id ` set dfs = {}"
  shows "\<exists>older'. pop_older_files dfs older = (take 1 dfs, older') \<and> distinct (map fst older') \<and>
    set older' = set older \<union> (\<lambda>df. (df_file_id df, df)) ` set (tl dfs)"
  using assms
proof (induction dfs older rule: pop_older_files.induct)
  case (1 dfs older)
  show ?case
  proof (cases "1 < length dfs")
    case True
    then obtain d ds z where dfs: "dfs = d # ds @ [z]"
      by (metis One_nat_def Suc_lessD append_butlast_last_id length_greater_0_conv length_tl
          less_numeral_extra(3) list.collapse list.size(3) zero_less_diff diff_Suc_1 One_nat_def)
    let ?older = "AList.update (df_file_id z) z older"
    have "df_file_id z \<notin> fst ` set older" using "1.prems"(3) dfs by auto
    then have "{(k', v'). (k', v') \<in> set older \<and> k' \<noteq> df_file_id z} = set older"
      by (auto simp: rev_image_eqI)
    then have new: "distinct (map fst ?older)" "set ?older = insert (df_file_id z, z) (set older)"
      using "1.prems"(2) by (simp_all add: distinct_AList_update set_AList_update)
    have "fst ` set ?older \<inter> df_file_id ` set (butlast dfs) = {}"
      using 1 by (auto simp: dfs new(2))
    with 1 True new obtain older' where "pop_older_files (d # ds) ?older = (take 1 (d # ds), older')"
      "distinct (map fst older')"
      "set older' = set ?older \<union> (\<lambda>df. (df_file_id df, df)) ` set ds"
      by (auto simp: dfs)
    then show ?thesis
      using True by (subst pop_older_files.simps) (auto simp: dfs new(2))
  next
    case False
    then show ?thesis
      using 1(3) by (subst pop_older_files.simps) (cases dfs; auto)
  qed
qed

subsection \<open>The engine before its index is loaded\<close>

text \<open>The handle the engine has for a file id.\<close>

definition engine_handle :: "('s, 'b) engine \<Rightarrow> u32 \<Rightarrow> data_file option" where
  "engine_handle e fid =
     (if fid = active_id e then Some (active_file e) else map_of (older_files e) fid)"

lemma read_file_id_handle:
  "engine_handle e fid = Some df \<Longrightarrow> read_file_id E fid (v, e, fs) = read_log_record E fs df"
  by (auto simp: engine_handle_def read_file_id_def active_id_def fun_eq_iff split: if_splits)

lemma new_engine_sel [simp]:
  "eng_options (new_engine opts initial lock df older i fids) = opts"
  "active_file (new_engine opts initial lock df older i fids) = df"
  "older_files (new_engine opts initial lock df older i fids) = older"
  "eng_index (new_engine opts initial lock df older i fids) = i"
  "file_ids (new_engine opts initial lock df older i fids) = fids"
  "seq_no (new_engine opts initial lock df older i fids) = 1"
  "lock_file (new_engine opts initial lock df older i fids) = lock"
  "bytes_write (new_engine opts initial lock df older i fids) = 0"
  "reclaim_size (new_engine opts initial lock df older i fids) = 0"
  "is_initial (new_engine opts initial lock df older i fids) = initial"
  "seq_file_exists (new_engine opts initial lock df older i fids) = False"
  "active_id (new_engine opts initial lock df older i fids) = df_file_id df"
  by (simp_all add: new_engine_def active_id_def)

text \<open>What the handles of a freshly opened engine are.\<close>

definition opened_handles :: "('s, 'b) engine \<Rightarrow> fs \<Rightarrow> logs \<Rightarrow> bool" where
  "opened_handles e fs logs \<longleftrightarrow>
     file_ids e = map fst logs \<and> active_id e = fst (hd logs) \<and>
     distinct (map fst (older_files e)) \<and> fst ` set (older_files e) = fst ` set (tl logs) \<and>
     (\<forall>fid \<in> fst ` set logs. \<exists>df. engine_handle e fid = Some df \<and>
        opened_handle (dir_path (eng_options e)) fs
          (mmap_at_startup (eng_options e) \<and> fid \<in> fst ` set (butlast logs)) fid df)"

lemma new_indexer_ok:
  assumes "skipmap_ok (skipmap E)" "ty \<noteq> BPlusTree"
  shows "\<exists>i. new_indexer E ty dir = Ok i \<and> index_inv E i \<and> index_entries E i = Map.empty"
  using assms
  by (cases ty) (auto simp: new_indexer_def index_inv_def index_entries_def BTree_new_def
      skipmap_ok_def fun_eq_iff)

lemma load_merge_files_none: "no_merge dir fs \<Longrightarrow> load_merge_files E dir fs = (Ok (), fs)"
  by (auto simp: load_merge_files_def no_merge_def)

lemma open_files_merged:
  assumes "os_ok E" "skipmap_ok (skipmap E)" "index_type opts \<noteq> BPlusTree"
    and disk: "data_log E (dir_path opts) fs logs" and "logs \<noteq> []"
    and merged: "load_merge_files E (dir_path opts) fs0 = (Ok (), fs)" "is_dir fs0 (dir_path opts)"
  shows "\<exists>e. open_files E opts initial lock fs0 = (Ok e, fs) \<and> opened_handles e fs logs \<and>
    eng_options e = opts \<and> index_inv E (eng_index e) \<and>
    index_entries E (eng_index e) = Map.empty \<and> seq_no e = 1 \<and> lock_file e = lock \<and> bytes_write e = 0 \<and>
    (initial \<longrightarrow> is_initial e)"
proof -
  let ?dir = "dir_path opts"
  obtain i where i: "new_indexer E (index_type opts) ?dir = Ok i" "index_inv E i"
    "index_entries E i = Map.empty" using new_indexer_ok [OF assms(2,3)] by blast
  obtain names where names: "read_dir E fs ?dir = Some names" "distinct names"
    "\<And>n. n \<in> set names \<longleftrightarrow> is_file fs (?dir, n)"
    using read_dir_names [OF assms(1)] disk by (auto simp: data_log_def)
  obtain fids where fids: "collect_file_ids names = Ok fids" "sort fids = map fst logs"
    using data_sorted_ids [OF disk names(2,3)] by blast
  have exist: "\<forall>fid \<in> set (map fst logs). is_file fs (get_data_file_name ?dir fid)"
    using disk by (auto simp: data_log_def)
  have distinct: "distinct (map fst logs)"
    using disk by (simp add: data_log_def strict_sorted_iff)
  obtain dfs where dfs: "open_data_files E ?dir (mmap_at_startup opts) (map fst logs) fs = (Ok dfs, fs)"
    "map df_file_id dfs = map fst logs"
    "\<forall>df \<in> set dfs. opened_handle ?dir fs
       (mmap_at_startup opts \<and> df_file_id df \<in> set (butlast (map fst logs))) (df_file_id df) df"
    using open_data_files_ok [OF assms(1) exist distinct] by blast
  obtain d ds where d: "dfs = d # ds" using dfs(2) assms(5) by (cases dfs) auto
  have "distinct (map df_file_id dfs)" using dfs(2) distinct by simp
  then obtain older where older: "pop_older_files dfs [] = ([d], older)" "distinct (map fst older)"
    "set older = (\<lambda>df. (df_file_id df, df)) ` set ds"
    using pop_older_files_ok [of dfs "[]"] by (auto simp: d)
  have ids: "df_file_id d = fst (hd logs)" "map df_file_id ds = map fst (tl logs)"
    using dfs(2) assms(5) by (cases logs; simp add: d)+
  obtain names0 where names0: "read_dir E fs0 ?dir = Some names0"
    using merged(2) assms(1) by (auto simp: read_dir_def is_dir_def)
  let ?e = "new_engine opts (initial \<or> length names0 = 0) lock d older i (map df_file_id dfs)"
  have opened: "open_files E opts initial lock fs0 = (Ok ?e, fs)"
    using names(1) fids dfs(1) older(1) i(1)
    by (simp add: open_files_def names0 merged(1) load_data_files_def)
  have handle: "\<exists>df. engine_handle ?e fid = Some df \<and> df \<in> set dfs \<and> df_file_id df = fid"
    if fid: "fid \<in> fst ` set logs" for fid
  proof -
    have "fid \<in> df_file_id ` set dfs"
      using fid arg_cong [OF dfs(2), of set] by simp
    then obtain df where df: "df \<in> set dfs" "df_file_id df = fid" by blast
    show ?thesis
    proof (cases "fid = df_file_id d")
      case True
      then show ?thesis by (auto simp: engine_handle_def d)
    next
      case False
      then have "(fid, df) \<in> set older" using df by (auto simp: older(3) d)
      then show ?thesis
        using False df older(2) by (auto simp: engine_handle_def)
    qed
  qed
  have "\<exists>df. engine_handle ?e fid = Some df \<and> opened_handle ?dir fs
      (mmap_at_startup opts \<and> fid \<in> fst ` set (butlast logs)) fid df"
    if fid: "fid \<in> fst ` set logs" for fid
  proof -
    obtain df where df: "engine_handle ?e fid = Some df" "df \<in> set dfs" "df_file_id df = fid"
      using handle [OF fid] by blast
    have "set (butlast (map fst logs)) = fst ` set (butlast logs)"
      by (metis map_butlast list.set_map)
    then show ?thesis using bspec [OF dfs(3) df(2)] df(1,3) by auto
  qed
  moreover have "fst ` set older = fst ` set (tl logs)"
    using arg_cong [OF ids(2), of set] by (simp add: older(3) image_image)
  ultimately have "opened_handles ?e fs logs"
    using dfs(2) older(2) ids(1) by (simp add: opened_handles_def)
  then show ?thesis using i opened by (intro exI [of _ ?e]) simp
qed

lemma open_files_ok:
  assumes "os_ok E" "skipmap_ok (skipmap E)" "index_type opts \<noteq> BPlusTree"
    and disk: "disk_log E (dir_path opts) fs logs" and "logs \<noteq> []"
  shows "\<exists>e. open_files E opts initial lock fs = (Ok e, fs) \<and> opened_handles e fs logs \<and>
    eng_options e = opts \<and> index_inv E (eng_index e) \<and>
    index_entries E (eng_index e) = Map.empty \<and> seq_no e = 1 \<and> lock_file e = lock \<and> bytes_write e = 0 \<and>
    (initial \<longrightarrow> is_initial e)"
  by (rule open_files_merged [OF assms(1-3) disk_log_data [OF disk] assms(5)
        load_merge_files_none [OF disk_log_no_merge [OF disk]]])
    (use disk in \<open>simp add: disk_log_def\<close>)

subsection \<open>Loading the index\<close>

text \<open>
  With \<open>mmap_at_startup\<close> the last record of an old file is only read when it is long enough.
\<close>

definition mmap_fit :: "('s, 'b) env \<Rightarrow> options \<Rightarrow> logs \<Rightarrow> bool" where
  "mmap_fit E opts logs \<longleftrightarrow>
     (mmap_at_startup opts \<longrightarrow> (\<forall>(fid, rs) \<in> set (butlast logs). ends_long E rs))"

lemma good_wf: "list_all (good_record E) rs \<Longrightarrow> list_all wf_record rs"
  by (auto simp: list_all_iff good_record_def)

lemma data_log_file:
  assumes "data_log E dir fs logs" "(fid, rs) \<in> set logs"
  shows "is_file fs (get_data_file_name dir fid)"
    and "file_data fs (get_data_file_name dir fid) = log_bytes E rs"
    and "list_all (good_record E) rs" and "list_all wf_record rs" and "log_length E rs \<le> 2 ^ 63"
proof -
  have "is_file fs (get_data_file_name dir fid) \<and>
      file_data fs (get_data_file_name dir fid) = log_bytes E rs \<and>
      list_all (good_record E) rs \<and> log_length E rs \<le> 2 ^ 63"
    using assms by (fastforce simp: data_log_def)
  then show "is_file fs (get_data_file_name dir fid)"
    "file_data fs (get_data_file_name dir fid) = log_bytes E rs"
    "list_all (good_record E) rs" "list_all wf_record rs" "log_length E rs \<le> 2 ^ 63"
    using good_wf [of E rs] by simp_all
qed

lemmas disk_log_file = data_log_file [OF disk_log_data]

lemma opened_readable:
  assumes ok: "crates_ok E" "os_ok E" and disk: "data_log E (dir_path (eng_options e)) fs logs"
    and opened: "opened_handles e fs logs" and fit: "mmap_fit E (eng_options e) logs"
    and log: "(fid, rs) \<in> set logs"
  shows "log_readable E (read_file_id E fid (v, e, fs)) fid 0 rs"
proof -
  let ?f = "get_data_file_name (dir_path (eng_options e)) fid"
  note rs = data_log_file(2,4,5) [OF disk log]
  obtain df where df: "engine_handle e fid = Some df" "opened_handle (dir_path (eng_options e)) fs
      (mmap_at_startup (eng_options e) \<and> fid \<in> fst ` set (butlast logs)) fid df"
    using opened log by (force simp: opened_handles_def)
  have rd: "read_file_id E fid (v, e, fs) = read_log_record E fs df"
    by (rule read_file_id_handle [OF df(1)])
  show ?thesis
  proof (cases "df_io df = FileIO ?f")
    case True
    then show ?thesis unfolding rd using fio_log_readable [OF ok rs(2,3,1)] by simp
  next
    case False
    then have m: "mmap_at_startup (eng_options e)" "fid \<in> fst ` set (butlast logs)"
      "df_io df = MMapIo (log_bytes E rs)"
      using df(2) rs(1) by (auto simp: opened_handle_def)
    from m(2) obtain rs' where rs': "(fid, rs') \<in> set (butlast logs)" by auto
    have "distinct (map fst logs)" using disk by (simp add: data_log_def strict_sorted_iff)
    then have "rs' = rs" using log in_set_butlastD [OF rs'] by (auto dest: eq_key_imp_eq_value)
    then have "ends_long E rs" using fit m(1) rs' by (auto simp: mmap_fit_def)
    then show ?thesis unfolding rd using mmap_log_readable [OF ok(1) rs(2,3) _ m(3)] by simp
  qed
qed

lemma load_index_ok:
  assumes ok: "crates_ok E" "os_ok E" and disk: "disk_log E (dir_path (eng_options e)) fs logs"
    and opened: "opened_handles e fs logs" and fit: "mmap_fit E (eng_options e) logs"
    and ne: "logs \<noteq> []" and idx: "index_inv E (eng_index e)" "index_entries E (eng_index e) = Map.empty"
    and replay: "replay E (log_entries E logs) = (m, txns, cur)"
  shows "\<exists>i n. load_index_from_data_files E (e, fs) =
      Some (Ok cur, (reindexed i n e)\<lparr>active_file :=
        set_write_off (of_nat (log_length E (snd (last logs)))) (active_file e)\<rparr>, fs) \<and>
    index_inv E i \<and> index_entries E i = m"
proof -
  let ?v = "\<lparr>transaction_records = [], current_seq_no = NON_TRANSACTION_SEQ_NO\<rparr>"
  have "load_rel E e fs (Map.empty, \<lambda>_. [], 0) (?v, e, fs)"
    using idx by (simp add: load_rel_def reindexed_def open_updates_def fun_eq_iff
        NON_TRANSACTION_SEQ_NO_def)
  moreover have "list_all (good_record E) rs \<and> log_length E rs < 2 ^ 64 \<and>
      log_readable E (read_file_id E fid (?v, e, fs)) fid 0 rs" if "(fid, rs) \<in> set logs" for fid rs
    using opened_readable [OF ok disk_log_data [OF disk] opened fit that] disk that by (fastforce simp: disk_log_def)
  ultimately obtain v' e' where
    load: "load_files E (\<lambda>_. False) (map fst logs) (?v, e, fs) = Some (Ok (), v', e'\<lparr>active_file :=
        set_write_off (of_nat (log_length E (snd (last logs)))) (active_file e')\<rparr>, fs)" and
    rel: "load_rel E e fs (m, txns, cur) (v', e', fs)"
    using load_files_ok [of E e fs "(Map.empty, \<lambda>_. [], 0)" "(?v, e, fs)" logs ?v] ne replay
    unfolding replay_def by auto
  from rel obtain i n where e': "e' = reindexed i n e" "index_inv E i" "index_entries E i = m"
    and cur: "current_seq_no v' = cur"
    by (auto simp: load_rel_def)
  have nm: "\<not> is_file fs (dir_path (eng_options e), MERGE_FINISHED_FILE_NAME)"
    using disk by (simp add: disk_log_def)
  have ids: "file_ids e = map fst logs" using opened by (simp add: opened_handles_def)
  have "active_file e' = active_file e" by (simp add: e'(1) reindexed_def)
  then show ?thesis
    using load e' ne by (auto simp: load_index_from_data_files_def ids nm cur Let_def)
qed

lemma reset_older_files_ok:
  assumes "os_ok E"
    and "\<forall>(fid, df) \<in> set dfs. df_file_id df = fid \<and> is_file fs (get_data_file_name dir fid)"
  shows "\<exists>dfs'. reset_older_files E dir dfs fs = (Ok dfs', fs) \<and> map fst dfs' = map fst dfs \<and>
    (\<forall>(fid, df) \<in> set dfs'. df_file_id df = fid \<and> df_io df = FileIO (get_data_file_name dir fid))"
  using assms(2)
proof (induction dfs)
  case (Cons x dfs)
  obtain fid df where x: "x = (fid, df)" by (cases x)
  have f: "is_file fs (get_data_file_name dir fid)" "df_file_id df = fid"
    using Cons.prems by (simp_all add: x)
  have "is_dir fs (fst (get_data_file_name dir fid))" by (rule is_file_is_dir [OF f(1)])
  from new_io_manager_fio [OF assms(1) this, of False] f
  have "set_io_manager E dir StandardFIO df fs =
      (Ok (df\<lparr>df_io := FileIO (get_data_file_name dir fid)\<rparr>), fs)"
    by (simp add: set_io_manager_def)
  with Cons f show ?case by (auto simp: x)
qed simp

text \<open>After loading every handle is a standard one.\<close>

lemma reset_io_type_ok:
  assumes "os_ok E" and active: "is_file fs (data_path e (active_id e))"
    and older: "\<forall>(fid, df) \<in> set (older_files e). df_file_id df = fid \<and> is_file fs (data_path e fid)"
  shows "\<exists>dfs. reset_io_type E (e, fs) = (Ok (), e\<lparr>active_file := (active_file e)
      \<lparr>df_io := FileIO (data_path e (active_id e))\<rparr>, older_files := dfs\<rparr>, fs) \<and>
    map fst dfs = map fst (older_files e) \<and>
    (\<forall>(fid, df) \<in> set dfs. handle_ok e fid df)"
proof -
  have "is_dir fs (fst (data_path e (active_id e)))" by (rule is_file_is_dir [OF active])
  from new_io_manager_fio [OF assms(1) this, of False] active
  have a: "set_io_manager E (dir_path (eng_options e)) StandardFIO (active_file e) fs =
      (Ok ((active_file e)\<lparr>df_io := FileIO (data_path e (active_id e))\<rparr>), fs)"
    by (simp add: set_io_manager_def data_path_def active_id_def)
  obtain dfs where "reset_older_files E (dir_path (eng_options e)) (older_files e) fs = (Ok dfs, fs)"
    "map fst dfs = map fst (older_files e)" "\<forall>(fid, df) \<in> set dfs. handle_ok e fid df"
    using reset_older_files_ok [OF assms(1), of "older_files e" fs "dir_path (eng_options e)"] older
    by (auto simp: handle_ok_def data_path_def)
  with a show ?thesis by (intro exI [of _ dfs]) (simp add: reset_io_type_def Let_def)
qed

text \<open>The engine that \<open>load_engine\<close> makes of a freshly opened one.\<close>

definition loaded :: "('s, 'b) env \<Rightarrow> ('s, 'b) engine \<Rightarrow> fs \<Rightarrow> logs \<Rightarrow> nat \<Rightarrow> ('s, 'b) engine \<Rightarrow> bool" where
  "loaded E e fs logs cur e' \<longleftrightarrow>
     eng_options e' = eng_options e \<and> lock_file e' = lock_file e \<and> bytes_write e' = bytes_write e \<and>
     is_initial e' = is_initial e \<and>
     seq_no e' = (if 0 < cur then cur + 1 else seq_no e) \<and>
     active_id e' = fst (hd logs) \<and> known_ids e' = fst ` set logs \<and>
     df_write_off (active_file e') = of_nat (log_length E (snd (last logs))) \<and>
     handle_ok e' (fst (hd logs)) (active_file e') \<and>
     map fst (older_files e') = map fst (older_files e) \<and>
     (\<forall>(fid, df) \<in> set (older_files e'). handle_ok e' fid df)"

lemma opened_known_ids:
  assumes "opened_handles e fs logs" "logs \<noteq> []"
  shows "known_ids e = fst ` set logs"
  using assms by (cases logs) (auto simp: opened_handles_def known_ids_def)

lemma opened_older:
  assumes opened: "opened_handles e fs logs" and ne: "logs \<noteq> []" and dist: "distinct (map fst logs)"
    and df: "(fid, df) \<in> set (older_files e)"
  shows "fid \<in> fst ` set logs" and "engine_handle e fid = Some df" and "df_file_id df = fid"
proof -
  obtain l ls where l: "logs = l # ls" using ne by (cases logs) auto
  have "active_id e = fst l" "fst ` set (older_files e) = fst ` set ls"
    and older: "distinct (map fst (older_files e))"
    using opened by (simp_all add: opened_handles_def l)
  moreover have "fid \<in> fst ` set (older_files e)" using df by (metis fst_conv image_eqI)
  moreover have "fst l \<notin> fst ` set ls" using dist by (simp add: l)
  ultimately have fid: "fid \<in> fst ` set ls" "fid \<noteq> active_id e" by metis+
  from fid(1) show logs: "fid \<in> fst ` set logs" by (auto simp: l)
  have "map_of (older_files e) fid = Some df" using older df by simp
  with fid(2) show h: "engine_handle e fid = Some df" by (simp add: engine_handle_def)
  from opened logs obtain df' where "engine_handle e fid = Some df'" "df_file_id df' = fid"
    unfolding opened_handles_def opened_handle_def by blast
  with h show "df_file_id df = fid" by simp
qed

text \<open>Without mapping, the handles are standard from the start.\<close>

lemma opened_standard:
  assumes "opened_handles e fs logs" "logs \<noteq> []" "distinct (map fst logs)"
    and "\<not> mmap_at_startup (eng_options e)"
  shows "handle_ok e (active_id e) (active_file e)"
    and "\<forall>(fid, df) \<in> set (older_files e). handle_ok e fid df"
proof -
  have h: "\<exists>df. engine_handle e fid = Some df \<and> handle_ok e fid df" if "fid \<in> fst ` set logs" for fid
    using assms(1,4) that by (auto simp: opened_handles_def opened_handle_def handle_ok_def data_path_def)
  have "active_id e \<in> fst ` set logs"
    using assms(1,2) by (simp add: opened_handles_def)
  from h [OF this] show "handle_ok e (active_id e) (active_file e)"
    by (simp add: engine_handle_def)
  have "handle_ok e fid df" if df: "(fid, df) \<in> set (older_files e)" for fid df
    using h [OF opened_older(1) [OF assms(1-3) df]] opened_older(2) [OF assms(1-3) df] by simp
  then show "\<forall>(fid, df) \<in> set (older_files e). handle_ok e fid df" by blast
qed

lemma load_engine_tail:
  assumes "os_ok E" and disk: "data_log E (dir_path (eng_options e)) fs logs"
    and opened: "opened_handles e fs logs" and ne: "logs \<noteq> []"
    and hint: "load_index_from_hint_file E (e, fs) = Some (Ok (), e0, fs)"
    and load: "load_index_from_data_files E (e0, fs) =
      Some (Ok cur, (reindexed i n e)\<lparr>active_file :=
        set_write_off (of_nat (log_length E (snd (last logs)))) (active_file e)\<rparr>, fs)"
    and i: "index_inv E i" "index_entries E i = m" and cur: "cur + 1 < 2 ^ 64"
    and type: "index_type (eng_options e) \<noteq> BPlusTree"
  shows "\<exists>e'. load_engine E (e, fs) = Some (Ok (), e', fs) \<and> loaded E e fs logs cur e' \<and>
    index_inv E (eng_index e') \<and> index_entries E (eng_index e') = m"
proof -
  let ?e1 = "(reindexed i n e)\<lparr>active_file :=
      set_write_off (of_nat (log_length E (snd (last logs)))) (active_file e)\<rparr>"
  define e2 where "e2 = (if 0 < cur then ?e1\<lparr>seq_no := cur + 1\<rparr> else ?e1)"
  have e2: "eng_options e2 = eng_options e" "lock_file e2 = lock_file e" "bytes_write e2 = bytes_write e"
    "is_initial e2 = is_initial e" "seq_no e2 = (if 0 < cur then cur + 1 else seq_no e)"
    "eng_index e2 = i" "older_files e2 = older_files e"
    "df_file_id (active_file e2) = df_file_id (active_file e)"
    "df_io (active_file e2) = df_io (active_file e)"
    "df_write_off (active_file e2) = of_nat (log_length E (snd (last logs)))"
    "active_id e2 = active_id e" "data_path e2 = data_path e" "known_ids e2 = known_ids e"
    by (simp_all add: e2_def reindexed_def set_write_off_def active_id_def data_path_def known_ids_def
        fun_eq_iff)
  have seq: "(if 0 < cur then and_then (add_usize cur 1, ?e1, fs)
      (\<lambda>n st. (Ok (), on_engine (\<lambda>e. e\<lparr>seq_no := n\<rparr>) st)) else (Ok (), ?e1, fs)) = (Ok (), e2, fs)"
    using cur by (simp add: e2_def add_usize_def)
  have step: "load_engine E (e, fs) =
      Some (if mmap_at_startup (eng_options e2) then reset_io_type E (e2, fs) else (Ok (), e2, fs))"
    using type by (simp add: load_engine_def hint load seq)
  have dist: "distinct (map fst logs)" using disk by (simp add: data_log_def strict_sorted_iff)
  have known: "known_ids e2 = fst ` set logs" using opened_known_ids [OF opened ne] e2(13) by simp
  have act: "active_id e2 = fst (hd logs)" using opened e2(11) by (simp add: opened_handles_def)
  show ?thesis
  proof (cases "mmap_at_startup (eng_options e)")
    case False
    then have "loaded E e fs logs cur e2"
      using opened_standard [OF opened ne dist False] known act e2
      by (simp add: loaded_def handle_ok_def)
    then show ?thesis using step False i e2 by (intro exI [of _ e2]) simp
  next
    case True
    have files: "is_file fs (data_path e2 fid)" if "fid \<in> fst ` set logs" for fid
      using data_log_file(1) [OF disk] that e2(1) by (auto simp: data_path_def)
    have "\<forall>(fid, df) \<in> set (older_files e2). df_file_id df = fid \<and> is_file fs (data_path e2 fid)"
      using opened_older [OF opened ne dist] files e2(7) by auto
    moreover have "is_file fs (data_path e2 (active_id e2))"
      using files act ne by simp
    ultimately obtain dfs where dfs: "reset_io_type E (e2, fs) = (Ok (), e2\<lparr>active_file := (active_file e2)
      \<lparr>df_io := FileIO (data_path e2 (active_id e2))\<rparr>, older_files := dfs\<rparr>, fs)"
      "map fst dfs = map fst (older_files e2)" "\<forall>(fid, df) \<in> set dfs. handle_ok e2 fid df"
      using reset_io_type_ok [OF assms(1)] by blast
    let ?e3 = "e2\<lparr>active_file := (active_file e2)\<lparr>df_io := FileIO (data_path e2 (active_id e2))\<rparr>,
        older_files := dfs\<rparr>"
    have e3: "active_id ?e3 = active_id e2" "data_path ?e3 = data_path e2"
      by (simp_all add: active_id_def data_path_def fun_eq_iff)
    have "known_ids ?e3 = known_ids e2"
      using arg_cong [OF dfs(2), of set] by (simp add: known_ids_def e3(1))
    then have "loaded E e fs logs cur ?e3"
      using known act e2 e3 dfs(2,3)
      by (simp add: loaded_def handle_ok_def) (simp add: active_id_def)
    then show ?thesis using step True dfs(1) i e2 by (intro exI [of _ ?e3]) simp
  qed
qed

lemma load_engine_ok:
  assumes ok: "crates_ok E" "os_ok E" and disk: "disk_log E (dir_path (eng_options e)) fs logs"
    and opened: "opened_handles e fs logs" and fit: "mmap_fit E (eng_options e) logs"
    and ne: "logs \<noteq> []" and idx: "index_inv E (eng_index e)" "index_entries E (eng_index e) = Map.empty"
    and replay: "replay E (log_entries E logs) = (m, txns, cur)" and cur: "cur + 1 < 2 ^ 64"
    and type: "index_type (eng_options e) \<noteq> BPlusTree"
  shows "\<exists>e'. load_engine E (e, fs) = Some (Ok (), e', fs) \<and> loaded E e fs logs cur e' \<and>
    index_inv E (eng_index e') \<and> index_entries E (eng_index e') = m"
proof -
  obtain i n where load: "load_index_from_data_files E (e, fs) =
      Some (Ok cur, (reindexed i n e)\<lparr>active_file :=
        set_write_off (of_nat (log_length E (snd (last logs)))) (active_file e)\<rparr>, fs)"
    and i: "index_inv E i" "index_entries E i = m"
    using load_index_ok [OF ok disk opened fit ne idx replay] by blast
  have hint: "load_index_from_hint_file E (e, fs) = Some (Ok (), e, fs)"
    using disk by (simp add: load_index_from_hint_file_def disk_log_def)
  show ?thesis
    by (rule load_engine_tail [OF ok(2) disk_log_data [OF disk] opened ne hint load i cur type])
qed

subsection \<open>\<open>Engine::open\<close> on a log\<close>

text \<open>What is known of the engine that \<open>open\<close> returns.\<close>

definition opened_engine :: "('s, 'b) env \<Rightarrow> options \<Rightarrow> logs \<Rightarrow> nat \<Rightarrow> ('s, 'b) engine \<Rightarrow> bool" where
  "opened_engine E opts logs cur e \<longleftrightarrow>
     eng_options e = opts \<and> lock_file e = (dir_path opts, FILE_LOCK_NAME) \<and> bytes_write e = 0 \<and>
     seq_no e = (if 0 < cur then cur + 1 else 1) \<and>
     active_id e = fst (hd logs) \<and> known_ids e = fst ` set logs \<and>
     df_write_off (active_file e) = of_nat (log_length E (snd (last logs))) \<and>
     handle_ok e (fst (hd logs)) (active_file e) \<and>
     distinct (map fst (older_files e)) \<and> fst ` set (older_files e) = fst ` set (tl logs) \<and>
     (\<forall>(fid, df) \<in> set (older_files e). handle_ok e fid df)"

lemma data_log_bytes:
  assumes "crates_ok E" "data_log E dir fs logs"
  shows "length (file_data fs (get_data_file_name dir fid)) \<le> 2 ^ 63"
proof (cases "fid \<in> fst ` set logs")
  case True
  then obtain rs where "(fid, rs) \<in> set logs" by auto
  from data_log_file [OF assms(2) this] length_log_bytes [OF assms(1)] show ?thesis by simp
next
  case False
  have "\<not> is_file fs (dir, data_file_name fid)"
  proof
    assume "is_file fs (dir, data_file_name fid)"
    then have "data_file_name fid \<in> data_file_name ` fst ` set logs"
      using assms(2) ends_with_data_file_name unfolding data_log_def by blast
    then show False using False by (metis (no_types) data_file_name_inj image_iff)
  qed
  then show ?thesis by (simp add: get_data_file_name_def file_data_new)
qed

lemmas disk_log_bytes = data_log_bytes [OF _ disk_log_data]

lemma data_entries_at:
  assumes "crates_ok E" "data_log E dir fs logs" "(p, r) \<in> set (log_entries E logs)"
  shows "pos_file_id p \<in> fst ` set logs" and "good_record E r"
    and "record_at E (file_data fs (get_data_file_name dir (pos_file_id p))) (unat (pos_offset p)) r"
proof -
  obtain fid rs where log: "(fid, rs) \<in> set logs" and at: "(p, r) \<in> set (layout E fid 0 rs)"
    using assms(3) by (auto simp: log_entries_def)
  note f = data_log_file [OF assms(2) log]
  have "length (log_bytes E rs) < 2 ^ 64"
    using length_log_bytes [OF assms(1) f(4)] f(5) by simp
  from layout_record_at [OF assms(1) f(4) at, of "log_bytes E rs" "[]", OF _ _ this]
  have *: "pos_file_id p = fid" "record_at E (log_bytes E rs) (unat (pos_offset p)) r" "r \<in> set rs"
    by simp_all
  then show "pos_file_id p \<in> fst ` set logs" "good_record E r"
    "record_at E (file_data fs (get_data_file_name dir (pos_file_id p))) (unat (pos_offset p)) r"
    using log f(2,3) by (auto simp: list_all_iff image_iff intro: bexI [of _ "(fid, rs)"])
qed

lemmas log_entries_at = data_entries_at [OF _ disk_log_data]

lemma opened_reads:
  assumes C: "crates_ok E" and disk: "data_log E (dir_path opts) fs logs"
    and e: "opened_engine E opts logs cur e"
    and i: "index_inv E (eng_index e)" "index_entries E (eng_index e) = m"
    and flog: "\<And>k p. m k = Some p \<Longrightarrow> from_log E (log_entries E logs) (k, Normal, p)"
  shows "reads_inv E (e, fs)"
proof -
  have path: "data_path e fid = get_data_file_name (dir_path opts) fid" for fid
    using e by (simp add: data_path_def opened_engine_def)
  have "entry_ok E (e, fs) k p" if "m k = Some p" for k p
  proof -
    from flog [OF that] obtain r n where r: "(p, r) \<in> set (log_entries E logs)" "rec_type r = Normal"
      "parse_log_record_key E (rec_key r) = Ok (k, n)" by (auto simp: from_log_def)
    note at = data_entries_at [OF C disk r(1)]
    have "k \<noteq> []" using at(2) r(3) by (auto simp: good_record_def)
    then show ?thesis
      using at r e by (auto simp: entry_ok_def file_bytes_def path opened_engine_def)
  qed
  moreover have "handle_ok e (active_id e) (active_file e)"
    "\<forall>(fid, df) \<in> set (older_files e). handle_ok e fid df"
    using e by (simp_all add: opened_engine_def)
  ultimately show ?thesis
    using i data_log_bytes [OF C disk]
    by (simp add: reads_inv_def handles_inv_def file_bytes_def path)
qed

lemma opened_reads_inv:
  assumes C: "crates_ok E" and disk: "disk_log E (dir_path opts) fs logs"
    and e: "opened_engine E opts logs cur e"
    and i: "index_inv E (eng_index e)" "index_entries E (eng_index e) = m"
    and replay: "replay E (log_entries E logs) = (m, txns, cur')"
  shows "reads_inv E (e, fs)"
  by (rule opened_reads [OF C disk_log_data [OF disk] e i])
    (use replay_from_log [of E "log_entries E logs"] in \<open>simp add: replay\<close>)

text \<open>Opening and loading together.\<close>

lemma loaded_opened:
  assumes "opened_handles e0 fs logs" "loaded E e0 fs logs cur e" "eng_options e0 = opts" "seq_no e0 = 1"
    and "lock_file e0 = (dir_path opts, FILE_LOCK_NAME)" "bytes_write e0 = 0"
  shows "opened_engine E opts logs cur e"
proof -
  have older: "distinct (map fst (older_files e0))" "fst ` set (older_files e0) = fst ` set (tl logs)"
    using assms(1) unfolding opened_handles_def by blast+
  have "map fst (older_files e) = map fst (older_files e0)"
    using assms(2) unfolding loaded_def by blast
  then have "distinct (map fst (older_files e))" "fst ` set (older_files e) = fst ` set (tl logs)"
    using older by (metis list.set_map)+
  then show ?thesis
    using assms(2-) unfolding opened_engine_def loaded_def by simp
qed

text \<open>
  Opening a directory with a log of at least one file: it returns an engine that reads, whose
  index is the replay of the log; the directory is only changed in its lock file.
\<close>

lemma engine_open_log:
  assumes ok: "crates_ok E" "os_ok E" "skipmap_ok (skipmap E)"
    and opts: "check_options opts = Ok ()" "index_type opts \<noteq> BPlusTree"
    and disk: "disk_log E (dir_path opts) fs logs" and ne: "logs \<noteq> []"
    and fit: "mmap_fit E opts logs"
    and free: "(dir_path opts, FILE_LOCK_NAME) \<notin> set (fs_locks fs)"
    and replay: "replay E (log_entries E logs) = (m, txns, cur)" and cur: "cur + 1 < 2 ^ 64"
  shows "\<exists>e. engine_open E opts fs = Some (Ok e, locked_fs (dir_path opts) fs) \<and>
    opened_engine E opts logs cur e \<and> reads_inv E (e, locked_fs (dir_path opts) fs) \<and>
    index_entries E (eng_index e) = m"
proof -
  let ?dir = "dir_path opts" and ?fs = "locked_fs (dir_path opts) fs"
  have dir: "is_dir fs ?dir" using disk by (simp add: disk_log_def)
  note disk' = disk_log_locked [OF disk]
  obtain e0 where e0: "open_files E opts False (?dir, FILE_LOCK_NAME) ?fs = (Ok e0, ?fs)"
    "opened_handles e0 ?fs logs" "eng_options e0 = opts" "index_inv E (eng_index e0)"
    "index_entries E (eng_index e0) = Map.empty" "seq_no e0 = 1"
    "lock_file e0 = (?dir, FILE_LOCK_NAME)" "bytes_write e0 = 0"
    using open_files_ok [OF ok(2,3) opts(2) disk' ne] by blast
  obtain e where e: "load_engine E (e0, ?fs) = Some (Ok (), e, ?fs)" "loaded E e0 ?fs logs cur e"
    "index_inv E (eng_index e)" "index_entries E (eng_index e) = m"
    using load_engine_ok [OF ok(1,2) _ e0(2) _ ne e0(4,5) replay cur] disk' fit opts(2)
    unfolding e0(3) by blast
  have "opened_engine E opts logs cur e"
    by (rule loaded_opened [OF e0(2) e(2) e0(3,6,7,8)])
  moreover from this have "reads_inv E (e, ?fs)"
    using opened_reads_inv [OF ok(1) disk' _ e(3,4) replay] by blast
  moreover have "engine_open E opts fs = Some (Ok e, ?fs)"
    using opts(1) dir take_lock_ok [OF ok(2) dir free] e0(1) e(1)
    by (simp add: engine_open_def open_locked_def)
  ultimately show ?thesis using e(4) by blast
qed

text \<open>A log that holds what a running engine reads, in whatever directory, opens with the same map.\<close>

lemma open_log_kv:
  assumes ok: "crates_ok E" "os_ok E" "skipmap_ok (skipmap E)"
    and opts: "check_options opts = Ok ()" "index_type opts \<noteq> BPlusTree"
    and disk: "disk_log E (dir_path opts) fs' logs" and ne: "logs \<noteq> []"
    and fit: "mmap_fit E opts logs" and free: "(dir_path opts, FILE_LOCK_NAME) \<notin> set (fs_locks fs')"
    and replay: "replay E (log_entries E logs) = (index_entries E (eng_index e), txns, cur)" and cur: "cur + 1 < 2 ^ 64"
    and reads: "reads_inv E (e, fs)"
    and bytes: "\<And>fid. \<exists>tail. file_data fs' (dir_path opts, data_file_name fid) = file_bytes (e, fs) fid @ tail"
  shows "\<exists>e' fs2. engine_open E opts fs' = Some (Ok e', fs2) \<and> reads_inv E (e', fs2) \<and> kv E (e', fs2) = kv E (e, fs)"
proof -
  let ?fs = "locked_fs (dir_path opts) fs'"
  obtain e' where e': "engine_open E opts fs' = Some (Ok e', ?fs)" "opened_engine E opts logs cur e'"
    "reads_inv E (e', ?fs)" "index_entries E (eng_index e') = index_entries E (eng_index e)"
    using engine_open_log [OF ok opts disk ne fit free replay cur] by blast
  have "file_bytes (e', ?fs) fid = file_data fs' (dir_path opts, data_file_name fid)" for fid
    using e'(2)
    by (simp add: file_bytes_def data_path_def get_data_file_name_def opened_engine_def locked_fs_frame data_file_name_neq)
  then have "get E k (e', ?fs) = get E k (e, fs)" for k
    using bytes by (intro get_bytes_frame [OF ok(1,2) reads e'(3)]) (simp_all add: e'(4))
  then have "kv E (e', ?fs) = kv E (e, fs)" by (simp add: kv_def fun_eq_iff)
  then show ?thesis using e'(1,3) by blast
qed

end
