(* ===== verification/Durable.thy ===== *)
theory Durable
  imports Recovery
begin

text \<open>
  The log of a running engine: \<open>log_state\<close> says that the data files replay to the index the
  engine holds.  \<open>put\<close> keeps it, so an engine that is opened again holds the same keys.
\<close>

definition replays_to :: "('s, 'b) env \<Rightarrow> ('s, 'b) engine \<Rightarrow> logs \<Rightarrow> bool" where
  "replays_to E e logs \<longleftrightarrow>
     (case replay E (log_entries E logs) of (m, txns, cur) \<Rightarrow>
        m = index_entries E (eng_index e) \<and> cur < seq_no e \<and> (\<forall>n \<ge> seq_no e. txns n = []))"

definition log_files :: "('s, 'b) env \<Rightarrow> ('s, 'b) st \<Rightarrow> logs \<Rightarrow> bool" where
  "log_files E st logs \<longleftrightarrow>
     disk_log E (dir_path (eng_options (fst st))) (snd st) logs \<and> logs \<noteq> [] \<and>
     known_ids (fst st) = fst ` set logs \<and> active_id (fst st) = fst (last logs)"

text \<open>The same for the data files alone.\<close>

definition data_files :: "('s, 'b) env \<Rightarrow> ('s, 'b) st \<Rightarrow> logs \<Rightarrow> bool" where
  "data_files E st logs \<longleftrightarrow>
     data_log E (dir_path (eng_options (fst st))) (snd st) logs \<and> logs \<noteq> [] \<and>
     known_ids (fst st) = fst ` set logs \<and> active_id (fst st) = fst (last logs)"

definition unmerged :: "('s, 'b) st \<Rightarrow> bool" where
  "unmerged st \<longleftrightarrow>
     (let dir = dir_path (eng_options (fst st)) in
      no_merge dir (snd st) \<and> \<not> is_file (snd st) (dir, HINT_FILE_NAME) \<and>
      \<not> is_file (snd st) (dir, MERGE_FINISHED_FILE_NAME))"

lemma log_files_iff: "log_files E st logs \<longleftrightarrow> data_files E st logs \<and> unmerged st"
  by (auto simp: log_files_def data_files_def unmerged_def disk_log_iff Let_def)

definition log_state :: "('s, 'b) env \<Rightarrow> ('s, 'b) st \<Rightarrow> logs \<Rightarrow> bool" where
  "log_state E st logs \<longleftrightarrow> log_files E st logs \<and> replays_to E (fst st) logs"

subsection \<open>Appending to the log\<close>

text \<open>The position that a record gets when it is appended.\<close>

definition end_pos :: "('s, 'b) env \<Rightarrow> ('s, 'b) st \<Rightarrow> u32 \<Rightarrow> log_record \<Rightarrow> log_record_pos" where
  "end_pos E st fid r =
     LogRecordPos_new fid (of_nat (length (file_bytes st fid))) (of_nat (encoded_length E r))"

text \<open>The log up to the file \<open>a\<close> that is written next, which is the last one or a new one.\<close>

lemma data_files_split:
  assumes inv: "files_inv (e, fs)" and log: "data_files E (e, fs) logs" and a: "active_id e \<le> a"
  obtains pre rs where "sorted_wrt (<) (map fst pre @ [a])"
    "insert a (fst ` set logs) = fst ` set (pre @ [(a, rs)])"
    "set pre \<subseteq> set logs" "log_entries E (pre @ [(a, rs)]) = log_entries E logs"
    "file_bytes (e, fs) a = log_bytes E rs" "list_all (good_record E) rs"
proof (cases "a = active_id e")
  case True
  have disk: "data_log E (dir_path (eng_options e)) fs logs" and ne: "logs \<noteq> []"
    and act: "active_id e = fst (last logs)" using log by (simp_all add: data_files_def)
  obtain pre rs where logs: "logs = pre @ [(a, rs)]"
    using ne act True by (metis append_butlast_last_id prod.collapse)
  have at: "(a, rs) \<in> set logs" by (simp add: logs)
  show ?thesis
  proof (rule that [of pre rs])
    show "sorted_wrt (<) (map fst pre @ [a])" using disk by (simp add: data_log_def logs)
  qed (use logs data_log_file [OF disk at] in \<open>auto simp: file_bytes_def data_path_def\<close>)
next
  case False
  then have gt: "active_id e < a" using a by simp
  have disk: "data_log E (dir_path (eng_options e)) fs logs" and ne: "logs \<noteq> []"
    and act: "active_id e = fst (last logs)" using log by (simp_all add: data_files_def)
  have "fid \<le> active_id e" if "fid \<in> set (map fst logs)" for fid
  proof -
    obtain ls l where logs: "logs = ls @ [l]" using ne by (metis append_butlast_last_id)
    have "sorted_wrt (<) (map fst ls @ [fst l])" using disk by (simp add: data_log_def logs)
    then show ?thesis using that act by (auto simp: sorted_wrt_append logs)
  qed
  then have below: "fid < a" if "fid \<in> set (map fst logs)" for fid
    using that gt by (meson order_le_less_trans)
  have "\<not> is_file fs (data_path e a)" using inv gt by (auto simp: files_inv_def)
  then have "file_bytes (e, fs) a = []" by (simp add: file_bytes_def file_data_new)
  moreover have "sorted_wrt (<) (map fst logs @ [a])"
    using disk below by (auto simp: data_log_def sorted_wrt_append)
  ultimately show ?thesis using that [of logs "[]"] by auto
qed

lemma data_files_append:
  assumes C: "crates_ok E" and inv: "files_inv (e, fs)" "files_inv (e', fs')"
    and log: "data_files E (e, fs) logs" and good: "good_record E r"
    and app: "appended e fs (record_bytes E r) e' fs'"
  shows "\<exists>logs'. data_files E (e', fs') logs' \<and>
    log_entries E logs' = log_entries E logs @ [(end_pos E (e, fs) (active_id e') r, r)]"
proof -
  let ?a = "active_id e'" and ?dir = "dir_path (eng_options e)"
  have disk: "data_log E ?dir fs logs" and known: "known_ids e = fst ` set logs"
    using log by (simp_all add: data_files_def)
  from data_files_split [OF inv(1) log appendedD(7) [OF app]] obtain pre rs where
    pre: "sorted_wrt (<) (map fst pre @ [?a])" "insert ?a (fst ` set logs) = fst ` set (pre @ [(?a, rs)])"
      "set pre \<subseteq> set logs" "log_entries E (pre @ [(?a, rs)]) = log_entries E logs"
      "file_bytes (e, fs) ?a = log_bytes E rs" "list_all (good_record E) rs" .
  let ?logs = "pre @ [(?a, rs @ [r])]"
  have len: "length (log_bytes E rs) = log_length E rs"
    using length_log_bytes [OF C good_wf [OF pre(6)]] .
  have "log_entries E ?logs = log_entries E logs @ [(end_pos E (e, fs) ?a r, r)]"
    using pre(4) by (simp add: layout_append end_pos_def pre(5) len flip: pre(4))
  moreover have "data_files E (e', fs') ?logs"
  proof -
    have opts: "eng_options e' = eng_options e" by (rule appendedD(8) [OF app])
    have files: "is_file fs' (get_data_file_name ?dir fid) \<and>
        file_data fs' (get_data_file_name ?dir fid) = log_bytes E rs' \<and>
        list_all (good_record E) rs' \<and> log_length E rs' \<le> 2 ^ 63"
      if at: "(fid, rs') \<in> set ?logs" for fid rs'
    proof (cases "fid = ?a")
      case True
      have "fid \<notin> fst ` set pre" using pre(1) True by (auto simp: sorted_wrt_append)
      then have rs': "rs' = rs @ [r]" using at True by force
      have bytes: "file_bytes (e', fs') ?a = log_bytes E (rs @ [r])"
        using appended_bytes [OF app, of ?a] pre(5) by simp
      have good': "list_all (good_record E) (rs @ [r])" using pre(6) good by simp
      have "length (file_bytes (e', fs') ?a) \<le> 2 ^ 63" using inv(2) by (auto simp: files_inv_def)
      then have "log_length E (rs @ [r]) \<le> 2 ^ 63"
        unfolding bytes length_log_bytes [OF C good_wf [OF good']] .
      then show ?thesis
        using bytes good' appendedD(2) [OF app, of "data_path e ?a"] True rs' opts
        by (simp add: file_bytes_def data_path_def)
    next
      case False
      then have at': "(fid, rs') \<in> set logs" using at pre(3) by auto
      have "data_path e fid \<noteq> data_path e ?a" using False by simp
      then show ?thesis
        using data_log_file [OF disk at'] appendedD(1,2) [OF app, of "data_path e fid"]
        by (simp add: data_path_def)
    qed
    have other: "is_file fs' (?dir, n) \<longleftrightarrow> n = data_file_name ?a \<or> is_file fs (?dir, n)" for n
      using appendedD(2) [OF app, of "(?dir, n)"] by (simp add: data_path_def get_data_file_name_def)
    have set: "fst ` set ?logs = insert ?a (fst ` set logs)" using pre(2) by simp
    have data: "n \<in> data_file_name ` fst ` set ?logs"
      if "is_file fs' (?dir, n)" "ends_with n DATA_FILE_NAME_SUFFIX" for n
      using that disk unfolding set other data_log_def by blast
    have "data_log E ?dir fs' ?logs"
      unfolding data_log_def
    proof (intro conjI)
      show "\<forall>(fid, rs') \<in> set ?logs. is_file fs' (get_data_file_name ?dir fid) \<and>
          file_data fs' (get_data_file_name ?dir fid) = log_bytes E rs' \<and>
          list_all (good_record E) rs' \<and> log_length E rs' \<le> 2 ^ 63"
        using files by blast
      show "\<forall>n. is_file fs' (?dir, n) \<and> ends_with n DATA_FILE_NAME_SUFFIX \<longrightarrow>
          n \<in> data_file_name ` fst ` set ?logs" using data by blast
    qed (use disk pre(1) appendedD(3,5) [OF app] in \<open>auto simp: data_log_def\<close>)
    then show ?thesis
      using appendedD(6) [OF app] known opts set by (simp add: data_files_def)
  qed
  ultimately show ?thesis by blast
qed

lemma unmerged_append:
  assumes "unmerged (e, fs)" "appended e fs en e' fs'"
  shows "unmerged (e', fs')"
proof -
  have "HINT_FILE_NAME \<noteq> data_file_name a" "MERGE_FINISHED_FILE_NAME \<noteq> data_file_name a" for a
    using data_file_name_neq [of HINT_FILE_NAME a] data_file_name_neq [of MERGE_FINISHED_FILE_NAME a] by auto
  then show ?thesis
    using assms(1) appendedD(2,3,8) [OF assms(2)]
    by (auto simp: unmerged_def Let_def no_merge_def data_path_def get_data_file_name_def)
qed

lemma log_files_append:
  assumes C: "crates_ok E" and inv: "files_inv (e, fs)" "files_inv (e', fs')"
    and log: "log_files E (e, fs) logs" and good: "good_record E r"
    and app: "appended e fs (record_bytes E r) e' fs'"
  shows "\<exists>logs'. log_files E (e', fs') logs' \<and>
    log_entries E logs' = log_entries E logs @ [(end_pos E (e, fs) (active_id e') r, r)]"
  using data_files_append [OF C inv _ good app] unmerged_append [OF _ app] log
  unfolding log_files_iff by blast

text \<open>Appending a record to the log of a running engine, with all that holds afterwards.\<close>

lemma append_logged:
  assumes ok: "crates_ok E" "os_ok E" and inv: "files_inv (e, fs)" "bw_ok e"
    and good: "good_record E r" and id: "unat (active_id e) + 1 < 2 ^ 32"
  obtains p e' fs' where "append_log_record E r (e, fs) = (Ok p, e', fs')"
    "files_inv (e', fs')" "bw_ok e'" "grows fs fs'" "same_index e e'"
    "unat (active_id e') \<le> unat (active_id e) + 1"
    "record_at E (file_bytes (e', fs') (pos_file_id p)) (unat (pos_offset p)) r"
    "pos_file_id p \<in> known_ids e'"
    "\<forall>logs. log_files E (e, fs) logs \<longrightarrow>
       (\<exists>logs'. log_files E (e', fs') logs' \<and> log_entries E logs' = log_entries E logs @ [(p, r)])"
proof -
  have wf: "wf_record r" using good by (simp add: good_record_def)
  from append_log_record_ok [OF ok inv(1) wf id inv(2)] obtain p e' fs' en where
    ap: "append_log_record E r (e, fs) = (Ok p, e', fs')" and
    inv': "files_inv (e', fs')" "bw_ok e'" "grows fs fs'" "same_index e e'"
      "unat (active_id e') \<le> unat (active_id e) + 1" and
    at: "pos_file_id p = active_id e'"
      "record_at E (file_bytes (e', fs') (pos_file_id p)) (unat (pos_offset p)) r" and
    en: "LogRecord_encode E r = Ok en" "appended e fs en e' fs'" and
    p: "p = end_pos E (e, fs) (active_id e') r"
    by (auto simp: end_pos_def)
  have "en = record_bytes E r" using en(1) by (simp add: record_bytes_def)
  then have "\<exists>logs'. log_files E (e', fs') logs' \<and> log_entries E logs' = log_entries E logs @ [(p, r)]"
    if "log_files E (e, fs) logs" for logs
    using log_files_append [OF ok(1) inv(1) inv'(1) that good] en(2) p by blast
  moreover have "pos_file_id p \<in> known_ids e'" by (simp add: at(1) known_ids_def)
  ultimately show ?thesis using that ap inv' at(2) by blast
qed

subsection \<open>\<open>put\<close> keeps the log\<close>

definition loggable :: "bytes \<Rightarrow> bytes \<Rightarrow> bool" where
  "loggable k v \<longleftrightarrow> k \<noteq> [] \<and> length k + length v + 32 < 2 ^ 31"

lemma loggable_storable: "loggable k v \<Longrightarrow> storable k v"
  by (simp add: loggable_def storable_def)

lemma good_with_seq:
  assumes C: "crates_ok C" and key: "log_record_key_with_seq C k n = Ok ek" and n: "n < 2 ^ 64"
    and k: "k \<noteq> []" "length k + length v + 32 < 2 ^ 31"
  shows "good_record C (LogRecord_new ek v ty)"
proof -
  have ek: "length ek = length_delimiter_len C n + length k"
    by (rule length_key_with_seq [OF C key])
  have d: "length_delimiter_len C n \<le> 10" by (rule delimiter_len_le_10 [OF C n])
  have "length_delimiter_len C (length ek) \<le> 5" "length_delimiter_len C (length v) \<le> 5"
    using k ek d by (auto intro!: delimiter_len_le_5 [OF C])
  then show ?thesis
    using parse_key_with_seq [OF C key] k ek d
    by (auto simp: good_record_def wf_record_def encoded_length_def)
qed

lemma log_files_sel [simp]:
  "log_files E (add_reclaim old e, fs) logs = log_files E (e, fs) logs"
  "log_files E (e\<lparr>eng_index := i\<rparr>, fs) logs = log_files E (e, fs) logs"
  by (simp_all add: log_files_def)

lemma put_log:
  assumes ok: "crates_ok E" "os_ok E" and inv: "engine_inv E (e, fs)"
    and log: "log_state E (e, fs) logs" and kv: "loggable k v"
    and id: "unat (active_id e) + 1 < 2 ^ 32" and put: "put E k v (e, fs) = (Ok (), e', fs')"
  shows "\<exists>logs'. log_state E (e', fs') logs'"
proof -
  let ?r = "LogRecord_new (0 # k) v Normal"
  note key = key_with_seq_0 [OF ok(1), of k]
  have good: "good_record E ?r"
    using good_with_seq [OF ok(1) key] kv by (simp add: loggable_def NON_TRANSACTION_SEQ_NO_def)
  have files: "files_inv (e, fs)" "bw_ok e" and idx: "index_inv E (eng_index e)"
    using inv by (simp_all add: engine_inv_def)
  have lf: "log_files E (e, fs) logs" and rep: "replays_to E e logs"
    using log by (simp_all add: log_state_def)
  from append_logged [OF ok files good id] obtain p e1 fs1 where
    ap: "append_log_record E ?r (e, fs) = (Ok p, e1, fs1)" and
    "files_inv (e1, fs1)" "bw_ok e1" "grows fs fs1" and same: "same_index e e1" and
    "unat (active_id e1) \<le> unat (active_id e) + 1"
    "record_at E (file_bytes (e1, fs1) (pos_file_id p)) (unat (pos_offset p)) ?r"
    "pos_file_id p \<in> known_ids e1" and
    grow: "\<forall>logs. log_files E (e, fs) logs \<longrightarrow>
       (\<exists>logs'. log_files E (e1, fs1) logs' \<and> log_entries E logs' = log_entries E logs @ [(p, ?r)])" .
  obtain logs1 where
    lf1: "log_files E (e1, fs1) logs1" "log_entries E logs1 = log_entries E logs @ [(p, ?r)]"
    using grow lf by blast
  obtain i where i: "index_put E (eng_index e) k p = (Ok (index_entries E (eng_index e) k), i)"
    "index_inv E i" "index_entries E i = (index_entries E (eng_index e))(k \<mapsto> p)"
    using ix.putE [OF idx] .
  have e1: "eng_index e1 = eng_index e" "seq_no e1 = seq_no e"
    using same by (simp_all add: same_index_def)
  have e': "e' = add_reclaim (index_entries E (eng_index e) k) (e1\<lparr>eng_index := i\<rparr>)" "fs' = fs1"
    using put ap i(1) e1(1) kv by (simp_all add: put_def key loggable_def)
  have "parse_log_record_key E (0 # k) = Ok (k, NON_TRANSACTION_SEQ_NO)"
    using parse_key_with_seq [OF ok(1) key] .
  then have "replays_to E e' logs1"
    using rep i(3) e1(2)
    by (auto simp: replays_to_def lf1(2) replay_append e'(1) NON_TRANSACTION_SEQ_NO_def split: prod.splits)
  then show ?thesis using lf1(1) by (auto simp: log_state_def e')
qed

subsection \<open>Opening again\<close>

lemma disk_log_unlocked [simp]: "disk_log E dir (fs\<lparr>fs_locks := l\<rparr>) logs = disk_log E dir fs logs"
  by (simp add: disk_log_def)

text \<open>
  After its process is gone (its lock released), the directory of an engine opens again, with any
  in-memory index, and every key has the value it had.
\<close>

lemma reopen_kv:
  assumes ok: "crates_ok E" "os_ok E" "skipmap_ok (skipmap E)"
    and opts: "check_options opts = Ok ()" "index_type opts \<noteq> BPlusTree"
      "dir_path opts = dir_path (eng_options e)"
    and reads: "reads_inv E (e, fs)" and log: "log_state E (e, fs) logs"
    and fit: "mmap_fit E opts logs" and seq: "seq_no e < 2 ^ 64"
    and free: "(dir_path opts, FILE_LOCK_NAME) \<notin> set (fs_locks fs)"
  shows "\<exists>e' fs'. engine_open E opts fs = Some (Ok e', fs') \<and> reads_inv E (e', fs') \<and>
    kv E (e', fs') = kv E (e, fs)"
proof -
  obtain m txns cur where rep: "replay E (log_entries E logs) = (m, txns, cur)"
    by (cases "replay E (log_entries E logs)")
  have m: "m = index_entries E (eng_index e)" and cur: "cur + 1 < 2 ^ 64"
    using log seq by (simp_all add: log_state_def replays_to_def rep)
  have disk: "disk_log E (dir_path opts) fs logs" and ne: "logs \<noteq> []"
    using log by (simp_all add: log_state_def log_files_def opts(3))
  show ?thesis
    by (rule open_log_kv [OF ok opts(1,2) disk ne fit free rep [unfolded m] cur reads])
      (simp add: file_bytes_def data_path_def get_data_file_name_def opts(3))
qed

end
