(* ===== verification/KvSpec.thy ===== *)
theory KvSpec
  imports EngineInv
begin

text \<open>
  The abstract specification of the engine: a map from keys to values, one step per call.  The
  engine started in a state of its invariant answers any sequence of calls as the map does.
\<close>

datatype kv_op = OpPut bytes bytes | OpGet bytes | OpDelete bytes

datatype kv_out = OutUnit "unit res" | OutBytes "bytes res"

fun spec_step :: "kv_op \<Rightarrow> (bytes \<Rightarrow> bytes option) \<Rightarrow> kv_out \<times> (bytes \<Rightarrow> bytes option)" where
  "spec_step (OpPut k v) m =
     (if k = [] then (OutUnit (Err KeyIsEmpty), m) else (OutUnit (Ok ()), m(k \<mapsto> v)))"
| "spec_step (OpGet k) m =
     (OutBytes (if k = [] then Err KeyIsEmpty
                else case m k of None \<Rightarrow> Err KeyNotFound | Some v \<Rightarrow> Ok v), m)"
| "spec_step (OpDelete k) m =
     (if k = [] then (OutUnit (Err KeyIsEmpty), m) else (OutUnit (Ok ()), m(k := None)))"

fun spec_run :: "kv_op list \<Rightarrow> (bytes \<Rightarrow> bytes option) \<Rightarrow> kv_out list \<times> (bytes \<Rightarrow> bytes option)" where
  "spec_run [] m = ([], m)"
| "spec_run (x # xs) m =
     (case spec_step x m of (out, m') \<Rightarrow>
        (case spec_run xs m' of (outs, m'') \<Rightarrow> (out # outs, m'')))"

fun engine_step :: "('s, 'b) env \<Rightarrow> kv_op \<Rightarrow> ('s, 'b) st \<Rightarrow> kv_out \<times> ('s, 'b) st" where
  "engine_step E (OpPut k v) st = map_prod OutUnit id (put E k v st)"
| "engine_step E (OpGet k) st = (OutBytes (get E k st), st)"
| "engine_step E (OpDelete k) st = map_prod OutUnit id (delete E k st)"

fun engine_run :: "('s, 'b) env \<Rightarrow> kv_op list \<Rightarrow> ('s, 'b) st \<Rightarrow> kv_out list \<times> ('s, 'b) st" where
  "engine_run E [] st = ([], st)"
| "engine_run E (x # xs) st =
     (case engine_step E x st of (out, st') \<Rightarrow>
        (case engine_run E xs st' of (outs, st'') \<Rightarrow> (out # outs, st'')))"

text \<open>The sizes the record format is made for.\<close>

primrec op_fits :: "kv_op \<Rightarrow> bool" where
  "op_fits (OpPut k v) \<longleftrightarrow> length k + 10 < 2 ^ 32 \<and> length v < 2 ^ 32"
| "op_fits (OpGet k) \<longleftrightarrow> True"
| "op_fits (OpDelete k) \<longleftrightarrow> length k < 2 ^ 32"

lemma engine_step_refines:
  assumes ok: "crates_ok E" "os_ok E" and inv: "engine_inv E st" and fits: "op_fits x"
    and id: "unat (active_id (fst st)) + 1 < 2 ^ 32"
  shows "\<exists>out st'. engine_step E x st = (out, st') \<and> engine_inv E st' \<and>
    spec_step x (kv E st) = (out, kv E st') \<and>
    unat (active_id (fst st')) \<le> unat (active_id (fst st)) + 1"
proof -
  obtain e fs where st: "st = (e, fs)" by (cases st)
  have id': "unat (active_id e) + 1 < 2 ^ 32" and inv': "engine_inv E (e, fs)"
    using id inv by (simp_all add: st)
  show ?thesis
  proof (cases x)
    case (OpPut k v)
    show ?thesis
    proof (cases "k = []")
      case True
      then show ?thesis using inv by (simp add: OpPut put_def)
    next
      case False
      then have "storable k v" using fits OpPut by (simp add: storable_def)
      from put_ok [OF ok inv' this id'] show ?thesis
        using False by (auto simp: OpPut st)
    qed
  next
    case (OpGet k)
    show ?thesis using get_cases [OF ok engine_inv_reads [OF inv], of k] inv by (simp add: OpGet)
  next
    case (OpDelete k)
    show ?thesis
    proof (cases "k = []")
      case True
      then show ?thesis using inv by (simp add: OpDelete delete_def)
    next
      case False
      have "length k < 2 ^ 32" using fits OpDelete by simp
      from delete_ok [OF ok inv' False this id'] show ?thesis
        using False by (auto simp: OpDelete st)
    qed
  qed
qed

lemma engine_run_refines:
  assumes ok: "crates_ok E" "os_ok E" and "engine_inv E st" and "list_all op_fits xs"
    and "unat (active_id (fst st)) + length xs < 2 ^ 32"
  shows "\<exists>outs st'. engine_run E xs st = (outs, st') \<and> engine_inv E st' \<and>
    spec_run xs (kv E st) = (outs, kv E st')"
  using assms(3-5)
proof (induction xs arbitrary: st)
  case (Cons x xs)
  then have x: "op_fits x" "list_all op_fits xs" by simp_all
  have "unat (active_id (fst st)) + 1 < 2 ^ 32" using Cons.prems(3) by simp
  from engine_step_refines [OF ok Cons.prems(1) x(1) this] obtain out st1 where
    st1: "engine_step E x st = (out, st1)" "engine_inv E st1" "spec_step x (kv E st) = (out, kv E st1)"
      "unat (active_id (fst st1)) \<le> unat (active_id (fst st)) + 1" by blast
  have "unat (active_id (fst st1)) + length xs < 2 ^ 32" using st1(4) Cons.prems(3) by simp
  from Cons.IH [OF st1(2) x(2) this] show ?case using st1(1,3) by auto
qed simp

end
