(* ===== verification/Example.thy ===== *)
theory Example
  imports RefEnv Durable KvSpec
begin

text \<open>
  A concrete database for the closed examples: a new directory \<open>db\<close>, the options, and a state of
  an engine on it with one empty data file.
\<close>

definition dir0 :: path where "dir0 = [''db'']"

definition opts0 :: options where
  "opts0 =
     \<lparr>dir_path = dir0, data_file_size = 64, bytes_per_sync = 0, sync_writes = False,
      index_type = BTree, mmap_at_startup = False, data_file_merge_ratio = 0x3F000000\<rparr>"

definition fs0 :: fs where
  "fs0 = \<lparr>fs_dirs = [dir0 \<mapsto> []], fs_locks = []\<rparr>"

definition file0 :: data_file where
  "file0 = \<lparr>df_file_id = 0, df_write_off = 0, df_io = FileIO (dir0, data_file_name 0)\<rparr>"

definition fs1 :: fs where
  "fs1 = \<lparr>fs_dirs = [dir0 \<mapsto> [(FILE_LOCK_NAME, new_inode), (data_file_name 0, new_inode)]],
          fs_locks = [(dir0, FILE_LOCK_NAME)]\<rparr>"

definition eng0 :: "((bytes, log_record_pos) rbt, (bytes, bytes) rbt) engine" where
  "eng0 = new_engine opts0 False (dir0, FILE_LOCK_NAME) file0 [] (BTreeIndex []) []"

definition st0 :: "((bytes, log_record_pos) rbt, (bytes, bytes) rbt) st" where
  "st0 = (eng0, fs1)"

lemma E0_os [simp]:
  "open_fails E0 fs f = False" "read_fails E0 fs f off = False"
  "write_accepts E0 fs f buf = Some (length buf)" "sync_fails E0 fs f = False"
  "read_dir_fails E0 fs d = False" "create_dir_fails E0 fs d = False"
  by (simp_all add: E0_def)

lemma fs1_files:
  "file_data fs1 f = []"
  "is_file fs1 f \<longleftrightarrow> f = (dir0, FILE_LOCK_NAME) \<or> f = (dir0, data_file_name 0)"
  "is_dir fs1 d \<longleftrightarrow> d = dir0"
  by (cases f; auto simp: fs1_def file_data_def is_file_def is_dir_def lookup_file_def new_inode_def)+

lemma fs0_files: "file_data fs0 f = []" "\<not> is_file fs0 f" "is_dir fs0 d \<longleftrightarrow> d = dir0"
  by (auto simp: fs0_def file_data_def is_file_def is_dir_def lookup_file_def)

lemma eng0_sel [simp]:
  "eng_options eng0 = opts0" "active_file eng0 = file0" "older_files eng0 = []"
  "eng_index eng0 = BTreeIndex []" "seq_no eng0 = 1" "bytes_write eng0 = 0" "active_id eng0 = 0"
  by (simp_all add: eng0_def file0_def)

lemma opts0_sel [simp]:
  "dir_path opts0 = dir0" "data_file_size opts0 = 64" "bytes_per_sync opts0 = 0"
  "sync_writes opts0 = False" "index_type opts0 = BTree" "mmap_at_startup opts0 = False"
  by (simp_all add: opts0_def)

lemma check_options0: "check_options opts0 = Ok ()"
  by (simp add: check_options_def opts0_def dir0_def f32_less_def f32_is_nan_def f32_key_def)

lemma files_inv0: "files_inv st0"
proof -
  have "data_path eng0 fid = (dir0, data_file_name fid)" for fid
    by (simp add: data_path_def get_data_file_name_def)
  then show ?thesis
    using data_file_name_neq [of FILE_LOCK_NAME]
    by (simp add: st0_def files_inv_def handle_ok_def file_bytes_def fs1_files)
      (auto simp: file0_def)
qed

lemma engine_inv0: "engine_inv E0 st0"
  using files_inv0
  by (simp add: engine_inv_def bw_ok_def index_inv_def index_entries_def) (simp add: st0_def bw_ok_def index_inv_def)

lemma kv0: "kv E0 st0 = Map.empty"
  by (simp add: kv_def get_def st0_def btree_get_def fun_eq_iff)

lemma disk_log_dir0:
  assumes "fs_wf fs" "is_dir fs dir0" "\<not> is_dir fs [''db-merge'']"
    "\<And>n. is_file fs (dir0, n) \<Longrightarrow> n = FILE_LOCK_NAME \<or> n \<in> data_file_name ` fst ` set logs"
    "sorted_wrt (<) (map fst logs)"
    "\<And>fid rs. (fid, rs) \<in> set logs \<Longrightarrow> is_file fs (get_data_file_name dir0 fid) \<and>
       file_data fs (get_data_file_name dir0 fid) = log_bytes E0 rs \<and>
       list_all (good_record E0) rs \<and> log_length E0 rs \<le> 2 ^ 63"
  shows "disk_log E0 dir0 fs logs"
proof -
  have "get_merge_path dir0 = Ok [''db-merge'']"
    by (simp add: get_merge_path_def dir0_def path_file_name_def path_parent_def MERGE_DIR_NAME_def)
  moreover have "\<not> is_file fs (dir0, HINT_FILE_NAME)" "\<not> is_file fs (dir0, MERGE_FINISHED_FILE_NAME)"
    using assms(4) [of HINT_FILE_NAME] assms(4) [of MERGE_FINISHED_FILE_NAME]
      data_file_name_neq [OF not_data_names(3), THEN not_sym]
      data_file_name_neq [OF not_data_names(4), THEN not_sym] not_data_names(5,6)
    by fastforce+
  ultimately show ?thesis
    using assms unfolding disk_log_def by fastforce
qed

lemma disk_log0: "disk_log E0 dir0 fs0 []"
  by (rule disk_log_dir0) (simp_all add: fs0_files, simp_all add: fs0_def fs_wf_def dir0_def)

lemma log_state0: "log_state E0 st0 [(0, [])]"
proof -
  have "fs_wf fs1"
    using data_file_name_neq [of FILE_LOCK_NAME 0] by (simp add: fs_wf_def fs1_def)
  then have "disk_log E0 dir0 fs1 [(0, [])]"
    by (rule disk_log_dir0) (auto simp: fs1_files dir0_def get_data_file_name_def)
  then show ?thesis
    by (simp add: st0_def log_state_def log_files_def replays_to_def replay_def index_entries_def
        known_ids_def)
qed

end
