(* ===== verification/FormatProps.thy ===== *)
theory FormatProps
  imports Example
begin

text \<open>
  Properties of the file format: records, positions, keys and file names survive being written
  and read, and what the reader does with damaged or missing bytes.
\<close>

subsection \<open>A record of the examples\<close>

definition rec0 :: log_record where "rec0 = LogRecord_new [0, 107] [118, 118, 118] Normal"

lemma wf_rec0: "wf_record rec0"
  by (simp add: rec0_def wf_record_def)

subsection \<open>Round trips\<close>

text \<open>C27: A record that is written to a data file is read back at the offset where the file ended,
  with its encoded length as size; the write offset moves behind it and no other file changes.\<close>

theorem write_then_read:
  assumes "crates_ok E" "os_ok E" "wf_record r" "LogRecord_encode E r = Ok en"
    and "is_file fs f" "df_io df = FileIO f"
    and "unat (df_write_off df) = length (file_data fs f)" "length (file_data fs f) < 2 ^ 63"
  shows "\<exists>df' fs'. df_write E en (df, fs) = (Ok (length en), df', fs') \<and>
    read_log_record E fs' df' (df_write_off df) = Ok \<lparr>rlr_record = r, rlr_size = length en\<rparr> \<and>
    unat (df_write_off df') = length (file_data fs' f) \<and>
    (\<forall>g. g \<noteq> f \<longrightarrow> file_data fs' g = file_data fs g)"
proof -
  have len: "length en = encoded_length E r" "8 \<le> length en" "length en < 2 ^ 34"
    using LogRecord_encode_length [OF assms(1,4)] encoded_length_bounds [OF assms(1,3)] by simp_all
  obtain i where i: "lookup_file fs f = Some i" "fdata i = file_data fs f"
    using lookup_file_Some [OF assms(5)] by blast
  let ?fs = "put_file fs f (i\<lparr>fdata := fdata i @ en\<rparr>)"
  let ?df = "df\<lparr>df_write_off := df_write_off df + of_nat (length en)\<rparr>"
  have data: "file_data ?fs g = (if g = f then file_data fs f @ en else file_data fs g)" for g
    using is_file_is_dir [OF assms(5)] i(2) by (simp add: fs_simps)
  have "unat (df_write_off df) + length en < 2 ^ 64" using assms(7,8) len(3) by simp
  note sum = add_u64_of_nat [OF this]
  have "en \<noteq> []" using len(2) by auto
  then have "df_write E en (df, fs) = (Ok (length en), ?df, ?fs)"
    using sum(1) fio_write_ok [OF assms(2) i(1)] by (simp add: df_write_def assms(6))
  moreover have "record_at E (file_data ?fs f) (unat (df_write_off df)) r"
    by (rule record_atI [OF assms(3,4), where post = "[]"]) (simp_all add: data assms(7))
  then have "read_log_record E ?fs ?df (df_write_off df) = Ok \<lparr>rlr_record = r, rlr_size = length en\<rparr>"
    using fio.read_record_anywhere [OF assms(2,1), of ?fs f "df_write_off df" r] assms(8) len
    by (simp add: read_log_record_def assms(6) data)
  ultimately show ?thesis
    using sum(2) assms(7) by (intro exI [of _ ?df] exI [of _ ?fs]) (simp add: data)
qed

lemma write_then_read_witness:
  "\<exists>df' fs'. df_write E0 (record_bytes E0 rec0) (file0, fs1) = (Ok (length (record_bytes E0 rec0)), df', fs') \<and>
    read_log_record E0 fs' df' (df_write_off file0) =
      Ok \<lparr>rlr_record = rec0, rlr_size = length (record_bytes E0 rec0)\<rparr> \<and>
    unat (df_write_off df') = length (file_data fs' (dir0, data_file_name 0)) \<and>
    (\<forall>g. g \<noteq> (dir0, data_file_name 0) \<longrightarrow> file_data fs' g = file_data fs1 g)"
  by (rule write_then_read [OF crates_ok_E0 os_ok_E0 wf_rec0 record_bytes_encode(1) [OF crates_ok_E0 wf_rec0]])
    (simp_all add: file0_def fs1_files)

text \<open>A position is decoded to itself from the varints it is encoded to.\<close>

lemma position_round_trip:
  assumes "crates_ok C"
  shows "decode_log_record_pos C (LogRecordPos_encode C p) = Ok p"
  by (rule decode_encode_pos [OF assms])

lemma position_round_trip_witness:
  "decode_log_record_pos E0 (LogRecordPos_encode E0 (LogRecordPos_new 7 300 22)) =
    Ok (LogRecordPos_new 7 300 22)"
  by (rule position_round_trip [OF crates_ok_E0])



text \<open>The id of a data file is parsed back from its name, and two ids never share a name.\<close>

lemma file_name_round_trip:
  "ends_with (data_file_name fid) DATA_FILE_NAME_SUFFIX \<and>
   parse_u32 (split_dot_0 (data_file_name fid)) = Some fid \<and>
   (data_file_name fid = data_file_name fid' \<longleftrightarrow> fid = fid')"
  by (simp add: parse_u32_pad9)

subsection \<open>Bounds and damage\<close>

text \<open>C29: The encoding of a record takes at least eight bytes, its header at most eleven, and its
  length is that of the parts.\<close>

theorem encoding_bounds:
  assumes "crates_ok C" "wf_record r"
  shows "\<exists>en. LogRecord_encode C r = Ok en \<and> length en = encoded_length C r \<and> 8 \<le> length en \<and>
    length en \<le> max_log_record_header_size C + length (rec_key r) + length (rec_value r) + 4"
proof -
  obtain en where en: "LogRecord_encode C r = Ok en"
    using LogRecord_encode_total [OF assms] .
  show ?thesis
    using en LogRecord_encode_length [OF assms(1) en] encoded_length_bounds(1) [OF assms]
      wf_record_sizes(1,2) [OF assms] max_log_record_header_size_eq [OF assms(1)]
    by (simp add: encoded_length_def)
qed

lemma encoding_bounds_witness:
  "\<exists>en. LogRecord_encode E0 rec0 = Ok en \<and> length en = encoded_length E0 rec0 \<and> 8 \<le> length en \<and>
    length en \<le> max_log_record_header_size E0 + length (rec_key rec0) + length (rec_value rec0) + 4"
  by (rule encoding_bounds [OF crates_ok_E0 wf_rec0])

text \<open>C30: A record whose stored checksum is not that of its bytes is reported as damaged.\<close>

theorem crc_mismatch_reported:
  assumes "crates_ok E" "os_ok E" "wf_record r" "LogRecord_encode E r = Ok en"
    and "df_io df = FileIO f" "length (file_data fs f) < 2 ^ 64"
    and "drop (unat off) (file_data fs f) = take (length en - 4) en @ put_u32 E stored @ post"
    and "get_crc E r \<noteq> Ok stored"
  shows "read_log_record E fs df off = Err InvalidLogRecordCrc"
  using fio.read_patched_crc [OF assms(2,1,6,3,4,7,8)] assms(5) by (simp add: read_log_record_def)

lemma get_crc_rec0: "get_crc E0 rec0 \<noteq> Ok 0"
  by (simp add: get_crc_def encode_and_get_crc_def rec0_def leb128.simps crc_eval)

definition damaged :: bytes where
  "damaged = take (length (record_bytes E0 rec0) - 4) (record_bytes E0 rec0) @ put_u32 E0 0"

lemma crc_mismatch_reported_witness:
  "read_log_record E0 (put_file fs1 (dir0, data_file_name 0) \<lparr>fdata = damaged, fsynced = 0\<rparr>) file0 0 =
    Err InvalidLogRecordCrc"
proof (rule crc_mismatch_reported [OF crates_ok_E0 os_ok_E0 wf_rec0
      record_bytes_encode(1) [OF crates_ok_E0 wf_rec0] _ _ _ get_crc_rec0, where post = "[]"])
  show "df_io file0 = FileIO (dir0, data_file_name 0)" by (simp add: file0_def)
  have len: "length (record_bytes E0 rec0) = 12"
    using record_bytes_encode(2) [OF crates_ok_E0 wf_rec0]
    by (simp add: encoded_length_def rec0_def leb128_len.simps)
  then show "length (file_data (put_file fs1 (dir0, data_file_name 0)
      \<lparr>fdata = damaged, fsynced = 0\<rparr>) (dir0, data_file_name 0)) < 2 ^ 64"
    by (simp add: fs_simps fs1_files damaged_def length_be_u32)
qed (simp add: fs_simps fs1_files damaged_def)

text \<open>Reading at the end of a data file, or anywhere behind it, reports the end of the file.\<close>

lemma read_at_end_is_eof:
  assumes "crates_ok E" "os_ok E" "df_io df = FileIO f" "length (file_data fs f) \<le> unat off"
  shows "read_log_record E fs df off = Err ReadDataFileEOF"
  using fio.read_at_end [OF assms(2,1,4)] assms(3) by (simp add: read_log_record_def)

lemma read_at_end_is_eof_witness: "read_log_record E0 fs1 file0 0 = Err ReadDataFileEOF"
  by (rule read_at_end_is_eof [OF crates_ok_E0 os_ok_E0, where f = "(dir0, data_file_name 0)"])
    (simp_all add: file0_def fs1_files)

text \<open>A memory map hides the last record of its file when fewer than eleven bytes, the size of
  the largest header, are left there: the reader reports the end of the file instead.\<close>

lemma mmap_hides_short_tail:
  assumes "crates_ok E" "df_io df = MMapIo m" "length m < unat off + 11" "unat off + 11 < 2 ^ 64"
  shows "read_log_record E fs df off = Err ReadDataFileEOF"
proof -
  have "mmap_read m (replicate 11 0) off = Err ReadDataFileEOF"
    using assms(3,4) by (intro mmap_read_past) simp_all
  then show ?thesis
    by (simp add: read_log_record_def read_log_record_with_def assms(2)
        max_log_record_header_size_eq [OF assms(1)])
qed

text \<open>The witness is a whole record of nine bytes, which a standard file reads back.\<close>

definition short_rec :: log_record where "short_rec = LogRecord_new [0, 107] [] Normal"

definition short_map :: bytes where "short_map = record_bytes E0 short_rec"

lemma mmap_hides_short_tail_witness:
  "record_at E0 short_map 0 short_rec \<and>
   read_log_record E0 fs1 (file0\<lparr>df_io := MMapIo short_map\<rparr>) 0 = Err ReadDataFileEOF"
proof
  have wf: "wf_record short_rec" by (simp add: short_rec_def wf_record_def)
  note en = record_bytes_encode [OF crates_ok_E0 wf]
  show "record_at E0 short_map 0 short_rec"
    by (rule record_atI [OF wf en(1), where pre = "[]" and post = "[]"]) (simp_all add: short_map_def)
  show "read_log_record E0 fs1 (file0\<lparr>df_io := MMapIo short_map\<rparr>) 0 = Err ReadDataFileEOF"
    using en(2) by (intro mmap_hides_short_tail [OF crates_ok_E0, where m = short_map])
      (simp_all add: short_map_def encoded_length_def short_rec_def leb128_len.simps)
qed

text \<open>A type byte that is no record type makes the reader panic, whatever the checksum says, when
  the lengths decode and the body can be read.\<close>

lemma unknown_type_panics:
  assumes "crates_ok C" "ty \<notin> {1, 2, 3}"
    and "rd (replicate 11 0) off = Ok (n, ty # buf)"
    and "decode_length_delimiter C buf = Some (ks, buf')"
    and "decode_length_delimiter C buf' = Some (vs, buf'')"
    and "0 < ks" "ks + vs + 4 < 2 ^ 63"
    and "add_u64 off (of_nat (length_delimiter_len C ks + length_delimiter_len C vs + 1)) = Ok kv_off"
    and "rd (replicate (ks + vs + 4) 0) kv_off = Ok (n', body)" "length body = ks + vs + 4"
  shows "read_log_record_with C rd off = Panic"
  using assms from_u8_panic_iff [of ty]
  by (simp add: read_log_record_with_def max_log_record_header_size_eq Let_def)

definition zeros :: "u8 \<Rightarrow> u8 \<Rightarrow> bytes" where
  "zeros a b = [a, b, 0, 0, 0, 0, 0, 0, 0, 0, 0]"

lemma unknown_type_panics_witness:
  "read_log_record_with E0 (\<lambda>buf off. Ok (length buf, take (length buf) (zeros 9 1))) 0 = Panic"
  by (rule unknown_type_panics [OF crates_ok_E0, where ty = 9 and ks = 1 and vs = 0 and n = 11
        and buf = "[1, 0, 0, 0, 0, 0, 0, 0, 0, 0]" and buf' = "[0, 0, 0, 0, 0, 0, 0, 0, 0]"
        and buf'' = "[0, 0, 0, 0, 0, 0, 0, 0]"
        and kv_off = 3 and n' = 5 and body = "[9, 1, 0, 0, 0]"])
    (simp_all add: zeros_def leb128_len.simps add_u64_def)

end
