(* ===== verification/IndexProps.thy ===== *)
theory IndexProps
  imports Example
begin

text \<open>
  Properties of the index: the three implementations against a map and against each other, and
  the iterators with their binary search.
\<close>

subsection \<open>Histories of an index\<close>

datatype index_op = IxPut bytes log_record_pos | IxGet bytes | IxDelete bytes

fun index_step ::
  "('s, 'b) env \<Rightarrow> index_op \<Rightarrow> ('s, 'b) index \<Rightarrow> log_record_pos option res \<times> ('s, 'b) index" where
  "index_step E (IxPut k p) i = index_put E i k p"
| "index_step E (IxGet k) i = (index_get E i k, i)"
| "index_step E (IxDelete k) i = index_delete E i k"

fun index_run ::
  "('s, 'b) env \<Rightarrow> index_op list \<Rightarrow> ('s, 'b) index \<Rightarrow> log_record_pos option res list \<times> ('s, 'b) index" where
  "index_run E [] i = ([], i)"
| "index_run E (x # xs) i =
     (case index_step E x i of (out, i') \<Rightarrow>
        (case index_run E xs i' of (outs, i'') \<Rightarrow> (out # outs, i'')))"

text \<open>The same calls on a map: each call returns what was there.\<close>

fun map_step ::
  "index_op \<Rightarrow> (bytes \<Rightarrow> log_record_pos option) \<Rightarrow>
   log_record_pos option res \<times> (bytes \<Rightarrow> log_record_pos option)" where
  "map_step (IxPut k p) m = (Ok (m k), m(k \<mapsto> p))"
| "map_step (IxGet k) m = (Ok (m k), m)"
| "map_step (IxDelete k) m = (Ok (m k), m(k := None))"

fun map_run ::
  "index_op list \<Rightarrow> (bytes \<Rightarrow> log_record_pos option) \<Rightarrow>
   log_record_pos option res list \<times> (bytes \<Rightarrow> log_record_pos option)" where
  "map_run [] m = ([], m)"
| "map_run (x # xs) m =
     (case map_step x m of (out, m') \<Rightarrow>
        (case map_run xs m' of (outs, m'') \<Rightarrow> (out # outs, m'')))"

lemma index_step_map:
  assumes "index_inv E i"
  shows "\<exists>out i'. index_step E x i = (out, i') \<and> index_inv E i' \<and>
    map_step x (index_entries E i) = (out, index_entries E i')"
proof (cases x)
  case (IxPut k p)
  then show ?thesis using ix.put_law [OF assms, of k p] by auto
next
  case (IxGet k)
  then show ?thesis using ix.get_law [OF assms, of k] assms by simp
next
  case (IxDelete k)
  then show ?thesis using ix.delete_law [OF assms, of k] by auto
qed

lemma index_run_map:
  assumes "index_inv E i"
  shows "\<exists>outs i'. index_run E xs i = (outs, i') \<and> index_inv E i' \<and>
    map_run xs (index_entries E i) = (outs, index_entries E i')"
  using assms
proof (induction xs arbitrary: i)
  case (Cons x xs)
  obtain out i1 where i1: "index_step E x i = (out, i1)" "index_inv E i1"
    "map_step x (index_entries E i) = (out, index_entries E i1)"
    using index_step_map [OF Cons.prems] by blast
  from Cons.IH [OF i1(2)] i1 show ?case by auto
qed simp

text \<open>Two indexes with the same entries list the same items: the order is that of the keys.\<close>

lemma index_items_unique:
  assumes "index_inv E i" "index_inv F j" "index_entries E i = index_entries F j"
  shows "index_items E i = index_items F j"
proof -
  obtain xs where xs: "index_items E i = Ok xs" "bt_ok xs" "map_of xs = index_entries E i"
    using ix.itemsE [OF assms(1)] .
  obtain ys where ys: "index_items F j = Ok ys" "bt_ok ys" "map_of ys = index_entries F j"
    using ix.itemsE [OF assms(2)] .
  have "map_of xs = map_of ys" using xs(3) ys(3) assms(3) by simp
  moreover have s: "sorted (map fst xs)" "distinct (map fst xs)" "sorted (map fst ys)" "distinct (map fst ys)"
    using xs(2) ys(2) by (simp_all add: bt_ok_def strict_sorted_iff)
  ultimately have "set xs = set ys" by (simp add: map_of_inject_set)
  moreover have "sorted_wrt (<) (map fst zs) \<Longrightarrow> inj_on fst (set zs)" for zs :: items
    by (simp add: strict_sorted_iff distinct_map)
  ultimately have "xs = ys"
    using xs(2) ys(2) map_sorted_distinct_set_unique [of fst xs ys] s
    by (metis bt_ok_def Un_absorb)
  then show ?thesis using xs(1) ys(1) by simp
qed

subsection \<open>Properties\<close>

text \<open>C23: Every implementation of the index answers any sequence of \<open>put\<close>, \<open>get\<close> and \<open>delete\<close> as a
  map from keys to positions does, none of the calls fails, and the invariant is kept.\<close>

theorem index_refines_map:
  assumes "index_inv E i"
  shows "\<exists>outs i'. index_run E xs i = (outs, i') \<and> index_inv E i' \<and>
    map_run xs (index_entries E i) = (outs, index_entries E i')"
  using index_run_map [OF assms] .

definition p1 :: log_record_pos where "p1 = LogRecordPos_new 0 0 12"
definition p2 :: log_record_pos where "p2 = LogRecordPos_new 0 12 13"

definition ops0 :: "index_op list" where
  "ops0 = [IxPut [2] p1, IxPut [1] p2, IxGet [2], IxPut [2] p2, IxDelete [1], IxGet [1]]"

lemma index_refines_map_witness:
  "index_inv E0 (BTreeIndex BTree_new) \<and>
   index_run E0 ops0 (BTreeIndex BTree_new) =
     ([Ok None, Ok None, Ok (Some p1), Ok (Some p1), Ok (Some p2), Ok None], BTreeIndex [([2], p2)]) \<and>
   (\<exists>outs i'. index_run E0 ops0 (BTreeIndex BTree_new) = (outs, i') \<and> index_inv E0 i' \<and>
      map_run ops0 (index_entries E0 (BTreeIndex BTree_new)) = (outs, index_entries E0 i'))"
proof (intro conjI)
  show inv: "index_inv E0 (BTreeIndex BTree_new)" by (simp add: index_inv_def BTree_new_def)
  show "index_run E0 ops0 (BTreeIndex BTree_new) =
     ([Ok None, Ok None, Ok (Some p1), Ok (Some p1), Ok (Some p2), Ok None], BTreeIndex [([2], p2)])"
    by (simp add: ops0_def btree_put_def btree_get_def btree_delete_def bt_insert_def bt_remove_def
        BTree_new_def)
  show "\<exists>outs i'. index_run E0 ops0 (BTreeIndex BTree_new) = (outs, i') \<and> index_inv E0 i' \<and>
      map_run ops0 (index_entries E0 (BTreeIndex BTree_new)) = (outs, index_entries E0 i')"
    by (rule index_refines_map [OF inv])
qed

text \<open>C21: The choice of index cannot be observed: two indexes of any types that start with the same
  entries give the same results on any sequence of calls and list the same keys and items after it.\<close>

theorem index_types_agree:
  assumes "index_inv E i" "index_inv E j" "index_entries E i = index_entries E j"
  shows "\<exists>outs i' j'. index_run E xs i = (outs, i') \<and> index_run E xs j = (outs, j') \<and>
    index_items E i' = index_items E j' \<and> index_list_keys E i' = index_list_keys E j'"
proof -
  obtain outs i' where i': "index_run E xs i = (outs, i')" "index_inv E i'"
    "map_run xs (index_entries E i) = (outs, index_entries E i')"
    using index_run_map [OF assms(1)] by blast
  obtain outs' j' where j': "index_run E xs j = (outs', j')" "index_inv E j'"
    "map_run xs (index_entries E j) = (outs', index_entries E j')"
    using index_run_map [OF assms(2)] by blast
  have same: "outs = outs'" "index_entries E i' = index_entries E j'"
    using i'(3) j'(3) assms(3) by auto
  note items = index_items_unique [OF i'(2) j'(2) same(2)]
  have "index_list_keys E i' = index_list_keys E j'"
    by (simp add: ix.keys_law i'(2) j'(2) items)
  then show ?thesis using i'(1) j'(1) same(1) items by blast
qed

lemma index_types_agree_witness:
  "\<exists>outs i' j'. index_run E0 ops0 (BTreeIndex []) = (outs, i') \<and>
    index_run E0 ops0 (BPlusTreeIndex RBT.empty) = (outs, j') \<and>
    index_items E0 i' = index_items E0 j' \<and> index_list_keys E0 i' = index_list_keys E0 j'"
proof (rule index_types_agree)
  show "index_inv E0 (BTreeIndex [])" by (simp add: index_inv_def)
  have get: "jm_get (jammdb E0) RBT.empty k = None" for k by (simp add: E0_def)
  then show "index_inv E0 (BPlusTreeIndex RBT.empty)" by (simp add: index_inv_def bptree_inv_def)
  show "index_entries E0 (BTreeIndex []) = index_entries E0 (BPlusTreeIndex RBT.empty)"
    by (simp add: index_entries_def bptree_entries_def get fun_eq_iff)
qed

text \<open>\<open>list_keys\<close> returns every key of the index exactly once, in ascending order.\<close>

lemma list_keys_ascending:
  assumes "index_inv E i"
  shows "\<exists>ks. index_list_keys E i = Ok ks \<and> sorted_wrt (<) ks \<and> distinct ks \<and>
    set ks = {k. index_entries E i k \<noteq> None}"
proof -
  obtain ks where "index_list_keys E i = Ok ks" "sorted_wrt (<) ks" "set ks = dom (index_entries E i)"
    using ix.list_keys_sorted [OF assms] by blast
  then show ?thesis by (auto simp: strict_sorted_iff dom_def)
qed

lemma list_keys_ascending_witness:
  "\<exists>ks. index_list_keys E0 (BTreeIndex [([1], p1), ([3], p2)]) = Ok ks \<and> sorted_wrt (<) ks \<and> distinct ks \<and>
    set ks = {k. index_entries E0 (BTreeIndex [([1], p1), ([3], p2)]) k \<noteq> None}"
  by (rule list_keys_ascending) (simp add: index_inv_def)

text \<open>An iterator that is sought to a key and then read to its end yields, in ascending order,
  exactly the entries from that key on that have the prefix of its options; a reverse iterator
  yields those up to the key, in descending order.\<close>

lemma seek_then_drain:
  assumes "index_inv E i" "index_items E i = Ok xs"
  shows "iter_drain (iter_seek key (iterator_new xs opts)) =
    (if it_reverse opts
     then filter (\<lambda>x. fst x \<le> key \<and> starts_with (fst x) (it_prefix opts)) (rev xs)
     else filter (\<lambda>x. key \<le> fst x \<and> starts_with (fst x) (it_prefix opts)) xs)"
proof -
  have "bt_ok xs" using ix.itemsE [OF assms(1)] assms(2) by (metis res.inject(1))
  then show ?thesis by (rule iter_seek_drain)
qed

definition ix0 :: items where "ix0 = [([1], p1), ([1, 5], p2), ([2], p1), ([3], p2)]"

lemma seek_then_drain_witness:
  "iter_drain (iter_seek [2] (iterator_new ix0 \<lparr>it_prefix = [1], it_reverse = True\<rparr>)) =
     [([1, 5], p2), ([1], p1)] \<and>
   iter_drain (iter_seek [1, 2] (iterator_new ix0 IteratorOptions_default)) =
     [([1, 5], p2), ([2], p1), ([3], p2)]"
proof -
  have inv: "index_inv E0 (BTreeIndex ix0)" by (simp add: index_inv_def ix0_def)
  have items: "index_items E0 (BTreeIndex ix0) = Ok ix0" by simp
  show ?thesis
    unfolding seek_then_drain [OF inv items]
    by (simp add: ix0_def IteratorOptions_default_def starts_with_def)
qed

text \<open>Rewinding an iterator starts it again: whatever it has yielded before, it then yields all its
  entries with the prefix.\<close>

lemma rewind_restarts:
  "iter_drain (iter_rewind (snd (iter_next it))) = iter_drain (iter_rewind it) \<and>
   iter_drain (iter_rewind (iter_seek key it)) = iter_drain (iter_rewind it) \<and>
   iter_drain (iter_rewind it) =
     filter (\<lambda>x. starts_with (fst x) (it_prefix (it_options it))) (it_items it)"
proof (intro conjI)
  have "it_items (snd (iter_next it)) = it_items it" "it_options (snd (iter_next it)) = it_options it"
    by (simp_all add: iter_next_def split: prod.split)
  then show "iter_drain (iter_rewind (snd (iter_next it))) = iter_drain (iter_rewind it)"
    by (simp add: iter_rewind_drain)
  show "iter_drain (iter_rewind (iter_seek key it)) = iter_drain (iter_rewind it)"
    by (simp add: iter_rewind_drain) (simp add: iter_seek_def)
qed (rule iter_rewind_drain)

text \<open>The binary search of \<open>seek\<close> ends within the slice and returns the position where \<open>key\<close> is
  or belongs: all entries before it are below \<open>key\<close>, those from it on are not.\<close>

lemma binary_search_position:
  assumes "bt_ok xs"
  shows "(case binary_search_by (\<lambda>i. bytes_cmp (fst (xs ! i)) key) (length xs) of
      Found p \<Rightarrow> p < length xs \<and> fst (xs ! p) = key
    | NotFound p \<Rightarrow> p \<le> length xs \<and> (\<forall>i < p. fst (xs ! i) < key) \<and>
        (\<forall>i < length xs. p \<le> i \<longrightarrow> key < fst (xs ! i)))"
proof -
  define p where "p = length (takeWhile (\<lambda>x. fst x < key) xs)"
  note bound = takeWhile_boundary [OF p_def]
  have above: "key < fst (xs ! i)" if "p < i" "i < length xs" for i
  proof -
    have "fst (xs ! p) < fst (xs ! i)" by (rule sorted_nth_less [OF assms that])
    moreover have "key \<le> fst (xs ! p)" using bound(3) that by simp
    ultimately show ?thesis by (rule order.strict_trans1 [rotated])
  qed
  have "binary_search_by (\<lambda>i. bytes_cmp (fst (xs ! i)) key) (length xs) =
      (if p < length xs \<and> bytes_cmp (fst (xs ! p)) key = Equal then Found p else NotFound p)"
    by (rule binary_search_by_boundary) (use bound above in \<open>auto simp: bytes_cmp_def dest: order.asym\<close>)
  then show ?thesis
    using bound above by (auto simp: bytes_cmp_def le_less split: if_splits)
qed

lemma binary_search_position_witness:
  "binary_search_by (\<lambda>i. bytes_cmp (fst (ix0 ! i)) [1, 7]) 4 = NotFound 2 \<and>
   (case binary_search_by (\<lambda>i. bytes_cmp (fst (ix0 ! i)) [1, 7]) (length ix0) of
      Found p \<Rightarrow> p < length ix0 \<and> fst (ix0 ! p) = [1, 7]
    | NotFound p \<Rightarrow> p \<le> length ix0 \<and> (\<forall>i < p. fst (ix0 ! i) < [1, 7]) \<and>
        (\<forall>i < length ix0. p \<le> i \<longrightarrow> [1, 7] < fst (ix0 ! i)))"
proof
  show "binary_search_by (\<lambda>i. bytes_cmp (fst (ix0 ! i)) [1, 7]) 4 = NotFound 2"
    by (simp add: binary_search_by_def bsearch_loop.simps bytes_cmp_def ix0_def)
  show "case binary_search_by (\<lambda>i. bytes_cmp (fst (ix0 ! i)) [1, 7]) (length ix0) of
      Found p \<Rightarrow> p < length ix0 \<and> fst (ix0 ! p) = [1, 7]
    | NotFound p \<Rightarrow> p \<le> length ix0 \<and> (\<forall>i < p. fst (ix0 ! i) < [1, 7]) \<and>
        (\<forall>i < length ix0. p \<le> i \<longrightarrow> [1, 7] < fst (ix0 ! i))"
    by (rule binary_search_position) (simp add: ix0_def)
qed

end
