(* ===== verification/Batch.thy ===== *)
theory Batch
  imports Engine
begin

text \<open>
  Model of \<^verbatim>\<open>bitcask-rs/src/batch.rs\<close>: write batches.  The pending writes are a map from keys to
  records; the order in which the code iterates over its \<open>HashMap\<close> is \<open>hash_order\<close> of the keys.
\<close>

definition TXN_FIN_KEY :: string where "TXN_FIN_KEY = ''txn-fin''"

record write_batch =
  pending_write :: "(bytes \<times> log_record) list"
  wb_options :: write_batch_options

text \<open>
  A B+ tree engine that found no sequence number file cannot number transactions, unless its
  database is new.
\<close>

definition new_write_batch ::
  "write_batch_options \<Rightarrow> ('s, 'b) engine \<Rightarrow> write_batch res" where
  "new_write_batch opts e =
     (if index_type (eng_options e) = BPlusTree \<and> \<not> seq_file_exists e \<and> \<not> is_initial e
      then Err UnableToUserWriteBatch
      else Ok \<lparr>pending_write = [], wb_options = opts\<rparr>)"

definition batch_put :: "bytes \<Rightarrow> bytes \<Rightarrow> write_batch \<Rightarrow> unit res \<times> write_batch" where
  "batch_put k v b =
     (if k = [] then (Err KeyIsEmpty, b)
      else (Ok (), b\<lparr>pending_write :=
                      AList.update k (LogRecord_new k v Normal) (pending_write b)\<rparr>))"

text \<open>
  A key that the engine does not find is taken out of the batch when the batch has it; in every
  other case the batch gets a tombstone.
\<close>

definition batch_delete ::
  "('s, 'b) env \<Rightarrow> ('s, 'b) st \<Rightarrow> bytes \<Rightarrow> write_batch \<Rightarrow> unit res \<times> write_batch" where
  "batch_delete E st k b =
     (if k = [] then (Err KeyIsEmpty, b)
      else
        let tombstone = b\<lparr>pending_write :=
              AList.update k (LogRecord_new k [] Delete) (pending_write b)\<rparr>
        in case get E k st of
             Panic \<Rightarrow> (Panic, b)
           | Ok _ \<Rightarrow> (Ok (), tombstone)
           | Err _ \<Rightarrow>
               if map_of (pending_write b) k \<noteq> None
               then (Ok (), b\<lparr>pending_write := AList.delete k (pending_write b)\<rparr>)
               else (Ok (), tombstone))"

subsection \<open>\<open>commit\<close>\<close>

text \<open>\<open>pending_writes.iter()\<close>.\<close>

definition pending_items :: "('s, 'b) env \<Rightarrow> write_batch \<Rightarrow> log_record list" where
  "pending_items E b =
     List.map_filter (map_of (pending_write b)) (hash_order E (map fst (pending_write b)))"

text \<open>The first loop: each record goes to the log under the number of the transaction.\<close>

fun append_items ::
  "('s, 'b) env \<Rightarrow> nat \<Rightarrow> log_record list \<Rightarrow> (bytes \<times> log_record_pos) list \<Rightarrow> ('s, 'b) st \<Rightarrow>
   (bytes \<times> log_record_pos) list res \<times> ('s, 'b) st" where
  "append_items E seq [] positions st = (Ok positions, st)"
| "append_items E seq (item # items) positions st =
     and_then (log_record_key_with_seq E (rec_key item) seq, st) (\<lambda>enc_key st.
     and_then (append_log_record E (LogRecord_new enc_key (rec_value item) (rec_type item)) st)
       (\<lambda>pos st.
     append_items E seq items (AList.update (rec_key item) pos positions) st))"

text \<open>The second loop: the index.\<close>

definition index_item ::
  "('s, 'b) env \<Rightarrow> log_record \<Rightarrow> log_record_pos \<Rightarrow> ('s, 'b) st \<Rightarrow> unit res \<times> ('s, 'b) st" where
  "index_item E item record_pos st =
     and_then
       (if rec_type item = Normal then
          and_then (on_index (\<lambda>i. index_put E i (rec_key item) record_pos) st) (\<lambda>old_pos st.
            (Ok (), on_engine (add_reclaim old_pos) st))
        else (Ok (), st)) (\<lambda>_ st.
     if rec_type item = Delete then
       and_then (on_index (\<lambda>i. index_delete E i (rec_key item)) st) (\<lambda>old_pos st.
         (Ok (), on_engine (add_reclaim old_pos) st))
     else (Ok (), st))"

fun index_batch ::
  "('s, 'b) env \<Rightarrow> (bytes \<times> log_record_pos) list \<Rightarrow> log_record list \<Rightarrow> ('s, 'b) st \<Rightarrow>
   unit res \<times> ('s, 'b) st" where
  "index_batch E positions [] st = (Ok (), st)"
| "index_batch E positions (item # items) st =
     and_then (case map_of positions (rec_key item) of
                 Some record_pos \<Rightarrow> index_item E item record_pos st
               | None \<Rightarrow> (Ok (), st)) (\<lambda>_ st.
     index_batch E positions items st)"

definition commit_writes ::
  "('s, 'b) env \<Rightarrow> nat \<Rightarrow> write_batch \<Rightarrow> ('s, 'b) st \<Rightarrow> unit res \<times> ('s, 'b) st" where
  "commit_writes E seq b st =
     and_then (append_items E seq (pending_items E b) [] st) (\<lambda>positions st.
     and_then (log_record_key_with_seq E (string_bytes TXN_FIN_KEY) seq, st) (\<lambda>fin_key st.
     and_then (append_log_record E (LogRecord_new fin_key [] TxnFinished) st) (\<lambda>_ st.
     and_then (if wb_sync_writes (wb_options b) then engine_sync E st else (Ok (), st)) (\<lambda>_ st.
       index_batch E positions (pending_items E b) st))))"

text \<open>An early return keeps the pending writes; the sequence number is used up all the same.\<close>

definition commit ::
  "('s, 'b) env \<Rightarrow> write_batch \<Rightarrow> ('s, 'b) st \<Rightarrow> unit res \<times> write_batch \<times> ('s, 'b) st" where
  "commit E b st =
     (if pending_write b = [] then (Ok (), b, st)
      else if max_batch_num (wb_options b) < length (pending_write b)
        then (Err ExceedMaxBatchNum, b, st)
      else
        let seq = seq_no (fst st);
            st = on_engine (\<lambda>e. e\<lparr>seq_no := fetch_add seq 1\<rparr>) st
        in case commit_writes E seq b st of
             (Ok _, st) \<Rightarrow> (Ok (), b\<lparr>pending_write := []\<rparr>, st)
           | (Err x, st) \<Rightarrow> (Err x, b, st)
           | (Panic, st) \<Rightarrow> (Panic, b, st))"

end
