(* ===== verification/Commit.thy ===== *)
theory Commit
  imports Batch Durable
begin

text \<open>
  The commit of a write batch is atomic: all its writes are in the map afterwards, and its log
  records replay to the same index.
\<close>

subsection \<open>Batches\<close>

definition batch_ok :: "write_batch \<Rightarrow> bool" where
  "batch_ok b \<longleftrightarrow>
     distinct (map fst (pending_write b)) \<and>
     (\<forall>(k, r) \<in> set (pending_write b). rec_key r = k \<and> rec_type r \<noteq> TxnFinished \<and> loggable k (rec_value r))"

text \<open>What a batch will do to a key: nothing, delete it, or set it.\<close>

definition batch_view :: "write_batch \<Rightarrow> bytes \<Rightarrow> bytes option option" where
  "batch_view b k =
     map_option (\<lambda>r. if rec_type r = Delete then None else Some (rec_value r)) (map_of (pending_write b) k)"

definition item_effect :: "log_record \<Rightarrow> (bytes \<Rightarrow> bytes option) \<Rightarrow> bytes \<Rightarrow> bytes option" where
  "item_effect r m = m(rec_key r := (if rec_type r = Delete then None else Some (rec_value r)))"

lemma batch_okD:
  assumes "batch_ok b" "map_of (pending_write b) k = Some r"
  shows "rec_key r = k" "rec_type r \<noteq> TxnFinished" "loggable k (rec_value r)"
  using assms map_of_SomeD [OF assms(2)] by (auto simp: batch_ok_def)

lemma pending_items_props:
  assumes "batch_ok b" "hash_ok E"
  shows "distinct (map rec_key (pending_items E b))"
    and "r \<in> set (pending_items E b) \<longleftrightarrow> map_of (pending_write b) (rec_key r) = Some r"
    and "length (pending_items E b) = length (pending_write b)"
proof -
  let ?ks = "hash_order E (map fst (pending_write b))" and ?m = "map_of (pending_write b)"
  have ks: "distinct ?ks" "set ?ks = fst ` set (pending_write b)"
    using assms by (auto simp: batch_ok_def hash_ok_def)
  have some: "?m k \<noteq> None" if "k \<in> set ?ks" for k
    using that ks(2) by (auto simp: map_of_eq_None_iff)
  have filter: "List.map_filter ?m xs = map (\<lambda>k. the (?m k)) xs" if "set xs \<subseteq> set ?ks" for xs
    using that some by (induction xs) (auto simp: List.map_filter_simps split: option.splits)
  have items: "pending_items E b = map (\<lambda>k. the (?m k)) ?ks"
    by (simp add: pending_items_def filter)
  have key: "rec_key (the (?m k)) = k" if "k \<in> set ?ks" for k
    using some [OF that] batch_okD(1) [OF assms(1)] by auto
  then have "map rec_key (pending_items E b) = ?ks" by (simp add: items map_idI)
  then show "distinct (map rec_key (pending_items E b))" using ks(1) by simp
  show "r \<in> set (pending_items E b) \<longleftrightarrow> ?m (rec_key r) = Some r"
  proof
    assume "r \<in> set (pending_items E b)"
    then obtain k where k: "k \<in> set ?ks" "r = the (?m k)" by (auto simp: items)
    then show "?m (rec_key r) = Some r" using key some [OF k(1)] by auto
  next
    assume r: "?m (rec_key r) = Some r"
    then have "rec_key r \<in> set ?ks" unfolding ks(2) by (metis domI dom_map_of_conv_image_fst)
    moreover have "r = the (?m (rec_key r))" by (simp add: r)
    ultimately show "r \<in> set (pending_items E b)" unfolding items set_map by (rule rev_image_eqI)
  qed
  have "length ?ks = length (pending_write b)"
    using distinct_card [OF ks(1)] distinct_card [of "map fst (pending_write b)"] ks(2) assms(1)
    by (simp add: batch_ok_def)
  then show "length (pending_items E b) = length (pending_write b)" by (simp add: items)
qed

text \<open>The effects of distinct keys add up, in whatever order they come.\<close>

lemma fold_item_effect:
  assumes "distinct (map rec_key items)"
  shows "fold item_effect items m k =
    (case map_of (map (\<lambda>r. (rec_key r, r)) items) k of
       None \<Rightarrow> m k
     | Some r \<Rightarrow> if rec_type r = Delete then None else Some (rec_value r))"
  using assms
proof (induction items arbitrary: m)
  case (Cons r items)
  then have "map_of (map (\<lambda>r. (rec_key r, r)) items) (rec_key r) = None"
    by (force simp: map_of_eq_None_iff)
  with Cons show ?case by (auto simp: item_effect_def split: option.splits)
qed simp

lemma fold_pending_items:
  assumes "batch_ok b" "hash_ok E"
  shows "fold item_effect (pending_items E b) m =
    (\<lambda>k. case batch_view b k of None \<Rightarrow> m k | Some v \<Rightarrow> v)"
proof
  fix k
  note items = pending_items_props [OF assms]
  have "map_of (map (\<lambda>r. (rec_key r, r)) (pending_items E b)) k = map_of (pending_write b) k"
  proof (cases "map_of (pending_write b) k")
    case None
    have "k \<notin> rec_key ` set (pending_items E b)"
    proof
      assume "k \<in> rec_key ` set (pending_items E b)"
      then obtain r where "r \<in> set (pending_items E b)" "rec_key r = k" by auto
      then show False using items(2) [of r] None by simp
    qed
    then have "map_of (map (\<lambda>r. (rec_key r, r)) (pending_items E b)) k = None"
      by (simp add: map_of_eq_None_iff image_image)
    then show ?thesis using None by simp
  next
    case (Some r)
    then have "(k, r) \<in> set (map (\<lambda>r. (rec_key r, r)) (pending_items E b))"
      using items(2) [of r] batch_okD(1) [OF assms(1) Some] by force
    moreover have "distinct (map fst (map (\<lambda>r. (rec_key r, r)) (pending_items E b)))"
      using items(1) by (simp add: comp_def)
    ultimately show ?thesis using Some by simp
  qed
  then show "fold item_effect (pending_items E b) m k =
      (case batch_view b k of None \<Rightarrow> m k | Some v \<Rightarrow> v)"
    by (simp add: fold_item_effect [OF items(1)] batch_view_def split: option.splits)
qed

subsection \<open>The records of a transaction\<close>

definition txn_rec :: "bytes \<Rightarrow> log_record \<Rightarrow> log_record" where
  "txn_rec en r = LogRecord_new (en @ rec_key r) (rec_value r) (rec_type r)"

text \<open>The record of the item \<open>r\<close> lies at \<open>p\<close>.\<close>

definition item_at :: "('s, 'b) env \<Rightarrow> ('s, 'b) st \<Rightarrow> log_record \<Rightarrow> log_record_pos \<Rightarrow> bool" where
  "item_at E st r p \<longleftrightarrow>
     pos_file_id p \<in> known_ids (fst st) \<and>
     (\<exists>q n. record_at E (file_bytes st (pos_file_id p)) (unat (pos_offset p)) q \<and>
        rec_type q = rec_type r \<and> rec_value q = rec_value r \<and>
        parse_log_record_key E (rec_key q) = Ok (rec_key r, n))"

lemma item_at_grows:
  assumes "item_at E (e, fs) r p" "grows fs fs'" "same_index e e'"
  shows "item_at E (e', fs') r p"
proof -
  have "data_path e' = data_path e" using assms(3) by (simp add: same_index_def data_path_def fun_eq_iff)
  then have "record_at E (file_bytes (e', fs') fid) n q"
    if "record_at E (file_bytes (e, fs) fid) n q" for fid n q
    using that grows_record_at [OF assms(2)] by (simp add: file_bytes_def)
  moreover have "known_ids e \<subseteq> known_ids e'" using assms(3) by (simp add: same_index_def)
  ultimately show ?thesis using assms(1) unfolding item_at_def fst_conv by blast
qed

lemma append_items_ok:
  assumes ok: "crates_ok E" "os_ok E" and en: "encode_length_delimiter E seq = Some en" "seq < 2 ^ 64"
    and inv: "files_inv (e, fs)" "bw_ok e" and items: "\<forall>r \<in> set items. loggable (rec_key r) (rec_value r)"
    and id: "unat (active_id e) + length items < 2 ^ 32"
  shows "\<exists>ps e' fs'. append_items E seq items positions (e, fs) =
      (Ok (fold (\<lambda>(r, p). AList.update (rec_key r) p) (zip items ps) positions), e', fs') \<and>
    length ps = length items \<and> files_inv (e', fs') \<and> bw_ok e' \<and> grows fs fs' \<and> same_index e e' \<and>
    unat (active_id e') \<le> unat (active_id e) + length items \<and>
    (\<forall>(r, p) \<in> set (zip items ps). item_at E (e', fs') r p) \<and>
    (\<forall>logs. log_files E (e, fs) logs \<longrightarrow> (\<exists>logs'. log_files E (e', fs') logs' \<and>
       log_entries E logs' = log_entries E logs @ zip ps (map (txn_rec en) items)))"
  using inv items id
proof (induction items arbitrary: positions e fs)
  case Nil
  then show ?case by auto
next
  case (Cons r items)
  have key: "log_record_key_with_seq E (rec_key r) seq = Ok (en @ rec_key r)"
    by (simp add: log_record_key_with_seq_def en(1))
  have r: "loggable (rec_key r) (rec_value r)" and id1: "unat (active_id e) + 1 < 2 ^ 32"
    using Cons.prems(3,4) by simp_all
  have good: "good_record E (txn_rec en r)"
    using good_with_seq [OF ok(1) key en(2)] r by (simp add: txn_rec_def loggable_def)
  from append_logged [OF ok Cons.prems(1,2) good id1] obtain p e1 fs1 where
    ap: "append_log_record E (txn_rec en r) (e, fs) = (Ok p, e1, fs1)" and
    inv1: "files_inv (e1, fs1)" "bw_ok e1" and g1: "grows fs fs1" "same_index e e1" and
    up: "unat (active_id e1) \<le> unat (active_id e) + 1" and
    at: "record_at E (file_bytes (e1, fs1) (pos_file_id p)) (unat (pos_offset p)) (txn_rec en r)"
      "pos_file_id p \<in> known_ids e1" and
    log1: "\<forall>logs. log_files E (e, fs) logs \<longrightarrow>
       (\<exists>logs'. log_files E (e1, fs1) logs' \<and> log_entries E logs' = log_entries E logs @ [(p, txn_rec en r)])" .
  have "unat (active_id e1) + length items < 2 ^ 32" using up Cons.prems(4) by simp
  moreover have "\<forall>r \<in> set items. loggable (rec_key r) (rec_value r)" using Cons.prems(3) by simp
  ultimately obtain ps e2 fs2 where
    rest: "append_items E seq items (AList.update (rec_key r) p positions) (e1, fs1) =
      (Ok (fold (\<lambda>(r, p). AList.update (rec_key r) p) (zip items ps)
         (AList.update (rec_key r) p positions)), e2, fs2)" and
    ps: "length ps = length items" and inv2: "files_inv (e2, fs2)" "bw_ok e2" and
    g2: "grows fs1 fs2" "same_index e1 e2" and
    up2: "unat (active_id e2) \<le> unat (active_id e1) + length items" and
    at2: "\<forall>(r, p) \<in> set (zip items ps). item_at E (e2, fs2) r p" and
    log2: "\<forall>logs. log_files E (e1, fs1) logs \<longrightarrow> (\<exists>logs'. log_files E (e2, fs2) logs' \<and>
       log_entries E logs' = log_entries E logs @ zip ps (map (txn_rec en) items))"
    using Cons.IH [OF inv1, of "AList.update (rec_key r) p positions"] by blast
  have "item_at E (e1, fs1) r p"
    using at parse_key_with_seq [OF ok(1) key] by (auto simp: item_at_def txn_rec_def)
  then have "item_at E (e2, fs2) r p" by (rule item_at_grows [OF _ g2])
  moreover have "append_items E seq (r # items) positions (e, fs) =
      (Ok (fold (\<lambda>(r, p). AList.update (rec_key r) p) (zip (r # items) (p # ps)) positions), e2, fs2)"
    using ap rest by (simp add: key txn_rec_def)
  moreover have "\<exists>logs'. log_files E (e2, fs2) logs' \<and>
      log_entries E logs' = log_entries E logs @ zip (p # ps) (map (txn_rec en) (r # items))"
    if logs: "log_files E (e, fs) logs" for logs
  proof -
    obtain l1 where l1: "log_files E (e1, fs1) l1"
      "log_entries E l1 = log_entries E logs @ [(p, txn_rec en r)]" using log1 logs by blast
    then obtain l2 where "log_files E (e2, fs2) l2"
      "log_entries E l2 = log_entries E l1 @ zip ps (map (txn_rec en) items)" using log2 by blast
    then show ?thesis using l1(2) by auto
  qed
  ultimately show ?case
    using ps inv2 grows_trans [OF g1(1) g2(1)] same_index_trans [OF g1(2) g2(2)] up up2 at2
    by (intro exI [of _ "p # ps"] exI [of _ e2] exI [of _ fs2]) auto
qed

subsection \<open>Indexing a batch\<close>

text \<open>Each item finds the position of its own record.\<close>

lemma fold_positions:
  assumes "distinct (map rec_key items)" "length ps = length items" "(r, p) \<in> set (zip items ps)"
  shows "map_of (fold (\<lambda>(r, p). AList.update (rec_key r) p) (zip items ps) positions) (rec_key r) = Some p"
  using assms
proof (induction items arbitrary: ps positions)
  case (Cons a items)
  obtain q qs where ps: "ps = q # qs" using Cons.prems(2) by (cases ps) auto
  have keep: "map_of (fold (\<lambda>(r, p). AList.update (rec_key r) p) (zip xs ys) al) k = map_of al k"
    if "k \<notin> rec_key ` set xs" for xs ys al k
    using that
  proof (induction xs arbitrary: ys al)
    case (Cons x xs)
    then show ?case by (cases ys) auto
  qed simp
  show ?case
  proof (cases "(r, p) \<in> set (zip items qs)")
    case True
    then show ?thesis using Cons.IH [of qs] Cons.prems by (simp add: ps)
  next
    case False
    then have "r = a" "p = q" using Cons.prems(3) by (simp_all add: ps)
    then show ?thesis using Cons.prems(1) keep [of "rec_key a" items qs] by (simp add: ps)
  qed
qed simp

lemma engine_inv_reindexed:
  "engine_inv E (reindexed i n e, fs) = engine_inv E (e\<lparr>eng_index := i\<rparr>, fs)"
  "kv E (reindexed i n e, fs) = kv E (e\<lparr>eng_index := i\<rparr>, fs)"
proof -
  have e: "reindexed i n e = (e\<lparr>eng_index := i\<rparr>)\<lparr>reclaim_size := n\<rparr>" by (simp add: reindexed_def)
  have sel: "active_id (a\<lparr>reclaim_size := n\<rparr>) = active_id a" "known_ids (a\<lparr>reclaim_size := n\<rparr>) = known_ids a"
    "data_path (a\<lparr>reclaim_size := n\<rparr>) = data_path a" "bw_ok (a\<lparr>reclaim_size := n\<rparr>) = bw_ok a"
    "handle_ok (a\<lparr>reclaim_size := n\<rparr>) = handle_ok a" for a :: "('a, 'b) engine"
    by (auto simp: active_id_def known_ids_def data_path_def bw_ok_def handle_ok_def fun_eq_iff)
  show "engine_inv E (reindexed i n e, fs) = engine_inv E (e\<lparr>eng_index := i\<rparr>, fs)"
    unfolding e by (simp add: engine_inv_def entry_ok_def files_inv_def file_bytes_def sel)
  have "get_value_by_position E p (reindexed i n e, fs) = get_value_by_position E p (e\<lparr>eng_index := i\<rparr>, fs)"
    for p by (simp add: e get_value_by_position_def)
  then show "kv E (reindexed i n e, fs) = kv E (e\<lparr>eng_index := i\<rparr>, fs)"
    by (simp add: kv_def get_def e fun_eq_iff)
qed

lemma index_item_ok:
  assumes ok: "crates_ok E" "os_ok E" and inv: "engine_inv E (e, fs)"
    and at: "item_at E (e, fs) r p" and r: "rec_type r \<noteq> TxnFinished" "rec_key r \<noteq> []"
  shows "\<exists>i n. index_item E r p (e, fs) = (Ok (), reindexed i n e, fs) \<and>
    engine_inv E (reindexed i n e, fs) \<and> kv E (reindexed i n e, fs) = item_effect r (kv E (e, fs)) \<and>
    index_entries E i = apply_update (rec_key r, rec_type r, p) (index_entries E (eng_index e))"
proof -
  have files: "files_inv (e, fs)" "grows fs fs" "same_index e e" "bw_ok e"
    using inv by (simp_all add: engine_inv_def)
  obtain q j where q: "record_at E (file_bytes (e, fs) (pos_file_id p)) (unat (pos_offset p)) q"
    "pos_file_id p \<in> known_ids e" "rec_type q = rec_type r" "rec_value q = rec_value r"
    "parse_log_record_key E (rec_key q) = Ok (rec_key r, j)"
    using at by (auto simp: item_at_def)
  define n where "n = reclaim_size (add_reclaim (index_entries E (eng_index e) (rec_key r)) e)"
  have n: "add_reclaim (index_entries E (eng_index e) (rec_key r)) (e\<lparr>eng_index := i\<rparr>) =
      reindexed i n e" for i
    unfolding n_def by (cases e) (simp add: add_reclaim_def reindexed_def split: option.split)
  show ?thesis
  proof (cases "rec_type r")
    case Normal
    with q have "rec_type q = Normal" by simp
    from point_index [OF ok inv files q(1,2) this q(5) r(2)] obtain i where
      i: "index_put E (eng_index e) (rec_key r) p = (Ok (index_entries E (eng_index e) (rec_key r)), i)"
        "engine_inv E (e\<lparr>eng_index := i\<rparr>, fs)"
        "kv E (e\<lparr>eng_index := i\<rparr>, fs) = (kv E (e, fs))(rec_key r \<mapsto> rec_value q)"
        "index_entries E i = (index_entries E (eng_index e))(rec_key r \<mapsto> p)" by blast
    then have "index_item E r p (e, fs) = (Ok (), reindexed i n e, fs)"
      by (simp add: index_item_def Normal n)
    then show ?thesis
      using i(2-4) q(4) Normal by (auto simp: engine_inv_reindexed item_effect_def)
  next
    case Delete
    from unpoint_index [OF ok inv files, of "rec_key r"] obtain i where
      i: "index_delete E (eng_index e) (rec_key r) = (Ok (index_entries E (eng_index e) (rec_key r)), i)"
        "engine_inv E (e\<lparr>eng_index := i\<rparr>, fs)"
        "kv E (e\<lparr>eng_index := i\<rparr>, fs) = (kv E (e, fs))(rec_key r := None)"
        "index_entries E i = (index_entries E (eng_index e))(rec_key r := None)" by blast
    then have "index_item E r p (e, fs) = (Ok (), reindexed i n e, fs)"
      by (simp add: index_item_def Delete n)
    then show ?thesis
      using i(2-4) Delete by (auto simp: engine_inv_reindexed item_effect_def)
  qed (use r in simp)
qed

lemma index_batch_ok:
  assumes ok: "crates_ok E" "os_ok E"
    and inv: "engine_inv E (e, fs)" and ps: "length ps = length items"
    and items: "\<forall>(r, p) \<in> set (zip items ps). item_at E (e, fs) r p \<and> map_of positions (rec_key r) = Some p"
      "\<forall>r \<in> set items. rec_type r \<noteq> TxnFinished \<and> rec_key r \<noteq> []"
  shows "\<exists>i n. index_batch E positions items (e, fs) = (Ok (), reindexed i n e, fs) \<and>
    engine_inv E (reindexed i n e, fs) \<and>
    kv E (reindexed i n e, fs) = fold item_effect items (kv E (e, fs)) \<and>
    index_entries E i = fold apply_update (map2 (\<lambda>r p. (rec_key r, rec_type r, p)) items ps)
      (index_entries E (eng_index e))"
  using inv ps items
proof (induction items arbitrary: ps e)
  case Nil
  have "reindexed (eng_index e) (reclaim_size e) e = e" by (simp add: reindexed_def)
  then show ?case using Nil by (intro exI [of _ "eng_index e"] exI [of _ "reclaim_size e"]) simp
next
  case (Cons r items)
  obtain p qs where p: "ps = p # qs" using Cons.prems(2) by (cases ps) auto
  obtain i n where i: "index_item E r p (e, fs) = (Ok (), reindexed i n e, fs)"
    "engine_inv E (reindexed i n e, fs)" "kv E (reindexed i n e, fs) = item_effect r (kv E (e, fs))"
    "index_entries E i = apply_update (rec_key r, rec_type r, p) (index_entries E (eng_index e))"
    using index_item_ok [OF ok Cons.prems(1), of r p] Cons.prems(3,4) by (auto simp: p)
  have at: "item_at E (reindexed i n e, fs) r' p' = item_at E (e, fs) r' p'" for r' p'
    by (simp add: item_at_def reindexed_def file_bytes_def known_ids_def active_id_def data_path_def)
  have "\<forall>(r, p) \<in> set (zip items qs). item_at E (reindexed i n e, fs) r p \<and>
      map_of positions (rec_key r) = Some p" "length qs = length items"
    using Cons.prems(2,3) by (auto simp: p at)
  from Cons.IH [OF i(2) this(2,1)] Cons.prems(4) obtain j m where
    j: "index_batch E positions items (reindexed i n e, fs) = (Ok (), reindexed j m e, fs)"
      "engine_inv E (reindexed j m e, fs)"
      "kv E (reindexed j m e, fs) = fold item_effect items (kv E (reindexed i n e, fs))"
      "index_entries E j = fold apply_update (map2 (\<lambda>r p. (rec_key r, rec_type r, p)) items qs)
         (index_entries E i)" by auto
  have "map_of positions (rec_key r) = Some p" using Cons.prems(3) by (simp add: p)
  then have "index_batch E positions (r # items) (e, fs) = (Ok (), reindexed j m e, fs)"
    using i(1) j(1) by simp
  then show ?case using j(2-4) i(3,4) by (auto simp: p)
qed


subsection \<open>\<open>commit\<close>\<close>

lemma engine_inv_seq_no [simp]:
  "engine_inv E (e\<lparr>seq_no := n\<rparr>, fs) = engine_inv E (e, fs)"
  "kv E (e\<lparr>seq_no := n\<rparr>, fs) = kv E (e, fs)"
  "active_id (e\<lparr>seq_no := n\<rparr>) = active_id e"
  "log_files E (e\<lparr>seq_no := n\<rparr>, fs) logs = log_files E (e, fs) logs"
proof -
  have sel: "active_id (a\<lparr>seq_no := n\<rparr>) = active_id a" "known_ids (a\<lparr>seq_no := n\<rparr>) = known_ids a"
    "data_path (a\<lparr>seq_no := n\<rparr>) = data_path a" "bw_ok (a\<lparr>seq_no := n\<rparr>) = bw_ok a"
    "handle_ok (a\<lparr>seq_no := n\<rparr>) = handle_ok a" for a :: "('a, 'b) engine"
    by (auto simp: active_id_def known_ids_def data_path_def bw_ok_def handle_ok_def fun_eq_iff)
  show "engine_inv E (e\<lparr>seq_no := n\<rparr>, fs) = engine_inv E (e, fs)"
    by (simp add: engine_inv_def entry_ok_def files_inv_def file_bytes_def sel)
  have "get_value_by_position E p (e\<lparr>seq_no := n\<rparr>, fs) = get_value_by_position E p (e, fs)" for p
    by (simp add: get_value_by_position_def)
  then show "kv E (e\<lparr>seq_no := n\<rparr>, fs) = kv E (e, fs)"
    by (simp add: kv_def get_def fun_eq_iff)
  show "active_id (e\<lparr>seq_no := n\<rparr>) = active_id e" by (rule sel)
  show "log_files E (e\<lparr>seq_no := n\<rparr>, fs) logs = log_files E (e, fs) logs"
    by (simp add: log_files_def sel)
qed

text \<open>Syncing the active file changes no content of the log.\<close>

lemma log_files_same:
  assumes "log_files E (e, fs) logs" "appended e fs [] e fs'" "is_file fs (data_path e (active_id e))"
  shows "log_files E (e, fs') logs"
proof -
  have "file_data fs' g = file_data fs g" "is_file fs' g = is_file fs g" "is_dir fs' d = is_dir fs d"
    "fs_wf fs \<Longrightarrow> fs_wf fs'" for g d
    using appendedD(1-5) [OF assms(2)] assms(3) by auto
  then show ?thesis using assms(1) by (simp add: log_files_def disk_log_def)
qed

lemma optional_sync:
  assumes ok: "crates_ok E" "os_ok E" and inv: "engine_inv E (e, fs)"
  shows "\<exists>fs'. (if b then engine_sync E (e, fs) else (Ok (), e, fs)) = (Ok (), e, fs') \<and>
    engine_inv E (e, fs') \<and> kv E (e, fs') = kv E (e, fs) \<and> grows fs fs' \<and>
    (\<forall>logs. log_files E (e, fs) logs \<longrightarrow> log_files E (e, fs') logs)"
proof (cases b)
  case True
  have files: "files_inv (e, fs)" "bw_ok e" using inv by (simp_all add: engine_inv_def)
  then have "is_file fs (data_path e (active_id e))" by (simp add: files_inv_def)
  then show ?thesis
    using sync_active [OF ok(2) files(1)] engine_inv_frame [OF ok inv] files(2) log_files_same True
    by (auto simp: engine_sync_def)
qed (use inv in auto)

text \<open>
  The records of a transaction change nothing in a replay until its last record, which applies them
  all.
\<close>

lemma replay_txn_items:
  assumes C: "crates_ok C" "encode_length_delimiter C seq = Some en" "seq \<noteq> 0"
    and "\<forall>r \<in> set items. rec_type r \<noteq> TxnFinished" "length ps = length items"
  shows "\<exists>cur'. fold (replay_step C) (zip ps (map (txn_rec en) items)) (m, txns, cur) =
    (m, txns(seq := txns seq @ map2 (\<lambda>r p. (rec_key r, rec_type r, p)) items ps), cur') \<and>
    cur' \<le> max cur seq"
  using assms(4,5)
proof (induction items arbitrary: ps txns cur)
  case (Cons r items)
  obtain p qs where p: "ps = p # qs" using Cons.prems(2) by (cases ps) auto
  have "parse_log_record_key C (en @ rec_key r) = Ok (rec_key r, seq)"
    by (rule parse_key_with_seq [OF C(1)]) (simp add: log_record_key_with_seq_def C(2))
  then have step: "replay_step C (p, txn_rec en r) (m, txns, cur) =
      (m, txns(seq := txns seq @ [(rec_key r, rec_type r, p)]), max cur seq)"
    using C(3) Cons.prems(1) by (simp add: txn_rec_def NON_TRANSACTION_SEQ_NO_def)
  have "\<exists>cur'. fold (replay_step C) (zip qs (map (txn_rec en) items))
      (m, txns(seq := txns seq @ [(rec_key r, rec_type r, p)]), max cur seq) =
      (m, txns(seq := (txns seq @ [(rec_key r, rec_type r, p)]) @
         map2 (\<lambda>r p. (rec_key r, rec_type r, p)) items qs), cur') \<and> cur' \<le> max (max cur seq) seq"
    by (rule Cons.IH [of qs "txns(seq := txns seq @ [(rec_key r, rec_type r, p)])" "max cur seq",
        unfolded fun_upd_upd fun_upd_same])
      (use Cons.prems in \<open>simp_all add: p\<close>)
  then obtain cur' where "fold (replay_step C) (zip ps (map (txn_rec en) (r # items))) (m, txns, cur) =
      (m, txns(seq := (txns seq @ [(rec_key r, rec_type r, p)]) @
         map2 (\<lambda>r p. (rec_key r, rec_type r, p)) items qs), cur')" "cur' \<le> max cur seq"
    using step by (auto simp del: replay_step.simps simp add: p)
  then show ?case by (intro exI [of _ cur']) (auto simp: p fun_eq_iff)
qed auto

definition fin_rec :: "bytes \<Rightarrow> log_record" where
  "fin_rec en = LogRecord_new (en @ string_bytes TXN_FIN_KEY) [] TxnFinished"

lemma replay_txn:
  assumes C: "crates_ok C" "encode_length_delimiter C seq = Some en" "seq \<noteq> 0"
    and "\<forall>r \<in> set items. rec_type r \<noteq> TxnFinished" "length ps = length items"
    and "txns seq = []"
  shows "\<exists>cur'. fold (replay_step C) (zip ps (map (txn_rec en) items) @ [(q, fin_rec en)]) (m, txns, cur) =
    (fold apply_update (map2 (\<lambda>r p. (rec_key r, rec_type r, p)) items ps) m, txns, cur') \<and>
    cur' \<le> max cur seq"
proof -
  have fin: "parse_log_record_key C (en @ string_bytes TXN_FIN_KEY) = Ok (string_bytes TXN_FIN_KEY, seq)"
    by (rule parse_key_with_seq [OF C(1)]) (simp add: log_record_key_with_seq_def C(2))
  show ?thesis
    using replay_txn_items [OF assms(1-5), of m txns cur] fin C(3) assms(6)
    by (auto simp: fin_rec_def NON_TRANSACTION_SEQ_NO_def fun_eq_iff)
qed


text \<open>Everything a commit appends, up to the sync.\<close>

lemma append_txn_ok:
  assumes ok: "crates_ok E" "os_ok E" and en: "encode_length_delimiter E seq = Some en" "seq < 2 ^ 64"
    and inv: "engine_inv E (e, fs)" and items: "\<forall>r \<in> set items. loggable (rec_key r) (rec_value r)"
    and id: "unat (active_id e) + length items + 1 < 2 ^ 32"
  obtains ps e1 fs1 q e2 fs2 fs3 where
    "append_items E seq items [] (e, fs) =
       (Ok (fold (\<lambda>(r, p). AList.update (rec_key r) p) (zip items ps) []), e1, fs1)"
    "length ps = length items"
    "append_log_record E (fin_rec en) (e1, fs1) = (Ok q, e2, fs2)"
    "(if sync then engine_sync E (e2, fs2) else (Ok (), e2, fs2)) = (Ok (), e2, fs3)"
    "engine_inv E (e2, fs3)" "kv E (e2, fs3) = kv E (e, fs)" "same_index e e2"
    "unat (active_id e2) \<le> unat (active_id e) + length items + 1"
    "\<forall>(r, p) \<in> set (zip items ps). item_at E (e2, fs3) r p"
    "\<forall>logs. log_files E (e, fs) logs \<longrightarrow> (\<exists>logs'. log_files E (e2, fs3) logs' \<and>
       log_entries E logs' = log_entries E logs @ zip ps (map (txn_rec en) items) @ [(q, fin_rec en)])"
proof -
  have files: "files_inv (e, fs)" "bw_ok e" using inv by (simp_all add: engine_inv_def)
  have "unat (active_id e) + length items < 2 ^ 32" using id by simp
  from append_items_ok [OF ok en files items this, of "[]"] obtain ps e1 fs1 where
    a1: "append_items E seq items [] (e, fs) =
       (Ok (fold (\<lambda>(r, p). AList.update (rec_key r) p) (zip items ps) []), e1, fs1)"
      "length ps = length items" "files_inv (e1, fs1)" "bw_ok e1" "grows fs fs1" "same_index e e1"
      "unat (active_id e1) \<le> unat (active_id e) + length items"
      "\<forall>(r, p) \<in> set (zip items ps). item_at E (e1, fs1) r p"
      "\<forall>logs. log_files E (e, fs) logs \<longrightarrow> (\<exists>logs'. log_files E (e1, fs1) logs' \<and>
         log_entries E logs' = log_entries E logs @ zip ps (map (txn_rec en) items))"
    by blast
  have "log_record_key_with_seq E (string_bytes TXN_FIN_KEY) seq = Ok (en @ string_bytes TXN_FIN_KEY)"
    by (simp add: log_record_key_with_seq_def en(1))
  then have good: "good_record E (fin_rec en)"
    unfolding fin_rec_def
    by (rule good_with_seq [OF ok(1) _ en(2)]) (simp_all add: TXN_FIN_KEY_def string_bytes_def)
  have "unat (active_id e1) + 1 < 2 ^ 32" using a1(7) id by simp
  from append_logged [OF ok a1(3,4) good this] obtain q e2 fs2 where
    a2: "append_log_record E (fin_rec en) (e1, fs1) = (Ok q, e2, fs2)"
      "files_inv (e2, fs2)" "bw_ok e2" "grows fs1 fs2" "same_index e1 e2"
      "unat (active_id e2) \<le> unat (active_id e1) + 1" and
    log2: "\<forall>logs. log_files E (e1, fs1) logs \<longrightarrow> (\<exists>logs'. log_files E (e2, fs2) logs' \<and>
       log_entries E logs' = log_entries E logs @ [(q, fin_rec en)])" .
  note g2 = grows_trans [OF a1(5) a2(4)] and i2 = same_index_trans [OF a1(6) a2(5)]
  note inv2 = engine_inv_frame [OF ok inv a2(2) g2 i2 a2(3)]
  from optional_sync [OF ok inv2(1), of sync] obtain fs3 where
    a3: "(if sync then engine_sync E (e2, fs2) else (Ok (), e2, fs2)) = (Ok (), e2, fs3)"
      "engine_inv E (e2, fs3)" "kv E (e2, fs3) = kv E (e2, fs2)" "grows fs2 fs3"
      "\<forall>logs. log_files E (e2, fs2) logs \<longrightarrow> log_files E (e2, fs3) logs" by blast
  have "item_at E (e2, fs3) r p" if "(r, p) \<in> set (zip items ps)" for r p
    using that a1(8) item_at_grows [OF _ grows_trans [OF a2(4) a3(4)] a2(5)] by blast
  then have at: "\<forall>(r, p) \<in> set (zip items ps). item_at E (e2, fs3) r p" by blast
  have log: "\<forall>logs. log_files E (e, fs) logs \<longrightarrow> (\<exists>logs'. log_files E (e2, fs3) logs' \<and>
       log_entries E logs' = log_entries E logs @ zip ps (map (txn_rec en) items) @ [(q, fin_rec en)])"
    using a1(9) log2 a3(5) by (metis append.assoc)
  show ?thesis
    by (rule that [OF a1(1,2) a2(1) a3(1,2) _ i2 _ at log]) (use a3(3) inv2(2) a1(7) a2(6) in simp_all)
qed

lemma commit_ok:
  assumes ok: "crates_ok E" "os_ok E" "hash_ok E" and inv: "engine_inv E (e, fs)"
    and batch: "batch_ok b" "pending_write b \<noteq> []" "length (pending_write b) \<le> max_batch_num (wb_options b)"
    and seq: "seq_no e + 1 < 2 ^ 64" and id: "unat (active_id e) + length (pending_write b) + 1 < 2 ^ 32"
  shows "\<exists>e' fs'. commit E b (e, fs) = (Ok (), b\<lparr>pending_write := []\<rparr>, e', fs') \<and>
    engine_inv E (e', fs') \<and>
    kv E (e', fs') = (\<lambda>k. case batch_view b k of None \<Rightarrow> kv E (e, fs) k | Some v \<Rightarrow> v) \<and>
    seq_no e' = seq_no e + 1 \<and> eng_options e' = eng_options e \<and>
    unat (active_id e') \<le> unat (active_id e) + length (pending_write b) + 1 \<and>
    (\<forall>logs. log_state E (e, fs) logs \<longrightarrow> (\<exists>logs'. log_state E (e', fs') logs'))"
proof -
  let ?seq = "seq_no e" and ?items = "pending_items E b"
  let ?e = "e\<lparr>seq_no := Suc ?seq\<rparr>"
  note items = pending_items_props [OF batch(1) ok(3)]
  have rec: "rec_type r \<noteq> TxnFinished \<and> loggable (rec_key r) (rec_value r)" if "r \<in> set ?items" for r
    using that items(2) batch_okD [OF batch(1)] by blast
  have seq': "?seq < 2 ^ 64" using seq by simp
  obtain en where en: "encode_length_delimiter E ?seq = Some en"
    using encode_delimiter_total [OF ok(1) seq'] .
  have inv0: "engine_inv E (?e, fs)" using inv by simp
  have lg: "\<forall>r \<in> set ?items. loggable (rec_key r) (rec_value r)" using rec by blast
  have id0: "unat (active_id ?e) + length ?items + 1 < 2 ^ 32" using id items(3) by simp
  obtain ps e1 fs1 q e2 fs2 fs3 where
    a1: "append_items E ?seq ?items [] (?e, fs) =
       (Ok (fold (\<lambda>(r, p). AList.update (rec_key r) p) (zip ?items ps) []), e1, fs1)"
      "length ps = length ?items" and
    a2: "append_log_record E (fin_rec en) (e1, fs1) = (Ok q, e2, fs2)" and
    a3: "(if wb_sync_writes (wb_options b) then engine_sync E (e2, fs2) else (Ok (), e2, fs2)) =
       (Ok (), e2, fs3)"
      "engine_inv E (e2, fs3)" "kv E (e2, fs3) = kv E (?e, fs)" "same_index ?e e2"
      "unat (active_id e2) \<le> unat (active_id ?e) + length ?items + 1"
      "\<forall>(r, p) \<in> set (zip ?items ps). item_at E (e2, fs3) r p" and
    log: "\<forall>logs. log_files E (?e, fs) logs \<longrightarrow> (\<exists>logs'. log_files E (e2, fs3) logs' \<and>
       log_entries E logs' = log_entries E logs @ zip ps (map (txn_rec en) ?items) @ [(q, fin_rec en)])"
    by (rule append_txn_ok [OF ok(1,2) en seq' inv0 lg id0, of "wb_sync_writes (wb_options b)"])
  let ?pos = "fold (\<lambda>(r, p). AList.update (rec_key r) p) (zip ?items ps) []"
  have "\<forall>(r, p) \<in> set (zip ?items ps). item_at E (e2, fs3) r p \<and> map_of ?pos (rec_key r) = Some p"
    using a3(6) fold_positions [OF items(1) a1(2)] by blast
  moreover have "\<forall>r \<in> set ?items. rec_type r \<noteq> TxnFinished \<and> rec_key r \<noteq> []"
    using rec by (auto simp: loggable_def)
  ultimately obtain i n where a4: "index_batch E ?pos ?items (e2, fs3) = (Ok (), reindexed i n e2, fs3)"
    "engine_inv E (reindexed i n e2, fs3)"
    "kv E (reindexed i n e2, fs3) = fold item_effect ?items (kv E (e2, fs3))"
    "index_entries E i = fold apply_update (map2 (\<lambda>r p. (rec_key r, rec_type r, p)) ?items ps)
       (index_entries E (eng_index e2))"
    using index_batch_ok [OF ok(1,2) a3(2) a1(2)] by blast
  let ?e' = "reindexed i n e2"
  have e2: "seq_no e2 = ?seq + 1" "eng_options e2 = eng_options e" "eng_index e2 = eng_index e"
    using a3(4) by (simp_all add: same_index_def)
  have sel: "seq_no ?e' = seq_no e2" "eng_options ?e' = eng_options e2" "eng_index ?e' = i"
    "active_id ?e' = active_id e2" "known_ids ?e' = known_ids e2"
    by (simp_all add: reindexed_def active_id_def known_ids_def)
  have "commit_writes E ?seq b (?e, fs) = (Ok (), ?e', fs3)"
    using a1(1) a2 a3(1) a4(1) by (simp add: commit_writes_def log_record_key_with_seq_def en fin_rec_def)
  then have "commit E b (e, fs) = (Ok (), b\<lparr>pending_write := []\<rparr>, ?e', fs3)"
    using batch(2,3) seq by (simp add: commit_def fetch_add_def Let_def)
  moreover have "kv E (?e', fs3) = (\<lambda>k. case batch_view b k of None \<Rightarrow> kv E (e, fs) k | Some v \<Rightarrow> v)"
    unfolding a4(3) a3(3) by (simp add: fold_pending_items [OF batch(1) ok(3)])
  moreover have "\<exists>logs'. log_state E (?e', fs3) logs'" if logs: "log_state E (e, fs) logs" for logs
  proof -
    obtain m txns cur where rep: "replay E (log_entries E logs) = (m, txns, cur)"
      by (cases "replay E (log_entries E logs)")
    have st: "m = index_entries E (eng_index e)" "cur < ?seq" "\<And>n. ?seq \<le> n \<Longrightarrow> txns n = []"
      and lf: "log_files E (?e, fs) logs"
      using logs by (simp_all add: log_state_def replays_to_def rep)
    obtain logs' where l': "log_files E (e2, fs3) logs'"
      "log_entries E logs' = log_entries E logs @ zip ps (map (txn_rec en) ?items) @ [(q, fin_rec en)]"
      using log lf by blast
    obtain cur' where "fold (replay_step E) (zip ps (map (txn_rec en) ?items) @ [(q, fin_rec en)])
        (m, txns, cur) =
      (fold apply_update (map2 (\<lambda>r p. (rec_key r, rec_type r, p)) ?items ps) m, txns, cur')"
      "cur' \<le> max cur ?seq"
      using replay_txn [OF ok(1) en _ _ a1(2), of txns q m cur] rec st by auto
    then have "replay E (log_entries E logs') = (index_entries E i, txns, cur')"
      unfolding l'(2) replay_append rep a4(4) e2(3) st(1) by simp
    then have "replays_to E ?e' logs'"
      using st(2,3) \<open>cur' \<le> max cur ?seq\<close> by (simp add: replays_to_def sel e2)
    moreover have "log_files E (?e', fs3) logs'"
      using l'(1) by (simp add: log_files_def sel)
    ultimately show ?thesis by (auto simp: log_state_def)
  qed
  ultimately show ?thesis
    using a4(2) a3(5) items(3) by (intro exI [of _ ?e'] exI [of _ fs3]) (simp add: sel e2)
qed

subsection \<open>Filling a batch\<close>

lemma set_delete_subset: "set (AList.delete k al) \<subseteq> set al"
  by (auto simp: AList.delete_eq)

lemma batch_put_ok:
  assumes "batch_ok b" "loggable k v"
  shows "\<exists>b'. batch_put k v b = (Ok (), b') \<and> batch_ok b' \<and> wb_options b' = wb_options b \<and>
    batch_view b' = (batch_view b)(k := Some (Some v))"
  using assms
  by (auto simp: batch_put_def loggable_def batch_ok_def set_AList_update distinct_update
      batch_view_def fun_eq_iff)

text \<open>
  \<open>delete\<close> makes the batch delete the key, except that a key the engine does not have is only taken
  out of the batch.  Either way the key is gone after the commit.
\<close>

lemma batch_delete_ok:
  assumes ok: "crates_ok E" "os_ok E" and inv: "engine_inv E st"
    and b: "batch_ok b" and k: "loggable k []"
  shows "\<exists>b' v. batch_delete E st k b = (Ok (), b') \<and> batch_ok b' \<and> wb_options b' = wb_options b \<and>
    batch_view b' = (batch_view b)(k := v) \<and>
    v = (if kv E st k = None \<and> batch_view b k \<noteq> None then None else Some None)"
proof -
  have ne: "k \<noteq> []" using k by (simp add: loggable_def)
  let ?t = "b\<lparr>pending_write := AList.update k (LogRecord_new k [] Delete) (pending_write b)\<rparr>"
  have t: "batch_ok ?t" "batch_view ?t = (batch_view b)(k := Some None)"
    using b k by (auto simp: batch_ok_def set_AList_update distinct_update batch_view_def fun_eq_iff)
  let ?d = "b\<lparr>pending_write := AList.delete k (pending_write b)\<rparr>"
  have d: "batch_ok ?d" "batch_view ?d = (batch_view b)(k := None)"
    using b set_delete_subset [of k "pending_write b"]
    by (auto simp: batch_ok_def distinct_delete batch_view_def fun_eq_iff delete_conv')
  have "map_of (pending_write b) k \<noteq> None \<longleftrightarrow> batch_view b k \<noteq> None" by (simp add: batch_view_def)
  then show ?thesis
    using t d ne get_cases [OF ok engine_inv_reads [OF inv], of k]
    by (auto simp: batch_delete_def Let_def split: option.split)
qed

lemma new_batch_ok: "batch_ok \<lparr>pending_write = [], wb_options = opts\<rparr>"
  by (simp add: batch_ok_def)

end
