(* ===== verification/Reopen.thy ===== *)
theory Reopen
  imports Commit
begin

text \<open>
  Opening a new directory, and opening a directory of one data file: the engine that \<open>open\<close>
  returns then satisfies the whole engine invariant, so it can be written to.  And: \<open>open\<close> always
  returns, whatever the files hold.
\<close>

subsection \<open>A new directory\<close>

definition fresh_fs :: "path \<Rightarrow> fs \<Rightarrow> fs" where
  "fresh_fs dir fs = put_file (locked_fs dir fs) (get_data_file_name dir 0) new_inode"

lemma fresh_fs_frame:
  assumes "is_dir fs dir"
  shows "file_data (fresh_fs dir fs) g =
      (if g = (dir, FILE_LOCK_NAME) \<or> g = get_data_file_name dir 0 then [] else file_data fs g)"
    and "is_file (fresh_fs dir fs) g \<longleftrightarrow>
      g = (dir, FILE_LOCK_NAME) \<or> g = get_data_file_name dir 0 \<or> is_file fs g"
    and "is_dir (fresh_fs dir fs) d = is_dir fs d"
    and "fs_wf fs \<Longrightarrow> fs_wf (fresh_fs dir fs)"
proof -
  have d: "is_dir (locked_fs dir fs) (fst (get_data_file_name dir 0))"
    using assms by (simp add: locked_fs_frame get_data_file_name_def)
  show "file_data (fresh_fs dir fs) g =
      (if g = (dir, FILE_LOCK_NAME) \<or> g = get_data_file_name dir 0 then [] else file_data fs g)"
    using d by (cases g) (auto simp: fresh_fs_def fs_simps locked_fs_frame new_inode_def)
  show "is_file (fresh_fs dir fs) g \<longleftrightarrow>
      g = (dir, FILE_LOCK_NAME) \<or> g = get_data_file_name dir 0 \<or> is_file fs g"
    using d assms by (cases g) (auto simp: fresh_fs_def fs_simps locked_fs_frame)
  show "is_dir (fresh_fs dir fs) d = is_dir fs d" for d
    by (simp add: fresh_fs_def fs_simps locked_fs_frame)
  show "fs_wf fs \<Longrightarrow> fs_wf (fresh_fs dir fs)"
    by (simp add: fresh_fs_def fs_wf_put_file locked_fs_frame)
qed

text \<open>The engine value on a new directory.\<close>

definition fresh_file :: "path \<Rightarrow> data_file" where
  "fresh_file dir = \<lparr>df_file_id = 0, df_write_off = 0, df_io = FileIO (get_data_file_name dir 0)\<rparr>"

definition fresh_engine :: "options \<Rightarrow> bool \<Rightarrow> ('s, 'b) index \<Rightarrow> ('s, 'b) engine" where
  "fresh_engine opts initial i =
     new_engine opts initial (dir_path opts, FILE_LOCK_NAME) (fresh_file (dir_path opts)) [] i []"

lemma no_data_files:
  assumes "data_log E dir fs []"
  shows "\<not> is_file fs (get_data_file_name dir fid)"
  using assms ends_with_data_file_name unfolding data_log_def get_data_file_name_def by fastforce

lemma open_files_fresh:
  assumes "os_ok E" and data: "data_log E (dir_path opts) fs []" "no_merge (dir_path opts) fs"
    and i: "new_indexer E (index_type opts) (dir_path opts) = Ok i"
  shows "\<exists>initial'. (initial \<longrightarrow> initial') \<and>
    open_files E opts initial (dir_path opts, FILE_LOCK_NAME) (locked_fs (dir_path opts) fs) =
    (Ok (fresh_engine opts initial' i), fresh_fs (dir_path opts) fs)"
proof -
  let ?dir = "dir_path opts" and ?fs = "locked_fs (dir_path opts) fs"
  note data' = data_log_locked [OF data(1)]
  have dir: "is_dir ?fs ?dir" "fs_wf ?fs" using data' by (simp_all add: data_log_def)
  obtain names where names: "read_dir E ?fs ?dir = Some names" "distinct names"
    "\<And>n. n \<in> set names \<longleftrightarrow> is_file ?fs (?dir, n)"
    using read_dir_names [OF assms(1) dir] by blast
  obtain fids where "collect_file_ids names = Ok fids" "sort fids = []"
    using data_sorted_ids [OF data' names(2,3)] by auto
  then have "length fids = 0" by (metis length_sort list.size(3))
  with \<open>collect_file_ids names = Ok fids\<close> have fids: "collect_file_ids names = Ok []" by simp
  have merge: "load_merge_files E ?dir ?fs = (Ok (), ?fs)"
    by (rule load_merge_files_none) (simp add: data(2))
  have pop: "pop_older_files [] [] = ([], [])" by (subst pop_older_files.simps) simp
  have "open_files E opts initial (?dir, FILE_LOCK_NAME) ?fs =
      (Ok (fresh_engine opts (initial \<or> length names = 0) i), fresh_fs ?dir fs)"
    using names(1) fids i open_standard [OF assms(1) dir(1), of 0] no_data_files [OF data', of 0]
    by (simp add: open_files_def merge load_data_files_def pop
        fresh_engine_def fresh_fs_def fresh_file_def INITIAL_FILE_ID_def)
      (simp only: Let_def)
  then show ?thesis by (intro exI [of _ "initial \<or> length names = 0"]) simp
qed

lemma fresh_engine_sel [simp]:
  "eng_options (fresh_engine opts b i) = opts" "active_file (fresh_engine opts b i) = fresh_file (dir_path opts)"
  "older_files (fresh_engine opts b i) = []" "eng_index (fresh_engine opts b i) = i"
  "seq_no (fresh_engine opts b i) = 1" "bytes_write (fresh_engine opts b i) = 0"
  "file_ids (fresh_engine opts b i) = []" "active_id (fresh_engine opts b i) = 0"
  "lock_file (fresh_engine opts b i) = (dir_path opts, FILE_LOCK_NAME)"
  "is_initial (fresh_engine opts b i) = b"
  "data_path (fresh_engine opts b i) = get_data_file_name (dir_path opts)"
  "known_ids (fresh_engine opts b i) = {0}" "reclaim_size (fresh_engine opts b i) = 0"
  by (simp_all add: fresh_engine_def fresh_file_def data_path_def fun_eq_iff known_ids_def)

text \<open>With no data file to replay, only the hint file matters.\<close>

lemma load_engine_fresh:
  assumes "os_ok E" and dir: "is_dir fs (dir_path opts)" and "index_type opts \<noteq> BPlusTree"
    and hint: "load_index_from_hint_file E (fresh_engine opts b i, fresh_fs (dir_path opts) fs) =
      Some (Ok (), fresh_engine opts b i, fresh_fs (dir_path opts) fs)"
  shows "load_engine E (fresh_engine opts b i, fresh_fs (dir_path opts) fs) =
    Some (Ok (), fresh_engine opts b i, fresh_fs (dir_path opts) fs)"
proof -
  let ?dir = "dir_path opts" and ?fs = "fresh_fs (dir_path opts) fs" and ?e = "fresh_engine opts b i"
  have data: "load_index_from_data_files E (?e, ?fs) = Some (Ok 0, ?e, ?fs)"
    by (simp add: load_index_from_data_files_def NON_TRANSACTION_SEQ_NO_def)
  have f: "is_file ?fs (data_path ?e (active_id ?e))" by (simp add: fresh_fs_frame [OF dir])
  obtain dfs where "reset_io_type E (?e, ?fs) = (Ok (), ?e\<lparr>active_file := (active_file ?e)
      \<lparr>df_io := FileIO (data_path ?e (active_id ?e))\<rparr>, older_files := dfs\<rparr>, ?fs)"
    "map fst dfs = map fst (older_files ?e)"
    using reset_io_type_ok [OF assms(1) f] by auto
  moreover have "?e\<lparr>active_file := (fresh_file ?dir)\<lparr>df_io := FileIO (get_data_file_name ?dir 0)\<rparr>,
      older_files := []\<rparr> = ?e"
    by (simp add: fresh_engine_def new_engine_def fresh_file_def)
  ultimately have "reset_io_type E (?e, ?fs) = (Ok (), ?e, ?fs)" by simp
  then show ?thesis by (simp add: load_engine_def hint data assms(3))
qed

lemma no_hint_fresh:
  assumes disk: "disk_log E (dir_path opts) fs []"
  shows "load_index_from_hint_file E (fresh_engine opts b i, fresh_fs (dir_path opts) fs) =
      Some (Ok (), fresh_engine opts b i, fresh_fs (dir_path opts) fs)"
proof -
  have dir: "is_dir fs (dir_path opts)" using disk by (simp add: disk_log_def)
  have "\<not> is_file (fresh_fs (dir_path opts) fs) (dir_path opts, HINT_FILE_NAME)"
    using disk data_file_name_neq [OF not_data_names(3), of 0] not_data_names(5) [THEN not_sym]
    by (auto simp: fresh_fs_frame [OF dir] get_data_file_name_def disk_log_def)
  then show ?thesis by (simp add: load_index_from_hint_file_def)
qed

lemma fresh_engine_files:
  assumes data: "data_log E (dir_path opts) fs []" and opts: "unat (data_file_size opts) \<le> 2 ^ 63"
  shows "files_inv (fresh_engine opts b i, fresh_fs (dir_path opts) fs)"
    and "data_files E (fresh_engine opts b i, fresh_fs (dir_path opts) fs) [(0, [])]"
proof -
  let ?dir = "dir_path opts" and ?fs = "fresh_fs (dir_path opts) fs" and ?e = "fresh_engine opts b i"
  have dir: "is_dir fs ?dir" using data by (simp add: data_log_def)
  note fr = fresh_fs_frame [OF dir]
  have old: "\<not> is_file fs (get_data_file_name ?dir fid)" for fid by (rule no_data_files [OF data])
  have lock: "get_data_file_name ?dir fid \<noteq> (?dir, FILE_LOCK_NAME)" for fid
    using data_file_name_neq [OF not_data_names(1)] by (simp add: get_data_file_name_def)
  have inj: "get_data_file_name ?dir a = get_data_file_name ?dir b \<longleftrightarrow> a = b" for a b
    by (simp add: get_data_file_name_def)
  have bytes: "file_bytes (?e, ?fs) fid = []" for fid
    using old file_data_new [OF old] by (simp add: file_bytes_def fr)
  show "files_inv (?e, ?fs)"
    using opts by (simp add: files_inv_def handle_ok_def bytes fr old lock inj)
      (auto simp: fresh_file_def inj)
  have names: "(?dir, n) = get_data_file_name ?dir 0 \<longleftrightarrow> n = data_file_name 0" for n
    by (simp add: get_data_file_name_def)
  have "data_log E ?dir ?fs [(0, [])]"
    using data bytes [of 0] by (auto simp: data_log_def fr names file_bytes_def)
  then show "data_files E (?e, ?fs) [(0, [])]" by (simp add: data_files_def)
qed

lemma fresh_engine_state:
  assumes ok: "crates_ok E" "os_ok E" and disk: "disk_log E (dir_path opts) fs []"
    and i: "index_inv E i" "index_entries E i = Map.empty"
    and opts: "unat (data_file_size opts) \<le> 2 ^ 63" "bytes_per_sync opts \<le> 2 ^ 63"
  shows "engine_inv E (fresh_engine opts b i, fresh_fs (dir_path opts) fs)"
    and "kv E (fresh_engine opts b i, fresh_fs (dir_path opts) fs) = Map.empty"
    and "log_state E (fresh_engine opts b i, fresh_fs (dir_path opts) fs) [(0, [])]"
proof -
  let ?dir = "dir_path opts" and ?fs = "fresh_fs (dir_path opts) fs" and ?e = "fresh_engine opts b i"
  have dir: "is_dir fs ?dir" using disk by (simp add: disk_log_def)
  note fr = fresh_fs_frame [OF dir]
  note files = fresh_engine_files [OF disk_log_data [OF disk] opts(1), of b i]
  show inv: "engine_inv E (?e, ?fs)"
    using i opts(2) files(1) by (simp add: engine_inv_def bw_ok_def)
  have "kv E (?e, ?fs) k = None" for k
    using kv_indexed_iff [OF ok engine_inv_reads [OF inv], of k] i(2) by simp
  then show "kv E (?e, ?fs) = Map.empty" by (simp add: fun_eq_iff)
  have "HINT_FILE_NAME \<noteq> data_file_name 0" "MERGE_FINISHED_FILE_NAME \<noteq> data_file_name 0"
    using data_file_name_neq [of HINT_FILE_NAME 0] data_file_name_neq [of MERGE_FINISHED_FILE_NAME 0] by auto
  then have "unmerged (?e, ?fs)"
    using disk not_data_names(5,6) [THEN not_sym]
    by (auto simp: unmerged_def disk_log_iff no_merge_def fr get_data_file_name_def)
  then show "log_state E (?e, ?fs) [(0, [])]"
    using i(2) files(2) by (simp add: log_state_def log_files_iff replays_to_def replay_def)
qed

lemma engine_open_fresh:
  assumes ok: "crates_ok E" "os_ok E" "skipmap_ok (skipmap E)"
    and opts: "check_options opts = Ok ()" "index_type opts \<noteq> BPlusTree"
      "unat (data_file_size opts) \<le> 2 ^ 63" "bytes_per_sync opts \<le> 2 ^ 63"
    and disk: "disk_log E (dir_path opts) fs []"
    and free: "(dir_path opts, FILE_LOCK_NAME) \<notin> set (fs_locks fs)"
  obtains e fs' where "engine_open E opts fs = Some (Ok e, fs')" "engine_inv E (e, fs')"
    "kv E (e, fs') = Map.empty" "log_state E (e, fs') [(0, [])]" "eng_options e = opts" "seq_no e = 1"
    "active_id e = 0"
proof -
  let ?dir = "dir_path opts"
  have dir: "is_dir fs ?dir" using disk by (simp add: disk_log_def)
  obtain i where i: "new_indexer E (index_type opts) ?dir = Ok i" "index_inv E i"
    "index_entries E i = Map.empty" using new_indexer_ok [OF ok(3) opts(2)] by blast
  obtain b where b: "open_files E opts False (?dir, FILE_LOCK_NAME) (locked_fs ?dir fs) =
      (Ok (fresh_engine opts b i), fresh_fs ?dir fs)"
    using open_files_fresh [OF ok(2) disk_log_data [OF disk] disk_log_no_merge [OF disk] i(1)] by blast
  have "engine_open E opts fs = Some (Ok (fresh_engine opts b i), fresh_fs ?dir fs)"
    using opts(1) dir take_lock_ok [OF ok(2) dir free] b load_engine_fresh [OF ok(2) dir opts(2) no_hint_fresh [OF disk]]
    by (simp add: engine_open_def open_locked_def)
  then show ?thesis
    using that fresh_engine_state [OF ok(1,2) disk i(2,3) opts(3,4)] by simp
qed


text \<open>A directory that is not there yet is created, and the engine is marked as initial.\<close>

lemma create_dir_disk_log:
  assumes "os_ok E" "\<not> is_dir fs dir" "fs_wf fs" "get_merge_path dir = Ok mp" "\<not> is_dir fs mp"
    and "\<not> create_dir_fails E fs dir"
  obtains fs' where "create_dir_all E dir fs = (True, fs')" "disk_log E dir fs' []" "fs_locks fs' = fs_locks fs"
    "\<And>d. is_dir fs' d \<longleftrightarrow> is_dir fs d \<or> starts_with dir d"
proof -
  define fs' where "fs' = snd (create_dir_all E dir fs)"
  have fs': "fs_dirs fs' p = (if starts_with dir p \<and> fs_dirs fs p = None then Some [] else fs_dirs fs p)"
    "fs_locks fs' = fs_locks fs" for p
    using assms(6) by (simp_all add: fs'_def create_dir_all_def)
  have "fs_dirs fs' dir = Some []"
    using assms(2) by (simp add: fs' is_dir_def starts_with_def)
  then have "is_dir fs' dir" "\<not> is_file fs' (dir, n)" for n
    by (simp_all add: is_dir_def is_file_def lookup_file_def)
  moreover have "\<not> starts_with dir mp"
    using assms(4)
    by (cases dir rule: rev_cases)
      (auto simp: get_merge_path_def path_file_name_def path_parent_def starts_with_def
        split: option.splits if_splits)
  then have "\<not> is_dir fs' mp" using assms(5) by (simp add: is_dir_def fs')
  moreover have "fs_wf fs'" using assms(3) by (simp add: fs_wf_def fs')
  ultimately have "disk_log E dir fs' []"
    using assms(4) by (simp add: disk_log_def)
  moreover have "is_dir fs' d \<longleftrightarrow> is_dir fs d \<or> starts_with dir d" for d by (auto simp: is_dir_def fs')
  ultimately show ?thesis using that [of fs'] assms(6) fs'(2) by (simp add: fs'_def create_dir_all_def)
qed


lemma engine_open_new:
  assumes ok: "crates_ok E" "os_ok E" "skipmap_ok (skipmap E)"
    and opts: "check_options opts = Ok ()" "index_type opts \<noteq> BPlusTree"
      "unat (data_file_size opts) \<le> 2 ^ 63" "bytes_per_sync opts \<le> 2 ^ 63"
    and new: "\<not> is_dir fs (dir_path opts)" "fs_wf fs" "get_merge_path (dir_path opts) = Ok mp" "\<not> is_dir fs mp"
    and free: "(dir_path opts, FILE_LOCK_NAME) \<notin> set (fs_locks fs)"
  obtains e fs' where "engine_open E opts fs = Some (Ok e, fs')" "engine_inv E (e, fs')"
    "kv E (e, fs') = Map.empty" "log_state E (e, fs') [(0, [])]" "eng_options e = opts" "seq_no e = 1"
    "active_id e = 0" "is_initial e" "reclaim_size e = 0"
    "fs_locks fs' = (dir_path opts, FILE_LOCK_NAME) # fs_locks fs"
    "\<And>d. is_dir fs' d \<longleftrightarrow> is_dir fs d \<or> starts_with (dir_path opts) d"
proof -
  let ?dir = "dir_path opts"
  obtain fs1 where fs1: "create_dir_all E ?dir fs = (True, fs1)" and
    disk: "disk_log E ?dir fs1 []" and locks: "fs_locks fs1 = fs_locks fs" and
    dirs: "\<And>d. is_dir fs1 d \<longleftrightarrow> is_dir fs d \<or> starts_with ?dir d"
    by (rule create_dir_disk_log [OF ok(2) new]) (use ok(2) in \<open>simp_all only: os_ok_def simp_thms\<close>)
  have dir: "is_dir fs1 ?dir" using disk by (simp add: disk_log_def)
  obtain i where i: "new_indexer E (index_type opts) ?dir = Ok i" "index_inv E i"
    "index_entries E i = Map.empty" using new_indexer_ok [OF ok(3) opts(2)] by blast
  obtain b where b: "open_files E opts True (?dir, FILE_LOCK_NAME) (locked_fs ?dir fs1) =
      (Ok (fresh_engine opts b i), fresh_fs ?dir fs1)" "b"
    using open_files_fresh [OF ok(2) disk_log_data [OF disk] disk_log_no_merge [OF disk] i(1), of True] by blast
  have "engine_open E opts fs = Some (Ok (fresh_engine opts b i), fresh_fs ?dir fs1)"
    using opts(1) new(1) fs1 take_lock_ok [OF ok(2) dir] free locks b
      load_engine_fresh [OF ok(2) dir opts(2) no_hint_fresh [OF disk]]
    by (simp add: engine_open_def open_locked_def)
  moreover have "fs_locks (fresh_fs ?dir fs1) = (?dir, FILE_LOCK_NAME) # fs_locks fs"
    by (simp add: fresh_fs_def locked_fs_def locks)
  ultimately show ?thesis
    using that fresh_engine_state [OF ok(1,2) disk i(2,3) opts(3,4)] b(2) dirs
    by (simp add: fresh_fs_frame(3) [OF dir])
qed

subsection \<open>A directory with one data file\<close>

text \<open>A replay has open transactions only up to the highest number it has seen.\<close>

lemma replay_open_txns:
  "case replay C xs of (m, txns, cur) \<Rightarrow> \<forall>n. cur < n \<longrightarrow> txns n = []"
proof (induction xs rule: rev_induct)
  case Nil
  show ?case by (simp add: replay_def)
next
  case (snoc x xs)
  obtain q r where x: "x = (q, r)" by (cases x)
  obtain m txns cur where R: "replay C xs = (m, txns, cur)" by (cases "replay C xs")
  have closed: "txns n = []" if "cur < n" for n using snoc.IH that by (simp add: R)
  show ?case
  proof (cases "parse_log_record_key C (rec_key r)")
    case (Ok kn)
    then show ?thesis
      using closed by (cases kn) (auto simp: replay_append R x)
  qed (use closed in \<open>auto simp: replay_append R x\<close>)
qed

lemma opened_engine_inv:
  assumes C: "crates_ok E" and disk: "disk_log E (dir_path opts) fs [(fid, rs)]"
    and e: "opened_engine E opts [(fid, rs)] cur e" and reads: "reads_inv E (e, fs)"
    and opts: "unat (data_file_size opts) \<le> 2 ^ 63" "bytes_per_sync opts \<le> 2 ^ 63"
    and replay: "replay E (log_entries E [(fid, rs)]) = (m, txns, cur)" "index_entries E (eng_index e) = m"
  shows "engine_inv E (e, fs)" and "log_state E (e, fs) [(fid, rs)]"
proof -
  let ?dir = "dir_path opts"
  have e': "eng_options e = opts" "active_id e = fid" "older_files e = []" "bytes_write e = 0"
    "df_write_off (active_file e) = of_nat (log_length E rs)" "handle_ok e fid (active_file e)"
    "seq_no e = (if 0 < cur then cur + 1 else 1)" "known_ids e = {fid}"
    using e by (auto simp: opened_engine_def)
  have path: "data_path e = get_data_file_name ?dir" by (simp add: data_path_def fun_eq_iff e')
  note f = disk_log_file [OF disk, of fid rs]
  have wf: "list_all wf_record rs" by (rule f(4)) simp
  have len: "length (file_data fs (get_data_file_name ?dir fid)) = log_length E rs" "log_length E rs \<le> 2 ^ 63"
    using f length_log_bytes [OF C wf] by simp_all
  have "\<not> is_file fs (get_data_file_name ?dir i)" if "fid < i" for i
  proof
    assume "is_file fs (get_data_file_name ?dir i)"
    then have "data_file_name i \<in> data_file_name ` fst ` set [(fid, rs)]"
      using disk ends_with_data_file_name unfolding disk_log_def get_data_file_name_def by blast
    then show False using that by simp
  qed
  moreover have "unat (of_nat (log_length E rs) :: u64) = log_length E rs"
    using len(2) by (simp add: unat_of_nat)
  ultimately have "files_inv (e, fs)"
    using f(1) len disk_log_bytes [OF C disk] opts(1) e'
    by (simp add: files_inv_def file_bytes_def path)
  then show "engine_inv E (e, fs)"
    using reads opts(2) e' by (simp add: engine_inv_iff bw_ok_def)
  have "\<forall>n. cur < n \<longrightarrow> txns n = []"
    using replay_open_txns [of E "log_entries E [(fid, rs)]"] unfolding replay(1) by simp
  moreover have "replay E (layout E fid 0 rs) = (m, txns, cur)" using replay(1) by simp
  ultimately have "replays_to E e [(fid, rs)]"
    using replay(2) e'(7) by (auto simp: replays_to_def)
  then show "log_state E (e, fs) [(fid, rs)]"
    using disk e' by (simp add: log_state_def log_files_def)
qed

text \<open>
  Closing the process and opening the directory of a database of one data file gives an engine
  that can be written to again, with the same keys.
\<close>

lemma reopen_one_file:
  assumes ok: "crates_ok E" "os_ok E" "skipmap_ok (skipmap E)"
    and opts: "check_options opts = Ok ()" "index_type opts \<noteq> BPlusTree"
      "dir_path opts = dir_path (eng_options e)"
      "unat (data_file_size opts) \<le> 2 ^ 63" "bytes_per_sync opts \<le> 2 ^ 63"
    and reads: "reads_inv E (e, fs)" and log: "log_state E (e, fs) [(fid, rs)]"
    and seq: "seq_no e < 2 ^ 64" and free: "(dir_path opts, FILE_LOCK_NAME) \<notin> set (fs_locks fs)"
  obtains e' fs' where "engine_open E opts fs = Some (Ok e', fs')" "engine_inv E (e', fs')"
    "kv E (e', fs') = kv E (e, fs)" "log_state E (e', fs') [(fid, rs)]"
    "seq_no e' \<le> seq_no e" "active_id e' = fid" "eng_options e' = opts"
proof -
  obtain m txns cur where rep: "replay E (log_entries E [(fid, rs)]) = (m, txns, cur)"
    by (cases "replay E (log_entries E [(fid, rs)])")
  have m: "m = index_entries E (eng_index e)" and cur: "cur < seq_no e" "cur + 1 < 2 ^ 64"
    using log rep seq by (simp_all add: log_state_def replays_to_def)
  have disk: "disk_log E (dir_path opts) fs [(fid, rs)]"
    using log by (simp add: log_state_def log_files_def opts(3))
  have fit: "mmap_fit E opts [(fid, rs)]" by (simp add: mmap_fit_def)
  let ?fs = "locked_fs (dir_path opts) fs"
  have "[(fid, rs)] \<noteq> []" by simp
  from engine_open_log [OF ok opts(1,2) disk this fit free rep cur(2)] obtain e' where
    e': "engine_open E opts fs = Some (Ok e', ?fs)" "opened_engine E opts [(fid, rs)] cur e'"
      "reads_inv E (e', ?fs)" "index_entries E (eng_index e') = m" by blast
  note inv = opened_engine_inv [OF ok(1) disk_log_locked [OF disk] e'(2,3) opts(4,5) rep e'(4)]
  have "get E k (e', ?fs) = get E k (e, fs)" for k
  proof (rule get_log_frame [OF ok(1,2) reads e'(3)])
    have "data_path e fid = (dir_path opts, data_file_name fid)" for fid
      by (simp add: data_path_def get_data_file_name_def opts(3))
    then show "\<exists>tail. file_data ?fs (data_path e fid) = file_data fs (data_path e fid) @ tail" for fid
      by (simp add: locked_fs_frame data_file_name_neq)
  qed (use e' m opts(3) in \<open>simp_all add: opened_engine_def\<close>)
  then have kv: "kv E (e', ?fs) = kv E (e, fs)" by (simp add: kv_def fun_eq_iff)
  show ?thesis
    by (rule that [OF e'(1) inv(1) kv inv(2)]) (use e'(2) cur(1) in \<open>auto simp: opened_engine_def\<close>)
qed


subsection \<open>\<open>open\<close> returns\<close>

text \<open>Whatever the files of the directory hold, none of the loops over them runs forever.\<close>

lemma read_file_id_size:
  assumes "crates_ok E" "read_file_id E fid s offset = Ok rlr"
  shows "0 < rlr_size rlr \<and> rlr_size rlr < 2 ^ 64"
  using assms(2) read_log_record_size [OF assms(1)]
  by (auto simp: read_file_id_def read_log_record_def split: prod.splits if_splits option.splits)

lemma load_files_total: "crates_ok E \<Longrightarrow> load_files E skip fids s \<noteq> None"
proof (induction fids arbitrary: s)
  case (Cons fid fids)
  have "scan_log (read_file_id E fid) (load_record E fid) 0 s \<noteq> None"
    by (rule scan_log_total) (rule read_file_id_size [OF Cons.prems])
  then have "loop_then (scan_log (read_file_id E fid) (load_record E fid) 0 s)
      (\<lambda>offset s. load_files E skip fids (g offset s)) \<noteq> None" for g
    by (rule loop_then_total) (rule Cons.IH [OF Cons.prems])
  then show ?case using Cons.IH [OF Cons.prems] by (simp only: load_files.simps split: if_split) blast
qed simp

lemma load_index_total:
  assumes C: "crates_ok E"
  shows "load_index_from_data_files E st \<noteq> None" and "load_index_from_hint_file E st \<noteq> None"
proof -
  have data: "map_option f (load_files E skip fids s) \<noteq> None" for f skip fids s
    using load_files_total [OF C] by simp
  have total: "loop_then (Some m) (\<lambda>n st. map_option (f n) (load_files E (skip n) (fids st) (v, st))) \<noteq> None"
    for m f skip fids v
    by (intro loop_then_total option.distinct(2) data)
  show "load_index_from_data_files E st \<noteq> None"
    unfolding load_index_from_data_files_def Let_def
    by (cases "file_ids (fst st) = []") (simp, simp only: if_False, rule total)
  have hint: "scan_log (\<lambda>st. read_log_record E (snd st) f) (load_hint E) 0 st \<noteq> None" for f st
    using read_log_record_size [OF C] by (intro scan_log_total) (simp only: read_log_record_def)
  have "loop_then (Some m) (\<lambda>f st. loop_then (scan_log (\<lambda>st. read_log_record E (snd st) f) (load_hint E) 0 st)
      (\<lambda>_ st. Some (Ok (), st))) \<noteq> None" for m
    by (intro loop_then_total option.distinct(2) hint)
  then show "load_index_from_hint_file E st \<noteq> None"
    unfolding load_index_from_hint_file_def Let_def by (simp only: split: if_split) simp
qed

lemma load_engine_total:
  assumes C: "crates_ok E"
  shows "load_engine E st \<noteq> None"
proof -
  have total: "loop_then (load_index_from_hint_file E st) (\<lambda>_ st.
      loop_then (load_index_from_data_files E st) (\<lambda>n st.
      loop_then (Some (g n st)) (\<lambda>_ st. Some (h st)))) \<noteq> None" for g h
    by (intro loop_then_total load_index_total [OF C] option.distinct(2))
  show ?thesis
    unfolding load_engine_def
    by (cases "index_type (eng_options (fst st)) = BPlusTree")
      (simp, simp only: not_False_eq_True if_True, rule total)
qed

lemma engine_open_total:
  assumes "crates_ok E"
  shows "engine_open E opts fs \<noteq> None"
proof -
  have "open_locked E opts b lock fs \<noteq> None" for b lock fs
    using load_engine_total [OF assms]
    by (simp only: open_locked_def split: prod.split res.split) (simp only: option.map_disc_iff, simp)
  then show ?thesis
    unfolding engine_open_def Let_def by (intro loop_then_total option.distinct(2))
qed

end
