(* ===== verification/Durability.thy ===== *)
theory Durability
  imports Reopen
begin

text \<open>
  What a crash of the machine can lose: the bytes of a file behind its last sync.  The engine syncs
  a file before it leaves it, and the active file by the options \<open>sync_writes\<close> and
  \<open>bytes_per_sync\<close>.
\<close>

definition unsynced :: "fs \<Rightarrow> fpath \<Rightarrow> nat" where
  "unsynced fs f = (case lookup_file fs f of None \<Rightarrow> 0 | Some i \<Rightarrow> length (fdata i) - fsynced i)"

definition bounded_loss :: "options \<Rightarrow> bool" where
  "bounded_loss opts \<longleftrightarrow> sync_writes opts \<or> 0 < bytes_per_sync opts"

definition sync_inv :: "('s, 'b) st \<Rightarrow> bool" where
  "sync_inv st \<longleftrightarrow>
     (case st of (e, fs) \<Rightarrow>
        (\<forall>fid \<in> fst ` set (older_files e). unsynced fs (data_path e fid) = 0) \<and>
        (bounded_loss (eng_options e) \<longrightarrow>
           unsynced fs (data_path e (active_id e)) \<le> bytes_write e))"

text \<open>The bytes that a crash can lose, in all files of the engine.\<close>

definition crash_loss :: "('s, 'b) st \<Rightarrow> nat" where
  "crash_loss st =
     (\<Sum>fid \<in> known_ids (fst st). unsynced (snd st) (data_path (fst st) fid))"

lemma crash_loss_active:
  assumes "sync_inv (e, fs)"
  shows "crash_loss (e, fs) = unsynced fs (data_path e (active_id e))"
proof -
  have "(\<Sum>fid \<in> known_ids e - {active_id e}. unsynced fs (data_path e fid)) = 0"
    using assms by (auto simp: sync_inv_def known_ids_def)
  moreover have "finite (known_ids e)" "active_id e \<in> known_ids e" by (simp_all add: known_ids_def)
  ultimately show ?thesis
    by (simp add: crash_loss_def sum.remove [where x = "active_id e"])
qed

lemma unsynced_put_file:
  "is_dir fs (fst f) \<Longrightarrow>
   unsynced (put_file fs f i) g = (if g = f then length (fdata i) - fsynced i else unsynced fs g)"
  by (simp add: unsynced_def fs_simps)

lemma unsynced_fio_sync:
  "unsynced (snd (fio_sync E f fs)) g \<le> unsynced fs g"
  "os_ok E \<Longrightarrow> unsynced (snd (fio_sync E f fs)) f = 0"
  by (auto simp: fio_sync_def unsynced_def lookup_put_file lookup_file_is_dir split: option.splits)

lemma rotate_sync:
  assumes ok: "os_ok E" and inv: "files_inv (e, fs)" and id: "unat (active_id e) + 1 < 2 ^ 32"
    and sync: "sync_inv (e, fs)" and rot: "rotate_active E (e, fs) = (Ok (), e', fs')"
  shows "sync_inv (e', fs')"
proof -
  let ?a = "data_path e (active_id e)" and ?n = "data_path e (active_id e + 1)"
  let ?fs1 = "snd (fio_sync E ?a fs)"
  have e': "e' = rotated e" "fs' = put_file ?fs1 ?n new_inode"
    using rotate_active_eq [OF ok inv id] rot by simp_all
  have "is_dir fs (fst ?a)" by (rule is_file_is_dir) (use inv in \<open>simp add: files_inv_def\<close>)
  then have dir: "is_dir ?fs1 (fst ?n)" by (simp add: fio_sync_data)
  have ne: "fid \<noteq> active_id e + 1" if "fid \<in> insert (active_id e) (fst ` set (older_files e))" for fid
    using that inv u32_succ(3) [OF id] by (auto simp: files_inv_def)
  have old: "fst ` set (older_files (rotated e)) \<subseteq> insert (active_id e) (fst ` set (older_files e))"
    using inv by (auto simp: rotated_def files_inv_def set_AList_update)
  have "unsynced fs' (data_path e fid) = 0" if "fid \<in> fst ` set (older_files (rotated e))" for fid
  proof -
    have fid: "fid \<in> insert (active_id e) (fst ` set (older_files e))" using that old by blast
    then have "unsynced ?fs1 (data_path e fid) = 0"
      using unsynced_fio_sync(2) [OF ok, of ?a fs] unsynced_fio_sync(1) [of E ?a fs "data_path e fid"] sync
      by (auto simp: sync_inv_def)
    then show ?thesis using ne [OF fid] unsynced_put_file [OF dir] by (simp add: e')
  qed
  moreover have "unsynced fs' ?n = 0"
    using unsynced_put_file [OF dir] by (simp add: e' new_inode_def)
  ultimately show ?thesis by (simp add: sync_inv_def e'(1))
qed

text \<open>The stages of an append.\<close>

lemma and_then_OkE:
  assumes "and_then m f = (Ok b, t)"
  obtains a s where "m = (Ok a, s)" "f a s = (Ok b, t)"
  using assms by (auto simp: and_then_eq_Ok)


lemma append_stages:
  assumes "append_log_record E r (e, fs) = (Ok p, e', fs')"
  obtains en e1 fs1 n e2 fs2 b where "LogRecord_encode E r = Ok en"
    "if data_file_size (eng_options e) < df_write_off (active_file e) + of_nat (length en)
     then rotate_active E (e, fs) = (Ok (), e1, fs1) else (e1, fs1) = (e, fs)"
    "on_active (df_write E en) (e1, fs1) = (Ok n, e2, fs2)"
    "need_sync (eng_options e2) (bytes_write e2) (length en) = Ok b"
    "if b then \<exists>u. df_sync E (active_file e2) fs2 = (Ok u, fs') \<and> e' = e2\<lparr>bytes_write := 0\<rparr>
     else e' = e2\<lparr>bytes_write := fetch_add (bytes_write e2) (length en)\<rparr> \<and> fs' = fs2"
    "p = LogRecordPos_new (active_id e') (df_write_off (active_file e1)) (of_nat (length en))"
proof -
  obtain en where en: "LogRecord_encode E r = Ok en" and
    a1: "and_then (add_u64 (df_write_off (active_file e)) (of_nat (length en)), e, fs) (\<lambda>total st.
      and_then (if data_file_size (eng_options (fst st)) < total then rotate_active E st
               else (Ok (), st)) (\<lambda>_ st.
      let write_off = df_write_off (active_file (fst st)) in
      and_then (on_active (df_write E en) st) (\<lambda>_ st.
      let previous = bytes_write (fst st);
          st = on_engine (\<lambda>e. e\<lparr>bytes_write := fetch_add previous (length en)\<rparr>) st
      in and_then (need_sync (eng_options (fst st)) previous (length en), st) (\<lambda>sync st.
         and_then (if sync
                   then and_then (on_fs (df_sync E (active_file (fst st))) st) (\<lambda>_ st.
                          (Ok (), on_engine (\<lambda>e. e\<lparr>bytes_write := 0\<rparr>) st))
                   else (Ok (), st)) (\<lambda>_ st.
         (Ok (LogRecordPos_new (df_file_id (active_file (fst st))) write_off
                (of_nat (length en))), st)))))) = (Ok p, e', fs')"
    using assms unfolding append_log_record_def by (auto elim!: and_then_OkE)
  obtain total where total: "add_u64 (df_write_off (active_file e)) (of_nat (length en)) = Ok total"
    using a1 by (auto elim: and_then_OkE)
  obtain e1 fs1 where rot: "(if data_file_size (eng_options e) < total then rotate_active E (e, fs)
      else (Ok (), e, fs)) = (Ok (), e1, fs1)" and
    a2: "(let write_off = df_write_off (active_file e1) in
      and_then (on_active (df_write E en) (e1, fs1)) (\<lambda>_ st.
      let previous = bytes_write (fst st);
          st = on_engine (\<lambda>e. e\<lparr>bytes_write := fetch_add previous (length en)\<rparr>) st
      in and_then (need_sync (eng_options (fst st)) previous (length en), st) (\<lambda>sync st.
         and_then (if sync
                   then and_then (on_fs (df_sync E (active_file (fst st))) st) (\<lambda>_ st.
                          (Ok (), on_engine (\<lambda>e. e\<lparr>bytes_write := 0\<rparr>) st))
                   else (Ok (), st)) (\<lambda>_ st.
         (Ok (LogRecordPos_new (df_file_id (active_file (fst st))) write_off
                (of_nat (length en))), st))))) = (Ok p, e', fs')"
    using a1 unfolding total and_then_simps by (auto elim!: and_then_OkE)
  obtain n e2 fs2 where wr: "on_active (df_write E en) (e1, fs1) = (Ok n, e2, fs2)" and
    a3: "and_then (need_sync (eng_options e2) (bytes_write e2) (length en),
          e2\<lparr>bytes_write := fetch_add (bytes_write e2) (length en)\<rparr>, fs2) (\<lambda>sync st.
         and_then (if sync
                   then and_then (on_fs (df_sync E (active_file (fst st))) st) (\<lambda>_ st.
                          (Ok (), on_engine (\<lambda>e. e\<lparr>bytes_write := 0\<rparr>) st))
                   else (Ok (), st)) (\<lambda>_ st.
         (Ok (LogRecordPos_new (df_file_id (active_file (fst st))) (df_write_off (active_file e1))
                (of_nat (length en))), st))) = (Ok p, e', fs')"
    using a2 unfolding Let_def by (auto elim!: and_then_OkE simp del: on_simps(2))
  obtain b where b: "need_sync (eng_options e2) (bytes_write e2) (length en) = Ok b"
    using a3 by (auto elim: and_then_OkE)
  note rest = a3 [unfolded b and_then_simps]
  have "total = df_write_off (active_file e) + of_nat (length en)"
    using total by (simp add: add_u64_def split: if_splits)
  then have rot': "if data_file_size (eng_options e) < df_write_off (active_file e) + of_nat (length en)
     then rotate_active E (e, fs) = (Ok (), e1, fs1) else (e1, fs1) = (e, fs)"
    using rot by (auto split: if_splits)
  show ?thesis
  proof (rule that [OF en rot' wr b])
    show "if b then \<exists>u. df_sync E (active_file e2) fs2 = (Ok u, fs') \<and> e' = e2\<lparr>bytes_write := 0\<rparr>
     else e' = e2\<lparr>bytes_write := fetch_add (bytes_write e2) (length en)\<rparr> \<and> fs' = fs2"
      using rest by (auto simp: and_then_eq_Ok split: if_splits prod.splits)
    show "p = LogRecordPos_new (active_id e') (df_write_off (active_file e1)) (of_nat (length en))"
      using rest by (auto simp: and_then_eq_Ok active_id_def split: if_splits prod.splits)
  qed
qed


lemma need_sync_cases:
  assumes "need_sync opts prev n = Ok b" "bounded_loss opts" "\<not> b"
  shows "\<not> sync_writes opts" "prev + n < bytes_per_sync opts" "prev + n < 2 ^ 64"
  using assms by (auto simp: need_sync_def bounded_loss_def add_usize_def split: if_splits)

text \<open>An append keeps the sync invariant; with \<open>sync_writes\<close> nothing is left unsynced.\<close>

lemma append_sync:
  assumes ok: "crates_ok E" "os_ok E" and inv: "files_inv (e, fs)" and wf: "wf_record r"
    and id: "unat (active_id e) + 1 < 2 ^ 32" and bw: "bw_ok e"
    and sync: "sync_inv (e, fs)" and app: "append_log_record E r (e, fs) = (Ok p, e', fs')"
  shows "sync_inv (e', fs') \<and> (sync_writes (eng_options e) \<longrightarrow> crash_loss (e', fs') = 0)"
proof -
  obtain p' where ap: "append_log_record E r (e, fs) = (Ok p', e', fs')" and
    files: "files_inv (e', fs')" "same_index e e'" and bytes: "\<exists>en. LogRecord_encode E r = Ok en \<and> appended e fs en e' fs'"
    using append_log_record_ok [OF ok inv wf id bw] app by (metis (no_types, lifting) prod.inject)
  obtain en e1 fs1 n e2 fs2 b where en: "LogRecord_encode E r = Ok en" and
    rot: "if data_file_size (eng_options e) < df_write_off (active_file e) + of_nat (length en)
     then rotate_active E (e, fs) = (Ok (), e1, fs1) else (e1, fs1) = (e, fs)" and
    wr: "on_active (df_write E en) (e1, fs1) = (Ok n, e2, fs2)" and
    b: "need_sync (eng_options e2) (bytes_write e2) (length en) = Ok b" and
    last: "if b then \<exists>u. df_sync E (active_file e2) fs2 = (Ok u, fs') \<and> e' = e2\<lparr>bytes_write := 0\<rparr>
     else e' = e2\<lparr>bytes_write := fetch_add (bytes_write e2) (length en)\<rparr> \<and> fs' = fs2"
    using append_stages [OF app] by metis
  have inv1: "files_inv (e1, fs1)" "sync_inv (e1, fs1)" "eng_options e1 = eng_options e"
    using rot inv sync rotate_active_inv [OF ok(2) inv id] rotate_sync [OF ok(2) inv id sync]
    by (auto split: if_splits)
  let ?a = "data_path e1 (active_id e1)"
  have io: "df_io (active_file e1) = FileIO ?a" and a: "is_file fs1 ?a"
    using inv1(1) by (auto simp: files_inv_def handle_ok_def)
  obtain i where i: "lookup_file fs1 ?a = Some i" using lookup_file_Some [OF a] by blast
  have dir: "is_dir fs1 (fst ?a)" by (rule is_file_is_dir [OF a])
  have w: "e2 = e1\<lparr>active_file := active_file e2\<rparr>" "df_io (active_file e2) = FileIO ?a"
    "df_file_id (active_file e2) = df_file_id (active_file e1)"
    "fs2 = put_file fs1 ?a (i\<lparr>fdata := fdata i @ en\<rparr>)"
    using wr io fio_write_ok [OF ok(2) i, of en]
    by (auto simp: df_write_def split: if_splits res.splits)
  have sel: "eng_options e2 = eng_options e1" "older_files e2 = older_files e1"
    "bytes_write e2 = bytes_write e1" by (subst w(1), simp)+
  have sel': "active_id e2 = active_id e1" "data_path e2 = data_path e1"
    using w(3) sel(1) by (simp_all add: active_id_def data_path_def fun_eq_iff)
  have uns2: "unsynced fs2 g \<le> (if g = ?a then unsynced fs1 ?a + length en else unsynced fs1 g)" for g
    unfolding w(4) unsynced_put_file [OF dir] using i by (auto simp: unsynced_def)
  have other: "data_path e1 fid \<noteq> ?a" if "fid \<in> fst ` set (older_files e1)" for fid
    using that inv1(1) by (auto simp: files_inv_def)
  have older2: "unsynced fs2 (data_path e1 fid) = 0" if "fid \<in> fst ` set (older_files e1)" for fid
    using uns2 [of "data_path e1 fid"] other [OF that] inv1(2) that by (auto simp: sync_inv_def)
  have opts: "eng_options e' = eng_options e" using files(2) by (simp add: same_index_def)
  show ?thesis
  proof (cases b)
    case True
    then obtain u where "df_sync E (active_file e2) fs2 = (Ok u, fs')" and
      e': "e' = e2\<lparr>bytes_write := 0\<rparr>" using last by auto
    then have fs': "fs' = snd (fio_sync E ?a fs2)" by (simp add: df_sync_def w(2))
    have "unsynced fs' (data_path e1 fid) = 0" if "fid \<in> fst ` set (older_files e1)" for fid
      using unsynced_fio_sync(1) [of E ?a fs2 "data_path e1 fid"] older2 [OF that] by (simp add: fs')
    moreover have a0: "unsynced fs' ?a = 0" using unsynced_fio_sync(2) [OF ok(2)] by (simp add: fs')
    ultimately have s: "sync_inv (e', fs')" by (simp add: sync_inv_def e' sel sel')
    then show ?thesis using crash_loss_active [OF s] a0 by (simp add: e' sel')
  next
    case False
    then have e': "e' = e2\<lparr>bytes_write := fetch_add (bytes_write e2) (length en)\<rparr>" "fs' = fs2"
      using last by auto
    have "unsynced fs2 ?a \<le> bytes_write e'" if bl: "bounded_loss (eng_options e)"
    proof -
      have "bytes_write e' = bytes_write e1 + length en"
        using need_sync_cases(3) [OF b _ False] bl sel inv1(3) by (simp add: e'(1) fetch_add_def)
      then show ?thesis using uns2 [of ?a] inv1(2,3) bl by (simp add: sync_inv_def)
    qed
    then have "sync_inv (e', fs')"
      using older2 inv1(3) by (simp add: sync_inv_def e' sel sel')
    moreover have "\<not> sync_writes (eng_options e)"
      using b False sel(1) inv1(3) by (auto simp: need_sync_def)
    ultimately show ?thesis by simp
  qed
qed

text \<open>So no more than \<open>bytes_per_sync\<close> bytes can be lost, nothing with \<open>sync_writes\<close>.\<close>

lemma crash_loss_bound:
  assumes "sync_inv (e, fs)" "bw_ok e" "\<not> sync_writes (eng_options e)" "0 < bytes_per_sync (eng_options e)"
  shows "crash_loss (e, fs) < bytes_per_sync (eng_options e)"
  using crash_loss_active [OF assms(1)] assms by (auto simp: sync_inv_def bounded_loss_def bw_ok_def)

lemma sync_inv_sel [simp]:
  "sync_inv (add_reclaim old e, fs) = sync_inv (e, fs)"
  "sync_inv (e\<lparr>eng_index := i\<rparr>, fs) = sync_inv (e, fs)"
  "crash_loss (add_reclaim old e, fs) = crash_loss (e, fs)"
  "crash_loss (e\<lparr>eng_index := i\<rparr>, fs) = crash_loss (e, fs)"
proof -
  have "older_files (add_reclaim old e) = older_files e" "bytes_write (add_reclaim old e) = bytes_write e"
    by (simp_all add: add_reclaim_def split: option.split)
  then show "sync_inv (add_reclaim old e, fs) = sync_inv (e, fs)" by (simp add: sync_inv_def)
qed (simp_all add: sync_inv_def crash_loss_def)

lemma put_sync:
  assumes ok: "crates_ok E" "os_ok E" and inv: "engine_inv E (e, fs)" and kv: "storable k v"
    and id: "unat (active_id e) + 1 < 2 ^ 32" and sync: "sync_inv (e, fs)"
    and put: "put E k v (e, fs) = (Ok (), e', fs')"
  shows "sync_inv (e', fs') \<and> (sync_writes (eng_options e) \<longrightarrow> crash_loss (e', fs') = 0) \<and>
    eng_options e' = eng_options e"
proof -
  let ?r = "LogRecord_new (0 # k) v Normal"
  have wf: "wf_record ?r" and k: "k \<noteq> []" using kv by (auto simp: storable_def wf_record_def)
  have files: "files_inv (e, fs)" and bw: "bw_ok e" using inv by (simp_all add: engine_inv_def)
  obtain p e1 fs1 where ap: "append_log_record E ?r (e, fs) = (Ok p, e1, fs1)"
    and same: "same_index e e1"
    using append_log_record_ok [OF ok files wf id bw] by blast
  have "\<exists>i old. e' = add_reclaim old (e1\<lparr>eng_index := i\<rparr>) \<and> fs' = fs1"
    using put k ap by (auto simp: put_def key_with_seq_0 [OF ok(1)] and_then_eq_Ok split: prod.splits)
  then show ?thesis
    using append_sync [OF ok files wf id bw sync ap] same by (auto simp: same_index_def)
qed

subsection \<open>Where an append puts its record\<close>

lemma append_place:
  assumes ok: "crates_ok E" "os_ok E" and files: "files_inv (e, fs)" "bw_ok e" and wf: "wf_record r"
    and id: "unat (active_id e) + 1 < 2 ^ 32" and ap: "append_log_record E r (e, fs) = (Ok p, e', fs')"
  shows "pos_file_id p = active_id e'"
    and "if length (file_bytes (e, fs) (active_id e)) + encoded_length E r \<le> unat (data_file_size (eng_options e))
      then active_id e' = active_id e \<and> unat (pos_offset p) = length (file_bytes (e, fs) (active_id e))
      else active_id e' = active_id e + 1 \<and> unat (pos_offset p) = 0"
proof -
  obtain en e1 fs1 n e2 fs2 b where en: "LogRecord_encode E r = Ok en" and
    rot: "if data_file_size (eng_options e) < df_write_off (active_file e) + of_nat (length en)
     then rotate_active E (e, fs) = (Ok (), e1, fs1) else (e1, fs1) = (e, fs)" and
    wr: "on_active (df_write E en) (e1, fs1) = (Ok n, e2, fs2)" and
    last: "if b then \<exists>u. df_sync E (active_file e2) fs2 = (Ok u, fs') \<and> e' = e2\<lparr>bytes_write := 0\<rparr>
     else e' = e2\<lparr>bytes_write := fetch_add (bytes_write e2) (length en)\<rparr> \<and> fs' = fs2" and
    p: "p = LogRecordPos_new (active_id e') (df_write_off (active_file e1)) (of_nat (length en))"
    using append_stages [OF ap] by metis
  show "pos_file_id p = active_id e'" by (simp add: p)
  have len: "length en = encoded_length E r" "encoded_length E r < 2 ^ 34"
    using LogRecord_encode_length [OF ok(1) en] encoded_length_bounds [OF ok(1) wf] by simp_all
  have off: "unat (df_write_off (active_file e)) = length (file_bytes (e, fs) (active_id e))"
    and max: "length (file_bytes (e, fs) (active_id e)) \<le> 2 ^ 63"
    using files(1) by (auto simp: files_inv_def)
  have "unat (df_write_off (active_file e)) + length en < 2 ^ 64" using off max len by simp
  note sum = add_u64_of_nat(2) [OF this]
  have fits: "data_file_size (eng_options e) < df_write_off (active_file e) + of_nat (length en) \<longleftrightarrow>
      \<not> length (file_bytes (e, fs) (active_id e)) + encoded_length E r \<le> unat (data_file_size (eng_options e))"
    using sum off len(1) by (simp add: word_less_nat_alt not_le)
  have "df_file_id (active_file e2) = df_file_id (active_file e1)"
    using wr by (auto simp: df_write_def split: if_splits res.splits prod.splits)
  then have act: "active_id e' = active_id e1"
    using last by (auto simp: active_id_def split: if_splits)
  have "active_id e1 = active_id e + 1 \<and> df_write_off (active_file e1) = 0"
    if "rotate_active E (e, fs) = (Ok (), e1, fs1)"
    using that rotate_active_eq [OF ok(2) files(1) id] by auto
  then show "if length (file_bytes (e, fs) (active_id e)) + encoded_length E r \<le> unat (data_file_size (eng_options e))
      then active_id e' = active_id e \<and> unat (pos_offset p) = length (file_bytes (e, fs) (active_id e))
      else active_id e' = active_id e + 1 \<and> unat (pos_offset p) = 0"
    using rot fits act p off by (auto split: if_splits)
qed

end
