(* ===== verification/EngineIter.thy ===== *)
theory EngineIter
  imports EngineInv
begin

text \<open>
  The rest of \<^verbatim>\<open>bitcask-rs/src/iterator.rs\<close>: moving an iterator of the engine, and \<open>flod\<close>, which
  calls a function on every pair of the database until it returns false.  The function may change
  a state of its own.
\<close>

definition iterator_rewind :: "index_iterator \<Rightarrow> index_iterator" where
  "iterator_rewind it = iter_rewind it"

definition iterator_seek :: "bytes \<Rightarrow> index_iterator \<Rightarrow> index_iterator" where
  "iterator_seek key it = iter_seek key it"

lemma iterator_next_progress:
  "iterator_next E st it = (Ok (Some pair), it') \<Longrightarrow>
   length (it_items it') - curr_index it' < length (it_items it) - curr_index it"
  by (auto simp: iterator_next_def split: prod.splits option.splits res.splits dest: iter_next_progress)

text \<open>\<open>while let Some(pair) = iter.next()\<close>, collecting the pairs.\<close>

function iterator_drain ::
  "('s, 'b) env \<Rightarrow> ('s, 'b) st \<Rightarrow> index_iterator \<Rightarrow> (bytes \<times> bytes) list res" where
  "iterator_drain E st it =
     (case iterator_next E st it of
        (Ok (Some pair), it') \<Rightarrow> res_map (\<lambda>pairs. pair # pairs) (iterator_drain E st it')
      | (Ok None, _) \<Rightarrow> Ok []
      | (Err x, _) \<Rightarrow> Err x
      | (Panic, _) \<Rightarrow> Panic)"
  by pat_completeness auto
termination
  by (relation "measure (\<lambda>(E, st, it). length (it_items it) - curr_index it)")
    (auto dest: iterator_next_progress [OF sym])

declare iterator_drain.simps [simp del]

function flod_loop ::
  "('s, 'b) env \<Rightarrow> ('s, 'b) st \<Rightarrow> (bytes \<Rightarrow> bytes \<Rightarrow> 'a \<Rightarrow> bool \<times> 'a) \<Rightarrow> index_iterator \<Rightarrow> 'a \<Rightarrow>
   unit res \<times> 'a" where
  "flod_loop E st f it a =
     (case iterator_next E st it of
        (Ok (Some (key, value)), it') \<Rightarrow>
          (case f key value a of
             (True, a') \<Rightarrow> flod_loop E st f it' a'
           | (False, a') \<Rightarrow> (Ok (), a'))
      | (Ok None, _) \<Rightarrow> (Ok (), a)
      | (Err x, _) \<Rightarrow> (Err x, a)
      | (Panic, _) \<Rightarrow> (Panic, a))"
  by pat_completeness auto
termination
  by (relation "measure (\<lambda>(E, st, f, it, a). length (it_items it) - curr_index it)")
    (auto dest: iterator_next_progress [OF sym])

declare flod_loop.simps [simp del]

definition flod ::
  "('s, 'b) env \<Rightarrow> ('s, 'b) st \<Rightarrow> (bytes \<Rightarrow> bytes \<Rightarrow> 'a \<Rightarrow> bool \<times> 'a) \<Rightarrow> 'a \<Rightarrow> unit res \<times> 'a" where
  "flod E st f a =
     (case engine_iter E IteratorOptions_default st of
        Ok it \<Rightarrow> flod_loop E st f it a
      | Err x \<Rightarrow> (Err x, a)
      | Panic \<Rightarrow> (Panic, a))"

subsection \<open>What the iterators yield\<close>

text \<open>Calling a function on a list of pairs until it returns false.\<close>

fun visit :: "(bytes \<Rightarrow> bytes \<Rightarrow> 'a \<Rightarrow> bool \<times> 'a) \<Rightarrow> (bytes \<times> bytes) list \<Rightarrow> 'a \<Rightarrow> 'a" where
  "visit f [] a = a"
| "visit f ((k, v) # kvs) a = (case f k v a of (True, a') \<Rightarrow> visit f kvs a' | (False, a') \<Rightarrow> a')"

definition with_value :: "('s, 'b) env \<Rightarrow> ('s, 'b) st \<Rightarrow> bytes \<times> log_record_pos \<Rightarrow> bytes \<times> bytes" where
  "with_value E st x = (fst x, the (kv E st (fst x)))"

text \<open>An iterator whose items are entries of the index.\<close>

definition iter_of :: "('s, 'b) env \<Rightarrow> ('s, 'b) st \<Rightarrow> index_iterator \<Rightarrow> bool" where
  "iter_of E st it \<longleftrightarrow>
     (\<forall>(k, p) \<in> set (it_items it). index_entries E (eng_index (fst st)) k = Some p)"

lemma iter_next_item:
  assumes "iter_next it = (Some x, it')"
  shows "x \<in> set (it_items it)" and "it_items it' = it_items it"
proof -
  have "\<exists>j. iter_next_from (it_items it) (it_prefix (it_options it)) (curr_index it) = (Some x, j)"
    and i: "it_items it' = it_items it"
    using assms by (auto simp: iter_next_def split: if_splits prod.splits)
  then obtain j where
    "iter_next_from (it_items it) (it_prefix (it_options it)) (curr_index it) = (Some x, j)" by blast
  from iter_next_from_filter [OF this] have
    "x \<in> set (filter (\<lambda>x. starts_with (fst x) (it_prefix (it_options it))) (drop (curr_index it) (it_items it)))"
    by simp
  then show "x \<in> set (it_items it)" by (auto dest: in_set_dropD)
  show "it_items it' = it_items it" by (rule i)
qed

lemma iterator_next_value:
  assumes ok: "crates_ok E" "os_ok E" and reads: "reads_inv E st" and it: "iter_of E st it"
  shows "iterator_next E st it =
    (case iter_next it of
       (None, it') \<Rightarrow> (Ok None, it')
     | (Some x, it') \<Rightarrow> (Ok (Some (with_value E st x)), it'))"
proof (cases "iter_next it")
  case (Pair y it')
  show ?thesis
  proof (cases y)
    case (Some x)
    obtain k p where x: "x = (k, p)" by (cases x)
    have entry: "index_entries E (eng_index (fst st)) k = Some p"
      using it iter_next_item(1) [of it x it'] Pair Some by (auto simp: iter_of_def x)
    then have "entry_ok E st k p" using reads by (auto simp: reads_inv_def)
    then obtain r n where r: "k \<noteq> []" "pos_file_id p \<in> known_ids (fst st)"
      "record_at E (file_bytes st (pos_file_id p)) (unat (pos_offset p)) r" "rec_type r = Normal"
      by (auto elim: entry_okE)
    have "get_value_by_position E p st = Ok (rec_value r)"
      using get_value_by_position_ok [OF ok _ r(2,3)] reads r(4) by (simp add: reads_inv_def)
    moreover have "kv E st k = Some (rec_value r)"
      using get_indexed [OF ok reads entry r(3,4)] by (simp add: kv_def)
    ultimately show ?thesis by (simp add: iterator_next_def Pair Some x with_value_def)
  qed (simp add: iterator_next_def Pair)
qed

lemma iterator_drain_values:
  assumes "crates_ok E" "os_ok E" "reads_inv E st" "iter_of E st it"
  shows "iterator_drain E st it = Ok (map (with_value E st) (iter_drain it))"
  using assms(4)
proof (induction it rule: iter_drain.induct)
  case (1 it)
  note nxt = iterator_next_value [OF assms(1-3) "1.prems"]
  show ?case
  proof (cases "iter_next it")
    case (Pair y it')
    show ?thesis
    proof (cases y)
      case None
      then show ?thesis using Pair nxt by (simp add: iterator_drain.simps [of E st it] iter_drain.simps [of it])
    next
      case (Some x)
      with Pair have step: "iter_next it = (Some x, it')" by simp
      have "iter_of E st it'" using "1.prems" iter_next_item(2) [OF step] by (simp add: iter_of_def)
      from "1.IH" [OF step [symmetric] refl this] step show ?thesis
        using nxt by (simp add: iterator_drain.simps [of E st it] iter_drain.simps [of it])
    qed
  qed
qed

lemma flod_loop_visits:
  assumes "crates_ok E" "os_ok E" "reads_inv E st" "iter_of E st it"
  shows "flod_loop E st f it a = (Ok (), visit f (map (with_value E st) (iter_drain it)) a)"
  using assms(4)
proof (induction it arbitrary: a rule: iter_drain.induct)
  case (1 it)
  note nxt = iterator_next_value [OF assms(1-3) "1.prems"]
  show ?case
  proof (cases "iter_next it")
    case (Pair y it')
    show ?thesis
    proof (cases y)
      case None
      then show ?thesis using Pair nxt by (simp add: flod_loop.simps [of E st f it] iter_drain.simps [of it])
    next
      case (Some x)
      with Pair have step: "iter_next it = (Some x, it')" by simp
      have "iter_of E st it'" using "1.prems" iter_next_item(2) [OF step] by (simp add: iter_of_def)
      from "1.IH" [OF step [symmetric] refl this] step show ?thesis
        using nxt by (auto simp: flod_loop.simps [of E st f it] iter_drain.simps [of it] with_value_def
            split: prod.split bool.split)
    qed
  qed
qed

text \<open>The pairs of the database in key order.\<close>

lemma engine_items:
  assumes "reads_inv E st"
  obtains xs where "index_items E (eng_index (fst st)) = Ok xs" "bt_ok xs"
    "\<forall>opts. engine_iter E opts st = Ok (iterator_new xs opts)"
    "\<forall>opts. iter_of E st (iterator_new xs opts)"
    "set xs = {(k, p). index_entries E (eng_index (fst st)) k = Some p}"
proof -
  have idx: "index_inv E (eng_index (fst st))" using assms by (simp add: reads_inv_def)
  obtain xs where xs: "index_items E (eng_index (fst st)) = Ok xs" "bt_ok xs"
    "map_of xs = index_entries E (eng_index (fst st))" using ix.itemsE [OF idx] .
  have "(k, p) \<in> set xs \<longleftrightarrow> index_entries E (eng_index (fst st)) k = Some p" for k p
    using bt_ok_distinct [OF xs(2)] by (simp add: xs(3) [symmetric])
  then show ?thesis
    by (intro that [OF xs(1,2)]) (auto simp: engine_iter_def xs(1) iter_of_def iterator_new_def)
qed

end
