(* ===== verification/AppendOnly.thy ===== *)
theory AppendOnly
  imports Batch EngineFiles
begin

text \<open>
  The log is append-only: whatever the operating system does, and whatever a call returns, no call
  of a running engine changes or removes a byte that a file already holds.
\<close>

named_theorems growing "calls that only append to files"

text \<open>The files of the second state extend those of the first.\<close>

definition extends :: "fs \<Rightarrow> 'a \<times> 'e \<times> fs \<Rightarrow> bool" where
  "extends fs m \<longleftrightarrow> grows fs (snd (snd m))"

lemma extends_pair [simp]: "extends fs (r, e, fs') = grows fs fs'"
  by (simp add: extends_def)

lemma extends_result [intro]: "grows fs (snd st) \<Longrightarrow> extends fs (r, st)"
  by (simp add: extends_def)

lemma extends_and_then:
  assumes "extends fs m" "\<And>a st. grows fs (snd st) \<Longrightarrow> extends fs (f a st)"
  shows "extends fs (and_then m f)"
  using assms by (cases m; cases "fst m") (auto simp: extends_def)

lemma extends_if: "(b \<Longrightarrow> extends fs m) \<Longrightarrow> (\<not> b \<Longrightarrow> extends fs n) \<Longrightarrow> extends fs (if b then m else n)"
  by simp

lemma extends_option:
  assumes "x = None \<Longrightarrow> extends fs m" "\<And>a. x = Some a \<Longrightarrow> extends fs (f a)"
  shows "extends fs (case x of None \<Rightarrow> m | Some a \<Rightarrow> f a)"
  using assms by (cases x) auto

lemma snd_on_engine [simp]: "snd (on_engine f st) = snd st"
  by (simp add: on_engine_def split_beta)

lemma grows_put_longer:
  assumes "\<exists>tail. fdata i = file_data fs f @ tail"
  shows "grows fs (put_file fs f i)"
  using assms by (auto simp: grows_def fs_simps)

lemma fio_write_grows: "grows fs (snd (fio_write E f buf fs))"
proof (cases "lookup_file fs f")
  case (Some i)
  have "grows fs (put_file fs f (i\<lparr>fdata := fdata i @ bs\<rparr>))" for bs
    by (rule grows_put_longer) (simp add: file_data_def Some)
  then show ?thesis by (simp add: fio_write_def Some split: option.split)
qed (simp add: fio_write_def split: option.split)

lemma io_write_grows: "grows fs (snd (io_write E io buf fs))"
  by (cases io) (simp_all add: fio_write_grows)

lemma io_sync_grows: "grows fs (snd (io_sync E io fs))"
  by (cases io) (simp_all add: grows_sync)

lemma df_write_grows: "grows fs (snd (snd (df_write E buf (df, fs))))"
  using io_write_grows [of fs E "df_io df" buf]
  by (auto simp: df_write_def split: prod.split res.split)

lemma FileIO_new_grows: "grows fs (snd (FileIO_new E f fs))"
proof -
  have "grows fs (put_file fs f new_inode)" if "\<not> is_file fs f"
    by (rule grows_put_longer) (simp add: file_data_new [OF that] new_inode_def)
  then show ?thesis by (simp add: FileIO_new_def)
qed

lemma DataFile_new_grows: "grows fs (snd (DataFile_new E d fid StandardFIO fs))"
  using FileIO_new_grows [of fs E "get_data_file_name d fid"]
  by (auto simp: DataFile_new_def new_with_create_def open_with_name_def new_io_manager_def and_then_def
      get_data_file_name_def split: prod.split res.split)

lemma extends_on_fs:
  assumes "grows fs (snd st)" "grows (snd st) (snd (op (snd st)))"
  shows "extends fs (on_fs op st)"
  using assms by (cases st) (auto simp: on_fs_def extends_def split: prod.split intro: grows_trans)

lemma extends_on_active:
  assumes "grows fs (snd st)" "grows (snd st) (snd (snd (op (active_file (fst st), snd st))))"
  shows "extends fs (on_active op st)"
  using assms by (cases st) (auto simp: on_active_def extends_def split: prod.split intro: grows_trans)

lemma extends_on_index: "grows fs (snd st) \<Longrightarrow> extends fs (on_index op st)"
  by (cases st) (simp add: on_index_def extends_def split: prod.split)

lemmas extends_rules [growing] =
  extends_and_then extends_if extends_option extends_on_fs extends_on_active extends_on_index
  extends_result DataFile_new_grows df_write_grows io_sync_grows grows_refl

lemma rotate_extends: "grows fs (snd st) \<Longrightarrow> extends fs (rotate_active E st)"
  unfolding rotate_active_def Let_def df_sync_def
  by (intro growing; simp)

lemma append_extends: "grows fs (snd st) \<Longrightarrow> extends fs (append_log_record E r st)"
  unfolding append_log_record_def Let_def df_sync_def
  by (intro growing rotate_extends; simp add: io_sync_grows df_write_grows)

lemma put_extends: "grows fs (snd st) \<Longrightarrow> extends fs (put E k v st)"
  unfolding put_def by (intro growing append_extends; simp)

lemma delete_extends: "grows fs (snd st) \<Longrightarrow> extends fs (delete E k st)"
  unfolding delete_def Let_def by (intro growing append_extends; simp)

lemma sync_extends: "grows fs (snd st) \<Longrightarrow> extends fs (engine_sync E st)"
  unfolding engine_sync_def df_sync_def by (intro growing; simp add: io_sync_grows)

lemma append_items_extends:
  "grows fs (snd st) \<Longrightarrow> extends fs (append_items E seq items positions st)"
proof (induction items arbitrary: positions st)
  case (Cons r items)
  then show ?case by (simp only: append_items.simps) (intro growing append_extends; simp)
qed (simp add: extends_def)

lemma index_batch_extends: "grows fs (snd st) \<Longrightarrow> extends fs (index_batch E positions items st)"
proof (induction items arbitrary: st)
  case (Cons r items)
  then show ?case
    by (simp only: index_batch.simps index_item_def) (intro growing; simp)
qed (simp add: extends_def)

lemma commit_extends: "grows fs (snd (snd (snd (commit E b (e, fs)))))"
proof -
  let ?st = "on_engine (\<lambda>e. e\<lparr>seq_no := fetch_add (seq_no e) 1\<rparr>) (e, fs)"
  have "extends fs (commit_writes E n b st)" if "grows fs (snd st)" for n st
    unfolding commit_writes_def
    by (intro growing append_items_extends append_extends sync_extends index_batch_extends that; simp)
  then have "extends fs (commit_writes E (seq_no e) b (e\<lparr>seq_no := fetch_add (seq_no e) 1\<rparr>, fs))"
    by simp
  then show ?thesis
    by (auto simp: commit_def Let_def extends_def split: prod.split res.split)
qed

end
