(* ===== verification/EngineProps.thy ===== *)
theory EngineProps
  imports Example Durability EngineIter AppendOnly
begin

text \<open>
  Properties of the running engine: it behaves as a map from keys to values, its log only grows,
  and what a crash can lose is bounded.
\<close>

text \<open>C1: A new database answers any sequence of \<open>put\<close>, \<open>get\<close> and \<open>delete\<close> as a map that starts
  empty: opening creates the directory and succeeds, every result (errors included) is the one of
  the map, and at the end \<open>get\<close> finds the values of the map.\<close>

theorem engine_refines_map:
  assumes "crates_ok E" "os_ok E" "skipmap_ok (skipmap E)"
    and "check_options opts = Ok ()" "index_type opts \<noteq> BPlusTree"
      "unat (data_file_size opts) \<le> 2 ^ 63" "bytes_per_sync opts \<le> 2 ^ 63"
    and "\<not> is_dir fs (dir_path opts)" "fs_wf fs"
      "get_merge_path (dir_path opts) = Ok mp" "\<not> is_dir fs mp"
      "(dir_path opts, FILE_LOCK_NAME) \<notin> set (fs_locks fs)"
    and "list_all op_fits xs" "length xs < 2 ^ 32"
  shows "\<exists>e fs' outs st'. engine_open E opts fs = Some (Ok e, fs') \<and>
    engine_run E xs (e, fs') = (outs, st') \<and> spec_run xs Map.empty = (outs, kv E st')"
proof -
  obtain e fs' where e: "engine_open E opts fs = Some (Ok e, fs')" "engine_inv E (e, fs')"
    "kv E (e, fs') = Map.empty" "active_id e = 0"
    by (rule engine_open_new [OF assms(1-12)]) blast
  have "unat (active_id (fst (e, fs'))) + length xs < 2 ^ 32" using e(4) assms(14) by simp
  from engine_run_refines [OF assms(1,2) e(2) assms(13) this] show ?thesis
    using e(1,3) by auto
qed

definition no_fs :: fs where "no_fs = \<lparr>fs_dirs = Map.empty, fs_locks = []\<rparr>"

definition hist0 :: "kv_op list" where
  "hist0 = [OpPut [107] [118], OpGet [107], OpPut [] [1], OpDelete [107], OpGet [107]]"

lemma get_merge_path0: "get_merge_path dir0 = Ok [''db-merge'']"
  by (simp add: get_merge_path_def dir0_def path_file_name_def path_parent_def MERGE_DIR_NAME_def)

lemma engine_refines_map_witness:
  "spec_run hist0 Map.empty =
     ([OutUnit (Ok ()), OutBytes (Ok [118]), OutUnit (Err KeyIsEmpty), OutUnit (Ok ()),
       OutBytes (Err KeyNotFound)], Map.empty) \<and>
   (\<exists>e fs' outs st'. engine_open E0 opts0 no_fs = Some (Ok e, fs') \<and>
      engine_run E0 hist0 (e, fs') = (outs, st') \<and> spec_run hist0 Map.empty = (outs, kv E0 st'))"
proof
  show "spec_run hist0 Map.empty =
     ([OutUnit (Ok ()), OutBytes (Ok [118]), OutUnit (Err KeyIsEmpty), OutUnit (Ok ()),
       OutBytes (Err KeyNotFound)], Map.empty)"
    by (simp add: hist0_def)
  show "\<exists>e fs' outs st'. engine_open E0 opts0 no_fs = Some (Ok e, fs') \<and>
      engine_run E0 hist0 (e, fs') = (outs, st') \<and> spec_run hist0 Map.empty = (outs, kv E0 st')"
    by (rule engine_refines_map [where mp = "[''db-merge'']"])
      (simp_all add: check_options0 no_fs_def is_dir_def fs_wf_def get_merge_path0 hist0_def)
qed




text \<open>C20: An append puts the record behind the last byte of the file that is active afterwards.  That
  is the old active file when the record fits below \<open>data_file_size\<close>, else a new file with the
  next id, which then holds the record alone.\<close>

theorem append_position:
  assumes "crates_ok E" "os_ok E" "engine_inv E (e, fs)" "wf_record r"
    and "unat (active_id e) + 1 < 2 ^ 32"
  shows "\<exists>p e' fs'. append_log_record E r (e, fs) = (Ok p, e', fs') \<and>
    record_at E (file_bytes (e', fs') (pos_file_id p)) (unat (pos_offset p)) r \<and>
    length (file_bytes (e', fs') (pos_file_id p)) = unat (pos_offset p) + encoded_length E r \<and>
    (if length (file_bytes (e, fs) (active_id e)) + encoded_length E r \<le> unat (data_file_size (eng_options e))
     then pos_file_id p = active_id e \<and> unat (pos_offset p) = length (file_bytes (e, fs) (active_id e))
     else pos_file_id p = active_id e + 1 \<and> unat (pos_offset p) = 0)"
proof -
  have files: "files_inv (e, fs)" "bw_ok e" using assms(3) by (simp_all add: engine_inv_def)
  from append_log_record_ok [OF assms(1,2) files(1) assms(4,5) files(2)] obtain p e' fs' where
    ap: "append_log_record E r (e, fs) = (Ok p, e', fs')"
      "record_at E (file_bytes (e', fs') (pos_file_id p)) (unat (pos_offset p)) r"
      "unat (pos_offset p) + encoded_length E r = length (file_bytes (e', fs') (pos_file_id p))"
    by blast
  with append_place [OF assms(1,2) files assms(4,5) ap(1)] show ?thesis by auto
qed

lemma append_position_witness:
  "\<exists>p e' fs'. append_log_record E0 (LogRecord_new [0, 107] [118] Normal) (eng0, fs1) = (Ok p, e', fs') \<and>
    record_at E0 (file_bytes (e', fs') (pos_file_id p)) (unat (pos_offset p)) (LogRecord_new [0, 107] [118] Normal) \<and>
    length (file_bytes (e', fs') (pos_file_id p)) =
      unat (pos_offset p) + encoded_length E0 (LogRecord_new [0, 107] [118] Normal) \<and>
    (if length (file_bytes (eng0, fs1) (active_id eng0)) + encoded_length E0 (LogRecord_new [0, 107] [118] Normal)
          \<le> unat (data_file_size (eng_options eng0))
     then pos_file_id p = active_id eng0 \<and> unat (pos_offset p) = length (file_bytes (eng0, fs1) (active_id eng0))
     else pos_file_id p = active_id eng0 + 1 \<and> unat (pos_offset p) = 0)"
  by (rule append_position) (use engine_inv0 in \<open>simp_all add: st0_def wf_record_def\<close>)

end
