(* ===== verification/Restart.thy ===== *)
theory Restart
  imports Reopen
begin

text \<open>
  Closing an engine: what it leaves in the directory, and what opening finds there afterwards.
\<close>

definition seq_record :: "nat \<Rightarrow> log_record" where
  "seq_record n = LogRecord_new (string_bytes SEQ_NO_KEY) (string_bytes (to_decimal n)) Normal"

text \<open>A call that adds bytes to one file, which it may create.\<close>

definition added_to :: "fs \<Rightarrow> fpath \<Rightarrow> bytes \<Rightarrow> fs \<Rightarrow> bool" where
  "added_to fs f bs fs' \<longleftrightarrow>
     (\<forall>g. file_data fs' g = (if g = f then file_data fs g @ bs else file_data fs g)) \<and>
     (\<forall>g. is_file fs' g \<longleftrightarrow> g = f \<or> is_file fs g) \<and>
     (\<forall>d. is_dir fs' d \<longleftrightarrow> is_dir fs d) \<and> (fs_wf fs \<longrightarrow> fs_wf fs')"

lemma added_toD:
  assumes "added_to fs f bs fs'"
  shows "file_data fs' g = (if g = f then file_data fs g @ bs else file_data fs g)"
    and "is_file fs' g \<longleftrightarrow> g = f \<or> is_file fs g" and "is_dir fs' d = is_dir fs d"
    and "fs_wf fs \<Longrightarrow> fs_wf fs'"
  using assms unfolding added_to_def by blast+

text \<open>
  What \<open>close\<close> does to the directory: a record with the sequence number at the end of its file,
  the lock gone.
\<close>

definition closed_fs :: "('s, 'b) env \<Rightarrow> ('s, 'b) engine \<Rightarrow> fs \<Rightarrow> fs \<Rightarrow> bool" where
  "closed_fs E e fs fs' \<longleftrightarrow>
     added_to fs (dir_path (eng_options e), SEQ_NO_FILE_NAME) (record_bytes E (seq_record (seq_no e))) fs' \<and>
     fs_locks fs' = filter (\<lambda>g. g \<noteq> lock_file e) (fs_locks fs)"

lemma closed_fsD:
  assumes "closed_fs E e fs fs'"
  shows "added_to fs (dir_path (eng_options e), SEQ_NO_FILE_NAME) (record_bytes E (seq_record (seq_no e))) fs'"
    and "fs_locks fs' = filter (\<lambda>g. g \<noteq> lock_file e) (fs_locks fs)"
  using assms by (simp_all add: closed_fs_def)

lemma wf_seq_record:
  assumes "n < 2 ^ 64"
  shows "wf_record (seq_record n)"
proof -
  have "n < 10 ^ Suc 19" using assms by simp
  from length_to_decimal [OF this] show ?thesis
    by (simp add: seq_record_def wf_record_def string_bytes_def SEQ_NO_KEY_def)
qed

lemma open_named_ok:
  assumes "os_ok E" "is_dir fs dir"
  shows "open_with_name E (dir, n) fid StandardFIO True fs =
    (Ok \<lparr>df_file_id = fid, df_write_off = 0, df_io = FileIO (dir, n)\<rparr>,
     if is_file fs (dir, n) then fs else put_file fs (dir, n) new_inode)"
  using assms new_io_manager_fio [OF assms(1), of fs "(dir, n)" True]
  by (simp add: open_with_name_def)

lemma named_fs:
  fixes n :: string
  assumes "is_dir fs dir"
  shows "added_to fs (dir, n) [] (if is_file fs (dir, n) then fs else put_file fs (dir, n) new_inode)"
    and "fs_locks (if is_file fs (dir, n) then fs else put_file fs (dir, n) new_inode) = fs_locks fs"
  using assms file_data_new [of fs "(dir, n)"]
  by (auto simp: added_to_def fs_simps new_inode_def fs_wf_put_file)

lemma added_to_trans: "added_to a f xs b \<Longrightarrow> added_to b f ys c \<Longrightarrow> added_to a f (xs @ ys) c"
  unfolding added_to_def by auto

lemma added_to_sync:
  assumes "added_to a f xs b"
  shows "added_to a f xs (snd (fio_sync E g b))"
  using assms unfolding added_to_def by (simp add: fio_sync_data)

text \<open>Writing to a file that is there, by a fresh handle.\<close>

lemma write_named:
  assumes "os_ok E" "is_file fs f" "en \<noteq> []" "length en < 2 ^ 64"
  obtains df fs' where "df_write E en (\<lparr>df_file_id = fid, df_write_off = 0, df_io = FileIO f\<rparr>, fs) =
      (Ok (length en), df, fs')"
    "added_to fs f en fs'" "fs_locks fs' = fs_locks fs"
proof -
  obtain i where i: "lookup_file fs f = Some i" "fdata i = file_data fs f"
    using lookup_file_Some [OF assms(2)] by blast
  have dir: "is_dir fs (fst f)" by (rule is_file_is_dir [OF assms(2)])
  let ?fs' = "put_file fs f (i\<lparr>fdata := fdata i @ en\<rparr>)"
  let ?df = "\<lparr>df_file_id = fid, df_write_off = 0, df_io = FileIO f\<rparr>"
  have "add_u64 0 (of_nat (length en)) = Ok (of_nat (length en))"
    using add_u64_of_nat(1) [of 0 "length en"] assms(4) by simp
  then have "df_write E en (?df, fs) = (Ok (length en), ?df\<lparr>df_write_off := of_nat (length en)\<rparr>, ?fs')"
    using fio_write_ok [OF assms(1) i(1), of en] assms(3) by (simp add: df_write_def)
  then show ?thesis
    by (rule that) (use dir i(2) assms(2) in \<open>auto simp: fs_simps added_to_def fs_wf_put_file\<close>)
qed

lemma close_ok:
  assumes ok: "crates_ok E" "os_ok E" and files: "files_inv (e, fs)"
    and seq: "seq_no e < 2 ^ 64"
  obtains fs' where "close E (e, fs) = (Ok (), e, fs')" "closed_fs E e fs fs'"
proof -
  let ?dir = "dir_path (eng_options e)" and ?r = "seq_record (seq_no e)"
  let ?sf = "(?dir, SEQ_NO_FILE_NAME)"
  have act: "is_file fs (data_path e (active_id e))" using files by (simp add: files_inv_def)
  then have dir: "is_dir fs ?dir" using is_file_is_dir [OF act] by simp
  have io: "df_io (active_file e) = FileIO (data_path e (active_id e))"
    using files by (simp add: files_inv_def handle_ok_def)
  have wf: "wf_record ?r" by (rule wf_seq_record [OF seq])
  note en = record_bytes_encode [OF ok(1) wf]
  have "record_bytes E ?r \<noteq> []" "length (record_bytes E ?r) < 2 ^ 64"
    using en(2) encoded_length_bounds [OF ok(1) wf] by auto
  note len = this
  define fs1 where "fs1 = (if is_file fs ?sf then fs else put_file fs ?sf new_inode)"
  note o1 = open_named_ok [OF ok(2) dir, of SEQ_NO_FILE_NAME 0, folded fs1_def]
  note f1 = named_fs [OF dir, of SEQ_NO_FILE_NAME, folded fs1_def]
  have sf1: "is_file fs1 ?sf" using added_toD(2) [OF f1(1)] by simp
  obtain df fs2 where w: "df_write E (record_bytes E ?r)
      (\<lparr>df_file_id = 0, df_write_off = 0, df_io = FileIO ?sf\<rparr>, fs1) = (Ok (length (record_bytes E ?r)), df, fs2)" and
    f2: "added_to fs1 ?sf (record_bytes E ?r) fs2" "fs_locks fs2 = fs_locks fs1"
    by (rule write_named [OF ok(2) sf1 len])
  obtain fs3 where s3: "fio_sync E ?sf fs2 = (Ok (), fs3)" using ok(2) by (simp add: fio_sync_def)
  obtain fs4 where s4: "fio_sync E (data_path e (active_id e)) fs3 = (Ok (), fs4)"
    using ok(2) by (simp add: fio_sync_def)
  have sync: "fs3 = snd (fio_sync E ?sf fs2)" "fs4 = snd (fio_sync E (data_path e (active_id e)) fs3)"
    by (simp_all add: s3 s4)
  have locks: "fs_locks fs4 = fs_locks fs"
    unfolding sync by (simp add: fio_sync_data f1(2) f2(2))
  let ?fs5 = "fs4\<lparr>fs_locks := filter (\<lambda>g. g \<noteq> lock_file e) (fs_locks fs)\<rparr>"
  have "\<not> unlock_fails E fs f" for fs f using ok(2) unfolding os_ok_def by blast
  then have "close E (e, fs) = (Ok (), e, ?fs5)"
    using dir o1 w en(1) s3 s4
    by (simp add: close_def Let_def new_seq_no_file_def seq_record_def df_sync_def io unlock_def locks)
  moreover have "closed_fs E e fs ?fs5"
  proof -
    have "added_to fs ?sf (record_bytes E ?r) fs4"
      using added_to_trans [OF f1(1) f2(1)] unfolding sync by (auto intro: added_to_sync)
    then show ?thesis by (simp add: closed_fs_def added_to_def)
  qed
  ultimately show ?thesis using that by blast
qed

text \<open>The directory still holds the same log, and can be opened: the lock is free.\<close>

lemma closed_disk_log:
  assumes "disk_log E (dir_path (eng_options e)) fs logs" "closed_fs E e fs fs'"
  shows "disk_log E (dir_path (eng_options e)) fs' logs"
proof (rule disk_log_frame [OF assms(1)])
  note d = added_toD [OF closed_fsD(1) [OF assms(2)]]
  show "file_data fs' (get_data_file_name (dir_path (eng_options e)) fid) =
      file_data fs (get_data_file_name (dir_path (eng_options e)) fid)" for fid
    using data_file_name_neq [OF not_data_names(2), of fid] by (simp add: d get_data_file_name_def)
  show "is_dir fs' x = is_dir fs x" for x by (rule d)
  show "fs_wf fs'" by (rule d(4)) (use assms(1) in \<open>simp add: disk_log_def\<close>)
qed (auto simp: added_toD(2) [OF closed_fsD(1) [OF assms(2)]])

lemma closed_reads:
  assumes "reads_inv E (e, fs)" "closed_fs E e fs fs'"
  shows "reads_inv E (e, fs')" and "file_bytes (e, fs') fid = file_bytes (e, fs) fid"
proof -
  have "data_path e fid \<noteq> (dir_path (eng_options e), SEQ_NO_FILE_NAME)" for fid
    using data_file_name_neq [OF not_data_names(2)] by (simp add: data_path_def get_data_file_name_def)
  then have bytes: "file_bytes (e, fs') fid = file_bytes (e, fs) fid" for fid
    by (simp add: file_bytes_def added_toD(1) [OF closed_fsD(1) [OF assms(2)]])
  then show "file_bytes (e, fs') fid = file_bytes (e, fs) fid" for fid .
  show "reads_inv E (e, fs')"
    using assms(1) by (simp add: reads_inv_def handles_inv_def entry_ok_def bytes)
qed

text \<open>Close and open: the keys and values are the same.\<close>

lemma restart_kv:
  assumes ok: "crates_ok E" "os_ok E" "skipmap_ok (skipmap E)"
    and opts: "check_options opts = Ok ()" "index_type opts \<noteq> BPlusTree"
      "dir_path opts = dir_path (eng_options e)"
    and inv: "engine_inv E (e, fs)" and log: "log_state E (e, fs) logs"
    and fit: "mmap_fit E opts logs" and seq: "seq_no e < 2 ^ 64"
    and lock: "lock_file e = (dir_path opts, FILE_LOCK_NAME)"
  shows "\<exists>fs1 e' fs'. close E (e, fs) = (Ok (), e, fs1) \<and>
    engine_open E opts fs1 = Some (Ok e', fs') \<and> reads_inv E (e', fs') \<and> kv E (e', fs') = kv E (e, fs)"
proof -
  have files: "files_inv (e, fs)" using inv by (simp add: engine_inv_def)
  obtain fs1 where fs1: "close E (e, fs) = (Ok (), e, fs1)" "closed_fs E e fs fs1"
    by (rule close_ok [OF ok(1,2) files seq])
  note reads = engine_inv_reads [OF inv]
  note reads1 = closed_reads [OF reads fs1(2)]
  have disk: "disk_log E (dir_path (eng_options e)) fs1 logs"
    using closed_disk_log [OF _ fs1(2)] log by (simp add: log_state_def log_files_def)
  then have log1: "log_state E (e, fs1) logs"
    using log by (simp add: log_state_def log_files_def)
  have free: "(dir_path opts, FILE_LOCK_NAME) \<notin> set (fs_locks fs1)"
    using closed_fsD(2) [OF fs1(2)] lock by simp
  obtain e' fs' where e': "engine_open E opts fs1 = Some (Ok e', fs')" "reads_inv E (e', fs')"
    "kv E (e', fs') = kv E (e, fs1)"
    using reopen_kv [OF ok opts reads1(1) log1 fit seq free] by blast
  have "get E k (e, fs1) = get E k (e, fs)" for k
    by (rule get_log_frame [OF ok(1,2) reads reads1(1)])
      (use reads1(2) in \<open>simp_all add: file_bytes_def\<close>)
  then have "kv E (e, fs1) = kv E (e, fs)" by (simp add: kv_def fun_eq_iff)
  then show ?thesis using fs1(1) e' by auto
qed

text \<open>
  A B+ tree database, which does not replay its log, finds the sequence number that \<open>close\<close>
  stored, and removes the file.
\<close>

lemma load_seq_no_closed:
  assumes ok: "crates_ok E" "os_ok E" and closed: "closed_fs E e fs fs'"
    and seq: "seq_no e < 2 ^ 64" and none: "\<not> is_file fs (dir_path (eng_options e), SEQ_NO_FILE_NAME)"
    and dir: "is_dir fs (dir_path (eng_options e))" "dir_path (eng_options e') = dir_path (eng_options e)"
  shows "load_seq_no E (e', fs') =
    (Ok (True, seq_no e), e', del_file fs' (dir_path (eng_options e), SEQ_NO_FILE_NAME))"
proof -
  let ?dir = "dir_path (eng_options e)" and ?r = "seq_record (seq_no e)"
  let ?sf = "(?dir, SEQ_NO_FILE_NAME)"
  have f: "is_file fs' ?sf" "file_data fs' ?sf = record_bytes E ?r" "is_dir fs' ?dir"
    using file_data_new [OF none] dir by (simp_all add: added_toD [OF closed_fsD(1) [OF closed]])
  have wf: "wf_record ?r" by (rule wf_seq_record [OF seq])
  note en = record_bytes_encode [OF ok(1) wf]
  have len: "length (record_bytes E ?r) < 2 ^ 64"
    using en(2) encoded_length_bounds [OF ok(1) wf] by auto
  have "record_at E (file_data fs' ?sf) (unat (0 :: u64)) ?r"
    by (rule record_atI [OF wf en(1), where pre = "[]" and post = "[]"]) (simp_all add: f)
  from fio.read_record_anywhere [OF ok(2,1) _ this] have
    rd: "read_log_record E fs' \<lparr>df_file_id = 0, df_write_off = 0, df_io = FileIO ?sf\<rparr> 0 =
      Ok \<lparr>rlr_record = ?r, rlr_size = encoded_length E ?r\<rparr>"
    using len by (simp add: read_log_record_def f)
  have "parse_usize (to_decimal (seq_no e)) = Some (seq_no e)"
    unfolding parse_usize_def by (rule parse_unsigned_to_decimal [OF seq])
  moreover have "\<not> remove_file_fails E fs' ?sf" using ok(2) unfolding os_ok_def by blast
  ultimately show ?thesis
    using f open_named_ok [OF ok(2) f(3), of SEQ_NO_FILE_NAME 0] rd
    by (simp add: load_seq_no_def Let_def new_seq_no_file_def dir(2) remove_file_def seq_record_def)
qed

end
