(* ===== verification/SafetyProps.thy ===== *)
theory SafetyProps
  imports EngineProps Restart
begin

text \<open>
  Properties of the engine at its borders: what is lost in a crash, refused and short writes,
  iteration, the lock of the directory, closing and opening.
\<close>

text \<open>C19: What a crash of the machine can lose is bounded.  With \<open>sync_writes\<close> every byte of every file
  is synced when \<open>put\<close> returns; with \<open>bytes_per_sync\<close> fewer bytes than that are not, and they are
  all in the active file.  The accounting behind it is kept by \<open>put\<close>.\<close>

theorem crash_loss_bounded:
  assumes "crates_ok E" "os_ok E" "engine_inv E (e, fs)" "sync_inv (e, fs)" "storable k v"
    and "unat (active_id e) + 1 < 2 ^ 32"
  shows "\<exists>e' fs'. put E k v (e, fs) = (Ok (), e', fs') \<and> sync_inv (e', fs') \<and>
    (sync_writes (eng_options e) \<longrightarrow> crash_loss (e', fs') = 0) \<and>
    (0 < bytes_per_sync (eng_options e) \<longrightarrow> crash_loss (e', fs') < bytes_per_sync (eng_options e))"
proof -
  obtain e' fs' where p: "put E k v (e, fs) = (Ok (), e', fs')" "engine_inv E (e', fs')"
    using put_ok [OF assms(1-3,5,6)] by blast
  have s: "sync_inv (e', fs')" "sync_writes (eng_options e) \<longrightarrow> crash_loss (e', fs') = 0"
    "eng_options e' = eng_options e"
    using put_sync [OF assms(1-3,5,6,4) p(1)] by blast+
  have "0 < bytes_per_sync (eng_options e) \<longrightarrow> crash_loss (e', fs') < bytes_per_sync (eng_options e)"
    using s crash_loss_bound [OF s(1)] p(2) by (cases "sync_writes (eng_options e)")
      (simp_all add: engine_inv_def)
  then show ?thesis using p(1) s by (intro exI [of _ e'] exI [of _ fs']) simp
qed

definition opts1 :: options where "opts1 = opts0\<lparr>bytes_per_sync := 16\<rparr>"

lemma crash_loss_bounded_witness:
  "\<exists>e fs. engine_open E0 opts1 no_fs = Some (Ok e, fs) \<and>
    (\<exists>e' fs'. put E0 [107] [118] (e, fs) = (Ok (), e', fs') \<and> sync_inv (e', fs') \<and>
      (sync_writes (eng_options e) \<longrightarrow> crash_loss (e', fs') = 0) \<and>
      (0 < bytes_per_sync (eng_options e) \<longrightarrow> crash_loss (e', fs') < bytes_per_sync (eng_options e)))"
proof -
  have o: "dir_path opts1 = dir0" "index_type opts1 = BTree" "data_file_size opts1 = 64"
    "bytes_per_sync opts1 = 16" by (simp_all add: opts1_def)
  have c: "check_options opts1 = Ok ()"
    using check_options0 by (simp add: check_options_def opts1_def split: if_splits)
  obtain e fs where e: "engine_open E0 opts1 no_fs = Some (Ok e, fs)" "engine_inv E0 (e, fs)"
    "log_state E0 (e, fs) [(0, [])]" "active_id e = 0"
    by (rule engine_open_new [where E = E0 and opts = opts1 and fs = no_fs and mp = "[''db-merge'']"])
      (simp_all add: c o no_fs_def is_dir_def fs_wf_def get_merge_path0)
  have "known_ids e = {0}" using e(3) by (simp add: log_state_def log_files_def)
  then have "fst ` set (older_files e) \<subseteq> {0}" by (auto simp: known_ids_def)
  moreover have "fid < active_id e" if "fid \<in> fst ` set (older_files e)" for fid
    using that e(2) by (auto simp: engine_inv_def files_inv_def)
  ultimately have older: "fst ` set (older_files e) = {}" using e(4) by fastforce
  have "file_data fs (data_path e 0) = log_bytes E0 []"
    using disk_log_file(2) [of E0 "dir_path (eng_options e)" fs "[(0, [])]" 0 "[]"] e(3)
    by (simp add: log_state_def log_files_def data_path_def)
  then have "unsynced fs (data_path e 0) = 0"
    by (simp add: unsynced_def file_data_def split: option.splits)
  then have "sync_inv (e, fs)" using older e(4) by (simp add: sync_inv_def)
  from crash_loss_bounded [OF crates_ok_E0 os_ok_E0 e(2) this, of "[107]" "[118]"] show ?thesis
    using e(1,4) by (auto simp: storable_def)
qed




text \<open>C24: \<open>list_keys\<close> lists the keys that have a value, each once, in ascending order.  An iterator yields
  the pairs of those keys with the prefix of its options, in ascending order or in descending order
  for a reverse one.  \<open>flod\<close> calls its function on all pairs in ascending order until it returns
  false.\<close>

theorem iteration_is_map:
  assumes "crates_ok E" "os_ok E" "engine_inv E st"
  shows "\<exists>ks. list_keys E st = Ok ks \<and> sorted_wrt (<) ks \<and> set ks = {k. kv E st k \<noteq> None} \<and>
    (\<forall>opts. \<exists>it. engine_iter E opts st = Ok it \<and>
       iterator_drain E st it =
         Ok (map (\<lambda>k. (k, the (kv E st k)))
              (filter (\<lambda>k. starts_with k (it_prefix opts)) (if it_reverse opts then rev ks else ks)))) \<and>
    flod E st f a = (Ok (), visit f (map (\<lambda>k. (k, the (kv E st k))) ks) a)"
proof -
  note reads = engine_inv_reads [OF assms(3)]
  obtain xs where xs: "index_items E (eng_index (fst st)) = Ok xs" "bt_ok xs"
    "\<forall>opts. engine_iter E opts st = Ok (iterator_new xs opts)"
    "\<forall>opts. iter_of E st (iterator_new xs opts)"
    "set xs = {(k, p). index_entries E (eng_index (fst st)) k = Some p}"
    by (rule engine_items [OF reads])
  note iter = xs(4) [rule_format]
  have idx: "index_inv E (eng_index (fst st))" using assms(3) by (simp add: engine_inv_def)
  have keys: "list_keys E st = Ok (map fst xs)"
    using ix.keys_law [OF idx] xs(1) by (simp add: list_keys_def)
  have "fst ` set xs = {k. kv E st k \<noteq> None}"
    using kv_indexed_iff [OF assms(1,2) reads] by (force simp: xs(5))
  then have set: "set (map fst xs) = {k. kv E st k \<noteq> None}" by simp
  have drain: "iter_drain (iterator_new xs opts) =
      filter (\<lambda>x. starts_with (fst x) (it_prefix opts)) (if it_reverse opts then rev xs else xs)" for opts
    by (simp add: iter_drain_filter iterator_new_def)
  have vals: "map (with_value E st) (filter (\<lambda>x. P (fst x)) ys) =
      map (\<lambda>k. (k, the (kv E st k))) (filter P (map fst ys))" for P ys
    by (simp add: filter_map comp_def with_value_def)
  have it: "iterator_drain E st (iterator_new xs opts) =
      Ok (map (\<lambda>k. (k, the (kv E st k))) (filter (\<lambda>k. starts_with k (it_prefix opts))
         (if it_reverse opts then rev (map fst xs) else map fst xs)))" for opts
    using iterator_drain_values [OF assms(1,2) reads iter]
      vals [of "\<lambda>k. starts_with k (it_prefix opts)"]
    by (simp add: drain rev_map)
  have "flod E st f a = (Ok (), visit f (map (\<lambda>k. (k, the (kv E st k))) (map fst xs)) a)"
    using flod_loop_visits [OF assms(1,2) reads iter [of IteratorOptions_default], of f a]
    by (simp add: flod_def xs(3) drain IteratorOptions_default_def comp_def with_value_def [abs_def])
  then show ?thesis
    using keys set xs(2,3) it by (intro exI [of _ "map fst xs"]) (auto simp: bt_ok_def)
qed

lemma iteration_is_map_witness:
  "\<exists>ks. list_keys E0 st0 = Ok ks \<and> sorted_wrt (<) ks \<and> set ks = {k. kv E0 st0 k \<noteq> None} \<and>
    (\<forall>opts. \<exists>it. engine_iter E0 opts st0 = Ok it \<and>
       iterator_drain E0 st0 it =
         Ok (map (\<lambda>k. (k, the (kv E0 st0 k)))
              (filter (\<lambda>k. starts_with k (it_prefix opts)) (if it_reverse opts then rev ks else ks)))) \<and>
    flod E0 st0 (\<lambda>k v n. (True, n + 1)) (0 :: nat) =
      (Ok (), visit (\<lambda>k v n. (True, n + 1)) (map (\<lambda>k. (k, the (kv E0 st0 k))) ks) 0)"
  by (rule iteration_is_map) (simp_all add: engine_inv0)


text \<open>C32: One engine at a time: while the lock of the directory is held, \<open>open\<close> fails with
  \<open>DatabaseIsUsing\<close>, takes no lock, and changes no file but the (empty) lock file.\<close>

theorem second_open_refused:
  assumes "check_options opts = Ok ()" "is_dir fs (dir_path opts)"
    and "\<not> open_fails E fs (dir_path opts, FILE_LOCK_NAME)"
    and "(dir_path opts, FILE_LOCK_NAME) \<in> set (fs_locks fs)"
  shows "\<exists>fs'. engine_open E opts fs = Some (Err DatabaseIsUsing, fs') \<and> fs_locks fs' = fs_locks fs \<and>
    (\<forall>f. f \<noteq> (dir_path opts, FILE_LOCK_NAME) \<longrightarrow> file_data fs' f = file_data fs f)"
proof -
  let ?f = "(dir_path opts, FILE_LOCK_NAME)"
  have "engine_open E opts fs = Some (Err DatabaseIsUsing, put_file fs ?f new_inode)"
    using assms by (simp add: engine_open_def take_lock_def Let_def)
  then show ?thesis by (auto simp: fs_simps)
qed

lemma second_open_refused_witness:
  "\<exists>fs'. engine_open E0 opts0 fs1 = Some (Err DatabaseIsUsing, fs') \<and> fs_locks fs' = fs_locks fs1 \<and>
    (\<forall>f. f \<noteq> (dir_path opts0, FILE_LOCK_NAME) \<longrightarrow> file_data fs' f = file_data fs1 f)"
proof (rule second_open_refused)
  show "(dir_path opts0, FILE_LOCK_NAME) \<in> set (fs_locks fs1)" by (simp add: fs1_def)
qed (simp_all add: check_options0 fs1_files)



text \<open>A B+ tree database does not replay its log; it learns the sequence number from the file that
  \<open>close\<close> writes: the number it loads is the one the closed engine had, and the file is removed.\<close>

lemma seq_no_survives_close:
  assumes "crates_ok E" "os_ok E" "files_inv (e, fs)" "seq_no e < 2 ^ 64"
    and "\<not> is_file fs (dir_path (eng_options e), SEQ_NO_FILE_NAME)"
    and "dir_path (eng_options e') = dir_path (eng_options e)"
  shows "\<exists>fs1 fs2. close E (e, fs) = (Ok (), e, fs1) \<and>
    load_seq_no E (e', fs1) = (Ok (True, seq_no e), e', fs2) \<and>
    \<not> is_file fs2 (dir_path (eng_options e), SEQ_NO_FILE_NAME)"
proof -
  obtain fs1 where c: "close E (e, fs) = (Ok (), e, fs1)" "closed_fs E e fs fs1"
    by (rule close_ok [OF assms(1-4)])
  have "is_file fs (data_path e (active_id e))" using assms(3) by (simp add: files_inv_def)
  from is_file_is_dir [OF this] have "is_dir fs (dir_path (eng_options e))" by simp
  from load_seq_no_closed [OF assms(1,2) c(2) assms(4,5) this assms(6)] c(1) show ?thesis
    by (auto simp: is_file_def lookup_del_file)
qed

lemma seq_no_survives_close_witness:
  "\<exists>fs' fs''. close E0 (eng0, fs1) = (Ok (), eng0, fs') \<and>
    load_seq_no E0 (eng0\<lparr>seq_no := 7\<rparr>, fs') = (Ok (True, seq_no eng0), eng0\<lparr>seq_no := 7\<rparr>, fs'') \<and>
    \<not> is_file fs'' (dir_path (eng_options eng0), SEQ_NO_FILE_NAME)"
proof (rule seq_no_survives_close)
  show "files_inv (eng0, fs1)" using files_inv0 by (simp add: st0_def)
  show "\<not> is_file fs1 (dir_path (eng_options eng0), SEQ_NO_FILE_NAME)"
    using data_file_name_neq [OF not_data_names(2), of 0]
    by (auto simp: fs1_files) (simp_all add: SEQ_NO_FILE_NAME_def FILE_LOCK_NAME_def)
qed simp_all

end
