(* ===== verification/BatchProps.thy ===== *)
theory BatchProps
  imports EngineProps Commit
begin

text \<open>
  Properties of write batches: what may be put in them, and that a commit does all of it or nothing.
\<close>

subsection \<open>Filling a batch\<close>

datatype batch_op = BPut bytes bytes | BDelete bytes

fun batch_step :: "('s, 'b) env \<Rightarrow> ('s, 'b) st \<Rightarrow> batch_op \<Rightarrow> write_batch \<Rightarrow> unit res \<times> write_batch" where
  "batch_step E st (BPut k v) b = batch_put k v b"
| "batch_step E st (BDelete k) b = batch_delete E st k b"

fun batch_fill :: "('s, 'b) env \<Rightarrow> ('s, 'b) st \<Rightarrow> batch_op list \<Rightarrow> write_batch \<Rightarrow> unit res \<times> write_batch" where
  "batch_fill E st [] b = (Ok (), b)"
| "batch_fill E st (x # xs) b = and_then (batch_step E st x b) (\<lambda>_ b. batch_fill E st xs b)"

text \<open>The same operations done one after the other on the map.\<close>

fun apply_op :: "batch_op \<Rightarrow> (bytes \<Rightarrow> bytes option) \<Rightarrow> bytes \<Rightarrow> bytes option" where
  "apply_op (BPut k v) m = m(k \<mapsto> v)"
| "apply_op (BDelete k) m = m(k := None)"

primrec batch_op_fits :: "batch_op \<Rightarrow> bool" where
  "batch_op_fits (BPut k v) \<longleftrightarrow> loggable k v"
| "batch_op_fits (BDelete k) \<longleftrightarrow> loggable k []"

definition view_map :: "write_batch \<Rightarrow> (bytes \<Rightarrow> bytes option) \<Rightarrow> bytes \<Rightarrow> bytes option" where
  "view_map b m k = (case batch_view b k of None \<Rightarrow> m k | Some v \<Rightarrow> v)"

lemma batch_fill_ok:
  assumes "crates_ok E" "os_ok E" "engine_inv E st" "batch_ok b" "list_all batch_op_fits xs"
  shows "\<exists>b'. batch_fill E st xs b = (Ok (), b') \<and> batch_ok b' \<and> wb_options b' = wb_options b \<and>
    view_map b' (kv E st) = fold apply_op xs (view_map b (kv E st))"
  using assms(4,5)
proof (induction xs arbitrary: b)
  case (Cons x xs)
  have "\<exists>b1. batch_step E st x b = (Ok (), b1) \<and> batch_ok b1 \<and> wb_options b1 = wb_options b \<and>
      view_map b1 (kv E st) = apply_op x (view_map b (kv E st))"
  proof (cases x)
    case (BPut k v)
    then show ?thesis
      using batch_put_ok [of b k v] Cons.prems by (auto simp: view_map_def fun_eq_iff)
  next
    case (BDelete k)
    then have k: "loggable k []" using Cons.prems(2) by simp
    from batch_delete_ok [OF assms(1-3) Cons.prems(1) k] obtain b1 v where
      b1: "batch_delete E st k b = (Ok (), b1)" "batch_ok b1" "wb_options b1 = wb_options b"
        "batch_view b1 = (batch_view b)(k := v)"
        "v = (if kv E st k = None \<and> batch_view b k \<noteq> None then None else Some None)"
      by blast
    have "view_map b1 (kv E st) = (view_map b (kv E st))(k := None)"
      using b1(5) by (auto simp: view_map_def b1(4) fun_eq_iff)
    then show ?thesis using b1 BDelete by simp
  qed
  with Cons show ?case by fastforce
qed auto

subsection \<open>Properties\<close>

text \<open>C4: A batch is equivalent to its operations: filling a new batch with any sequence of \<open>put\<close>s and
  \<open>delete\<close>s and committing it succeeds, and the map then is what these operations make of it when
  they run one after the other.  The sequence number is used up and the batch is empty again.\<close>

theorem commit_applies_all:
  assumes "crates_ok E" "os_ok E" "hash_ok E" "engine_inv E (e, fs)"
    and "list_all batch_op_fits xs" "seq_no e + 1 < 2 ^ 64"
    and "batch_fill E (e, fs) xs \<lparr>pending_write = [], wb_options = opts\<rparr> = (r, b)"
    and "pending_write b \<noteq> []" "length (pending_write b) \<le> max_batch_num opts"
    and "unat (active_id e) + length (pending_write b) + 1 < 2 ^ 32"
  shows "r = Ok () \<and> (\<exists>e' fs'. commit E b (e, fs) = (Ok (), b\<lparr>pending_write := []\<rparr>, e', fs') \<and>
    engine_inv E (e', fs') \<and> seq_no e' = seq_no e + 1 \<and>
    kv E (e', fs') = fold apply_op xs (kv E (e, fs)))"
proof -
  let ?b0 = "\<lparr>pending_write = [], wb_options = opts\<rparr>"
  obtain b' where b': "batch_fill E (e, fs) xs ?b0 = (Ok (), b')" "batch_ok b'" "wb_options b' = opts"
    "view_map b' (kv E (e, fs)) = fold apply_op xs (view_map ?b0 (kv E (e, fs)))"
    using batch_fill_ok [OF assms(1,2,4) new_batch_ok assms(5)] by (metis write_batch.select_convs(2))
  then have b: "r = Ok ()" "b' = b" using assms(7) by simp_all
  have v0: "view_map ?b0 (kv E (e, fs)) = kv E (e, fs)" by (simp add: view_map_def batch_view_def fun_eq_iff)
  have len: "length (pending_write b) \<le> max_batch_num (wb_options b)"
    using assms(9) b'(3) b(2) by simp
  obtain e' fs' where c: "commit E b (e, fs) = (Ok (), b\<lparr>pending_write := []\<rparr>, e', fs')"
    "engine_inv E (e', fs')" "kv E (e', fs') = view_map b (kv E (e, fs))" "seq_no e' = seq_no e + 1"
    using commit_ok [OF assms(1-4) b'(2) [unfolded b(2)] assms(8) len assms(6,10)]
    unfolding view_map_def by blast
  then show ?thesis using b(1) b'(4) v0 unfolding b(2) by simp
qed

definition batch_opts0 :: write_batch_options where
  "batch_opts0 = \<lparr>max_batch_num = 10, wb_sync_writes = True\<rparr>"

definition batch_ops0 :: "batch_op list" where
  "batch_ops0 = [BPut [1] [5], BPut [2] [6], BDelete [1], BPut [2] [7], BDelete [3]]"

definition batch0 :: write_batch where
  "batch0 = \<lparr>pending_write = [([2], LogRecord_new [2] [7] Normal), ([3], LogRecord_new [3] [] Delete)],
            wb_options = batch_opts0\<rparr>"

lemma batch_fill0:
  "batch_fill E0 (eng0, fs1) batch_ops0 \<lparr>pending_write = [], wb_options = batch_opts0\<rparr> = (Ok (), batch0)"
proof -
  have "get E0 k (eng0, fs1) = Err KeyNotFound" if "k \<noteq> []" for k
    using that by (simp add: get_def btree_get_def)
  then show ?thesis by (simp add: batch_ops0_def batch_put_def batch_delete_def batch0_def Let_def)
qed

lemma commit_applies_all_witness:
  "Ok () = Ok () \<and> (\<exists>e' fs'. commit E0 batch0 (eng0, fs1) = (Ok (), batch0\<lparr>pending_write := []\<rparr>, e', fs') \<and>
    engine_inv E0 (e', fs') \<and> seq_no e' = seq_no eng0 + 1 \<and>
    kv E0 (e', fs') = fold apply_op batch_ops0 (kv E0 (eng0, fs1)))"
proof (rule commit_applies_all [where opts = batch_opts0])
  show "engine_inv E0 (eng0, fs1)" using engine_inv0 by (simp add: st0_def)
  show "batch_fill E0 (eng0, fs1) batch_ops0 \<lparr>pending_write = [], wb_options = batch_opts0\<rparr> = (Ok (), batch0)"
    by (rule batch_fill0)
qed (simp_all add: batch_ops0_def batch0_def batch_opts0_def loggable_def)

end
