(* ===== verification/Session.thy ===== *)
theory Session
  imports Reopen Restart
begin

text \<open>
  The life of a database as a step relation: it is created, written to by \<open>put\<close> and by committed
  batches, its process is killed at any moment between two calls or inside a commit, and it is
  opened again.  \<open>db_run E opts m st\<close> says that \<open>st\<close> can be reached, and that \<open>m\<close> is the map its
  history stands for.
\<close>

definition after_batch :: "write_batch \<Rightarrow> (bytes \<Rightarrow> bytes option) \<Rightarrow> bytes \<Rightarrow> bytes option" where
  "after_batch b m k = (case batch_view b k of None \<Rightarrow> m k | Some v \<Rightarrow> v)"

text \<open>A commit that is cut off after its first \<open>j\<close> records.\<close>

definition cut_commit :: "('s, 'b) env \<Rightarrow> nat \<Rightarrow> write_batch \<Rightarrow> ('s, 'b) st \<Rightarrow> ('s, 'b) st" where
  "cut_commit E j b st =
     (let seq = seq_no (fst st) in
      snd (append_items E seq (take j (pending_items E b)) []
             (on_engine (\<lambda>e. e\<lparr>seq_no := fetch_add seq 1\<rparr>) st)))"

text \<open>What the environment and the options have to satisfy.\<close>

definition setting :: "('s, 'b) env \<Rightarrow> options \<Rightarrow> bool" where
  "setting E opts \<longleftrightarrow>
     crates_ok E \<and> os_ok E \<and> hash_ok E \<and> skipmap_ok (skipmap E) \<and>
     check_options opts = Ok () \<and> index_type opts \<noteq> BPlusTree \<and> \<not> mmap_at_startup opts \<and>
     unat (data_file_size opts) \<le> 2 ^ 63 \<and> bytes_per_sync opts \<le> 2 ^ 63"

definition new_place :: "options \<Rightarrow> fs \<Rightarrow> bool" where
  "new_place opts fs \<longleftrightarrow>
     \<not> is_dir fs (dir_path opts) \<and> fs_wf fs \<and>
     (\<exists>mp. get_merge_path (dir_path opts) = Ok mp \<and> \<not> is_dir fs mp) \<and>
     (dir_path opts, FILE_LOCK_NAME) \<notin> set (fs_locks fs)"

definition room :: "nat \<Rightarrow> ('s, 'b) st \<Rightarrow> bool" where
  "room n st \<longleftrightarrow> unat (active_id (fst st)) + n < 2 ^ 32 \<and> seq_no (fst st) + 1 < 2 ^ 64"

definition batch_fits :: "write_batch \<Rightarrow> ('s, 'b) st \<Rightarrow> bool" where
  "batch_fits b st \<longleftrightarrow>
     batch_ok b \<and> pending_write b \<noteq> [] \<and> length (pending_write b) \<le> max_batch_num (wb_options b) \<and>
     room (length (pending_write b) + 1) st"

text \<open>The process is gone: the locks it held are free, everything else stays.\<close>

definition killed :: "fs \<Rightarrow> fs" where
  "killed fs = fs\<lparr>fs_locks := []\<rparr>"

inductive db_run ::
  "('s, 'b) env \<Rightarrow> options \<Rightarrow> (bytes \<Rightarrow> bytes option) \<Rightarrow> ('s, 'b) st \<Rightarrow> bool" for E opts where
  create: "new_place opts fs \<Longrightarrow> engine_open E opts fs = Some (Ok e, fs') \<Longrightarrow>
    db_run E opts Map.empty (e, fs')"
| stored: "db_run E opts m st \<Longrightarrow> loggable k v \<Longrightarrow> room 1 st \<Longrightarrow>
    db_run E opts (m(k \<mapsto> v)) (snd (put E k v st))"
| committed: "db_run E opts m st \<Longrightarrow> batch_fits b st \<Longrightarrow>
    db_run E opts (after_batch b m) (snd (snd (commit E b st)))"
| restart: "db_run E opts m (e, fs) \<Longrightarrow> older_files e = [] \<Longrightarrow> room 0 (e, fs) \<Longrightarrow>
    engine_open E opts (killed fs) = Some (Ok e', fs') \<Longrightarrow> db_run E opts m (e', fs')"
| crash: "db_run E opts m (e, fs) \<Longrightarrow> batch_fits b (e, fs) \<Longrightarrow> cut_commit E j b (e, fs) = (e1, fs1) \<Longrightarrow>
    older_files e1 = [] \<Longrightarrow> room 0 (e1, fs1) \<Longrightarrow>
    engine_open E opts (killed fs1) = Some (Ok e', fs') \<Longrightarrow> db_run E opts m (e', fs')"

inductive_cases db_runE: "db_run E opts m st"

text \<open>The simulation relation.\<close>

definition db_inv :: "('s, 'b) env \<Rightarrow> options \<Rightarrow> (bytes \<Rightarrow> bytes option) \<Rightarrow> ('s, 'b) st \<Rightarrow> bool" where
  "db_inv E opts m st \<longleftrightarrow>
     engine_inv E st \<and> (\<exists>logs. log_state E st logs) \<and> eng_options (fst st) = opts \<and> kv E st = m"

lemma settingD:
  assumes "setting E opts"
  shows "crates_ok E" "os_ok E" "hash_ok E" "skipmap_ok (skipmap E)" "check_options opts = Ok ()"
    "index_type opts \<noteq> BPlusTree" "unat (data_file_size opts) \<le> 2 ^ 63" "bytes_per_sync opts \<le> 2 ^ 63"
    "mmap_fit E opts logs"
  using assms by (simp_all add: setting_def mmap_fit_def)

lemma cut_commit_ok:
  assumes S: "setting E opts" and inv: "db_inv E opts m (e, fs)" and b: "batch_fits b (e, fs)"
    and cut: "cut_commit E j b (e, fs) = (e1, fs1)"
  shows "db_inv E opts m (e1, fs1)" and "seq_no e1 = seq_no e + 1"
proof -
  note ok = settingD(1-3) [OF S]
  let ?seq = "seq_no e" and ?items = "take j (pending_items E b)"
  let ?e = "e\<lparr>seq_no := Suc ?seq\<rparr>"
  have bok: "batch_ok b" and r: "room (length (pending_write b) + 1) (e, fs)"
    using b by (simp_all add: batch_fits_def)
  note items = pending_items_props [OF bok ok(3)]
  have rec: "rec_type r \<noteq> TxnFinished \<and> loggable (rec_key r) (rec_value r)" if "r \<in> set ?items" for r
    using in_set_takeD [OF that] items(2) batch_okD [OF bok] by blast
  have seq: "?seq + 1 < 2 ^ 64" "?seq < 2 ^ 64" using r by (simp_all add: room_def)
  obtain en where en: "encode_length_delimiter E ?seq = Some en"
    using encode_delimiter_total [OF ok(1) seq(2)] .
  have inv0: "engine_inv E (?e, fs)" "kv E (?e, fs) = m" using inv by (simp_all add: db_inv_def)
  then have files: "files_inv (?e, fs)" "bw_ok ?e" by (simp_all add: engine_inv_def)
  have "length ?items \<le> length (pending_write b)" using items(3) by simp
  then have id: "unat (active_id ?e) + length ?items < 2 ^ 32" using r by (simp add: room_def)
  have lg: "\<forall>r \<in> set ?items. loggable (rec_key r) (rec_value r)" using rec by blast
  from append_items_ok [OF ok(1,2) en seq(2) files lg id, of "[]"] cut obtain ps where
    a: "length ps = length ?items" "files_inv (e1, fs1)" "bw_ok e1" "grows fs fs1" "same_index ?e e1"
      "\<forall>logs. log_files E (?e, fs) logs \<longrightarrow> (\<exists>logs'. log_files E (e1, fs1) logs' \<and>
         log_entries E logs' = log_entries E logs @ zip ps (map (txn_rec en) ?items))"
    using seq(1) by (auto simp: cut_commit_def Let_def fetch_add_def)
  note inv1 = engine_inv_frame [OF ok(1,2) inv0(1) a(2,4,5,3)]
  have e1: "seq_no e1 = Suc ?seq" "eng_index e1 = eng_index e" "eng_options e1 = eng_options e"
    using a(5) by (simp_all add: same_index_def)
  obtain logs where logs: "log_state E (e, fs) logs" using inv by (auto simp: db_inv_def)
  obtain m' txns cur where rep: "replay E (log_entries E logs) = (m', txns, cur)"
    by (cases "replay E (log_entries E logs)")
  have st: "m' = index_entries E (eng_index e)" "cur < ?seq" "\<And>n. ?seq \<le> n \<Longrightarrow> txns n = []"
    and lf: "log_files E (?e, fs) logs"
    using logs by (simp_all add: log_state_def replays_to_def rep)
  obtain logs' where l': "log_files E (e1, fs1) logs'"
    "log_entries E logs' = log_entries E logs @ zip ps (map (txn_rec en) ?items)"
    using a(6) lf by blast
  have "?seq \<noteq> 0" using st(2) by simp
  have "\<forall>r \<in> set ?items. rec_type r \<noteq> TxnFinished" using rec by blast
  from replay_txn_items [OF ok(1) en \<open>?seq \<noteq> 0\<close> this a(1), of m' txns cur] obtain cur' where
    f: "fold (replay_step E) (zip ps (map (txn_rec en) ?items)) (m', txns, cur) =
      (m', txns(?seq := txns ?seq @ map2 (\<lambda>r p. (rec_key r, rec_type r, p)) ?items ps), cur')"
      "cur' \<le> max cur ?seq" by blast
  have "replay E (log_entries E logs') =
      (m', txns(?seq := txns ?seq @ map2 (\<lambda>r p. (rec_key r, rec_type r, p)) ?items ps), cur')"
    unfolding l'(2) replay_append rep f(1) ..
  then have "replays_to E e1 logs'"
    using st f(2) by (auto simp: replays_to_def e1)
  then have "log_state E (e1, fs1) logs'" using l'(1) by (simp add: log_state_def)
  then show "db_inv E opts m (e1, fs1)"
    using inv1 inv0(2) inv e1(3) by (auto simp: db_inv_def)
  show "seq_no e1 = seq_no e + 1" by (simp add: e1(1))
qed

text \<open>Opening what a killed process left.\<close>

lemma killed_reads:
  assumes ok: "crates_ok E" "os_ok E" and inv: "engine_inv E (e, fs)" and log: "log_state E (e, fs) logs"
  shows "reads_inv E (e, killed fs)" "log_state E (e, killed fs) logs" "kv E (e, killed fs) = kv E (e, fs)"
proof -
  have sel: "file_data (killed fs) f = file_data fs f" for f by (simp add: killed_def)
  note reads = engine_inv_reads [OF inv]
  then show reads': "reads_inv E (e, killed fs)"
    by (simp add: reads_inv_def handles_inv_def entry_ok_def file_bytes_def sel)
  show "log_state E (e, killed fs) logs"
    using log by (simp add: log_state_def log_files_def killed_def)
  have "get E k (e, killed fs) = get E k (e, fs)" for k
    by (rule get_log_frame [OF ok reads reads']) (simp_all add: sel)
  then show "kv E (e, killed fs) = kv E (e, fs)" by (simp add: kv_def fun_eq_iff)
qed

text \<open>A killed database always opens again, with the map its history stands for.\<close>

lemma db_inv_reopens:
  assumes S: "setting E opts" and inv: "db_inv E opts m (e, fs)" and r: "room 0 (e, fs)"
  obtains e' fs' where "engine_open E opts (killed fs) = Some (Ok e', fs')" "kv E (e', fs') = m"
proof -
  note s = settingD [OF S]
  have ei: "engine_inv E (e, fs)" "eng_options e = opts" "kv E (e, fs) = m"
    using inv by (simp_all add: db_inv_def)
  obtain logs where logs: "log_state E (e, fs) logs" using inv by (auto simp: db_inv_def)
  note k = killed_reads [OF s(1,2) ei(1) logs]
  have seq: "seq_no e < 2 ^ 64" using r by (simp add: room_def)
  have dir: "dir_path opts = dir_path (eng_options e)" by (simp add: ei(2))
  have "(dir_path opts, FILE_LOCK_NAME) \<notin> set (fs_locks (killed fs))" by (simp add: killed_def)
  from reopen_kv [OF s(1,2,4-6) dir k(1,2) s(9) seq this] obtain e' fs' where
    "engine_open E opts (killed fs) = Some (Ok e', fs')" "kv E (e', fs') = kv E (e, killed fs)" by blast
  then show ?thesis using that k(3) ei(3) by simp
qed

text \<open>With a single data file the whole invariant holds again.\<close>

lemma single_file_log:
  assumes "log_state E (e, fs) logs" "older_files e = []"
  obtains fid rs where "logs = [(fid, rs)]"
proof -
  have "known_ids e = {active_id e}" using assms(2) by (simp add: known_ids_def)
  moreover have "known_ids e = fst ` set logs"
    using assms(1) unfolding log_state_def log_files_def fst_conv by blast
  ultimately have "fst ` set logs = {active_id e}" by simp
  moreover have "sorted_wrt (<) (map fst logs)"
    using assms(1) by (simp add: log_state_def log_files_def disk_log_def)
  moreover have "length logs = card (fst ` set logs)"
    using calculation(2) by (metis distinct_card length_map list.set_map strict_sorted_iff)
  ultimately have "length logs = 1" by simp
  then show ?thesis using that by (cases logs) auto
qed

lemma db_inv_restart:
  assumes S: "setting E opts" and inv: "db_inv E opts m (e, fs)" and r: "room 0 (e, fs)"
    and one: "older_files e = []" and opened: "engine_open E opts (killed fs) = Some (Ok e', fs')"
  shows "db_inv E opts m (e', fs')"
proof -
  note s = settingD [OF S]
  have ei: "engine_inv E (e, fs)" "eng_options e = opts" "kv E (e, fs) = m"
    using inv by (simp_all add: db_inv_def)
  obtain logs where logs: "log_state E (e, fs) logs" using inv by (auto simp: db_inv_def)
  obtain fid rs where l: "logs = [(fid, rs)]" using single_file_log [OF logs one] .
  note k = killed_reads [OF s(1,2) ei(1) logs]
  have seq: "seq_no e < 2 ^ 64" using r by (simp add: room_def)
  have dir: "dir_path opts = dir_path (eng_options e)" by (simp add: ei(2))
  have free: "(dir_path opts, FILE_LOCK_NAME) \<notin> set (fs_locks (killed fs))" by (simp add: killed_def)
  obtain e2 fs2 where e2: "engine_open E opts (killed fs) = Some (Ok e2, fs2)" "engine_inv E (e2, fs2)"
    "kv E (e2, fs2) = kv E (e, killed fs)" "log_state E (e2, fs2) [(fid, rs)]" "eng_options e2 = opts"
    by (rule reopen_one_file [OF s(1,2,4-6) dir s(7,8) k(1) k(2) [unfolded l] seq free])
  then show ?thesis using opened k(3) ei(3) by (auto simp: db_inv_def)
qed

text \<open>Every reachable state is in the simulation relation.\<close>

lemma db_run_inv:
  assumes S: "setting E opts" and run: "db_run E opts m st"
  shows "db_inv E opts m st"
  using run
proof (induction rule: db_run.induct)
  case (create fs e fs')
  note s = settingD [OF S]
  obtain mp where n: "\<not> is_dir fs (dir_path opts)" "fs_wf fs" "get_merge_path (dir_path opts) = Ok mp"
    "\<not> is_dir fs mp" "(dir_path opts, FILE_LOCK_NAME) \<notin> set (fs_locks fs)"
    using create(1) by (auto simp: new_place_def)
  obtain e1 fs1 where "engine_open E opts fs = Some (Ok e1, fs1)" "engine_inv E (e1, fs1)"
    "kv E (e1, fs1) = Map.empty" "log_state E (e1, fs1) [(0, [])]" "eng_options e1 = opts"
    by (rule engine_open_new [OF s(1,2,4-8) n])
  then show ?case using create(2) by (auto simp: db_inv_def)
next
  case (stored m st k v)
  note s = settingD [OF S]
  obtain e fs where st: "st = (e, fs)" by (cases st)
  have inv: "engine_inv E (e, fs)" "kv E (e, fs) = m" "eng_options e = opts"
    using stored.IH by (simp_all add: db_inv_def st)
  obtain logs where logs: "log_state E (e, fs) logs" using stored.IH by (auto simp: db_inv_def st)
  have id: "unat (active_id e) + 1 < 2 ^ 32" using stored(3) by (simp add: room_def st)
  obtain e' fs' where p: "put E k v (e, fs) = (Ok (), e', fs')" "engine_inv E (e', fs')"
    "kv E (e', fs') = (kv E (e, fs))(k \<mapsto> v)" "eng_options e' = eng_options e"
    using put_ok [OF s(1,2) inv(1) loggable_storable [OF stored(2)] id] by blast
  from put_log [OF s(1,2) inv(1) logs stored(2) id p(1)] show ?case
    using p inv(2,3) by (simp add: db_inv_def st fun_eq_iff)
next
  case (committed m st b)
  note s = settingD [OF S]
  obtain e fs where st: "st = (e, fs)" by (cases st)
  have inv: "engine_inv E (e, fs)" "kv E (e, fs) = m" "eng_options e = opts"
    using committed.IH by (simp_all add: db_inv_def st)
  have b: "batch_ok b" "pending_write b \<noteq> []" "length (pending_write b) \<le> max_batch_num (wb_options b)"
    "seq_no e + 1 < 2 ^ 64" "unat (active_id e) + length (pending_write b) + 1 < 2 ^ 32"
    using committed(2) by (simp_all add: batch_fits_def room_def st)
  from commit_ok [OF s(1-3) inv(1) b] committed.IH inv(2,3) show ?case
    by (auto simp: db_inv_def st after_batch_def)
next
  case (restart m e fs e' fs')
  show ?case by (rule db_inv_restart [OF S restart.IH restart(3,2,4)])
next
  case (crash m e fs b j e1 fs1 e' fs')
  from cut_commit_ok(1) [OF S crash.IH crash(2,3)] show ?case
    by (rule db_inv_restart [OF S _ crash(5,4,6)])
qed

end
