(* ===== verification/RecoveryProps.thy ===== *)
theory RecoveryProps
  imports BatchProps Session
begin

text \<open>
  Properties of opening a database: it returns, it finds what was written, a cut-off commit leaves
  no trace; and what the code loses on the way.
\<close>

text \<open>C16: \<open>Engine::open\<close> returns for every content of the directory, every option and every behaviour
  of the operating system: none of the loops over hint and data files runs forever.\<close>

theorem open_returns:
  assumes "crates_ok E"
  shows "\<exists>r fs'. engine_open E opts fs = Some (r, fs')"
  using engine_open_total [OF assms, of opts fs] by auto

lemma open_returns_witness: "\<exists>r fs'. engine_open E0 opts0 fs0 = Some (r, fs')"
  by (rule open_returns) simp


lemma setting0: "setting E0 opts0"
  by (simp add: setting_def check_options0)

lemma new_place0: "new_place opts0 no_fs"
  using get_merge_path0 by (simp add: new_place_def no_fs_def is_dir_def fs_wf_def)

lemma db_run0:
  obtains e fs where "db_run E0 opts0 Map.empty (e, fs)" "active_id e = 0" "seq_no e = 1"
proof -
  obtain e fs where "engine_open E0 opts0 no_fs = Some (Ok e, fs)" "active_id e = 0" "seq_no e = 1"
    by (rule engine_open_new [where E = E0 and opts = opts0 and fs = no_fs and mp = "[''db-merge'']"])
      (simp_all add: check_options0 no_fs_def is_dir_def fs_wf_def get_merge_path0)
  then show ?thesis using that db_run.create [OF new_place0] by blast
qed


text \<open>C3: A commit is atomic across crashes.  However many of its records were written when the process
  was killed, but not the last one, the database opens again without any of its writes; when the
  commit has returned, it opens with all of them.\<close>

theorem commit_is_atomic:
  assumes "setting E opts" "db_run E opts m (e, fs)" "batch_fits b (e, fs)"
    and "cut_commit E j b (e, fs) = (e1, fsa)" "commit E b (e, fs) = (r, b', e2, fsb)"
    and "room 0 (e1, fsa)" "room 0 (e2, fsb)"
  shows "(\<exists>e' fs'. engine_open E opts (killed fsa) = Some (Ok e', fs') \<and> kv E (e', fs') = m) \<and>
    r = Ok () \<and> (\<exists>e' fs'. engine_open E opts (killed fsb) = Some (Ok e', fs') \<and>
      kv E (e', fs') = after_batch b m)"
proof -
  note inv = db_run_inv [OF assms(1,2)]
  note s = settingD [OF assms(1)]
  have cut: "db_inv E opts m (e1, fsa)" by (rule cut_commit_ok(1) [OF assms(1) inv assms(3,4)])
  have "db_run E opts (after_batch b m) (e2, fsb)"
    using db_run.committed [OF assms(2,3)] assms(5) by simp
  from db_run_inv [OF assms(1) this] have full: "db_inv E opts (after_batch b m) (e2, fsb)" .
  have i: "engine_inv E (e, fs)" using inv by (simp add: db_inv_def)
  have b: "batch_ok b" "pending_write b \<noteq> []" "length (pending_write b) \<le> max_batch_num (wb_options b)"
    "seq_no e + 1 < 2 ^ 64" "unat (active_id e) + length (pending_write b) + 1 < 2 ^ 32"
    using assms(3) by (simp_all add: batch_fits_def room_def)
  have "r = Ok ()" using commit_ok [OF s(1-3) i b] assms(5) by auto
  moreover have "\<exists>e' fs'. engine_open E opts (killed fsa) = Some (Ok e', fs') \<and> kv E (e', fs') = m"
    by (rule db_inv_reopens [OF assms(1) cut assms(6)]) blast
  moreover have "\<exists>e' fs'. engine_open E opts (killed fsb) = Some (Ok e', fs') \<and> kv E (e', fs') = after_batch b m"
    by (rule db_inv_reopens [OF assms(1) full assms(7)]) blast
  ultimately show ?thesis by blast
qed

lemma commit_is_atomic_witness:
  "\<exists>e fs e1 fsa r b' e2 fsb. cut_commit E0 1 batch0 (e, fs) = (e1, fsa) \<and>
    commit E0 batch0 (e, fs) = (r, b', e2, fsb) \<and>
    (\<exists>e' fs'. engine_open E0 opts0 (killed fsa) = Some (Ok e', fs') \<and> kv E0 (e', fs') = Map.empty) \<and>
    r = Ok () \<and> (\<exists>e' fs'. engine_open E0 opts0 (killed fsb) = Some (Ok e', fs') \<and>
      kv E0 (e', fs') = after_batch batch0 Map.empty)"
proof -
  obtain e fs where e: "db_run E0 opts0 Map.empty (e, fs)" "active_id e = 0" "seq_no e = 1" by (rule db_run0)
  note inv = db_run_inv [OF setting0 e(1)]
  have ei: "engine_inv E0 (e, fs)" using inv by (simp add: db_inv_def)
  have b: "batch_ok batch0" "pending_write batch0 \<noteq> []" "length (pending_write batch0) = 2"
    "length (pending_write batch0) \<le> max_batch_num (wb_options batch0)"
    by (simp_all add: batch_ok_def batch0_def loggable_def batch_opts0_def)
  have fits: "batch_fits batch0 (e, fs)" using b by (simp add: batch_fits_def room_def e)
  obtain e1 fsa where c1: "cut_commit E0 1 batch0 (e, fs) = (e1, fsa)" by fastforce
  note s1 = cut_commit_ok [OF setting0 inv fits c1]
  obtain e2 fsb where c2: "commit E0 batch0 (e, fs) = (Ok (), batch0\<lparr>pending_write := []\<rparr>, e2, fsb)"
    "unat (active_id e2) \<le> 3" "seq_no e2 = 2"
    using commit_ok [OF crates_ok_E0 os_ok_E0 hash_ok_E0 ei b(1,2,4)] b(3) by (auto simp: e)
  have "unat (active_id e1) < 2 ^ 32" using unsigned_less [of "active_id e1"] by simp
  then have r1: "room 0 (e1, fsa)" and r2: "room 0 (e2, fsb)" using s1(2) c2(2,3) by (simp_all add: room_def e)
  from commit_is_atomic [OF setting0 e(1) fits c1 c2(1) r1 r2] c1 c2(1) show ?thesis by blast
qed

end
