(* ===== verification/Defects.thy ===== *)
theory Defects
  imports RecoveryProps FormatProps
begin

text \<open>
  Behaviour of the code that its comments or its own tests speak against, stated as theorems.
\<close>

text \<open>C33: A deletion is not durable.  \<open>delete\<close> writes its tombstone with the plain key, where every other
  record has a sequence number in front of the key; the replay takes the first bytes of the key for
  that number and files the tombstone under a transaction that never ends.  After \<open>delete\<close> the key
  is gone, but when the database is opened again all keys have the values they had before it.\<close>

theorem deleted_key_returns:
  assumes S: "setting E opts" and inv: "engine_inv E (e, fs)" and log: "log_state E (e, fs) logs"
    and opts: "eng_options e = opts" and r: "room 1 (e, fs)" and k: "loggable k []" and some: "kv E (e, fs) k = Some v"
    and dec: "decode_length_delimiter E k = Some (n, rest)" "n \<noteq> 0" "n + 1 < 2 ^ 64" "rest \<noteq> []"
  shows "\<exists>e1 fsa e' fs'. delete E k (e, fs) = (Ok (), e1, fsa) \<and> kv E (e1, fsa) k = None \<and>
    engine_open E opts (killed fsa) = Some (Ok e', fs') \<and> kv E (e', fs') = kv E (e, fs)"
proof -
  note s = settingD [OF S]
  let ?r = "LogRecord_new k [] Delete"
  have ne: "k \<noteq> []" and len: "length k < 2 ^ 32" using k by (simp_all add: loggable_def)
  have parse: "parse_log_record_key E k = Ok (rest, n)" using dec(1) by (simp add: parse_log_record_key_def)
  have "length_delimiter_len E (length k) \<le> 5" "length_delimiter_len E 0 \<le> 5"
    using k by (auto intro!: delimiter_len_le_5 [OF s(1)] simp: loggable_def)
  then have good: "good_record E ?r"
    using k ne parse dec(4) by (simp add: good_record_def wf_record_def encoded_length_def loggable_def)
  have files: "files_inv (e, fs)" "bw_ok e" and idx: "index_inv E (eng_index e)" using inv by (simp_all add: engine_inv_def)
  have id: "unat (active_id e) + 1 < 2 ^ 32" using r by (simp add: room_def)
  from append_logged [OF s(1,2) files good id] obtain p ea fsa where
    ap: "append_log_record E ?r (e, fs) = (Ok p, ea, fsa)" and
    g: "grows fs fsa" and same: "same_index e ea" and
    grow: "\<forall>logs. log_files E (e, fs) logs \<longrightarrow>
       (\<exists>logs'. log_files E (ea, fsa) logs' \<and> log_entries E logs' = log_entries E logs @ [(p, ?r)])"
    by metis
  obtain logs' where l': "log_files E (ea, fsa) logs'" "log_entries E logs' = log_entries E logs @ [(p, ?r)]"
    using grow log by (auto simp: log_state_def)
  obtain e1 fs1' where del: "delete E k (e, fs) = (Ok (), e1, fs1')" "kv E (e1, fs1') = (kv E (e, fs))(k := None)"
    using delete_ok [OF s(1,2) inv ne len id] by blast
  obtain old where old: "index_entries E (eng_index e) k = Some old"
    using kv_indexed_iff [OF s(1,2) engine_inv_reads [OF inv], of k] some by auto
  have fs1': "fs1' = fsa"
    using del(1) ap ix.get_law [OF idx, of k] old ne
    by (auto simp: delete_def Let_def and_then_eq_Ok split: prod.splits)
  have disk: "disk_log E (dir_path opts) (killed fsa) logs'" and nel: "logs' \<noteq> []"
    using l'(1) same opts by (simp_all add: log_files_def same_index_def killed_def)
  have free: "(dir_path opts, FILE_LOCK_NAME) \<notin> set (fs_locks (killed fsa))" by (simp add: killed_def)
  obtain txns cur where rep: "replay E (log_entries E logs) = (index_entries E (eng_index e), txns, cur)" "cur < seq_no e"
    using log by (cases "replay E (log_entries E logs)") (auto simp: log_state_def replays_to_def)
  have rep': "replay E (log_entries E logs') =
      (index_entries E (eng_index e), txns(n := txns n @ [(rest, Delete, p)]), max cur n)"
    using parse dec(2) by (simp add: l'(2) replay_append rep NON_TRANSACTION_SEQ_NO_def)
  have "max cur n + 1 < 2 ^ 64" using rep(2) dec(3) r by (simp add: room_def)
  moreover have "\<exists>tail. file_data (killed fsa) (dir_path opts, data_file_name fid) = file_bytes (e, fs) fid @ tail" for fid
    using g by (auto simp: grows_def killed_def file_bytes_def data_path_def get_data_file_name_def opts)
  ultimately have "\<exists>e' fs'. engine_open E opts (killed fsa) = Some (Ok e', fs') \<and> reads_inv E (e', fs') \<and>
      kv E (e', fs') = kv E (e, fs)"
    by (rule open_log_kv [OF s(1,2,4-6) disk nel s(9) free rep' _ engine_inv_reads [OF inv]])
  then show ?thesis using del unfolding fs1' by auto
qed

lemma deleted_key_returns_witness:
  "\<exists>e fs e1 fsa e' fs'. kv E0 (e, fs) [107, 49] = Some [118] \<and>
    delete E0 [107, 49] (e, fs) = (Ok (), e1, fsa) \<and> kv E0 (e1, fsa) [107, 49] = None \<and>
    engine_open E0 opts0 (killed fsa) = Some (Ok e', fs') \<and> kv E0 (e', fs') = kv E0 (e, fs)"
proof -
  obtain e0 fs0 where e0: "db_run E0 opts0 Map.empty (e0, fs0)" "active_id e0 = 0" "seq_no e0 = 1" by (rule db_run0)
  have kv0: "loggable [107, 49] [118]" by (simp add: loggable_def)
  have ei: "engine_inv E0 (e0, fs0)" using db_run_inv [OF setting0 e0(1)] by (simp add: db_inv_def)
  have st: "storable [107, 49] [118]" by (rule loggable_storable [OF kv0])
  have "unat (active_id e0) + 1 < 2 ^ 32" by (simp add: e0)
  from put_ok [OF crates_ok_E0 os_ok_E0 ei st this] obtain e fs where
    p0: "put E0 [107, 49] [118] (e0, fs0) = (Ok (), e, fs)"
      "unat (active_id e) \<le> unat (active_id e0) + 1" "seq_no e = seq_no e0" by blast
  then have p: "put E0 [107, 49] [118] (e0, fs0) = (Ok (), e, fs)" "unat (active_id e) \<le> 1" "seq_no e = 1"
    by (simp_all add: e0)
  have "room 1 (e0, fs0)" by (simp add: room_def e0)
  from db_run.stored [OF e0(1) kv0 this] have "db_run E0 opts0 [[107, 49] \<mapsto> [118]] (e, fs)"
    by (simp only: p(1) snd_conv)
  from db_run_inv [OF setting0 this] obtain logs where
    d: "engine_inv E0 (e, fs)" "log_state E0 (e, fs) logs" "eng_options e = opts0"
      "kv E0 (e, fs) = [[107, 49] \<mapsto> [118]]" by (auto simp: db_inv_def)
  have "decode_length_delimiter E0 [107, 49] = Some (107, [49])" by simp
  moreover have "room 1 (e, fs)" "loggable [107, 49] []" "kv E0 (e, fs) [107, 49] = Some [118]"
    using p(2,3) d(4) by (simp_all add: room_def loggable_def)
  ultimately have "\<exists>e1 fsa e' fs'. delete E0 [107, 49] (e, fs) = (Ok (), e1, fsa) \<and>
      kv E0 (e1, fsa) [107, 49] = None \<and>
      engine_open E0 opts0 (killed fsa) = Some (Ok e', fs') \<and> kv E0 (e', fs') = kv E0 (e, fs)"
    using deleted_key_returns [OF setting0 d(1-3), of "[107, 49]" "[118]" 107 "[49]"] by simp
  then show ?thesis using \<open>kv E0 (e, fs) [107, 49] = Some [118]\<close> by blast
qed

text \<open>C38: After opening a directory of two or more data files, the active file is the one with the
  lowest id (the loop that moves the older files aside takes them from the end of the list), while
  its write offset is the length of the file with the highest id.\<close>

theorem open_activates_lowest_file:
  assumes "setting E opts" "disk_log E (dir_path opts) fs logs" "2 \<le> length logs"
    and "(dir_path opts, FILE_LOCK_NAME) \<notin> set (fs_locks fs)"
    and "replay E (log_entries E logs) = (m, txns, cur)" "cur + 1 < 2 ^ 64"
  shows "\<exists>e fs'. engine_open E opts fs = Some (Ok e, fs') \<and>
    active_id e = fst (hd logs) \<and> (\<forall>fid \<in> fst ` set (tl logs). active_id e < fid) \<and>
    fst ` set (older_files e) = fst ` set (tl logs) \<and>
    df_write_off (active_file e) = of_nat (log_length E (snd (last logs)))"
proof -
  note s = settingD [OF assms(1)]
  have ne: "logs \<noteq> []" using assms(3) by auto
  obtain e where e: "engine_open E opts fs = Some (Ok e, locked_fs (dir_path opts) fs)"
    "opened_engine E opts logs cur e"
    using engine_open_log [OF s(1,2,4-6) assms(2) ne s(9) assms(4-6)] by blast
  have "sorted_wrt (<) (map fst logs)" using assms(2) by (simp add: disk_log_def)
  then have "\<forall>fid \<in> fst ` set (tl logs). fst (hd logs) < fid" using ne by (cases logs) auto
  then show ?thesis using e by (simp add: opened_engine_def)
qed

definition two_files :: fs where
  "two_files = \<lparr>fs_dirs = [dir0 \<mapsto> [(data_file_name 0, new_inode),
     (data_file_name 1, \<lparr>fdata = record_bytes E0 short_rec, fsynced = 0\<rparr>)]], fs_locks = []\<rparr>"

lemma good_short_rec: "good_record E0 short_rec"
  by (simp add: good_record_def short_rec_def wf_record_def encoded_length_def leb128_len.simps
      parse_log_record_key_def)

lemma disk_log_two_files: "disk_log E0 dir0 two_files [(0, []), (1, [short_rec])]"
proof (rule disk_log_dir0)
  have ne: "data_file_name 0 \<noteq> data_file_name 1" by simp
  show "fs_wf two_files" using ne by (simp add: fs_wf_def two_files_def)
  show "is_dir two_files dir0" "\<not> is_dir two_files [''db-merge'']"
    by (simp_all add: two_files_def is_dir_def dir0_def)
  show "n = FILE_LOCK_NAME \<or> n \<in> data_file_name ` fst ` set [(0, []), (1, [short_rec])]"
    if "is_file two_files (dir0, n)" for n
    using that by (auto simp: two_files_def is_file_def lookup_file_def split: if_splits)
  show "is_file two_files (get_data_file_name dir0 fid) \<and>
      file_data two_files (get_data_file_name dir0 fid) = log_bytes E0 rs \<and>
      list_all (good_record E0) rs \<and> log_length E0 rs \<le> 2 ^ 63"
    if "(fid, rs) \<in> set [(0, []), (1, [short_rec])]" for fid rs
    using that good_short_rec
    by (auto simp: two_files_def is_file_def file_data_def lookup_file_def get_data_file_name_def
        new_inode_def encoded_length_def short_rec_def leb128_len.simps)
qed simp

lemma open_activates_lowest_file_witness:
  "\<exists>e fs'. engine_open E0 opts0 two_files = Some (Ok e, fs') \<and>
    active_id e = fst (hd [(0, []), (1, [short_rec])]) \<and>
    (\<forall>fid \<in> fst ` set (tl [(0, []), (1, [short_rec])]). active_id e < fid) \<and>
    fst ` set (older_files e) = fst ` set (tl [(0, []), (1, [short_rec])]) \<and>
    df_write_off (active_file e) = of_nat (log_length E0 (snd (last [(0, []), (1, [short_rec])])))"
proof -
  have disk: "disk_log E0 (dir_path opts0) two_files [(0, []), (1, [short_rec])]"
    using disk_log_two_files by simp
  obtain m txns cur where rep: "replay E0 (log_entries E0 [(0, []), (1, [short_rec])]) = (m, txns, cur)"
    by (cases "replay E0 (log_entries E0 [(0, []), (1, [short_rec])])")
  have "cur = 0"
    using rep by (simp add: replay_def short_rec_def parse_log_record_key_def NON_TRANSACTION_SEQ_NO_def)
  then have "cur + 1 < 2 ^ 64" by simp
  moreover have "(dir_path opts0, FILE_LOCK_NAME) \<notin> set (fs_locks two_files)" by (simp add: two_files_def)
  ultimately show ?thesis using open_activates_lowest_file [OF setting0 disk _ _ rep] by simp
qed


lemma collect_file_ids_corrupted:
  assumes "n \<in> set names" "ends_with n DATA_FILE_NAME_SUFFIX" "parse_u32 (split_dot_0 n) = None"
  shows "collect_file_ids names = Err DataDirectoryCorrupted"
  using assms(1)
proof (induction names)
  case (Cons a names)
  then show ?case using assms(2,3) by (auto split: option.split)
qed simp

text \<open>A data file whose name is no number stops the database from opening, with
  \<open>DataDirectoryCorrupted\<close>; the lock is free again afterwards.\<close>

lemma corrupted_name_reported:
  assumes "os_ok E" "check_options opts = Ok ()" "is_dir fs (dir_path opts)" "fs_wf fs"
    and "get_merge_path (dir_path opts) = Ok mp" "\<not> is_dir fs mp"
    and "(dir_path opts, FILE_LOCK_NAME) \<notin> set (fs_locks fs)"
    and "is_file fs (dir_path opts, n)" "ends_with n DATA_FILE_NAME_SUFFIX" "parse_u32 (split_dot_0 n) = None"
  shows "\<exists>fs'. engine_open E opts fs = Some (Err DataDirectoryCorrupted, fs') \<and>
    (dir_path opts, FILE_LOCK_NAME) \<notin> set (fs_locks fs')"
proof -
  let ?dir = "dir_path opts" and ?fs = "locked_fs (dir_path opts) fs"
  have d: "is_dir ?fs ?dir" "fs_wf ?fs" "\<not> is_dir ?fs mp" "is_file ?fs (?dir, n)"
    using assms(3,4,6,8) by (simp_all add: locked_fs_frame)
  obtain names where names: "read_dir E ?fs ?dir = Some names" "\<And>n. n \<in> set names \<longleftrightarrow> is_file ?fs (?dir, n)"
    by (rule read_dir_names [OF assms(1) d(1,2)]) blast
  have "collect_file_ids names = Err DataDirectoryCorrupted"
    by (rule collect_file_ids_corrupted [OF _ assms(9,10)]) (simp add: names(2) d(4))
  moreover have "load_merge_files E ?dir ?fs = (Ok (), ?fs)"
    using assms(5) d(3) by (simp add: load_merge_files_def)
  ultimately have "open_files E opts False (?dir, FILE_LOCK_NAME) ?fs = (Err DataDirectoryCorrupted, ?fs)"
    using names(1) by (simp add: open_files_def load_data_files_def Let_def)
  then have "engine_open E opts fs = Some (Err DataDirectoryCorrupted, drop_lock (?dir, FILE_LOCK_NAME) ?fs)"
    using assms(2,3) take_lock_ok [OF assms(1,3,7)] by (simp add: engine_open_def open_locked_def Let_def)
  then show ?thesis by (simp add: drop_lock_def)
qed

definition bad_dir :: fs where
  "bad_dir = \<lparr>fs_dirs = [dir0 \<mapsto> [(''x.data'', new_inode)]], fs_locks = []\<rparr>"

lemma corrupted_name_reported_witness:
  "\<exists>fs'. engine_open E0 opts0 bad_dir = Some (Err DataDirectoryCorrupted, fs') \<and>
    (dir_path opts0, FILE_LOCK_NAME) \<notin> set (fs_locks fs')"
proof (rule corrupted_name_reported [where n = "''x.data''" and mp = "[''db-merge'']"])
  show "get_merge_path (dir_path opts0) = Ok [''db-merge'']" using get_merge_path0 by simp
  show "parse_u32 (split_dot_0 ''x.data'') = None"
    by (simp add: split_dot_0_def parse_u32_def parse_unsigned_def char_digit_def)
  show "ends_with ''x.data'' DATA_FILE_NAME_SUFFIX" by (simp add: ends_with_def DATA_FILE_NAME_SUFFIX_def)
qed (simp_all add: check_options0 bad_dir_def is_dir_def is_file_def lookup_file_def fs_wf_def dir0_def)

text \<open>The range check of \<open>data_file_merge_ratio\<close> lets a NaN pass: every comparison with it is
  false.\<close>

lemma nan_ratio_accepted:
  assumes "f32_is_nan (data_file_merge_ratio opts)" "dir_path opts \<noteq> []" "data_file_size opts \<noteq> 0"
  shows "check_options opts = Ok ()"
  using assms by (simp add: check_options_def f32_less_def)

lemma nan_ratio_accepted_witness: "check_options (opts0\<lparr>data_file_merge_ratio := 0x7FC00000\<rparr>) = Ok ()"
  by (rule nan_ratio_accepted) (simp_all add: f32_is_nan_def dir0_def)

text \<open>Opening an existing empty directory as a B+ tree database gives an engine that refuses write
  batches: the lock file is created before the entries of the directory are counted, so the
  directory is never found empty.  Only a directory that \<open>open\<close> itself creates counts as new.\<close>

lemma empty_dir_refuses_batches:
  assumes "os_ok E" "check_options opts = Ok ()" "index_type opts = BPlusTree"
    and "fs_dirs fs (dir_path opts) = Some []" "fs_wf fs"
    and "get_merge_path (dir_path opts) = Ok mp" "\<not> is_dir fs mp"
    and "(dir_path opts, FILE_LOCK_NAME) \<notin> set (fs_locks fs)"
    and "jm_open (jammdb E) (dir_path opts) = Some b"
  shows "\<exists>e fs'. engine_open E opts fs = Some (Ok e, fs') \<and> \<not> is_initial e \<and>
    new_write_batch bopts e = Err UnableToUserWriteBatch"
proof -
  let ?dir = "dir_path opts" and ?fs = "locked_fs (dir_path opts) fs" and ?i = "BPlusTreeIndex b"
  have dir: "is_dir fs ?dir" using assms(4) by (simp add: is_dir_def)
  have none: "\<not> is_file fs (?dir, n)" for n using assms(4) by (simp add: is_file_def lookup_file_def)
  have disk: "disk_log E ?dir fs []"
    using dir none assms(5-7) by (simp add: disk_log_def)
  note disk' = disk_log_locked [OF disk]
  have i: "new_indexer E (index_type opts) ?dir = Ok ?i"
    by (simp add: new_indexer_def assms(3,9) BPlusTree_new_def)
  obtain names where names: "read_dir E ?fs ?dir = Some names" "\<And>n. n \<in> set names \<longleftrightarrow> is_file ?fs (?dir, n)"
    by (rule read_dir_names [OF assms(1), of ?fs ?dir]) (use disk' in \<open>auto simp: disk_log_def\<close>)
  have "FILE_LOCK_NAME \<in> set names" using dir by (simp add: names(2) locked_fs_frame)
  then have "names \<noteq> []" by auto
  have others: "\<not> ends_with n DATA_FILE_NAME_SUFFIX" if "n \<in> set names" for n
    using that dir none by (auto simp: names(2) locked_fs_frame)
  have "collect_file_ids names = Ok []"
    using others by (induction names) auto
  then have "open_files E opts False (?dir, FILE_LOCK_NAME) ?fs =
      (Ok (fresh_engine opts False ?i), fresh_fs ?dir fs)"
    using names(1) i \<open>names \<noteq> []\<close> open_standard [OF assms(1), of ?fs ?dir 0] no_data_files [OF disk_log_data [OF disk'], of 0] disk'
      pop_older_files.simps [of "[]" "[]"]
    by (simp add: open_files_def load_merge_files_none [OF disk_log_no_merge [OF disk']] load_data_files_def
        fresh_engine_def fresh_fs_def fresh_file_def INITIAL_FILE_ID_def Let_def disk_log_def)
  moreover have "\<not> is_file (fresh_fs ?dir fs) (?dir, SEQ_NO_FILE_NAME)"
    using none data_file_name_neq [OF not_data_names(2), of 0, THEN not_sym]
    by (simp add: fresh_fs_frame [OF dir] get_data_file_name_def SEQ_NO_FILE_NAME_def FILE_LOCK_NAME_def)
  ultimately obtain e where "engine_open E opts fs = Some (Ok e, fresh_fs ?dir fs)"
    "is_initial e = False" "seq_file_exists e = False" "eng_options e = opts"
    using assms(2,3) dir take_lock_ok [OF assms(1) dir assms(8)]
    by (simp add: engine_open_def open_locked_def load_engine_def load_seq_no_def Let_def)
      (simp add: fresh_engine_def new_engine_def)
  then show ?thesis using assms(3) by (auto simp: new_write_batch_def)
qed

lemma empty_dir_refuses_batches_witness:
  "\<exists>e fs'. engine_open E0 (opts0\<lparr>index_type := BPlusTree\<rparr>) fs0 = Some (Ok e, fs') \<and> \<not> is_initial e \<and>
    new_write_batch batch_opts0 e = Err UnableToUserWriteBatch"
proof (rule empty_dir_refuses_batches [where mp = "[''db-merge'']" and b = RBT.empty])
  show "check_options (opts0\<lparr>index_type := BPlusTree\<rparr>) = Ok ()"
    using check_options0 by (simp add: check_options_def split: if_splits)
  show "get_merge_path (dir_path (opts0\<lparr>index_type := BPlusTree\<rparr>)) = Ok [''db-merge'']"
    using get_merge_path0 by simp
  show "jm_open (jammdb E0) (dir_path (opts0\<lparr>index_type := BPlusTree\<rparr>)) = Some RBT.empty"
    by (simp add: E0_def)
qed (simp_all add: fs0_def fs_wf_def is_dir_def dir0_def)

end
