(* ===== verification/Merge.thy ===== *)
theory Merge
  imports Load
begin

text \<open>
  Model of \<open>Engine::merge\<close> of \<^verbatim>\<open>bitcask-rs/src/merge.rs\<close>, with what it calls: the records the index
  still points to are rewritten by a second engine in the merge directory, with a hint file.  What
  opening the database does with that directory is in \<open>Load\<close>.
\<close>

subsection \<open>\<open>f32\<close> of integers and their quotients\<close>

fun bit_len :: "nat \<Rightarrow> nat" where
  "bit_len n = (if n = 0 then 0 else Suc (bit_len (n div 2)))"

declare bit_len.simps [simp del]

definition round_half_even :: "nat \<Rightarrow> nat \<Rightarrow> nat" where
  "round_half_even a b =
     (let q = a div b; r = a mod b in if 2 * r < b \<or> 2 * r = b \<and> even q then q else Suc q)"

text \<open>
  The nearest \<open>f32\<close> to \<open>a / b\<close>, both positive, when it is a normal number: the scale is chosen
  such that the quotient has 24 bits.  A quotient that rounds up to \<open>2 ^ 24\<close> carries into the
  exponent.
\<close>

definition f32_fraction :: "nat \<Rightarrow> nat \<Rightarrow> f32" where
  "f32_fraction a b =
     (let e0 = int (bit_len a) - int (bit_len b) - 24;
          e = (if a * 2 ^ nat (- e0) < 2 ^ 24 * (b * 2 ^ nat e0) then e0 else e0 + 1);
          m = round_half_even (a * 2 ^ nat (- e)) (b * 2 ^ nat e)
      in of_nat (nat (e + 150) * 2 ^ 23 + (m - 2 ^ 23)))"

definition f32_of_nat :: "nat \<Rightarrow> f32" where
  "f32_of_nat n = (if n = 0 then 0 else f32_fraction n 1)"

definition f32_mantissa :: "f32 \<Rightarrow> nat" where
  "f32_mantissa x = 2 ^ 23 + unat x mod 2 ^ 23"

definition f32_exponent :: "f32 \<Rightarrow> nat" where
  "f32_exponent x = unat x div 2 ^ 23"

text \<open>The quotient of two numbers that are zero or positive and normal.\<close>

definition f32_div :: "f32 \<Rightarrow> f32 \<Rightarrow> f32" where
  "f32_div x y =
     (if y = 0 then (if x = 0 then 0x7FC00000 else 0x7F800000)
      else if x = 0 then 0
      else f32_fraction (f32_mantissa x * 2 ^ (f32_exponent x - f32_exponent y))
                        (f32_mantissa y * 2 ^ (f32_exponent y - f32_exponent x)))"

subsection \<open>The files to merge\<close>

definition is_empty_engine :: "('s, 'b) engine \<Rightarrow> bool" where
  "is_empty_engine e \<longleftrightarrow> df_write_off (active_file e) = 0 \<and> older_files e = []"

fun open_merge_files :: "'z os_scheme \<Rightarrow> path \<Rightarrow> u32 list \<Rightarrow> fs \<Rightarrow> data_file list res \<times> fs" where
  "open_merge_files E dir [] fs = (Ok [], fs)"
| "open_merge_files E dir (fid # fids) fs =
     and_then (DataFile_new E dir fid StandardFIO fs) (\<lambda>data_file fs.
     and_then (open_merge_files E dir fids fs) (\<lambda>data_files fs. (Ok (data_file # data_files), fs)))"

text \<open>The active file becomes an old one; the files up to it, in ascending order, are merged.\<close>

definition ratate_merge_files :: "('s, 'b) env \<Rightarrow> ('s, 'b) st \<Rightarrow> data_file list res \<times> ('s, 'b) st" where
  "ratate_merge_files E st =
     (let dir = dir_path (eng_options (fst st));
          merge_file_ids = map fst (older_files (fst st));
          active_file_id = df_file_id (active_file (fst st))
      in and_then (on_fs (df_sync E (active_file (fst st))) st) (\<lambda>_ st.
         and_then (add_u32 active_file_id 1, st) (\<lambda>new_id st.
         and_then (on_fs (DataFile_new E dir new_id StandardFIO) st) (\<lambda>new_active_file st.
         let st = on_engine (\<lambda>e. e\<lparr>active_file := new_active_file\<rparr>) st
         in and_then (on_fs (DataFile_new E dir active_file_id StandardFIO) st) (\<lambda>old_file st.
            let st = on_engine (\<lambda>e. e\<lparr>older_files :=
                       AList.update active_file_id old_file (older_files e)\<rparr>) st
            in on_fs (open_merge_files E dir (sort (merge_file_ids @ [active_file_id]))) st)))))"

subsection \<open>Rewriting the live records\<close>

text \<open>The state of the loop: the hint file, and the engine of the merge directory with the file system.\<close>

type_synonym ('s, 'b) merge_st = "data_file \<times> ('s, 'b) st"

definition on_merge_db ::
  "(('s, 'b) st \<Rightarrow> 'a res \<times> ('s, 'b) st) \<Rightarrow> ('s, 'b) merge_st \<Rightarrow> 'a res \<times> ('s, 'b) merge_st" where
  "on_merge_db op s = (case s of (hint_file, st) \<Rightarrow> (case op st of (r, st) \<Rightarrow> (r, hint_file, st)))"

definition on_hint_file ::
  "(data_file \<times> fs \<Rightarrow> 'a res \<times> data_file \<times> fs) \<Rightarrow> ('s, 'b) merge_st \<Rightarrow> 'a res \<times> ('s, 'b) merge_st" where
  "on_hint_file op s =
     (case s of (hint_file, e, fs) \<Rightarrow>
        (case op (hint_file, fs) of (r, hint_file, fs) \<Rightarrow> (r, hint_file, e, fs)))"

definition merge_record ::
  "('s, 'b) env \<Rightarrow> ('s, 'b) index \<Rightarrow> u32 \<Rightarrow> u64 \<Rightarrow> read_log_record \<Rightarrow> ('s, 'b) merge_st \<Rightarrow>
   unit res \<times> ('s, 'b) merge_st" where
  "merge_record E idx fid offset rlr s =
     and_then (parse_log_record_key E (rec_key (rlr_record rlr)), s) (\<lambda>(real_key, _) s.
     and_then (index_get E idx real_key, s) (\<lambda>index_pos s.
       if (case index_pos of
             None \<Rightarrow> False
           | Some p \<Rightarrow> pos_file_id p = fid \<and> pos_offset p = offset)
       then
         and_then (log_record_key_with_seq E real_key NON_TRANSACTION_SEQ_NO, s) (\<lambda>enc_key s.
         and_then (on_merge_db (append_log_record E ((rlr_record rlr)\<lparr>rec_key := enc_key\<rparr>)) s)
           (\<lambda>log_record_pos s.
         on_hint_file (write_hint_record E real_key log_record_pos) s))
       else (Ok (), s)))"

fun merge_files ::
  "('s, 'b) env \<Rightarrow> ('s, 'b) index \<Rightarrow> data_file list \<Rightarrow> ('s, 'b) merge_st \<Rightarrow>
   (unit res \<times> ('s, 'b) merge_st) option" where
  "merge_files E idx [] s = Some (Ok (), s)"
| "merge_files E idx (data_file # data_files) s =
     loop_then (scan_log (\<lambda>s. read_log_record E (snd (snd s)) data_file)
                  (merge_record E idx (df_file_id data_file)) 0 s) (\<lambda>_ s.
       merge_files E idx data_files s)"

text \<open>
  The engine of the merge directory lives from here to its \<open>drop\<close>, on every early return of the
  loop too; a panic while it is dropped on the way of an error is a panic.
\<close>

definition rewrite_live ::
  "('s, 'b) env \<Rightarrow> ('s, 'b) index \<Rightarrow> data_file list \<Rightarrow> path \<Rightarrow> options \<Rightarrow> fs \<Rightarrow>
   (unit res \<times> fs) option" where
  "rewrite_live E idx data_files merge_path opts fs =
     loop_then (Some (new_hint_file E merge_path fs)) (\<lambda>hint_file fs.
     loop_then (engine_open E opts fs) (\<lambda>merge_db fs.
       map_option (\<lambda>s.
         case and_then s (\<lambda>_ s.
              and_then (on_merge_db (engine_sync E) s) (\<lambda>_ s.
              on_merge_db (on_fs (df_sync E (fst s))) s)) of
           (r, _, st) \<Rightarrow>
             (case drop_engine E st of
                (r', fs) \<Rightarrow> (if r = Panic then Panic else res_bind r' (\<lambda>_. r), fs)))
         (merge_files E idx data_files (hint_file, merge_db, fs))))"

subsection \<open>\<open>Engine::merge\<close>\<close>

definition prepare_merge_dir :: "'z os_scheme \<Rightarrow> path \<Rightarrow> fs \<Rightarrow> unit res \<times> fs" where
  "prepare_merge_dir E merge_path fs =
     and_then (if is_dir fs merge_path
               then (case remove_dir_all E merge_path fs of
                       (True, fs) \<Rightarrow> (Ok (), fs)
                     | (False, fs) \<Rightarrow> (Err FailedToDeleteDatabaseDir, fs))
               else (Ok (), fs)) (\<lambda>_ fs.
       case create_dir_all E merge_path fs of
         (True, fs) \<Rightarrow> (Ok (), fs)
       | (False, fs) \<Rightarrow> (Err FailedToCreateDatabaseDir, fs))"

definition write_merge_finished :: "'z os_scheme \<Rightarrow> path \<Rightarrow> u32 \<Rightarrow> fs \<Rightarrow> unit res \<times> fs" where
  "write_merge_finished E merge_path non_merge_file_id fs =
     and_then (new_merge_fin_file E merge_path fs) (\<lambda>merge_fin_file fs.
     let merge_fin_record = LogRecord_new (string_bytes MERGE_FIN_KEY)
           (string_bytes (to_decimal (unat non_merge_file_id))) Normal
     in and_then (LogRecord_encode E merge_fin_record, fs) (\<lambda>enc_record fs.
        and_then (case df_write E enc_record (merge_fin_file, fs) of (r, _, fs) \<Rightarrow> (r, fs)) (\<lambda>_ fs.
          df_sync E merge_fin_file fs)))"

definition merge_db_opts :: "options \<Rightarrow> path \<Rightarrow> options" where
  "merge_db_opts opts merge_path =
     (Options_default [])\<lparr>dir_path := merge_path, data_file_size := data_file_size opts, mmap_at_startup := False\<rparr>"

text \<open>From the merge directory to the \<open>merge-finished\<close> file.\<close>

definition merge_to :: "('s, 'b) env \<Rightarrow> path \<Rightarrow> ('s, 'b) st \<Rightarrow> (unit res \<times> ('s, 'b) st) option" where
  "merge_to E merge_path st =
     loop_then (Some (on_fs (prepare_merge_dir E merge_path) st)) (\<lambda>_ st.
     loop_then (Some (ratate_merge_files E st)) (\<lambda>merge_files st.
     loop_then (map_option (\<lambda>(r, fs). (r, fst st, fs))
                  (rewrite_live E (eng_index (fst st)) merge_files merge_path
                     (merge_db_opts (eng_options (fst st)) merge_path) (snd st))) (\<lambda>_ st.
       if merge_files = [] then Some (Err FailedToGetMergeFile, st)
       else
         loop_then (Some (add_u32 (df_file_id (last merge_files)) 1, st)) (\<lambda>non_merge_file_id st.
           Some (on_fs (write_merge_finished E merge_path non_merge_file_id) st)))))"

text \<open>\<open>busy\<close>: another call of \<open>merge\<close> holds \<open>merging_lock\<close>.\<close>

definition merge :: "('s, 'b) env \<Rightarrow> bool \<Rightarrow> ('s, 'b) st \<Rightarrow> (unit res \<times> ('s, 'b) st) option" where
  "merge E busy st =
     (if is_empty_engine (fst st) then Some (Ok (), st)
      else if busy then Some (Err MergeInProgress, st)
      else
        let opts = eng_options (fst st);
            reclaim = reclaim_size (fst st);
            total_size = dir_dis_size E (snd st) (dir_path opts)
        in if f32_less (f32_div (f32_of_nat reclaim) (f32_of_nat (unat total_size)))
                       (data_file_merge_ratio opts)
           then Some (Err InvalidMergeRatio, st)
           else
             loop_then (Some (sub_u64 total_size (of_nat reclaim), st)) (\<lambda>needed st.
             if available_disk_size E (snd st) \<le> needed then Some (Err MergeNoEnoughSpace, st)
             else loop_then (Some (get_merge_path (dir_path opts), st)) (merge_to E)))"

end
