(* ===== verification/MergeRotate.thy ===== *)
theory MergeRotate
  imports Merge Restart
begin

text \<open>
  What \<open>ratate_merge_files\<close> does on a system on which no call fails: the active file becomes an
  old one, and a handle for each file to merge is opened.
\<close>

text \<open>Some empty files are new; no byte is changed.\<close>

definition touched :: "fpath set \<Rightarrow> fs \<Rightarrow> fs \<Rightarrow> bool" where
  "touched F fs fs' \<longleftrightarrow>
     (\<forall>g. file_data fs' g = file_data fs g) \<and> (\<forall>g. is_file fs' g \<longleftrightarrow> g \<in> F \<or> is_file fs g) \<and>
     (\<forall>d. is_dir fs' d = is_dir fs d) \<and> fs_locks fs' = fs_locks fs \<and> (fs_wf fs \<longrightarrow> fs_wf fs')"

lemma touchedD:
  assumes "touched F fs fs'"
  shows "file_data fs' g = file_data fs g" "is_file fs' g \<longleftrightarrow> g \<in> F \<or> is_file fs g"
    "is_dir fs' d = is_dir fs d" "fs_locks fs' = fs_locks fs" "fs_wf fs \<Longrightarrow> fs_wf fs'"
  using assms unfolding touched_def by blast+

lemma touched_refl: "touched {} fs fs"
  by (simp add: touched_def)

lemma touched_trans: "touched F a b \<Longrightarrow> touched G b c \<Longrightarrow> touched (F \<union> G) a c"
  by (auto simp: touched_def)

lemma touched_grows: "touched F fs fs' \<Longrightarrow> grows fs fs'"
  by (simp add: touched_def grows_def)

lemma touched_sync: "touched {} fs (snd (fio_sync E f fs))"
  by (simp add: touched_def fio_sync_data)

lemma touched_new:
  assumes "is_dir fs (fst f)"
  shows "touched {f} fs (if is_file fs f then fs else put_file fs f new_inode)"
  using assms file_data_new [of fs f]
  by (auto simp: touched_def fs_simps new_inode_def fs_wf_put_file)

definition std_handle :: "path \<Rightarrow> u32 \<Rightarrow> data_file" where
  "std_handle dir fid = \<lparr>df_file_id = fid, df_write_off = 0, df_io = FileIO (get_data_file_name dir fid)\<rparr>"

lemma std_handle_sel [simp]:
  "df_file_id (std_handle dir fid) = fid" "df_io (std_handle dir fid) = FileIO (get_data_file_name dir fid)"
  by (simp_all add: std_handle_def)

lemma open_std_handle:
  assumes "os_ok E" "is_dir fs dir"
  obtains fs' where "DataFile_new E dir fid StandardFIO fs = (Ok (std_handle dir fid), fs')"
    "touched {get_data_file_name dir fid} fs fs'"
  by (rule that [OF open_standard [OF assms, folded std_handle_def] touched_new])
    (use assms in \<open>simp add: get_data_file_name_def\<close>)

lemma open_merge_files_ok:
  assumes "os_ok E" "is_dir fs dir"
  shows "\<exists>fs'. open_merge_files E dir fids fs = (Ok (map (std_handle dir) fids), fs') \<and>
    touched (get_data_file_name dir ` set fids) fs fs'"
  using assms(2)
proof (induction fids arbitrary: fs)
  case (Cons fid fids)
  obtain fs1 where fs1: "DataFile_new E dir fid StandardFIO fs = (Ok (std_handle dir fid), fs1)"
    "touched {get_data_file_name dir fid} fs fs1"
    by (rule open_std_handle [OF assms(1) Cons.prems])
  then have "is_dir fs1 dir" using Cons.prems by (simp add: touchedD)
  from Cons.IH [OF this] obtain fs2 where
    "open_merge_files E dir fids fs1 = (Ok (map (std_handle dir) fids), fs2)"
    "touched (get_data_file_name dir ` set fids) fs1 fs2" by blast
  then show ?case using fs1(1) touched_trans [OF fs1(2)] by simp
qed (simp add: touched_refl)

lemma ratate_merge_files_ok:
  assumes os: "os_ok E" and inv: "files_inv (e, fs)" and id: "unat (active_id e) + 1 < 2 ^ 32"
  obtains fs' where
    "ratate_merge_files E (e, fs) =
       (Ok (map (std_handle (dir_path (eng_options e))) (sort (map fst (older_files e) @ [active_id e]))),
        rotated e, fs')"
    "touched (data_path e ` insert (active_id e + 1) (known_ids e)) fs fs'"
proof -
  let ?dir = "dir_path (eng_options e)" and ?a = "active_id e"
  have act: "is_file fs (data_path e ?a)" and io: "df_io (active_file e) = FileIO (data_path e ?a)"
    using inv by (auto simp: files_inv_def handle_ok_def)
  have dir: "is_dir fs ?dir" using is_file_is_dir [OF act] by simp
  define fs1 where "fs1 = snd (fio_sync E (data_path e ?a) fs)"
  have sync: "df_sync E (active_file e) fs = (Ok (), fs1)"
    using os by (simp add: df_sync_def io fs1_def fio_sync_def)
  have t1: "touched {} fs fs1" unfolding fs1_def by (rule touched_sync)
  have d1: "is_dir fs1 ?dir" using dir by (simp add: touchedD [OF t1])
  obtain fs2 where fs2: "DataFile_new E ?dir (?a + 1) StandardFIO fs1 = (Ok (std_handle ?dir (?a + 1)), fs2)"
    and t2: "touched {get_data_file_name ?dir (?a + 1)} fs1 fs2"
    by (rule open_std_handle [OF os d1])
  have d2: "is_dir fs2 ?dir" using d1 by (simp add: touchedD [OF t2])
  obtain fs3 where fs3: "DataFile_new E ?dir ?a StandardFIO fs2 = (Ok (std_handle ?dir ?a), fs3)"
    and t3: "touched {get_data_file_name ?dir ?a} fs2 fs3"
    by (rule open_std_handle [OF os d2])
  have d3: "is_dir fs3 ?dir" using d2 by (simp add: touchedD [OF t3])
  let ?ids = "sort (map fst (older_files e) @ [?a])"
  obtain fs4 where fs4: "open_merge_files E ?dir ?ids fs3 = (Ok (map (std_handle ?dir) ?ids), fs4)"
    and t4: "touched (get_data_file_name ?dir ` set ?ids) fs3 fs4"
    using open_merge_files_ok [OF os d3] by blast
  have path: "get_data_file_name ?dir = data_path e" by (simp add: data_path_def fun_eq_iff)
  have "touched (data_path e ` insert (?a + 1) (known_ids e)) fs fs4"
    using touched_trans [OF touched_trans [OF touched_trans [OF t1 t2] t3] t4]
    by (simp add: path known_ids_def insert_commute)
  moreover have "ratate_merge_files E (e, fs) = (Ok (map (std_handle ?dir) ?ids), rotated e, fs4)"
    using sync u32_succ(1) [OF id] fs2 fs3 fs4
    by (simp add: ratate_merge_files_def Let_def active_id_def [symmetric] rotated_def std_handle_def path)
  ultimately show ?thesis using that by blast
qed

lemma rotated_files_inv:
  fixes E :: "('s, 'b) env" and e :: "('s, 'b) engine"
  assumes "os_ok E" and inv: "files_inv (e, fs)" and id: "unat (active_id e) + 1 < 2 ^ 32"
    and t: "touched (data_path e ` insert (active_id e + 1) (known_ids e)) fs fs'"
  shows "files_inv (rotated e, fs')"
proof -
  obtain fs1 where fs1: "files_inv (rotated e, fs1)" "appended e fs [] (rotated e) fs1"
    using rotate_active_inv [OF assms(1-3)] by blast
  have "file_data fs' g = file_data fs1 g" for g
    using appendedD(1) [OF fs1(2), of g] by (simp add: touchedD [OF t])
  moreover have "\<not> is_file fs' (data_path e fid)" if "active_id e + 1 < fid" for fid
  proof -
    have lt: "active_id e < fid" using that u32_succ(3) [OF id] by simp
    then have "fid \<notin> insert (active_id e + 1) (known_ids e)" "\<not> is_file fs (data_path e fid)"
      using that inv by (auto simp: files_inv_def known_ids_def)
    then show ?thesis by (auto simp: touchedD [OF t])
  qed
  moreover have "is_file fs' (data_path e (active_id e + 1))" by (simp add: touchedD [OF t])
  ultimately show ?thesis
    using fs1(1) by (simp add: files_inv_def file_bytes_def)
qed

end
