(* ===== verification/MergeLive.thy ===== *)
theory MergeLive
  imports MergeRotate Durability
begin

text \<open>
  The loops of a merge: every record that the index points to is written to the log of the merge
  directory, with the sequence number stripped, and its new position to the hint file.  The log of
  the merge directory never runs ahead of the file that is read.
\<close>

subsection \<open>Directories\<close>

text \<open>Only files of the directory \<open>d\<close> differ.\<close>

definition agrees :: "path \<Rightarrow> fs \<Rightarrow> fs \<Rightarrow> bool" where
  "agrees d fs fs' \<longleftrightarrow>
     (\<forall>f. fst f \<noteq> d \<longrightarrow> file_data fs' f = file_data fs f \<and> is_file fs' f = is_file fs f \<and>
        (f \<in> set (fs_locks fs') \<longleftrightarrow> f \<in> set (fs_locks fs))) \<and>
     (\<forall>p. is_dir fs' p = is_dir fs p) \<and> (fs_wf fs \<longrightarrow> fs_wf fs')"

lemma agreesD:
  assumes "agrees d fs fs'"
  shows "fst f \<noteq> d \<Longrightarrow> file_data fs' f = file_data fs f" "fst f \<noteq> d \<Longrightarrow> is_file fs' f = is_file fs f"
    "fst f \<noteq> d \<Longrightarrow> f \<in> set (fs_locks fs') \<longleftrightarrow> f \<in> set (fs_locks fs)" "is_dir fs' p = is_dir fs p"
    "fs_wf fs \<Longrightarrow> fs_wf fs'"
  using assms unfolding agrees_def by blast+

lemma agrees_refl [simp]: "agrees d fs fs"
  by (simp add: agrees_def)

lemma agrees_trans: "agrees d a b \<Longrightarrow> agrees d b c \<Longrightarrow> agrees d a c"
  by (simp add: agrees_def)

lemma agrees_added: "added_to fs (d, n) bs fs' \<Longrightarrow> fs_locks fs' = fs_locks fs \<Longrightarrow> agrees d fs fs'"
  by (auto simp: agrees_def added_to_def)

lemma agrees_appended:
  assumes "appended e fs en e' fs'"
  shows "agrees (dir_path (eng_options e)) fs fs'"
proof -
  have "f \<noteq> data_path e fid" if "fst f \<noteq> dir_path (eng_options e)" for f fid
    using that by auto
  then show ?thesis using appendedD(1-5) [OF assms] by (simp add: agrees_def)
qed

lemma files_inv_frame:
  assumes "files_inv (e, fs)"
    and "\<And>fid. file_data fs' (data_path e fid) = file_data fs (data_path e fid)"
    and "\<And>fid. is_file fs' (data_path e fid) = is_file fs (data_path e fid)"
  shows "files_inv (e, fs')"
  using assms by (simp add: files_inv_def file_bytes_def)

subsection \<open>The hint file\<close>

definition hint_record :: "'z crates_scheme \<Rightarrow> bytes \<times> log_record_pos \<Rightarrow> log_record" where
  "hint_record C h = LogRecord_new (fst h) (LogRecordPos_encode C (snd h)) Normal"

lemma hint_record_wf:
  assumes "crates_ok C" "fst h \<noteq> []" "length (fst h) < 2 ^ 32"
  shows "wf_record (hint_record C h)" and "encoded_length C (hint_record C h) \<le> length (fst h) + 41"
proof -
  have pos: "length (LogRecordPos_encode C (snd h)) \<le> 30"
    using length_encode_varint [OF assms(1), of "ucast (pos_file_id (snd h))"]
      length_encode_varint [OF assms(1), of "pos_offset (snd h)"]
      length_encode_varint [OF assms(1), of "ucast (pos_size (snd h))"]
    by (simp add: LogRecordPos_encode_def)
  then show "wf_record (hint_record C h)"
    using assms(2,3) by (simp add: hint_record_def wf_record_def)
  have "length_delimiter_len C (length (fst h)) \<le> 5" by (rule delimiter_len_le_5 [OF assms(1,3)])
  moreover have "length_delimiter_len C (length (LogRecordPos_encode C (snd h))) = 1"
    using pos by (intro delimiter_len_small [OF assms(1)]) simp
  ultimately show "encoded_length C (hint_record C h) \<le> length (fst h) + 41"
    using pos by (simp add: hint_record_def encoded_length_def)
qed

text \<open>Writing through a handle appends to its file.\<close>

lemma write_handle:
  assumes "os_ok E" "is_file fs f" "df_io df = FileIO f" "en \<noteq> []"
    and "unat (df_write_off df) + length en < 2 ^ 64"
  obtains fs' where "df_write E en (df, fs) =
      (Ok (length en), df\<lparr>df_write_off := df_write_off df + of_nat (length en)\<rparr>, fs')"
    "added_to fs f en fs'" "fs_locks fs' = fs_locks fs"
proof -
  obtain i where i: "lookup_file fs f = Some i" "fdata i = file_data fs f"
    using lookup_file_Some [OF assms(2)] by blast
  have dir: "is_dir fs (fst f)" by (rule is_file_is_dir [OF assms(2)])
  let ?fs' = "put_file fs f (i\<lparr>fdata := fdata i @ en\<rparr>)"
  have "df_write E en (df, fs) =
      (Ok (length en), df\<lparr>df_write_off := df_write_off df + of_nat (length en)\<rparr>, ?fs')"
    using fio_write_ok [OF assms(1) i(1), of en] add_u64_of_nat(1) [OF assms(5)] assms(3,4)
    by (simp add: df_write_def)
  then show ?thesis
    by (rule that) (use dir i(2) assms(2) in \<open>auto simp: fs_simps added_to_def fs_wf_put_file\<close>)
qed

lemma write_hint_ok:
  assumes ok: "crates_ok E" "os_ok E" and f: "is_file fs f" "df_io df = FileIO f"
    and wf: "wf_record (hint_record E (k, p))"
    and len: "unat (df_write_off df) + encoded_length E (hint_record E (k, p)) < 2 ^ 64"
  obtains df' fs' where "write_hint_record E k p (df, fs) = (Ok (), df', fs')" "df_io df' = FileIO f"
    "unat (df_write_off df') = unat (df_write_off df) + encoded_length E (hint_record E (k, p))"
    "added_to fs f (record_bytes E (hint_record E (k, p))) fs'" "fs_locks fs' = fs_locks fs"
proof -
  let ?en = "record_bytes E (hint_record E (k, p))"
  note en = record_bytes_encode [OF ok(1) wf]
  have ne: "?en \<noteq> []" using en(2) encoded_length_bounds(1) [OF ok(1) wf] by auto
  have len': "unat (df_write_off df) + length ?en < 2 ^ 64" using len en(2) by simp
  obtain fs' where "df_write E ?en (df, fs) =
      (Ok (length ?en), df\<lparr>df_write_off := df_write_off df + of_nat (length ?en)\<rparr>, fs')"
    "added_to fs f ?en fs'" "fs_locks fs' = fs_locks fs"
    by (rule write_handle [OF ok(2) f ne len'])
  then show ?thesis
    using add_u64_of_nat(2) [OF len'] en f(2)
    by (intro that [of "df\<lparr>df_write_off := df_write_off df + of_nat (length ?en)\<rparr>" fs'])
      (simp_all add: write_hint_record_def hint_record_def)
qed

subsection \<open>The merge directory during the loops\<close>

definition merge_db ::
  "('s, 'b) env \<Rightarrow> options \<Rightarrow> fs \<Rightarrow> logs \<Rightarrow> (bytes \<times> log_record_pos) list \<Rightarrow> ('s, 'b) merge_st \<Rightarrow> bool" where
  "merge_db E opts fs0 mlogs H s \<longleftrightarrow>
     (case s of (hint, e, fs) \<Rightarrow>
        files_inv (e, fs) \<and> bw_ok e \<and> eng_options e = opts \<and> seq_no e = 1 \<and>
        lock_file e = (dir_path opts, FILE_LOCK_NAME) \<and> data_files E (e, fs) mlogs \<and>
        df_io hint = FileIO (dir_path opts, HINT_FILE_NAME) \<and>
        is_file fs (dir_path opts, HINT_FILE_NAME) \<and>
        file_data fs (dir_path opts, HINT_FILE_NAME) = log_bytes E (map (hint_record E) H) \<and>
        unat (df_write_off hint) = log_length E (map (hint_record E) H) \<and>
        list_all (wf_record \<circ> hint_record E) H \<and> agrees (dir_path opts) fs0 fs \<and>
        (\<forall>n. is_file fs (dir_path opts, n) \<longrightarrow>
           n = HINT_FILE_NAME \<or> n = FILE_LOCK_NAME \<or> n \<in> data_file_name ` fst ` set mlogs))"

lemma data_files_frame:
  assumes "data_files E (e, fs) logs" "added_to fs (dir_path (eng_options e), n) bs fs'"
    and "\<not> ends_with n DATA_FILE_NAME_SUFFIX"
  shows "data_files E (e, fs') logs"
proof -
  have data: "data_log E (dir_path (eng_options e)) fs logs" using assms(1) by (simp add: data_files_def)
  note a = added_toD [OF assms(2)]
  have "data_log E (dir_path (eng_options e)) fs' logs"
    by (rule data_log_frame [OF data])
      (use data assms(3) data_file_name_neq [OF assms(3)] in
        \<open>auto simp: a get_data_file_name_def data_log_def split: if_splits\<close>)
  then show ?thesis using assms(1) by (simp add: data_files_def)
qed

lemma files_inv_added:
  assumes "files_inv (e, fs)" "added_to fs (dir_path (eng_options e), n) bs fs'"
    and "\<not> ends_with n DATA_FILE_NAME_SUFFIX"
  shows "files_inv (e, fs')"
  by (rule files_inv_frame [OF assms(1)])
    (use data_file_name_neq [OF assms(3)] in
      \<open>simp_all add: added_toD [OF assms(2)] data_path_def get_data_file_name_def\<close>)

lemma data_files_ids:
  assumes "data_files E (e, fs) logs" "data_files E (e', fs') logs'" "known_ids e \<subseteq> known_ids e'"
  shows "fst ` set logs \<subseteq> fst ` set logs'"
  using assms by (simp add: data_files_def)

text \<open>One record and its hint.\<close>

lemma merge_db_copy:
  assumes ok: "crates_ok E" "os_ok E" and db: "merge_db E opts fs0 mlogs H (hint, e, fs)"
    and good: "good_record E r" and k: "k \<noteq> []" "length k < 2 ^ 32"
    and room: "log_length E (map (hint_record E) H) + length k + 41 < 2 ^ 64"
    and id: "unat (active_id e) + 1 < 2 ^ 32"
  obtains p e1 fs1 hint' fs2 mlogs' where "append_log_record E r (e, fs) = (Ok p, e1, fs1)"
    "write_hint_record E k p (hint, fs1) = (Ok (), hint', fs2)"
    "merge_db E opts fs0 mlogs' (H @ [(k, p)]) (hint', e1, fs2)"
    "log_entries E mlogs' = log_entries E mlogs @ [(p, r)]"
    "if length (file_bytes (e, fs) (active_id e)) + encoded_length E r \<le> unat (data_file_size opts)
     then active_id e1 = active_id e \<and>
       length (file_bytes (e1, fs2) (active_id e1)) = length (file_bytes (e, fs) (active_id e)) + encoded_length E r
     else active_id e1 = active_id e + 1 \<and> length (file_bytes (e1, fs2) (active_id e1)) = encoded_length E r"
proof -
  let ?mp = "dir_path opts" and ?H = "map (hint_record E) H"
  have inv: "files_inv (e, fs)" "bw_ok e" "eng_options e = opts" "seq_no e = 1"
    "lock_file e = (?mp, FILE_LOCK_NAME)" and data: "data_files E (e, fs) mlogs"
    and hint: "df_io hint = FileIO (?mp, HINT_FILE_NAME)" "is_file fs (?mp, HINT_FILE_NAME)"
      "file_data fs (?mp, HINT_FILE_NAME) = log_bytes E ?H" "unat (df_write_off hint) = log_length E ?H"
      "list_all (wf_record \<circ> hint_record E) H"
    and ag: "agrees ?mp fs0 fs"
    and names: "\<And>n. is_file fs (?mp, n) \<Longrightarrow>
      n = HINT_FILE_NAME \<or> n = FILE_LOCK_NAME \<or> n \<in> data_file_name ` fst ` set mlogs"
    using db by (auto simp: merge_db_def)
  have wf: "wf_record r" using good by (simp add: good_record_def)
  from append_log_record_ok [OF ok inv(1) wf id inv(2)] obtain p e1 fs1 en where
    ap: "append_log_record E r (e, fs) = (Ok p, e1, fs1)" and
    inv1: "files_inv (e1, fs1)" "same_index e e1" "bw_ok e1" and
    size: "unat (pos_offset p) + encoded_length E r = length (file_bytes (e1, fs1) (pos_file_id p))" and
    en: "LogRecord_encode E r = Ok en" "appended e fs en e1 fs1" and
    p: "p = end_pos E (e, fs) (active_id e1) r"
    by (auto simp: end_pos_def)
  have en': "en = record_bytes E r" using en(1) by (simp add: record_bytes_def)
  obtain mlogs' where data1: "data_files E (e1, fs1) mlogs'"
    "log_entries E mlogs' = log_entries E mlogs @ [(p, r)]"
    using data_files_append [OF ok(1) inv(1) inv1(1) data good] en(2) p en' by blast
  note place = append_place [OF ok inv(1,2) wf id ap]
  have nd: "\<not> ends_with HINT_FILE_NAME DATA_FILE_NAME_SUFFIX" by simp
  have path: "data_path e fid \<noteq> (?mp, HINT_FILE_NAME)" for fid
    using data_file_name_neq [OF nd, of fid] inv(3) by (simp add: data_path_def get_data_file_name_def)
  have hint1: "is_file fs1 (?mp, HINT_FILE_NAME)" "file_data fs1 (?mp, HINT_FILE_NAME) = log_bytes E ?H"
    using appendedD(1,2) [OF en(2), of "(?mp, HINT_FILE_NAME)"] path [THEN not_sym] hint(2,3) by simp_all
  note hwf = hint_record_wf [OF ok(1), of "(k, p)", unfolded fst_conv, OF k]
  have hroom: "unat (df_write_off hint) + encoded_length E (hint_record E (k, p)) < 2 ^ 64"
    using hwf(2) room hint(4) by simp
  obtain hint' fs2 where wr: "write_hint_record E k p (hint, fs1) = (Ok (), hint', fs2)"
    "df_io hint' = FileIO (?mp, HINT_FILE_NAME)"
    "unat (df_write_off hint') = unat (df_write_off hint) + encoded_length E (hint_record E (k, p))"
    and add: "added_to fs1 (?mp, HINT_FILE_NAME) (record_bytes E (hint_record E (k, p))) fs2"
      "fs_locks fs2 = fs_locks fs1"
    by (rule write_hint_ok [OF ok hint1(1) hint(1) hwf(1) hroom])
  have e1: "eng_options e1 = opts" "seq_no e1 = 1" "lock_file e1 = (?mp, FILE_LOCK_NAME)"
    using inv1(2) inv(3-5) appendedD(9) [OF en(2)] by (simp_all add: same_index_def)
  note add' = add(1) [folded e1(1)]
  have bytes: "file_bytes (e1, fs2) fid = file_bytes (e1, fs1) fid" for fid
    using path [of fid] appended_data_path [OF en(2)] by (simp add: file_bytes_def added_toD [OF add(1)])
  have known: "fst ` set mlogs' = insert (active_id e1) (fst ` set mlogs)"
    using data data1(1) appendedD(6) [OF en(2)] unfolding data_files_def fst_conv by metis
  have "merge_db E opts fs0 mlogs' (H @ [(k, p)]) (hint', e1, fs2)"
    unfolding merge_db_def prod.case
  proof (intro conjI allI impI)
    show "files_inv (e1, fs2)" by (rule files_inv_added [OF inv1(1) add' nd])
    show "data_files E (e1, fs2) mlogs'" by (rule data_files_frame [OF data1(1) add' nd])
    show "agrees ?mp fs0 fs2"
      by (rule agrees_trans [OF agrees_trans [OF ag agrees_appended [OF en(2), unfolded inv(3)]] agrees_added [OF add]])
    show "n = HINT_FILE_NAME \<or> n = FILE_LOCK_NAME \<or> n \<in> data_file_name ` fst ` set mlogs'"
      if "is_file fs2 (?mp, n)" for n
      using that names [of n] appendedD(2) [OF en(2), of "(?mp, n)"] inv(3)
      by (auto simp: added_toD [OF add(1)] known data_path_def get_data_file_name_def)
  qed (use inv1(3) e1 hint1 hint(4,5) wr hwf(1) in \<open>simp_all add: added_toD [OF add(1)]\<close>)
  moreover have "if length (file_bytes (e, fs) (active_id e)) + encoded_length E r \<le> unat (data_file_size opts)
     then active_id e1 = active_id e \<and>
       length (file_bytes (e1, fs2) (active_id e1)) = length (file_bytes (e, fs) (active_id e)) + encoded_length E r
     else active_id e1 = active_id e + 1 \<and> length (file_bytes (e1, fs2) (active_id e1)) = encoded_length E r"
    using place size inv(3) by (auto simp: bytes split: if_splits)
  ultimately show ?thesis using that ap wr(1) data1(2) by blast
qed

subsection \<open>The loops\<close>

text \<open>The index points to the record at \<open>p\<close>.\<close>

definition live :: "(bytes \<Rightarrow> log_record_pos option) \<Rightarrow> log_record_pos \<Rightarrow> bytes \<Rightarrow> bool" where
  "live m p k \<longleftrightarrow> (case m k of None \<Rightarrow> False
     | Some q \<Rightarrow> pos_file_id q = pos_file_id p \<and> pos_offset q = pos_offset p)"

text \<open>What the merge copies, in the order of the log: the key and the old record.\<close>

fun copy_step ::
  "'z crates_scheme \<Rightarrow> (bytes \<Rightarrow> log_record_pos option) \<Rightarrow> log_record_pos \<times> log_record \<Rightarrow>
   (bytes \<times> log_record) list \<Rightarrow> (bytes \<times> log_record) list" where
  "copy_step C m (p, r) a =
     (case parse_log_record_key C (rec_key r) of
        Ok (k, n) \<Rightarrow> if live m p k then a @ [(k, r)] else a
      | _ \<Rightarrow> a)"

text \<open>Each hint points to the copy of the record, whose key carries no sequence number.\<close>

definition copied :: "'z crates_scheme \<Rightarrow> logs \<Rightarrow> bytes \<times> log_record \<Rightarrow> bytes \<times> log_record_pos \<Rightarrow> bool" where
  "copied C mlogs x h \<longleftrightarrow>
     fst h = fst x \<and> (snd h, (snd x)\<lparr>rec_key := 0 # fst x\<rparr>) \<in> set (log_entries C mlogs)"

definition copies :: "'z crates_scheme \<Rightarrow> logs \<Rightarrow> (bytes \<times> log_record) list \<Rightarrow> (bytes \<times> log_record_pos) list \<Rightarrow> bool" where
  "copies C mlogs = list_all2 (copied C mlogs)"

lemma copies_mono:
  assumes "copies C mlogs a H" "set (log_entries C mlogs) \<subseteq> set (log_entries C mlogs')"
  shows "copies C mlogs' a H"
  using assms unfolding copies_def by (elim list_all2_mono) (auto simp: copied_def)

lemma good_copy:
  assumes C: "crates_ok C" and good: "good_record C r" and key: "parse_log_record_key C (rec_key r) = Ok (k, n)"
  shows "good_record C (r\<lparr>rec_key := 0 # k\<rparr>)" and "encoded_length C (r\<lparr>rec_key := 0 # k\<rparr>) \<le> encoded_length C r"
    and "k \<noteq> []" "length k < 2 ^ 32" "length k + 41 \<le> 8 * encoded_length C r"
    and "parse_log_record_key C (0 # k) = Ok (k, NON_TRANSACTION_SEQ_NO)"
proof -
  have wf: "wf_record r" using good by (simp add: good_record_def)
  show k: "k \<noteq> []" using good key by (auto simp: good_record_def)
  have len: "length k < length (rec_key r)"
    using key decode_delimiter_shorter [OF C]
    by (auto simp: parse_log_record_key_def split: option.splits)
  then show "length k < 2 ^ 32" using wf by (simp add: wf_record_def)
  show enc: "encoded_length C (r\<lparr>rec_key := 0 # k\<rparr>) \<le> encoded_length C r"
    using len delimiter_len_mono [OF C, of "Suc (length k)" "length (rec_key r)"] by (simp add: encoded_length_def)
  have "length k + 5 \<le> encoded_length C r" using len by (simp add: encoded_length_def)
  then show "length k + 41 \<le> 8 * encoded_length C r" using encoded_length_bounds(1) [OF C wf] by simp
  show parse: "parse_log_record_key C (0 # k) = Ok (k, NON_TRANSACTION_SEQ_NO)"
    by (rule parse_key_with_seq [OF C key_with_seq_0 [OF C]])
  show "good_record C (r\<lparr>rec_key := 0 # k\<rparr>)"
    using good len enc k parse by (simp add: good_record_def wf_record_def)
qed

text \<open>
  The state of the loops before the record at \<open>n\<close> of the file number \<open>i\<close>, with \<open>base\<close> bytes read
  in the files before it: the merge log is in file \<open>i\<close> at most, and there not behind \<open>n\<close>.
\<close>

definition merge_room :: "nat \<Rightarrow> nat \<Rightarrow> ('s, 'b) st \<Rightarrow> bool" where
  "merge_room i n st \<longleftrightarrow>
     unat (active_id (fst st)) \<le> i \<and>
     (unat (active_id (fst st)) = i \<longrightarrow> length (file_bytes st (active_id (fst st))) \<le> n)"

definition merge_rel ::
  "('s, 'b) env \<Rightarrow> options \<Rightarrow> fs \<Rightarrow> ('s, 'b) index \<Rightarrow> nat \<Rightarrow> nat \<Rightarrow> nat \<Rightarrow>
   (bytes \<times> log_record) list \<Rightarrow> ('s, 'b) merge_st \<Rightarrow> bool" where
  "merge_rel E opts fs0 idx i base n a s \<longleftrightarrow>
     crates_ok E \<and> os_ok E \<and> index_inv E idx \<and> i + 1 < 2 ^ 32 \<and> base \<le> 2 ^ 58 \<and>
     merge_room i n (snd s) \<and>
     (\<exists>mlogs H. merge_db E opts fs0 mlogs H s \<and> copies E mlogs a H \<and>
        log_length E (map (hint_record E) H) \<le> 8 * (base + n))"

text \<open>The bytes of a file that the loop may read.\<close>

definition merge_limit :: "options \<Rightarrow> nat" where
  "merge_limit opts = min (unat (data_file_size opts)) (2 ^ 58)"

lemma merge_record_step:
  assumes rel: "merge_rel E opts fs0 idx i base n a s" and good: "good_record E r"
    and lim: "n + encoded_length E r \<le> merge_limit opts"
  shows "\<exists>s'. merge_record E idx fid (of_nat n) \<lparr>rlr_record = r, rlr_size = encoded_length E r\<rparr> s = (Ok (), s') \<and>
    merge_rel E opts fs0 idx i base (n + encoded_length E r)
      (copy_step E (index_entries E idx) (LogRecordPos_new fid (of_nat n) (of_nat (encoded_length E r)), r) a) s'"
proof -
  obtain hint e fs where s: "s = (hint, e, fs)" by (cases s)
  obtain mlogs H where db: "merge_db E opts fs0 mlogs H (hint, e, fs)" and cp: "copies E mlogs a H"
    and hint: "log_length E (map (hint_record E) H) \<le> 8 * (base + n)"
    and ok: "crates_ok E" "os_ok E" and idx: "index_inv E idx" and i: "i + 1 < 2 ^ 32"
    and base: "base \<le> 2 ^ 58" and room: "merge_room i n (e, fs)"
    using rel by (auto simp: merge_rel_def s)
  obtain k seq where key: "parse_log_record_key E (rec_key r) = Ok (k, seq)"
    using good by (auto simp: good_record_def)
  note copy = good_copy [OF ok(1) good key]
  let ?p = "LogRecordPos_new fid (of_nat n) (of_nat (encoded_length E r))"
  have get: "index_get E idx k = Ok (index_entries E idx k)" by (rule ix.get_law [OF idx])
  have test: "(case index_entries E idx k of None \<Rightarrow> False
      | Some q \<Rightarrow> pos_file_id q = fid \<and> pos_offset q = of_nat n) \<longleftrightarrow> live (index_entries E idx) ?p k"
    by (simp add: live_def split: option.split)
  show ?thesis
  proof (cases "live (index_entries E idx) ?p k")
    case False
    then have "merge_record E idx fid (of_nat n) \<lparr>rlr_record = r, rlr_size = encoded_length E r\<rparr> s = (Ok (), s)"
      by (simp add: merge_record_def key get test)
    moreover have "merge_room i (n + encoded_length E r) (e, fs)" using room by (auto simp: merge_room_def)
    moreover have "log_length E (map (hint_record E) H) \<le> 8 * (base + (n + encoded_length E r))" using hint by simp
    ultimately show ?thesis
      using False ok idx i base db cp by (auto simp: merge_rel_def s key)
  next
    case True
    let ?r = "r\<lparr>rec_key := 0 # k\<rparr>"
    have act: "unat (active_id e) \<le> i" using room by (simp add: merge_room_def)
    then have id: "unat (active_id e) + 1 < 2 ^ 32" using i by simp
    have lim': "n + encoded_length E r \<le> unat (data_file_size opts)" "n + encoded_length E r \<le> 2 ^ 58"
      using lim by (simp_all add: merge_limit_def)
    then have "log_length E (map (hint_record E) H) + length k + 41 < 2 ^ 64"
      using hint base copy(5) by simp
    from merge_db_copy [OF ok db copy(1,3,4) this id] obtain p e1 fs1 hint' fs2 mlogs' where
      ap: "append_log_record E ?r (e, fs) = (Ok p, e1, fs1)"
        "write_hint_record E k p (hint, fs1) = (Ok (), hint', fs2)" and
      db': "merge_db E opts fs0 mlogs' (H @ [(k, p)]) (hint', e1, fs2)"
        "log_entries E mlogs' = log_entries E mlogs @ [(p, ?r)]" and
      place: "if length (file_bytes (e, fs) (active_id e)) + encoded_length E ?r \<le> unat (data_file_size opts)
       then active_id e1 = active_id e \<and>
         length (file_bytes (e1, fs2) (active_id e1)) = length (file_bytes (e, fs) (active_id e)) + encoded_length E ?r
       else active_id e1 = active_id e + 1 \<and> length (file_bytes (e1, fs2) (active_id e1)) = encoded_length E ?r" .
    have "merge_record E idx fid (of_nat n) \<lparr>rlr_record = r, rlr_size = encoded_length E r\<rparr> s =
        (Ok (), hint', e1, fs2)"
      using True key_with_seq_0 [OF ok(1), of k] ap
      by (simp add: merge_record_def key get test s on_merge_db_def on_hint_file_def)
    moreover have "merge_room i (n + encoded_length E r) (e1, fs2)"
      using place room copy(2) lim'(1) u32_succ(2) [OF id] act
      by (auto simp: merge_room_def split: if_splits)
    moreover have "copies E mlogs' (a @ [(k, r)]) (H @ [(k, p)])"
      unfolding copies_def
      using copies_mono [OF cp, of mlogs'] db'(2)
      by (intro list_all2_appendI) (auto simp: copies_def copied_def)
    moreover have "log_length E (map (hint_record E) (H @ [(k, p)])) \<le> 8 * (base + (n + encoded_length E r))"
      using hint hint_record_wf(2) [OF ok(1), of "(k, p)"] copy(3-5) by simp
    ultimately show ?thesis
      using True ok idx i base db'(1) by (fastforce simp: merge_rel_def key)
  qed
qed

interpretation merging: log_scan E "\<lambda>s. read_log_record E (snd (snd s)) df" "merge_record E idx fid" fid
    "good_record E" "copy_step E (index_entries E idx)" "merge_rel E opts fs0 idx i base" "merge_limit opts"
  for E :: "('s, 'b) env" and idx :: "('s, 'b) index" and df fid opts fs0 i base
  by unfold_locales (simp add: merge_limit_def, rule merge_record_step)

end
