(* ===== verification/Elsewhere.thy ===== *)
theory Elsewhere
  imports Merge
begin

text \<open>
  An engine on one directory leaves every other directory as it is: opening, appending, syncing,
  closing and merging touch the files of their own directory and of the merge directory beside it,
  whatever the operating system does and whatever the calls return.
\<close>

named_theorems staying "calls that leave a directory as it is"

text \<open>\<open>stays P Q m\<close>: \<open>P\<close> holds of the state after the call, \<open>Q\<close> of the value when it succeeds.\<close>

definition stays :: "('t \<Rightarrow> bool) \<Rightarrow> ('a \<Rightarrow> bool) \<Rightarrow> 'a res \<times> 't \<Rightarrow> bool" where
  "stays P Q m \<longleftrightarrow> P (snd m) \<and> (\<forall>a. fst m = Ok a \<longrightarrow> Q a)"

abbreviation anything :: "'a \<Rightarrow> bool" where "anything \<equiv> (\<lambda>_. True)"

lemma stays_value: "P s \<Longrightarrow> (\<And>a. r = Ok a \<Longrightarrow> Q a) \<Longrightarrow> stays P Q (r, s)"
  by (simp add: stays_def)

lemma stays_and_then:
  assumes "stays P Q m" "\<And>a s. P s \<Longrightarrow> Q a \<Longrightarrow> stays P R (f a s)"
  shows "stays P R (and_then m f)"
  using assms by (cases m; cases "fst m") (auto simp: stays_def)

lemma stays_if: "(b \<Longrightarrow> stays P Q m) \<Longrightarrow> (\<not> b \<Longrightarrow> stays P Q n) \<Longrightarrow> stays P Q (if b then m else n)"
  by simp

lemma stays_option:
  assumes "x = None \<Longrightarrow> stays P Q m" "\<And>a. x = Some a \<Longrightarrow> stays P Q (f a)"
  shows "stays P Q (case x of None \<Rightarrow> m | Some a \<Rightarrow> f a)"
  using assms by (cases x) auto

lemma stays_weaken: "stays P Q m \<Longrightarrow> stays P anything m"
  by (simp add: stays_def)

lemma stays_res_map: "stays P anything m \<Longrightarrow> stays P anything (case m of (r, s) \<Rightarrow> (f r, s))"
  by (simp add: stays_def case_prod_unfold)

text \<open>The same for calls that may not return.\<close>

definition stays_opt :: "('t \<Rightarrow> bool) \<Rightarrow> ('a \<Rightarrow> bool) \<Rightarrow> ('a res \<times> 't) option \<Rightarrow> bool" where
  "stays_opt P Q m \<longleftrightarrow> (\<forall>r. m = Some r \<longrightarrow> stays P Q r)"

lemma stays_opt_Some: "stays P Q r \<Longrightarrow> stays_opt P Q (Some r)"
  by (simp add: stays_opt_def)

lemma stays_loop_then:
  assumes "stays_opt P Q m" "\<And>a s. P s \<Longrightarrow> Q a \<Longrightarrow> stays_opt P R (f a s)"
  shows "stays_opt P R (loop_then m f)"
  using assms by (cases m; cases "fst (the m)"; cases "the m") (auto simp: stays_opt_def stays_def)

lemma stays_opt_if:
  "(b \<Longrightarrow> stays_opt P Q m) \<Longrightarrow> (\<not> b \<Longrightarrow> stays_opt P Q n) \<Longrightarrow> stays_opt P Q (if b then m else n)"
  by simp

lemma scan_log_state:
  assumes "scan_log rd handle offset s = Some r" "P s" "\<And>off rlr s. P s \<Longrightarrow> P (snd (handle off rlr s))"
  shows "P (snd r)"
proof -
  let ?Q = "\<lambda>rd handle (offset :: u64) s r. P s \<longrightarrow> (\<forall>off rlr s. P s \<longrightarrow> P (snd (handle off rlr s))) \<longrightarrow> P (snd r)"
  have "?Q rd handle offset s r"
  proof (rule scan_log.raw_induct [where P = ?Q, OF _ assms(1)])
    fix scan rd handle offset s r
    assume IH: "\<And>rd handle offset s y. scan rd handle offset s = Some y \<Longrightarrow> ?Q rd handle offset s y"
      and body: "(case rd s offset of
          Ok rlr \<Rightarrow>
            (case handle offset rlr s of
               (Ok u, s') \<Rightarrow>
                 (case add_u64 offset (of_nat (rlr_size rlr)) of
                    Ok offset' \<Rightarrow> scan rd handle offset' s'
                  | Err x \<Rightarrow> Some (Err x, s')
                  | Panic \<Rightarrow> Some (Panic, s'))
             | (Err x, s') \<Rightarrow> Some (Err x, s')
             | (Panic, s') \<Rightarrow> Some (Panic, s'))
        | Err x \<Rightarrow> if x = ReadDataFileEOF then Some (Ok offset, s) else Some (Err x, s)
        | Panic \<Rightarrow> Some (Panic, s)) = Some r"
    show "?Q rd handle offset s r"
    proof (intro impI)
      assume s: "P s" and h: "\<forall>off rlr s. P s \<longrightarrow> P (snd (handle off rlr s))"
      show "P (snd r)"
      proof (cases "rd s offset")
        case (Ok rlr)
        obtain u s' where hs: "handle offset rlr s = (u, s')" by fastforce
        then have s': "P s'" using h s by (metis snd_conv)
        show ?thesis
          using body Ok hs s' IH [of rd handle _ s' r] h
          by (cases u; cases "add_u64 offset (of_nat (rlr_size rlr))") auto
      qed (use s body in \<open>auto split: if_splits\<close>)
    qed
  qed
  then show ?thesis using assms(2,3) by blast
qed

lemma stays_scan_log:
  assumes "P s" "\<And>off rlr s. P s \<Longrightarrow> stays P anything (handle off rlr s)"
  shows "stays_opt P anything (scan_log rd handle offset s)"
  using scan_log_state [of rd handle offset s _ P] assms by (auto simp: stays_opt_def stays_def)

subsection \<open>Files\<close>

definition in_place :: "path \<Rightarrow> dir \<Rightarrow> fs \<Rightarrow> bool" where
  "in_place d D fs \<longleftrightarrow> fs_dirs fs d = Some D"

definition away :: "path \<Rightarrow> data_file \<Rightarrow> bool" where
  "away d df \<longleftrightarrow> (\<forall>f. df_io df = FileIO f \<longrightarrow> fst f \<noteq> d)"

lemma in_place_files [simp]:
  "fst f \<noteq> d \<Longrightarrow> in_place d D (put_file fs f i) = in_place d D fs"
  "fst f \<noteq> d \<Longrightarrow> in_place d D (del_file fs f) = in_place d D fs"
  "in_place d D (fs\<lparr>fs_locks := l\<rparr>) = in_place d D fs"
  by (auto simp: in_place_def put_file_def del_file_def split: option.split)

lemma away_off [simp]: "away d (df\<lparr>df_write_off := n\<rparr>) = away d df"
  by (simp add: away_def)

lemma new_io_manager_stays:
  assumes "fst f \<noteq> d" "in_place d D fs"
  shows "stays (in_place d D) (\<lambda>io. \<forall>g. io = FileIO g \<longrightarrow> fst g \<noteq> d) (new_io_manager E f ty c fs)"
  using assms
  by (auto simp: stays_def new_io_manager_def FileIO_new_def mmap_new_def mmap_open_existing_def
      split: io_type.splits if_splits res.splits prod.splits)

lemma open_with_name_stays:
  assumes "fst f \<noteq> d" "in_place d D fs"
  shows "stays (in_place d D) (away d) (open_with_name E f fid ty c fs)"
  unfolding open_with_name_def
  by (rule stays_and_then [OF new_io_manager_stays [OF assms]]) (simp add: stays_def away_def)

lemma opening_stays [staying]:
  assumes "dir \<noteq> d" "in_place d D fs"
  shows "stays (in_place d D) (away d) (DataFile_new E dir fid ty fs)"
    and "stays (in_place d D) (away d) (DataFile_open E dir fid ty fs)"
    and "stays (in_place d D) (away d) (new_hint_file E dir fs)"
    and "stays (in_place d D) (away d) (new_merge_fin_file E dir fs)"
    and "stays (in_place d D) (away d) (new_seq_no_file E dir fs)"
    and "stays (in_place d D) (away d) (set_io_manager E dir ty df fs)"
proof -
  note open_stays = open_with_name_stays [where d = d and D = D and fs = fs and E = E]
  show "stays (in_place d D) (away d) (DataFile_new E dir fid ty fs)"
    "stays (in_place d D) (away d) (DataFile_open E dir fid ty fs)"
    "stays (in_place d D) (away d) (new_hint_file E dir fs)"
    "stays (in_place d D) (away d) (new_merge_fin_file E dir fs)"
    "stays (in_place d D) (away d) (new_seq_no_file E dir fs)"
    using assms
    by (simp_all add: open_stays DataFile_new_def DataFile_open_def new_with_create_def get_data_file_name_def
        new_hint_file_def new_merge_fin_file_def new_seq_no_file_def)
  have "fst (get_data_file_name dir (df_file_id df)) \<noteq> d" using assms(1) by (simp add: get_data_file_name_def)
  from new_io_manager_stays [OF this assms(2)]
  show "stays (in_place d D) (away d) (set_io_manager E dir ty df fs)"
    unfolding set_io_manager_def by (rule stays_and_then) (auto simp: stays_def away_def)
qed

lemma io_sync_stays: "(\<forall>f. io = FileIO f \<longrightarrow> fst f \<noteq> d) \<Longrightarrow> in_place d D fs \<Longrightarrow> in_place d D (snd (io_sync E io fs))"
  by (cases io) (auto simp: fio_sync_def split: option.splits)

lemma io_write_stays: "(\<forall>f. io = FileIO f \<longrightarrow> fst f \<noteq> d) \<Longrightarrow> in_place d D fs \<Longrightarrow> in_place d D (snd (io_write E io buf fs))"
  by (cases io) (auto simp: fio_write_def split: option.splits)

lemma df_sync_stays [staying]:
  "away d df \<Longrightarrow> in_place d D fs \<Longrightarrow> stays (in_place d D) anything (df_sync E df fs)"
  by (simp add: stays_def df_sync_def away_def io_sync_stays)

text \<open>A call on a file, with the file system.\<close>

definition file_stays :: "path \<Rightarrow> dir \<Rightarrow> data_file \<times> fs \<Rightarrow> bool" where
  "file_stays d D s \<longleftrightarrow> away d (fst s) \<and> in_place d D (snd s)"

lemma df_write_stays [staying]:
  "away d df \<Longrightarrow> in_place d D fs \<Longrightarrow> stays (file_stays d D) anything (df_write E buf (df, fs))"
  using io_write_stays [of "df_io df" d D fs E buf]
  by (auto simp: stays_def file_stays_def df_write_def away_def split: prod.splits res.splits)

lemma df_write_stays_fs [staying]:
  assumes "away d df" "in_place d D fs"
  shows "stays (in_place d D) anything (case df_write E buf (df, fs) of (r, _, fs') \<Rightarrow> (r, fs'))"
  using df_write_stays [OF assms, of E buf] by (simp add: stays_def file_stays_def case_prod_unfold)

lemma write_hint_stays [staying]:
  assumes "away d df" "in_place d D fs"
  shows "stays (file_stays d D) anything (write_hint_record E k p (df, fs))"
  unfolding write_hint_record_def
proof (cases "LogRecord_encode E (LogRecord_new k (LogRecordPos_encode E p) Normal)")
  case (Ok en)
  then show "stays (file_stays d D) anything
      (case LogRecord_encode E (LogRecord_new k (LogRecordPos_encode E p) Normal) of
         Ok en \<Rightarrow> and_then (df_write E en (df, fs)) (\<lambda>_ st'. (Ok (), st'))
       | Err x \<Rightarrow> (Err x, df, fs) | Panic \<Rightarrow> (Panic, df, fs))"
    using stays_and_then [OF df_write_stays [OF assms, of E en], of anything "\<lambda>_ st'. (Ok (), st')"]
    by (simp add: stays_def)
qed (use assms in \<open>simp_all add: stays_def file_stays_def\<close>)

subsection \<open>Engines\<close>

definition engine_stays :: "path \<Rightarrow> dir \<Rightarrow> ('s, 'b) st \<Rightarrow> bool" where
  "engine_stays d D st \<longleftrightarrow>
     dir_path (eng_options (fst st)) \<noteq> d \<and> away d (active_file (fst st)) \<and> in_place d D (snd st)"

lemma engine_staysD:
  assumes "engine_stays d D st"
  shows "dir_path (eng_options (fst st)) \<noteq> d" "away d (active_file (fst st))" "in_place d D (snd st)"
  using assms by (simp_all add: engine_stays_def)

lemma engine_stays_on_engine [simp]:
  assumes "\<And>e. eng_options (f e) = eng_options e" "\<And>e. away d (active_file e) \<Longrightarrow> away d (active_file (f e))"
  shows "engine_stays d D st \<Longrightarrow> engine_stays d D (on_engine f st)"
  using assms by (cases st) (simp add: engine_stays_def)

lemma stays_on_fs [staying]:
  assumes "engine_stays d D st" "stays (in_place d D) Q (op (snd st))"
  shows "stays (engine_stays d D) Q (on_fs op st)"
  using assms by (cases st) (auto simp: on_fs_def stays_def engine_stays_def split: prod.splits)

lemma stays_on_active [staying]:
  assumes "engine_stays d D st" "stays (file_stays d D) Q (op (active_file (fst st), snd st))"
  shows "stays (engine_stays d D) Q (on_active op st)"
  using assms by (cases st) (auto simp: on_active_def stays_def engine_stays_def file_stays_def split: prod.splits)

lemma stays_on_index [staying]:
  "engine_stays d D st \<Longrightarrow> stays (engine_stays d D) anything (on_index op st)"
  by (cases st) (auto simp: on_index_def stays_def engine_stays_def split: prod.splits)

lemma stays_pair: "P s \<Longrightarrow> stays P anything (r, s)"
  by (simp add: stays_def)

lemmas stays_rules [staying] = stays_and_then stays_if stays_option stays_pair

lemma add_reclaim_away [simp]: "active_file (add_reclaim p e) = active_file e"
  by (simp add: add_reclaim_def split: option.split)

lemma rotate_stays [staying]:
  "engine_stays d D st \<Longrightarrow> stays (engine_stays d D) anything (rotate_active E st)"
  unfolding rotate_active_def Let_def
  by (rule staying | assumption | simp add: engine_staysD)+

lemma append_stays [staying]:
  "engine_stays d D st \<Longrightarrow> stays (engine_stays d D) anything (append_log_record E r st)"
  unfolding append_log_record_def Let_def
  by (rule staying | assumption | simp add: engine_staysD)+

lemma sync_stays [staying]:
  "engine_stays d D st \<Longrightarrow> stays (engine_stays d D) anything (engine_sync E st)"
  unfolding engine_sync_def
  by (rule staying | assumption | simp add: engine_staysD)+

lemma unlock_stays [staying]: "in_place d D fs \<Longrightarrow> stays (in_place d D) anything (unlock E f fs)"
  by (simp add: unlock_def stays_def)

lemma close_stays [staying]:
  "engine_stays d D st \<Longrightarrow> stays (engine_stays d D) anything (close E st)"
  unfolding close_def Let_def
  by (rule staying | assumption | simp add: engine_staysD)+

lemma drop_engine_stays:
  "engine_stays d D st \<Longrightarrow> in_place d D (snd (drop_engine E st))"
  using close_stays [of d D st E]
  by (auto simp: stays_def engine_stays_def drop_engine_def drop_lock_def split: prod.splits res.splits)

end
