(* ===== verification/MergeRun.thy ===== *)
theory MergeRun
  imports MergeLive Elsewhere
begin

text \<open>
  A whole merge on a system on which no call fails: the merge directory then holds a log of the
  live records, a hint file for it, and the file that marks it as finished.
\<close>

subsection \<open>All files\<close>

definition log_total :: "'z crates_scheme \<Rightarrow> logs \<Rightarrow> nat" where
  "log_total C logs = sum_list (map (log_length C \<circ> snd) logs)"

lemma log_total_simps [simp]: "log_total C [] = 0" "log_total C ((fid, rs) # logs) = log_length C rs + log_total C logs"
  by (simp_all add: log_total_def)

lemma merge_rel_next:
  assumes "merge_rel E opts fs0 idx i base n a s" "i + 2 < 2 ^ 32" "base + n \<le> 2 ^ 58"
  shows "merge_rel E opts fs0 idx (Suc i) (base + n) 0 a s"
  using assms by (auto simp: merge_rel_def merge_room_def)

lemma merge_rel_reads:
  assumes rel: "merge_rel E opts fs0 idx i base n a s" and good: "list_all (good_record E) rs"
    and len: "log_length E rs \<le> 2 ^ 63" and data: "file_data fs0 (get_data_file_name dir fid) = log_bytes E rs"
    and dir: "dir \<noteq> dir_path opts"
  shows "log_readable E (read_log_record E (snd (snd s)) (std_handle dir fid)) fid 0 rs"
proof -
  obtain hint e fs mlogs H where s: "s = (hint, e, fs)" and db: "merge_db E opts fs0 mlogs H (hint, e, fs)"
    and ok: "crates_ok E" "os_ok E"
    using rel by (cases s) (auto simp: merge_rel_def)
  have "agrees (dir_path opts) fs0 fs" using db by (simp add: merge_db_def)
  then have "file_data fs (get_data_file_name dir fid) = log_bytes E rs"
    using dir data by (simp add: agreesD(1) get_data_file_name_def)
  from fio_log_readable [OF ok good_wf [OF good] len this] show ?thesis by (simp add: s)
qed

lemma merge_files_ok:
  assumes "merge_rel E opts fs0 idx i base 0 a s" and dir: "dir \<noteq> dir_path opts"
    and "\<forall>(fid, rs) \<in> set logs. list_all (good_record E) rs \<and> log_length E rs \<le> unat (data_file_size opts) \<and>
      log_length E rs \<le> 2 ^ 63 \<and> file_data fs0 (get_data_file_name dir fid) = log_bytes E rs"
    and "i + length logs + 1 < 2 ^ 32" "base + log_total E logs \<le> 2 ^ 58"
  shows "\<exists>s'. merge_files E idx (map (std_handle dir \<circ> fst) logs) s = Some (Ok (), s') \<and>
    merge_rel E opts fs0 idx (i + length logs) (base + log_total E logs) 0
      (fold (copy_step E (index_entries E idx)) (log_entries E logs) a) s'"
  using assms(1,3-)
proof (induction logs arbitrary: i base a s)
  case (Cons log logs)
  obtain fid rs where log: "log = (fid, rs)" by (cases log)
  have rs: "list_all (good_record E) rs" "log_length E rs \<le> unat (data_file_size opts)"
    "log_length E rs \<le> 2 ^ 63" "file_data fs0 (get_data_file_name dir fid) = log_bytes E rs"
    using Cons.prems(2) by (simp_all add: log)
  have lim: "0 + log_length E rs \<le> merge_limit opts" using rs(2) Cons.prems(4) by (simp add: merge_limit_def log)
  have "\<exists>s'. scan_log (\<lambda>s. read_log_record E (snd (snd s)) (std_handle dir fid)) (merge_record E idx fid) (of_nat 0) s =
      Some (Ok (of_nat (0 + log_length E rs)), s') \<and>
      merge_rel E opts fs0 idx i base (0 + log_length E rs)
        (fold (copy_step E (index_entries E idx)) (layout E fid 0 rs) a) s'"
    by (rule merging.scan_log_fold [OF Cons.prems(1) rs(1) lim merge_rel_reads [OF _ rs(1,3,4) dir]])
  then obtain s' where s': "scan_log (\<lambda>s. read_log_record E (snd (snd s)) (std_handle dir fid)) (merge_record E idx fid) 0 s =
      Some (Ok (of_nat (log_length E rs)), s')"
    "merge_rel E opts fs0 idx i base (log_length E rs)
        (fold (copy_step E (index_entries E idx)) (layout E fid 0 rs) a) s'" by auto
  have "merge_rel E opts fs0 idx (Suc i) (base + log_length E rs) 0
      (fold (copy_step E (index_entries E idx)) (layout E fid 0 rs) a) s'"
    by (rule merge_rel_next [OF s'(2)]) (use Cons.prems(3,4) log in simp_all)
  from Cons.IH [OF this] Cons.prems(2-4) show ?case by (simp add: log s'(1) add.assoc)
qed simp

subsection \<open>Opening the merge directory\<close>

lemma hint_fresh:
  assumes ok: "crates_ok E" "os_ok E" and hint: "is_file fs (dir_path opts, HINT_FILE_NAME)"
    "file_data fs (dir_path opts, HINT_FILE_NAME) = []"
  shows "load_index_from_hint_file E (fresh_engine opts b i, fresh_fs (dir_path opts) fs) =
      Some (Ok (), fresh_engine opts b i, fresh_fs (dir_path opts) fs)"
proof -
  let ?fs = "fresh_fs (dir_path opts) fs" and ?f = "(dir_path opts, HINT_FILE_NAME)"
  have dir: "is_dir fs (dir_path opts)" using is_file_is_dir [OF hint(1)] by simp
  note fr = fresh_fs_frame [OF dir]
  have f: "is_file ?fs ?f" "file_data ?fs ?f = []" using hint by (simp_all add: fr)
  have "is_dir ?fs (dir_path opts)" using dir by (simp add: fr)
  from open_named_ok [OF ok(2) this, of HINT_FILE_NAME 0] f
  have o: "new_hint_file E (dir_path opts) ?fs =
      (Ok \<lparr>df_file_id = 0, df_write_off = 0, df_io = FileIO ?f\<rparr>, ?fs)" by (simp add: new_hint_file_def)
  have "read_log_record E ?fs \<lparr>df_file_id = 0, df_write_off = 0, df_io = FileIO ?f\<rparr> 0 = Err ReadDataFileEOF"
    unfolding read_log_record_def using f by (simp add: fio.read_at_end [OF ok(2,1)])
  then show ?thesis
    using f o by (simp add: load_index_from_hint_file_def scan_log.simps)
qed

text \<open>A new merge directory, with its empty hint file.\<close>

definition hint_handle :: "path \<Rightarrow> data_file" where
  "hint_handle dir = \<lparr>df_file_id = 0, df_write_off = 0, df_io = FileIO (dir, HINT_FILE_NAME)\<rparr>"

lemma open_merge_db:
  assumes ok: "crates_ok E" "os_ok E" and dir: "is_dir fs mp" "fs_wf fs" "no_merge mp fs"
    and empty: "\<And>n. \<not> is_file fs (mp, n)" and free: "(mp, FILE_LOCK_NAME) \<notin> set (fs_locks fs)"
    and opts: "check_options opts = Ok ()" "index_type opts = BTree" "unat (data_file_size opts) \<le> 2 ^ 63"
      "bytes_per_sync opts \<le> 2 ^ 63" "dir_path opts = mp" "bytes_per_sync opts = 0"
  shows "\<exists>fs1 e fs2. new_hint_file E mp fs = (Ok (hint_handle mp), fs1) \<and>
    engine_open E opts fs1 = Some (Ok e, fs2) \<and> merge_db E opts fs [(0, [])] [] (hint_handle mp, e, fs2) \<and>
    active_id e = 0 \<and> file_bytes (e, fs2) 0 = []"
proof -
  let ?f = "(mp, HINT_FILE_NAME)"
  let ?fs1 = "put_file fs ?f new_inode"
  have o: "new_hint_file E mp fs = (Ok (hint_handle mp), ?fs1)"
    using open_named_ok [OF ok(2) dir(1), of HINT_FILE_NAME 0] empty by (simp add: new_hint_file_def hint_handle_def)
  have add: "added_to fs ?f [] ?fs1" "fs_locks ?fs1 = fs_locks fs"
    using named_fs [OF dir(1), of HINT_FILE_NAME] empty by simp_all
  note a = added_toD [OF add(1)]
  have d1: "is_dir ?fs1 mp" "fs_wf ?fs1" "no_merge mp ?fs1"
    using dir by (simp_all add: a no_merge_def)
  have hint: "is_file ?fs1 ?f" "file_data ?fs1 ?f = []" using file_data_new [OF empty] by (simp_all add: a)
  have data: "data_log E mp ?fs1 []"
    using d1 empty by (simp add: data_log_def a)
  obtain i where i: "new_indexer E (index_type opts) mp = Ok i"
    using opts(2) by (simp add: new_indexer_def)
  have nb: "index_type opts \<noteq> BPlusTree" using opts(2) by simp
  obtain b where b: "open_files E opts False (mp, FILE_LOCK_NAME) (locked_fs mp ?fs1) =
      (Ok (fresh_engine opts b i), fresh_fs mp ?fs1)"
    using open_files_fresh [where opts = opts, OF ok(2) _ _ i [folded opts(5)]] data d1(3) unfolding opts(5) by blast
  have "load_engine E (fresh_engine opts b i, fresh_fs mp ?fs1) = Some (Ok (), fresh_engine opts b i, fresh_fs mp ?fs1)"
    using load_engine_fresh [OF ok(2) _ nb hint_fresh [OF ok]] d1(1) hint by (simp add: opts(5))
  then have open_it: "engine_open E opts ?fs1 = Some (Ok (fresh_engine opts b i), fresh_fs mp ?fs1)"
    using opts(1) d1(1) take_lock_ok [OF ok(2) d1(1)] free b add(2)
    by (simp add: engine_open_def open_locked_def opts(5))
  let ?e = "fresh_engine opts b i" and ?fs2 = "fresh_fs mp ?fs1"
  note files = fresh_engine_files [OF data [folded opts(5)] opts(3), of b i, unfolded opts(5)]
  note fr = fresh_fs_frame [OF d1(1)]
  have names: "(mp, HINT_FILE_NAME) \<noteq> get_data_file_name mp 0" "get_data_file_name mp 0 \<noteq> (mp, HINT_FILE_NAME)"
    using data_file_name_neq [OF not_data_names(3), of 0] by (auto simp: get_data_file_name_def)
  have locks: "fs_locks ?fs2 = (mp, FILE_LOCK_NAME) # fs_locks fs"
    using add(2) by (simp add: fresh_fs_def locked_fs_def)
  have "agrees mp fs ?fs2"
    unfolding agrees_def by (auto simp: fr a locks get_data_file_name_def dir)
  then have "merge_db E opts fs [(0, [])] [] (hint_handle mp, ?e, ?fs2)"
    using files opts hint names not_data_names(5) empty
    by (auto simp: merge_db_def bw_ok_def hint_handle_def fr a get_data_file_name_def)
  moreover have "file_bytes (?e, ?fs2) 0 = []" by (simp add: file_bytes_def fr opts(5))
  ultimately show ?thesis using o open_it by (intro exI [of _ ?fs1] exI [of _ ?e] exI [of _ ?fs2]) simp
qed

subsection \<open>Closing the merge directory\<close>

lemma data_log_touched:
  assumes "data_log E dir fs logs" "touched {} fs fs'"
  shows "data_log E dir fs' logs"
  by (rule data_log_frame [OF assms(1)]) (use assms(1) in \<open>auto simp: touchedD [OF assms(2)] data_log_def\<close>)

lemma merge_db_touched:
  assumes "merge_db E opts fs0 mlogs H (hint, e, fs)" "touched {} fs fs'"
  shows "merge_db E opts fs0 mlogs H (hint, e, fs')"
proof -
  note t = touchedD [OF assms(2)]
  have "data_files E (e, fs) mlogs" using assms(1) by (simp add: merge_db_def)
  then have "data_files E (e, fs') mlogs"
    using data_log_touched [OF _ assms(2)] unfolding data_files_def by auto
  moreover have "agrees (dir_path opts) fs fs'" by (auto simp: agrees_def t)
  ultimately show ?thesis
    using assms(1) files_inv_frame [of e fs fs'] agrees_trans [of "dir_path opts" fs0 fs fs']
    by (simp add: merge_db_def t)
qed

text \<open>What a merge leaves in its directory, without the mark that it is finished.\<close>

definition merge_left ::
  "('s, 'b) env \<Rightarrow> path \<Rightarrow> fs \<Rightarrow> logs \<Rightarrow> (bytes \<times> log_record_pos) list \<Rightarrow> fs \<Rightarrow> bool" where
  "merge_left E mp fs0 mlogs H fs \<longleftrightarrow>
     data_log E mp fs mlogs \<and> is_file fs (mp, HINT_FILE_NAME) \<and>
     file_data fs (mp, HINT_FILE_NAME) = log_bytes E (map (hint_record E) H) \<and>
     list_all (wf_record \<circ> hint_record E) H \<and> agrees mp fs0 fs \<and>
     (\<forall>n. is_file fs (mp, n) \<longrightarrow> n = HINT_FILE_NAME \<or> n = FILE_LOCK_NAME \<or> n = SEQ_NO_FILE_NAME \<or>
        n \<in> data_file_name ` fst ` set mlogs)"

lemma drop_merge_db:
  assumes ok: "crates_ok E" "os_ok E" and db: "merge_db E opts fs0 mlogs H (hint, e, fs)"
  obtains fs' where "drop_engine E (e, fs) = (Ok (), fs')" "merge_left E (dir_path opts) fs0 mlogs H fs'"
proof -
  let ?mp = "dir_path opts"
  have e: "files_inv (e, fs)" "eng_options e = opts" "seq_no e = 1" "lock_file e = (?mp, FILE_LOCK_NAME)"
    and data: "data_log E ?mp fs mlogs" and ag: "agrees ?mp fs0 fs"
    using db by (auto simp: merge_db_def data_files_def)
  have "seq_no e < 2 ^ 64" using e(3) by simp
  then obtain fs1 where fs1: "close E (e, fs) = (Ok (), e, fs1)" "closed_fs E e fs fs1"
    by (rule close_ok [OF ok e(1)])
  let ?fs' = "drop_lock (lock_file e) fs1"
  note add = closed_fsD(1) [OF fs1(2), unfolded e(2)]
  have "data_log E ?mp fs1 mlogs"
    by (rule data_log_frame [OF data])
      (use data data_file_name_neq [OF not_data_names(2)] in
        \<open>auto simp: added_toD [OF add] get_data_file_name_def data_log_def split: if_splits\<close>)
  then have "data_log E ?mp ?fs' mlogs" by (simp add: data_log_def drop_lock_def)
  moreover have "agrees ?mp fs ?fs'"
    unfolding agrees_def
    by (auto simp: added_toD [OF add] drop_lock_def closed_fsD(2) [OF fs1(2)] e(4))
  then have "agrees ?mp fs0 ?fs'" by (rule agrees_trans [OF ag])
  moreover have "is_file fs (?mp, HINT_FILE_NAME)"
    "file_data fs (?mp, HINT_FILE_NAME) = log_bytes E (map (hint_record E) H)"
    "list_all (wf_record \<circ> hint_record E) H"
    and names: "\<And>n. is_file fs (?mp, n) \<Longrightarrow>
      n = HINT_FILE_NAME \<or> n = FILE_LOCK_NAME \<or> n \<in> data_file_name ` fst ` set mlogs"
    using db by (auto simp: merge_db_def)
  ultimately have "merge_left E ?mp fs0 mlogs H ?fs'"
    using not_data_names(7) [THEN not_sym] names
    by (auto simp: merge_left_def drop_lock_def added_toD [OF add])
  then show ?thesis using that fs1(1) by (simp add: drop_engine_def)
qed

lemma finish_merge_db:
  assumes ok: "crates_ok E" "os_ok E" and db: "merge_db E opts fs0 mlogs H (hint, e, fs)"
  shows "\<exists>fs'. (case and_then (on_merge_db (engine_sync E) (hint, e, fs)) (\<lambda>_ s.
        on_merge_db (on_fs (df_sync E (fst s))) s) of
      (r, _, st) \<Rightarrow> (case drop_engine E st of
         (r', fs) \<Rightarrow> (if r = Panic then Panic else res_bind r' (\<lambda>_. r), fs))) = (Ok (), fs') \<and>
    merge_left E (dir_path opts) fs0 mlogs H fs'"
proof -
  have io: "df_io (active_file e) = FileIO (data_path e (active_id e))" "df_io hint = FileIO (dir_path opts, HINT_FILE_NAME)"
    using db by (auto simp: merge_db_def files_inv_def handle_ok_def)
  define fs1 where "fs1 = snd (fio_sync E (data_path e (active_id e)) fs)"
  define fs2 where "fs2 = snd (fio_sync E (dir_path opts, HINT_FILE_NAME) fs1)"
  have s: "fio_sync E (data_path e (active_id e)) fs = (Ok (), fs1)"
    "fio_sync E (dir_path opts, HINT_FILE_NAME) fs1 = (Ok (), fs2)"
    using ok(2) by (simp_all add: fs1_def fs2_def fio_sync_def)
  have "merge_db E opts fs0 mlogs H (hint, e, fs2)"
    unfolding fs2_def fs1_def by (rule merge_db_touched [OF merge_db_touched [OF db touched_sync] touched_sync])
  from drop_merge_db [OF ok this] obtain fs' where
    "drop_engine E (e, fs2) = (Ok (), fs')" "merge_left E (dir_path opts) fs0 mlogs H fs'" .
  then show ?thesis
    using s by (intro exI [of _ fs']) (simp add: engine_sync_def on_merge_db_def on_fs_def df_sync_def io)
qed

text \<open>The merge log holds copies of the live records, in files below the number of the old ones.\<close>

definition merge_copy :: "('s, 'b) env \<Rightarrow> (bytes \<Rightarrow> log_record_pos option) \<Rightarrow> logs \<Rightarrow> logs \<Rightarrow>
    (bytes \<times> log_record_pos) list \<Rightarrow> bool" where
  "merge_copy E m logs mlogs H \<longleftrightarrow>
     copies E mlogs (fold (copy_step E m) (log_entries E logs) []) H \<and>
     (\<forall>(fid, rs) \<in> set mlogs. rs \<noteq> [] \<longrightarrow> unat fid < length logs) \<and>
     log_length E (map (hint_record E) H) \<le> 2 ^ 61"

lemma merge_rel_copy:
  assumes rel: "merge_rel E opts fs0 idx (length logs) (log_total E logs) 0
      (fold (copy_step E (index_entries E idx)) (log_entries E logs) []) s"
  obtains hint e fs mlogs H where "s = (hint, e, fs)" "merge_db E opts fs0 mlogs H (hint, e, fs)"
    "merge_copy E (index_entries E idx) logs mlogs H"
proof -
  obtain hint e fs where s: "s = (hint, e, fs)" by (cases s)
  obtain mlogs H where db: "merge_db E opts fs0 mlogs H (hint, e, fs)" and
    cp: "copies E mlogs (fold (copy_step E (index_entries E idx)) (log_entries E logs) []) H"
      "log_length E (map (hint_record E) H) \<le> 8 * log_total E logs" "log_total E logs \<le> 2 ^ 58" and
    room: "merge_room (length logs) 0 (e, fs)" and C: "crates_ok E"
    using rel by (auto simp: merge_rel_def s)
  have data: "data_log E (dir_path opts) fs mlogs" "eng_options e = opts"
    "active_id e = fst (last mlogs)" "mlogs \<noteq> []"
    using db by (auto simp: merge_db_def data_files_def)
  have "unat fid < length logs" if at: "(fid, rs) \<in> set mlogs" and ne: "rs \<noteq> []" for fid rs
  proof -
    have "fid \<le> active_id e"
    proof -
      obtain ls l where logs: "mlogs = ls @ [l]" using data(4) by (metis append_butlast_last_id)
      have "sorted_wrt (<) (map fst ls @ [fst l])" using data(1) by (simp add: data_log_def logs)
      then show ?thesis using at data(3) by (auto simp: sorted_wrt_append logs)
    qed
    moreover have "length (file_bytes (e, fs) fid) \<noteq> 0"
    proof -
      obtain r rs' where rs: "rs = r # rs'" using ne by (cases rs) auto
      note f = data_log_file [OF data(1) at]
      have "wf_record r" using f(4) by (simp add: rs)
      then have "0 < encoded_length E r" using encoded_length_bounds(1) [OF C] by fastforce
      then show ?thesis
        using f(2) length_log_bytes [OF C f(4)] by (simp add: file_bytes_def data_path_def data(2) rs)
    qed
    ultimately show ?thesis
      using room word_unat_eq_iff [of fid "active_id e"]
      by (cases "fid = active_id e") (auto simp: merge_room_def word_le_nat_alt le_less)
  qed
  moreover have "log_length E (map (hint_record E) H) \<le> 2 ^ 61" using cp(2,3) by simp
  ultimately have "merge_copy E (index_entries E idx) logs mlogs H" using cp(1) by (auto simp: merge_copy_def)
  with s db show ?thesis by (rule that)
qed

lemma rewrite_live_ok:
  assumes ok: "crates_ok E" "os_ok E" and dir: "is_dir fs mp" "fs_wf fs" "no_merge mp fs"
    and empty: "\<And>n. \<not> is_file fs (mp, n)" and free: "(mp, FILE_LOCK_NAME) \<notin> set (fs_locks fs)"
    and opts: "check_options opts = Ok ()" "index_type opts = BTree" "unat (data_file_size opts) \<le> 2 ^ 63"
      "dir_path opts = mp" "bytes_per_sync opts = 0"
    and idx: "index_inv E idx" and neq: "d \<noteq> mp"
    and logs: "\<forall>(fid, rs) \<in> set logs. list_all (good_record E) rs \<and> log_length E rs \<le> unat (data_file_size opts) \<and>
      log_length E rs \<le> 2 ^ 63 \<and> file_data fs (get_data_file_name d fid) = log_bytes E rs"
    and small: "length logs + 1 < 2 ^ 32" "log_total E logs \<le> 2 ^ 58"
  shows "\<exists>fs' mlogs H. rewrite_live E idx (map (std_handle d \<circ> fst) logs) mp opts fs = Some (Ok (), fs') \<and>
    merge_left E mp fs mlogs H fs' \<and> merge_copy E (index_entries E idx) logs mlogs H"
proof -
  have "bytes_per_sync opts \<le> 2 ^ 63" using opts(5) by simp
  with open_merge_db [OF ok dir empty free opts(1-3) _ opts(4,5)] obtain fs1 e fs2 where
    o: "new_hint_file E mp fs = (Ok (hint_handle mp), fs1)" "engine_open E opts fs1 = Some (Ok e, fs2)"
    and db: "merge_db E opts fs [(0, [])] [] (hint_handle mp, e, fs2)" "active_id e = 0" "file_bytes (e, fs2) 0 = []"
    by blast
  have "merge_rel E opts fs idx 0 0 0 [] (hint_handle mp, e, fs2)"
    using ok idx db
    by (simp add: merge_rel_def merge_room_def) (intro exI [of _ "[(0, [])]"] exI [of _ "[]"], simp add: copies_def)
  from merge_files_ok [OF this _ logs] small neq opts(4) obtain s where
    s: "merge_files E idx (map (std_handle d \<circ> fst) logs) (hint_handle mp, e, fs2) = Some (Ok (), s)"
    and rel: "merge_rel E opts fs idx (length logs) (log_total E logs) 0
      (fold (copy_step E (index_entries E idx)) (log_entries E logs) []) s" by auto
  obtain hint e' fs3 mlogs H where s': "s = (hint, e', fs3)" "merge_db E opts fs mlogs H (hint, e', fs3)"
    and cp: "merge_copy E (index_entries E idx) logs mlogs H"
    by (rule merge_rel_copy [OF rel])
  from finish_merge_db [OF ok s'(2)] show ?thesis
    using o s s'(1) cp opts(4) by (auto simp: rewrite_live_def)
qed

end
