(* ===== verification/MergeFrame.thy ===== *)
theory MergeFrame
  imports Elsewhere Reopen
begin

text \<open>
  A merge works in the merge directory: apart from the new active file, the directory of the
  database is as it was, whatever the calls return.
\<close>

subsection \<open>Paths\<close>

text \<open>\<open>apart d p\<close>: removing the directory \<open>p\<close> with all below it does not remove \<open>d\<close>.\<close>

definition apart :: "path \<Rightarrow> path \<Rightarrow> bool" where
  "apart d p \<longleftrightarrow> \<not> starts_with d p"

lemma apart_neq: "apart d p \<Longrightarrow> p \<noteq> d"
  by (auto simp: apart_def starts_with_def)

lemma merge_path_Ok:
  assumes "get_merge_path dir = Ok mp"
  obtains parent name where "dir = parent @ [name]" "mp = parent @ [name @ ''-merge'']"
proof (cases "rev dir")
  case Nil
  then show ?thesis using assms by (simp add: get_merge_path_def path_file_name_def)
next
  case (Cons c cs)
  then have "dir = rev cs @ [c]" by (metis rev.simps(2) rev_rev_ident)
  then show ?thesis
    using that [of "rev cs" c] assms
    by (auto simp: get_merge_path_def path_file_name_def path_parent_def MERGE_DIR_NAME_def split: if_splits)
qed

lemma same_length_apart: "length p = length d \<Longrightarrow> p \<noteq> d \<Longrightarrow> apart d p"
  by (auto simp: apart_def starts_with_def)

lemma merge_path_apart:
  assumes "get_merge_path dir = Ok mp"
  shows "apart dir mp" and "get_merge_path mp = Ok mp2 \<Longrightarrow> apart dir mp2" and "apart mp dir"
proof -
  obtain parent name where p: "dir = parent @ [name]" "mp = parent @ [name @ ''-merge'']"
    by (rule merge_path_Ok [OF assms])
  show "apart dir mp" "apart mp dir" by (rule same_length_apart; simp add: p)+
  assume "get_merge_path mp = Ok mp2"
  then obtain parent2 name2 where p2: "mp = parent2 @ [name2]" "mp2 = parent2 @ [name2 @ ''-merge'']"
    by (rule merge_path_Ok)
  with p have "mp2 = parent @ [name @ ''-merge-merge'']" by simp
  then show "apart dir mp2" by (intro same_length_apart) (simp_all add: p)
qed

subsection \<open>Directories\<close>

lemma create_dir_stays: "in_place d D fs \<Longrightarrow> in_place d D (snd (create_dir_all E p fs))"
  by (simp add: in_place_def create_dir_all_def)

lemma remove_dir_stays: "apart d p \<Longrightarrow> in_place d D fs \<Longrightarrow> in_place d D (snd (remove_dir_all E p fs))"
  by (simp add: in_place_def remove_dir_all_def apart_def)

lemma remove_file_stays: "fst f \<noteq> d \<Longrightarrow> in_place d D fs \<Longrightarrow> in_place d D (snd (remove_file E f fs))"
  by (simp add: remove_file_def)

lemma rename_file_stays:
  "fst f \<noteq> d \<Longrightarrow> fst g \<noteq> d \<Longrightarrow> in_place d D fs \<Longrightarrow> in_place d D (snd (rename_file E f g fs))"
  by (simp add: rename_file_def split: option.split)

lemma prepare_merge_dir_stays [staying]:
  assumes "apart d mp" "in_place d D fs"
  shows "stays (in_place d D) anything (prepare_merge_dir E mp fs)"
proof -
  have "stays (in_place d D) anything (if is_dir fs mp
      then (case remove_dir_all E mp fs of (True, fs) \<Rightarrow> (Ok (), fs) | (False, fs) \<Rightarrow> (Err FailedToDeleteDatabaseDir, fs))
      else (Ok (), fs))"
    using assms remove_dir_stays [OF assms, of E] by (auto simp: stays_def split: prod.splits bool.splits)
  moreover have "stays (in_place d D) anything (case create_dir_all E mp fs of
      (True, fs) \<Rightarrow> (Ok (), fs) | (False, fs) \<Rightarrow> (Err FailedToCreateDatabaseDir, fs))" if "in_place d D fs" for fs
    using create_dir_stays [OF that, of E mp] by (auto simp: stays_def split: prod.splits bool.splits)
  ultimately show ?thesis unfolding prepare_merge_dir_def by (rule stays_and_then)
qed

lemma write_merge_finished_stays [staying]:
  "mp \<noteq> d \<Longrightarrow> in_place d D fs \<Longrightarrow> stays (in_place d D) anything (write_merge_finished E mp fid fs)"
  unfolding write_merge_finished_def Let_def
  by (rule staying | assumption)+

subsection \<open>Opening\<close>

lemma remove_merged_stays [staying]:
  "dir \<noteq> d \<Longrightarrow> in_place d D fs \<Longrightarrow> stays (in_place d D) anything (remove_merged E dir fids fs)"
proof (induction fids arbitrary: fs)
  case (Cons fid fids)
  have "fst (get_data_file_name dir (of_nat fid)) \<noteq> d" using Cons.prems(1) by (simp add: get_data_file_name_def)
  from remove_file_stays [OF this Cons.prems(2), of E] show ?case
    using Cons by (auto simp: Let_def stays_pair split: prod.split bool.split)
qed (simp add: stays_pair)

lemma move_files_stays [staying]:
  "mp \<noteq> d \<Longrightarrow> dir \<noteq> d \<Longrightarrow> in_place d D fs \<Longrightarrow> stays (in_place d D) anything (move_files E mp dir names fs)"
proof (induction names arbitrary: fs)
  case (Cons n names)
  from rename_file_stays [of "(mp, n)" d "(dir, n)" D fs E] show ?case
    using Cons by (auto simp: stays_pair split: prod.split bool.split)
qed (simp add: stays_pair)

lemma remove_merge_dir_stays [staying]:
  assumes "apart d mp" "in_place d D fs"
  shows "stays (in_place d D) anything (remove_merge_dir E mp fs)"
  using remove_dir_stays [OF assms, of E]
  by (auto simp: remove_merge_dir_def stays_pair split: prod.split bool.split)

lemma read_non_merge_fid_stays [staying]:
  "mp \<noteq> d \<Longrightarrow> in_place d D fs \<Longrightarrow> stays (in_place d D) anything (read_non_merge_fid E mp fs)"
  unfolding read_non_merge_fid_def
  by (rule staying | assumption)+

lemma load_merge_files_stays [staying]:
  assumes "dir \<noteq> d" "in_place d D fs" "\<And>mp. get_merge_path dir = Ok mp \<Longrightarrow> apart d mp"
  shows "stays (in_place d D) anything (load_merge_files E dir fs)"
proof (cases "get_merge_path dir")
  case (Ok mp)
  note mp = assms(3) [OF Ok] apart_neq [OF assms(3) [OF Ok]]
  show ?thesis
    unfolding load_merge_files_def Ok Let_def and_then_simps
    by (rule staying mp assms(1,2) | assumption)+
qed (use assms in \<open>simp_all add: load_merge_files_def stays_pair\<close>)

subsection \<open>Loading an engine\<close>

lemma stays_same: "in_place d D fs \<Longrightarrow> stays (in_place d D) anything (r, fs)"
  by (rule stays_pair)

lemma open_data_files_stays [staying]:
  "dir \<noteq> d \<Longrightarrow> in_place d D fs \<Longrightarrow>
   stays (in_place d D) (list_all (away d)) (open_data_files E dir mm fids fs)"
proof (induction fids arbitrary: fs)
  case (Cons fid fids)
  show ?case
    unfolding open_data_files.simps
  proof (rule stays_and_then [OF opening_stays(2) [OF Cons.prems]])
    fix df fs assume df: "in_place d D fs" "away d df"
    show "stays (in_place d D) (list_all (away d))
        (and_then (open_data_files E dir mm fids fs) (\<lambda>dfs fs. (Ok (df # dfs), fs)))"
      by (rule stays_and_then [OF Cons.IH [OF Cons.prems(1) df(1)]])
        (use df(2) in \<open>simp add: stays_def\<close>)
  qed
qed (simp add: stays_def)

lemma load_data_files_stays [staying]:
  assumes "dir \<noteq> d" "in_place d D fs"
  shows "stays (in_place d D) (list_all (away d)) (load_data_files E dir mm fs)"
proof (cases "read_dir E fs dir")
  case (Some names)
  show ?thesis
    unfolding load_data_files_def Some option.case
    by (rule stays_and_then [OF stays_same [OF assms(2)] open_data_files_stays [OF assms(1)]])
qed (use assms in \<open>simp add: load_data_files_def stays_def\<close>)

lemma pop_older_files_set: "set (fst (pop_older_files dfs older)) \<subseteq> set dfs"
proof (induction dfs older rule: pop_older_files.induct)
  case (1 dfs older)
  then show ?case
    by (subst pop_older_files.simps) (auto dest: in_set_butlastD)
qed

definition new_stays :: "path \<Rightarrow> ('s, 'b) engine \<Rightarrow> bool" where
  "new_stays d e \<longleftrightarrow> dir_path (eng_options e) \<noteq> d \<and> away d (active_file e)"

lemma engine_stays_new: "engine_stays d D (e, fs) \<longleftrightarrow> new_stays d e \<and> in_place d D fs"
  by (auto simp: engine_stays_def new_stays_def)

lemma open_files_stays:
  fixes E :: "('s, 'b) env"
  assumes "dir_path opts \<noteq> d" "in_place d D fs" "\<And>mp. get_merge_path (dir_path opts) = Ok mp \<Longrightarrow> apart d mp"
  shows "stays (in_place d D) (new_stays d) (open_files E opts initial lock fs)"
proof (cases "read_dir E fs (dir_path opts)")
  case (Some entries)
  show ?thesis
    unfolding open_files_def Let_def Some option.case
  proof (rule stays_and_then [OF load_merge_files_stays [OF assms]], assumption,
      rule stays_and_then [OF load_data_files_stays [OF assms(1)]], assumption)
    fix dfs fs assume dfs: "list_all (away d) dfs" and fs: "in_place d D fs"
    obtain rest older where pop: "pop_older_files dfs [] = (rest, older)" by fastforce
    have "set rest \<subseteq> set dfs" using pop_older_files_set [of dfs "[]"] by (simp add: pop)
    then have rest: "rest \<noteq> [] \<Longrightarrow> away d (last rest)"
      using dfs by (meson last_in_set list_all_iff subsetD)
    have new: "stays (in_place d D) (new_stays d)
        (and_then (new_indexer E (index_type opts) (dir_path opts), fs') (\<lambda>idx fs.
           (Ok (new_engine opts (initial \<or> length entries = 0) lock active older idx (map df_file_id dfs)), fs)))"
      if "in_place d D fs'" "away d active" for active fs'
      by (rule stays_and_then [OF stays_same [OF that(1)]])
        (use that(2) assms(1) in \<open>simp add: stays_def new_stays_def new_engine_def\<close>)
    have "stays (in_place d D) (away d)
        (if rest = [] then DataFile_new E (dir_path opts) INITIAL_FILE_ID StandardFIO fs else (Ok (last rest), fs))"
      using opening_stays(1) [OF assms(1) fs, of E INITIAL_FILE_ID StandardFIO] rest fs by (simp add: stays_def)
    from stays_and_then [OF this new]
    show "stays (in_place d D) (new_stays d) (case pop_older_files dfs [] of (rest, older) \<Rightarrow>
        and_then (if rest = [] then DataFile_new E (dir_path opts) INITIAL_FILE_ID StandardFIO fs
                  else (Ok (last rest), fs)) (\<lambda>active fs.
        and_then (new_indexer E (index_type opts) (dir_path opts), fs) (\<lambda>idx fs.
          (Ok (new_engine opts (initial \<or> length entries = 0) lock active older idx (map df_file_id dfs)), fs))))"
      unfolding pop prod.case by this
  qed
qed (use assms in \<open>simp add: open_files_def stays_def\<close>)

text \<open>The replay: its local variables beside the engine.\<close>

abbreviation replay_stays :: "path \<Rightarrow> dir \<Rightarrow> replay_vars \<times> ('s, 'b) st \<Rightarrow> bool" where
  "replay_stays d D s \<equiv> engine_stays d D (snd s)"

lemma snd_on_vars [simp]: "snd (on_vars f s) = snd s"
  by (simp add: on_vars_def)

lemma stays_prod: "(\<And>a b. x = (a, b) \<Longrightarrow> stays P Q (f a b s)) \<Longrightarrow> stays P Q ((case x of (a, b) \<Rightarrow> f a b) s)"
  by (cases x) simp

lemma stays_on_st [staying]:
  "stays (engine_stays d D) Q (op (snd s)) \<Longrightarrow> stays (replay_stays d D) Q (on_st op s)"
  by (auto simp: on_st_def stays_def split: prod.splits)

lemma update_index_stays [staying]:
  "engine_stays d D st \<Longrightarrow> stays (engine_stays d D) anything (update_index E k ty p st)"
  unfolding update_index_def
  by (rule staying | assumption | simp)+

lemma update_index_all_stays [staying]:
  "engine_stays d D st \<Longrightarrow> stays (engine_stays d D) anything (update_index_all E ts st)"
proof (induction ts arbitrary: st)
  case (Cons t ts)
  show ?case
    unfolding update_index_all.simps
    by (rule stays_and_then [OF update_index_stays [OF Cons.prems] Cons.IH])
qed (simp add: stays_pair)

lemma load_record_stays [staying]:
  "replay_stays d D s \<Longrightarrow> stays (replay_stays d D) anything (load_record E fid offset rlr s)"
  unfolding load_record_def Let_def
  by (rule staying stays_prod | assumption | simp)+

lemma load_hint_stays [staying]:
  "engine_stays d D st \<Longrightarrow> stays (engine_stays d D) anything (load_hint E offset rlr st)"
  unfolding load_hint_def
  by (rule staying | assumption)+

lemma load_files_stays:
  "replay_stays d D s \<Longrightarrow> stays_opt (replay_stays d D) anything (load_files E skip fids s)"
proof (induction fids arbitrary: s)
  case (Cons fid fids)
  show ?case
    unfolding load_files.simps
  proof (rule stays_opt_if, rule Cons.IH [OF Cons.prems],
      rule stays_loop_then [OF stays_scan_log [of "replay_stays d D", OF Cons.prems load_record_stays]],
      assumption, rule Cons.IH)
    fix offset s assume "replay_stays d D s"
    then show "replay_stays d D (if fids = []
        then (fst s, on_engine (\<lambda>e. e\<lparr>active_file := set_write_off offset (active_file e)\<rparr>) (snd s)) else s)"
      by (simp add: set_write_off_def)
  qed
qed (simp add: stays_opt_Some stays_pair)

lemma load_index_from_data_files_stays:
  assumes "engine_stays d D st"
  shows "stays_opt (engine_stays d D) anything (load_index_from_data_files E st)"
proof -
  have files: "stays_opt (engine_stays d D) anything
      (map_option (\<lambda>(r, vars, st). (f r vars, st)) (load_files E skip fids (vars, st)))"
    if "engine_stays d D st" for f skip fids vars st
    using load_files_stays [of d D "(vars, st)" E skip fids] that
    by (auto simp: stays_opt_def stays_def split: prod.splits)
  have non: "stays_opt (engine_stays d D) anything (Some (if b then on_fs (read_non_merge_fid E (dir_path (eng_options (fst st)))) st
      else (Ok 0, st)))" for b
    using stays_on_fs [OF assms, where op = "read_non_merge_fid E dir" for dir, OF read_non_merge_fid_stays [OF engine_staysD(1,3) [OF assms]]] assms
    by (simp add: stays_opt_Some stays_pair)
  show ?thesis
    unfolding load_index_from_data_files_def Let_def
    by (rule stays_opt_if, simp add: stays_opt_Some stays_pair assms, rule stays_loop_then [OF non files])
qed

lemma load_index_from_hint_file_stays:
  assumes "engine_stays d D st"
  shows "stays_opt (engine_stays d D) anything (load_index_from_hint_file E st)"
proof -
  have hint: "stays_opt (engine_stays d D) (away d) (Some (on_fs (new_hint_file E (dir_path (eng_options (fst st)))) st))"
    by (intro stays_opt_Some stays_on_fs assms opening_stays(3) engine_staysD(1,3) [OF assms])
  have scan: "stays_opt (engine_stays d D) anything
      (scan_log (\<lambda>st. read_log_record E (snd st) h) (load_hint E) 0 st)" if "engine_stays d D st" for h st
    by (rule stays_scan_log [OF that load_hint_stays])
  have last: "stays_opt (engine_stays d D) anything (Some (Ok (), st))" if "engine_stays d D st" for st
    using that by (simp add: stays_opt_Some stays_pair)
  show ?thesis
    unfolding load_index_from_hint_file_def Let_def
    by (rule stays_opt_if, rule last [OF assms], rule stays_loop_then [OF hint stays_loop_then [OF scan last]])
qed

lemma load_seq_no_stays [staying]:
  assumes "engine_stays d D st"
  shows "stays (engine_stays d D) anything (load_seq_no E st)"
proof -
  let ?sf = "(dir_path (eng_options (fst st)), SEQ_NO_FILE_NAME)"
  have "stays (engine_stays d D) (away d) (on_fs (new_seq_no_file E (fst ?sf)) st)"
    by (intro stays_on_fs assms opening_stays(5)) (simp_all add: engine_staysD [OF assms])
  moreover have "in_place d D (snd (remove_file E ?sf fs))" if "in_place d D fs" for fs
    by (rule remove_file_stays) (simp_all add: that engine_staysD [OF assms])
  moreover have "fst (snd (on_fs (new_seq_no_file E (fst ?sf)) st)) = fst st"
    by (cases st) (simp add: on_fs_def split: prod.split)
  ultimately show ?thesis
    using assms unfolding load_seq_no_def Let_def
    by (fastforce simp: stays_def engine_stays_def split: prod.splits res.splits option.splits bool.splits)
qed

lemma reset_older_files_stays [staying]:
  "dir \<noteq> d \<Longrightarrow> in_place d D fs \<Longrightarrow> stays (in_place d D) anything (reset_older_files E dir dfs fs)"
proof (induction dfs arbitrary: fs)
  case (Cons x rest)
  obtain fid df where x: "x = (fid, df)" by fastforce
  show ?case
    unfolding x reset_older_files.simps
    by (rule staying Cons | assumption)+
qed (simp add: stays_pair)

lemma reset_io_type_stays [staying]:
  assumes "engine_stays d D st"
  shows "stays (engine_stays d D) anything (reset_io_type E st)"
  unfolding reset_io_type_def Let_def
  by (rule staying assms | assumption | simp add: engine_staysD [OF assms] engine_staysD)+

lemma load_engine_stays:
  assumes "engine_stays d D st"
  shows "stays_opt (engine_stays d D) anything (load_engine E st)"
proof -
  have seq: "stays (engine_stays d D) anything (if 0 < n then and_then (add_usize n 1, st) (\<lambda>n st.
      (Ok (), on_engine (\<lambda>e. e\<lparr>seq_no := n\<rparr>) st)) else (Ok (), st))" if "engine_stays d D st" for n st
    by (rule staying that | assumption | simp)+
  have last: "stays (engine_stays d D) anything
      (if mmap_at_startup (eng_options (fst st)) then reset_io_type E st else (Ok (), st))"
    if "engine_stays d D st" for st
    by (rule staying that)+
  have bpt: "stays (engine_stays d D) anything (and_then (load_seq_no E st) (\<lambda>(exists, n) st.
      let st = (if exists then on_engine (\<lambda>e. e\<lparr>seq_no := n, seq_file_exists := exists\<rparr>) st else st)
      in (Ok (), on_engine (\<lambda>e. e\<lparr>active_file :=
           set_write_off (df_file_size (snd st) (active_file e)) (active_file e)\<rparr>) st)))"
    unfolding Let_def
    by (rule staying assms stays_prod | assumption | simp add: set_write_off_def)+
  show ?thesis
    unfolding load_engine_def
    by (rule stays_opt_if, rule stays_loop_then [OF load_index_from_hint_file_stays [OF assms]
          stays_loop_then [OF load_index_from_data_files_stays
            stays_loop_then [OF stays_opt_Some [OF seq] stays_opt_Some [OF last]]]],
        assumption+, rule stays_opt_Some [OF bpt])
qed

lemma stays_opt_map:
  "stays_opt P Q m \<Longrightarrow> (\<And>r. stays P Q r \<Longrightarrow> stays P' Q' (f r)) \<Longrightarrow> stays_opt P' Q' (map_option f m)"
  unfolding stays_opt_def by (cases m) (simp_all del: split_paired_All)

lemma take_lock_stays:
  "dir \<noteq> d \<Longrightarrow> in_place d D fs \<Longrightarrow> stays (in_place d D) anything (take_lock E dir fs)"
  by (simp add: take_lock_def stays_def Let_def)

lemma drop_lock_stays [simp]: "in_place d D (drop_lock f fs) \<longleftrightarrow> in_place d D fs"
  by (simp add: drop_lock_def)

lemma open_locked_stays:
  fixes E :: "('s, 'b) env"
  assumes "dir_path opts \<noteq> d" "in_place d D fs" "\<And>mp. get_merge_path (dir_path opts) = Ok mp \<Longrightarrow> apart d mp"
  shows "stays_opt (in_place d D) (new_stays d) (open_locked E opts initial lock fs)"
proof (cases "open_files E opts initial lock fs")
  case (Pair r fs1)
  have open_it: "stays (in_place d D) (new_stays d) (r, fs1)" using open_files_stays [OF assms] Pair by metis
  show ?thesis
  proof (cases r)
    case (Ok e)
    then have "engine_stays d D (e, fs1)" using open_it by (simp add: stays_def engine_stays_new)
    note load = load_engine_stays [OF this, of E]
    have end_it: "stays (in_place d D) (new_stays d) (case m of (r, st) \<Rightarrow>
        (case r of
           Ok _ \<Rightarrow> (Ok (fst st), snd st)
         | Err x \<Rightarrow> (case drop_engine E st of (r', fs) \<Rightarrow> (res_bind r' (\<lambda>_. Err x), fs))
         | Panic \<Rightarrow> (case drop_engine E st of (_, fs) \<Rightarrow> (Panic, fs))))"
      if "stays (engine_stays d D) anything m" for m :: "unit res \<times> ('s, 'b) st"
    proof -
      obtain r e fs where m: "m = (r, e, fs)" by (metis prod.exhaust)
      have st: "engine_stays d D (e, fs)" using that by (simp add: m stays_def)
      obtain r' fs' where drop: "drop_engine E (e, fs) = (r', fs')" by fastforce
      with drop_engine_stays [OF st, of E] have "in_place d D fs'" by simp
      then show ?thesis
        using st by (cases r; cases r') (simp_all add: m drop stays_def engine_stays_new)
    qed
    show ?thesis
      unfolding open_locked_def Pair Ok prod.case res.case by (rule stays_opt_map [OF load end_it])
  qed (use open_it in \<open>simp_all add: open_locked_def Pair stays_opt_def stays_def\<close>)
qed

lemma engine_open_stays:
  assumes "dir_path opts \<noteq> d" "in_place d D fs" "\<And>mp. get_merge_path (dir_path opts) = Ok mp \<Longrightarrow> apart d mp"
  shows "stays_opt (in_place d D) (new_stays d) (engine_open E opts fs)"
proof -
  have "stays_opt (in_place d D) anything (Some (check_options opts, fs))"
    by (simp add: stays_opt_def stays_def assms)
  moreover have "stays_opt (in_place d D) anything (Some (if b then (case create_dir_all E dir fs of
      (True, fs) \<Rightarrow> (Ok (), fs) | (False, fs) \<Rightarrow> (Err FailedToCreateDatabaseDir, fs)) else (Ok (), fs)))"
    if "in_place d D fs" for b dir fs
    using create_dir_stays [OF that, of E dir] that
    by (auto simp: stays_opt_def stays_def split: prod.split bool.split)
  moreover have "stays_opt (in_place d D) anything (Some (take_lock E (dir_path opts) fs))"
    if "in_place d D fs" for fs
    by (rule stays_opt_Some [OF take_lock_stays [OF assms(1) that]])
  ultimately show ?thesis
    unfolding engine_open_def Let_def
    by (rule stays_loop_then [OF _ stays_loop_then [OF _ stays_loop_then]])
      (simp_all add: open_locked_stays [OF assms(1) _ assms(3)])
qed

subsection \<open>Rewriting the live records\<close>

definition merge_stays :: "path \<Rightarrow> dir \<Rightarrow> ('s, 'b) merge_st \<Rightarrow> bool" where
  "merge_stays d D s \<longleftrightarrow> away d (fst s) \<and> engine_stays d D (snd s)"

lemma stays_on_merge_db [staying]:
  assumes "merge_stays d D s" "stays (engine_stays d D) Q (op (snd s))"
  shows "stays (merge_stays d D) Q (on_merge_db op s)"
  using assms by (cases s) (auto simp: on_merge_db_def stays_def merge_stays_def split: prod.splits)

lemma stays_on_hint_file [staying]:
  assumes "merge_stays d D s" "stays (file_stays d D) Q (op (fst s, snd (snd s)))"
  shows "stays (merge_stays d D) Q (on_hint_file op s)"
  using assms
  by (cases s) (auto simp: on_hint_file_def stays_def merge_stays_def engine_stays_def file_stays_def split: prod.splits)

lemma merge_staysD:
  assumes "merge_stays d D s"
  shows "away d (fst s)" "engine_stays d D (snd s)" "in_place d D (snd (snd s))"
  using assms by (simp_all add: merge_stays_def engine_stays_def)

lemma merge_record_stays:
  "merge_stays d D s \<Longrightarrow> stays (merge_stays d D) anything (merge_record E idx fid offset rlr s)"
  unfolding merge_record_def
  by (rule staying stays_prod | assumption | simp add: merge_staysD)+

lemma merge_files_stays:
  "merge_stays d D s \<Longrightarrow> stays_opt (merge_stays d D) anything (merge_files E idx dfs s)"
proof (induction dfs arbitrary: s)
  case (Cons df dfs)
  show ?case
    unfolding merge_files.simps
    by (rule stays_loop_then [OF stays_scan_log [of "merge_stays d D", OF Cons.prems merge_record_stays] Cons.IH])
qed (simp add: stays_opt_Some stays_pair)

lemma rewrite_live_stays:
  fixes E :: "('s, 'b) env"
  assumes "dir_path opts \<noteq> d" "mp \<noteq> d" "in_place d D fs"
    and "\<And>mp. get_merge_path (dir_path opts) = Ok mp \<Longrightarrow> apart d mp"
  shows "stays_opt (in_place d D) anything (rewrite_live E idx dfs mp opts fs)"
proof -
  have close_it: "stays_opt (in_place d D) anything (map_option (\<lambda>s.
         case and_then s (\<lambda>_ s.
              and_then (on_merge_db (engine_sync E) s) (\<lambda>_ s.
              on_merge_db (on_fs (df_sync E (fst s))) s)) of
           (r, _, st) \<Rightarrow>
             (case drop_engine E st of
                (r', fs) \<Rightarrow> (if r = Panic then Panic else res_bind r' (\<lambda>_. r), fs)))
         (merge_files E idx dfs (hint, db, fs)))"
    if "away d hint" "new_stays d db" "in_place d D fs" for hint db fs
  proof -
    have "merge_stays d D (hint, db, fs)" using that by (simp add: merge_stays_def engine_stays_new)
    note files = merge_files_stays [OF this, of E idx dfs]
    show ?thesis
    proof (rule stays_opt_map [OF files])
      fix s :: "unit res \<times> ('s, 'b) merge_st"
      assume s: "stays (merge_stays d D) anything s"
      let ?m = "and_then s (\<lambda>_ s. and_then (on_merge_db (engine_sync E) s) (\<lambda>_ s.
          on_merge_db (on_fs (df_sync E (fst s))) s))"
      obtain r h st where m: "?m = (r, h, st)" by (rule prod_cases3)
      have "stays (merge_stays d D) anything ?m"
        by (rule staying s merge_staysD | assumption)+
      then have st: "engine_stays d D st" by (simp add: m stays_def merge_stays_def)
      obtain r' fs' where drop: "drop_engine E st = (r', fs')" by fastforce
      with drop_engine_stays [OF st, of E] have "in_place d D fs'" by simp
      then show "stays (in_place d D) anything (case ?m of (r, _, st) \<Rightarrow>
          (case drop_engine E st of (r', fs) \<Rightarrow> (if r = Panic then Panic else res_bind r' (\<lambda>_. r), fs)))"
        by (simp add: m drop stays_pair)
    qed
  qed
  show ?thesis
    unfolding rewrite_live_def
    by (rule stays_loop_then [OF stays_opt_Some [OF opening_stays(3) [OF assms(2,3)]]
          stays_loop_then [OF engine_open_stays [OF assms(1) _ assms(4)] close_it]])
qed

end
