(* ===== verification/MergeDone.thy ===== *)
theory MergeDone
  imports MergeRun MergeFrame
begin

text \<open>
  The whole of \<open>merge_to\<close>: what the database and the merge directory hold when it has succeeded.
\<close>

subsection \<open>The mark that the merge is finished\<close>

definition fin_record :: "u32 \<Rightarrow> log_record" where
  "fin_record n = LogRecord_new (string_bytes MERGE_FIN_KEY) (string_bytes (to_decimal (unat n))) Normal"

lemma wf_fin_record: "wf_record (fin_record n)"
proof -
  have "unat n < 2 ^ 32" using unsigned_less [of n] by simp
  then have "unat n < 10 ^ Suc 9" by simp
  from length_to_decimal [OF this] show ?thesis
    by (simp add: fin_record_def wf_record_def string_bytes_def MERGE_FIN_KEY_def)
qed

definition merge_done ::
  "('s, 'b) env \<Rightarrow> path \<Rightarrow> fs \<Rightarrow> logs \<Rightarrow> (bytes \<times> log_record_pos) list \<Rightarrow> u32 \<Rightarrow> fs \<Rightarrow> bool" where
  "merge_done E mp fs0 mlogs H n fs \<longleftrightarrow>
     data_log E mp fs mlogs \<and> is_file fs (mp, HINT_FILE_NAME) \<and>
     file_data fs (mp, HINT_FILE_NAME) = log_bytes E (map (hint_record E) H) \<and>
     list_all (wf_record \<circ> hint_record E) H \<and> is_file fs (mp, MERGE_FINISHED_FILE_NAME) \<and>
     file_data fs (mp, MERGE_FINISHED_FILE_NAME) = record_bytes E (fin_record n) \<and> agrees mp fs0 fs \<and>
     (\<forall>m. is_file fs (mp, m) \<longrightarrow> m = HINT_FILE_NAME \<or> m = FILE_LOCK_NAME \<or> m = SEQ_NO_FILE_NAME \<or>
        m = MERGE_FINISHED_FILE_NAME \<or> m \<in> data_file_name ` fst ` set mlogs)"

lemma fixed_names [simp]:
  "HINT_FILE_NAME \<noteq> MERGE_FINISHED_FILE_NAME" "FILE_LOCK_NAME \<noteq> SEQ_NO_FILE_NAME"
  by (simp_all add: HINT_FILE_NAME_def MERGE_FINISHED_FILE_NAME_def FILE_LOCK_NAME_def SEQ_NO_FILE_NAME_def)

lemma not_data_range: "\<not> ends_with n DATA_FILE_NAME_SUFFIX \<Longrightarrow> n \<notin> data_file_name ` S"
  by (auto simp: image_iff)

lemma write_merge_finished_ok:
  assumes ok: "crates_ok E" "os_ok E" and left: "merge_left E mp fs0 mlogs H fs"
  shows "\<exists>fs'. write_merge_finished E mp n fs = (Ok (), fs') \<and> merge_done E mp fs0 mlogs H n fs'"
proof -
  let ?f = "(mp, MERGE_FINISHED_FILE_NAME)" and ?r = "fin_record n"
  let ?fs1 = "put_file fs ?f new_inode"
  have data: "data_log E mp fs mlogs" and dir: "is_dir fs mp" and ag: "agrees mp fs0 fs"
    using left by (simp_all add: merge_left_def data_log_def)
  have new: "\<not> is_file fs ?f"
    using left not_data_names(6,8) [THEN not_sym] fixed_names(1) [THEN not_sym] not_data_range [OF not_data_names(4)]
    unfolding merge_left_def by blast
  have o: "new_merge_fin_file E mp fs = (Ok \<lparr>df_file_id = 0, df_write_off = 0, df_io = FileIO ?f\<rparr>, ?fs1)"
    using open_named_ok [OF ok(2) dir, of MERGE_FINISHED_FILE_NAME 0] new by (simp add: new_merge_fin_file_def)
  have add1: "added_to fs ?f [] ?fs1" "fs_locks ?fs1 = fs_locks fs"
    using named_fs [OF dir, of MERGE_FINISHED_FILE_NAME] new by simp_all
  note en = record_bytes_encode [OF ok(1) wf_fin_record, of n]
  have len: "record_bytes E ?r \<noteq> []" "unat (0 :: u64) + length (record_bytes E ?r) < 2 ^ 64"
    using en(2) encoded_length_bounds [OF ok(1) wf_fin_record, of n] by auto
  have f1: "is_file ?fs1 ?f" by (simp add: added_toD [OF add1(1)])
  obtain fs2 where w: "df_write E (record_bytes E ?r) (\<lparr>df_file_id = 0, df_write_off = 0, df_io = FileIO ?f\<rparr>, ?fs1) =
      (Ok (length (record_bytes E ?r)), \<lparr>df_file_id = 0, df_write_off = of_nat (length (record_bytes E ?r)), df_io = FileIO ?f\<rparr>, fs2)"
    and add2: "added_to ?fs1 ?f (record_bytes E ?r) fs2" "fs_locks fs2 = fs_locks ?fs1"
    by (rule write_handle [OF ok(2) f1, of "\<lparr>df_file_id = 0, df_write_off = 0, df_io = FileIO ?f\<rparr>" "record_bytes E ?r"])
      (use len in simp_all)
  define fs3 where "fs3 = snd (fio_sync E ?f fs2)"
  have s: "fio_sync E ?f fs2 = (Ok (), fs3)" using ok(2) by (simp add: fs3_def fio_sync_def)
  have add: "added_to fs ?f (record_bytes E ?r) fs3"
    using added_to_trans [OF add1(1) add2(1)] unfolding fs3_def by (auto intro: added_to_sync)
  have locks: "fs_locks fs3 = fs_locks fs" unfolding fs3_def by (simp add: fio_sync_data add1(2) add2(2))
  have "data_log E mp fs3 mlogs"
    by (rule data_log_frame [OF data])
      (use data data_file_name_neq [OF not_data_names(4)] in
        \<open>auto simp: added_toD [OF add] get_data_file_name_def data_log_def split: if_splits\<close>)
  then have "merge_done E mp fs0 mlogs H n fs3"
    using left agrees_trans [OF ag agrees_added [OF add locks]] file_data_new [OF new] fixed_names(1)
    by (auto simp: merge_done_def merge_left_def added_toD [OF add])
  moreover have "write_merge_finished E mp n fs = (Ok (), fs3)"
    using o en(1) w s by (simp add: write_merge_finished_def Let_def fin_record_def df_sync_def)
  ultimately show ?thesis by blast
qed

subsection \<open>The new merge directory\<close>

lemma prepare_merge_dir_ok:
  assumes os: "os_ok E" and new: "\<not> is_dir fs mp"
  obtains fs' where "prepare_merge_dir E mp fs = (Ok (), fs')" "is_dir fs' mp" "\<And>n. \<not> is_file fs' (mp, n)"
    "\<And>f. file_data fs' f = file_data fs f" "\<And>f. is_file fs' f = is_file fs f"
    "\<And>d. is_dir fs' d \<longleftrightarrow> is_dir fs d \<or> starts_with mp d" "fs_locks fs' = fs_locks fs" "fs_wf fs \<Longrightarrow> fs_wf fs'"
proof -
  let ?fs' = "fs\<lparr>fs_dirs := (\<lambda>p. if starts_with mp p \<and> fs_dirs fs p = None then Some [] else fs_dirs fs p)\<rparr>"
  have look: "lookup_file ?fs' f = lookup_file fs f" for f by (auto simp: lookup_file_def)
  have self: "starts_with mp mp" by (simp add: starts_with_def)
  have "\<not> create_dir_fails E fs mp" using os by simp
  then have "prepare_merge_dir E mp fs = (Ok (), ?fs')"
    using new by (simp add: prepare_merge_dir_def create_dir_all_def)
  moreover have "\<not> is_file fs (mp, n)" for n using new is_file_is_dir [of fs "(mp, n)"] by auto
  ultimately show ?thesis
    using self by (intro that [of ?fs']) (auto simp: is_dir_def file_data_def is_file_def look fs_wf_def)
qed

text \<open>The data files are the ones of the log, in ascending order.\<close>

lemma merge_ids:
  assumes "log_files E (e, fs) logs" "files_inv (e, fs)"
  shows "sort (map fst (older_files e) @ [active_id e]) = map fst logs"
proof -
  have logs: "sorted_wrt (<) (map fst logs)" "known_ids e = fst ` set logs"
    using assms(1) by (simp_all add: log_files_def disk_log_def)
  have "distinct (map fst (older_files e) @ [active_id e])"
    using assms(2) by (auto simp: files_inv_def)
  moreover have "set (map fst (older_files e) @ [active_id e]) = set (map fst logs)"
    using logs(2) by (auto simp: known_ids_def)
  ultimately show ?thesis
    using logs(1) by (intro sorted_distinct_set_unique) (simp_all add: strict_sorted_iff)
qed

lemma length_ids_le:
  assumes "sorted_wrt (<) (ids :: u32 list)" "\<forall>i \<in> set ids. i \<le> a"
  shows "length ids \<le> unat a + 1"
proof -
  have "card (unat ` set ids) \<le> card {..unat a}"
    using assms(2) by (intro card_mono) (auto simp: word_le_nat_alt)
  moreover have "card (unat ` set ids) = length ids"
    using assms(1) by (simp add: card_image inj_on_def word_unat_eq_iff distinct_card strict_sorted_iff)
  ultimately show ?thesis by simp
qed

subsection \<open>The merge\<close>

lemma check_merge_opts:
  assumes "data_file_size opts \<noteq> 0" "mp \<noteq> []"
  shows "check_options (merge_db_opts opts mp) = Ok ()"
  using assms
  by (simp add: check_options_def merge_db_opts_def Options_default_def f32_less_def f32_is_nan_def f32_key_def)

lemma merge_db_opts_sel [simp]:
  "dir_path (merge_db_opts opts mp) = mp" "data_file_size (merge_db_opts opts mp) = data_file_size opts"
  "index_type (merge_db_opts opts mp) = BTree" "bytes_per_sync (merge_db_opts opts mp) = 0"
  by (simp_all add: merge_db_opts_def Options_default_def)

text \<open>The directories before the merge directory is written to: only the new active file is new.\<close>

definition merge_begun :: "('s, 'b) engine \<Rightarrow> path \<Rightarrow> fs \<Rightarrow> fs \<Rightarrow> bool" where
  "merge_begun e mp fs fs1 \<longleftrightarrow>
     (\<forall>f. file_data fs1 f = file_data fs f) \<and>
     (\<forall>f. is_file fs1 f \<longleftrightarrow> f = data_path e (active_id e + 1) \<or> is_file fs f) \<and>
     (\<forall>d. is_dir fs1 d \<longleftrightarrow> is_dir fs d \<or> starts_with mp d) \<and> fs_locks fs1 = fs_locks fs \<and> (fs_wf fs \<longrightarrow> fs_wf fs1)"

lemma merge_begin:
  assumes os: "os_ok E" and files: "files_inv (e, fs)" and log: "log_files E (e, fs) logs"
    and mp: "get_merge_path (dir_path (eng_options e)) = Ok mp" and id: "unat (active_id e) + 1 < 2 ^ 32"
  obtains fs0 fs1 where "prepare_merge_dir E mp fs = (Ok (), fs0)"
    "ratate_merge_files E (e, fs0) =
       (Ok (map (std_handle (dir_path (eng_options e)) \<circ> fst) logs), rotated e, fs1)"
    "merge_begun e mp fs fs1"
proof -
  have disk: "disk_log E (dir_path (eng_options e)) fs logs" and known: "known_ids e = fst ` set logs"
    using log by (simp_all add: log_files_def)
  have "\<not> is_dir fs mp" using disk mp by (simp add: disk_log_def)
  then obtain fs0 where prep: "prepare_merge_dir E mp fs = (Ok (), fs0)" and
    f0: "\<And>f. file_data fs0 f = file_data fs f" "\<And>f. is_file fs0 f = is_file fs f"
      "\<And>d. is_dir fs0 d \<longleftrightarrow> is_dir fs d \<or> starts_with mp d" "fs_locks fs0 = fs_locks fs" "fs_wf fs \<Longrightarrow> fs_wf fs0"
    using prepare_merge_dir_ok [OF os, of fs mp] by metis
  have files0: "files_inv (e, fs0)" by (rule files_inv_frame [OF files]) (simp_all add: f0)
  obtain fs1 where rot: "ratate_merge_files E (e, fs0) =
      (Ok (map (std_handle (dir_path (eng_options e))) (sort (map fst (older_files e) @ [active_id e]))), rotated e, fs1)"
    and t: "touched (data_path e ` insert (active_id e + 1) (known_ids e)) fs0 fs1"
    by (rule ratate_merge_files_ok [OF os files0 id])
  have old: "is_file fs (data_path e fid)" if "fid \<in> known_ids e" for fid
    using that disk_log_file(1) [OF disk] known by (auto simp: data_path_def)
  have "merge_begun e mp fs fs1"
    using old by (auto simp: merge_begun_def touchedD [OF t] f0)
  then show ?thesis
    using that prep rot by (simp add: merge_ids [OF log files] flip: map_map)
qed

lemma merge_to_ok:
  assumes ok: "crates_ok E" "os_ok E" and inv: "engine_inv E (e, fs)" and lf: "log_files E (e, fs) logs"
    and mp: "get_merge_path (dir_path (eng_options e)) = Ok mp" "no_merge mp fs"
    and free: "(mp, FILE_LOCK_NAME) \<notin> set (fs_locks fs)" and id: "unat (active_id e) + 2 < 2 ^ 32"
    and size: "data_file_size (eng_options e) \<noteq> 0"
      "\<forall>(fid, rs) \<in> set logs. log_length E rs \<le> unat (data_file_size (eng_options e))" "log_total E logs \<le> 2 ^ 58"
  obtains fs1 fs2 mlogs H where "merge_to E mp (e, fs) = Some (Ok (), rotated e, fs2)"
    "merge_begun e mp fs fs1" "merge_done E mp fs1 mlogs H (active_id e + 1) fs2"
    "merge_copy E (index_entries E (eng_index e)) logs mlogs H"
proof -
  let ?dir = "dir_path (eng_options e)" and ?opts = "merge_db_opts (eng_options e) mp"
  have files: "files_inv (e, fs)" and idx: "index_inv E (eng_index e)" using inv by (simp_all add: engine_inv_def)
  have disk: "disk_log E ?dir fs logs" and ne: "logs \<noteq> []" and act: "active_id e = fst (last logs)"
    and known: "known_ids e = fst ` set logs" using lf by (simp_all add: log_files_def)
  have id1: "unat (active_id e) + 1 < 2 ^ 32" using id by simp
  obtain fs0 fs1 where b: "prepare_merge_dir E mp fs = (Ok (), fs0)"
    "ratate_merge_files E (e, fs0) = (Ok (map (std_handle ?dir \<circ> fst) logs), rotated e, fs1)"
    and begun: "merge_begun e mp fs fs1"
    by (rule merge_begin [OF ok(2) files lf mp(1) id1])
  have f1: "file_data fs1 f = file_data fs f" "is_file fs1 f \<longleftrightarrow> f = data_path e (active_id e + 1) \<or> is_file fs f"
    "is_dir fs1 d \<longleftrightarrow> is_dir fs d \<or> starts_with mp d" "fs_locks fs1 = fs_locks fs" "fs_wf fs \<Longrightarrow> fs_wf fs1" for f d
    using begun unfolding merge_begun_def by blast+
  have apart: "?dir \<noteq> mp" using apart_neq [OF merge_path_apart(1) [OF mp(1)]] by simp
  have nodir: "\<not> is_dir fs mp" using disk mp(1) by (simp add: disk_log_def)
  have empty: "\<not> is_file fs1 (mp, n)" for n
    using nodir is_file_is_dir [of fs "(mp, n)"] apart by (auto simp: f1 data_path_def get_data_file_name_def)
  have nm: "no_merge mp fs1"
  proof -
    obtain mp2 where mp2: "get_merge_path mp = Ok mp2" "\<not> is_dir fs mp2" using mp(2) by (auto simp: no_merge_def)
    have "\<not> starts_with mp mp2" using merge_path_apart(1) [OF mp2(1)] by (simp add: apart_def)
    then show ?thesis using mp2 by (auto simp: no_merge_def f1)
  qed
  have dirs: "is_dir fs1 mp" "fs_wf fs1" using disk by (simp_all add: f1 starts_with_def disk_log_def)
  have free1: "(mp, FILE_LOCK_NAME) \<notin> set (fs_locks fs1)" using free by (simp add: f1)
  have small: "length logs + 1 < 2 ^ 32"
  proof -
    have "i \<le> active_id e" if "i \<in> known_ids e" for i
      using that files by (auto simp: known_ids_def files_inv_def)
    then have "\<forall>i \<in> set (map fst logs). i \<le> active_id e" using known by simp
    moreover have "sorted_wrt (<) (map fst logs)" using disk by (simp add: disk_log_def)
    ultimately have "length (map fst logs) \<le> unat (active_id e) + 1" by (intro length_ids_le)
    then show ?thesis using id by simp
  qed
  have good: "\<forall>(fid, rs) \<in> set logs. list_all (good_record E) rs \<and> log_length E rs \<le> unat (data_file_size ?opts) \<and>
      log_length E rs \<le> 2 ^ 63 \<and> file_data fs1 (get_data_file_name ?dir fid) = log_bytes E rs"
    using disk_log_file [OF disk] size(2) by (auto simp: f1)
  have mpne: "mp \<noteq> []" by (rule merge_path_Ok [OF mp(1)]) simp
  have size63: "unat (data_file_size ?opts) \<le> 2 ^ 63" using files by (simp add: files_inv_def)
  obtain fs2 mlogs H where live: "rewrite_live E (eng_index e) (map (std_handle ?dir \<circ> fst) logs) mp ?opts fs1 =
      Some (Ok (), fs2)" and left: "merge_left E mp fs1 mlogs H fs2" and
    cp: "merge_copy E (index_entries E (eng_index e)) logs mlogs H"
    using rewrite_live_ok [OF ok dirs nm empty free1 check_merge_opts [OF size(1) mpne] merge_db_opts_sel(3) size63
        merge_db_opts_sel(1,4) idx apart good small size(3)] by blast
  obtain fs3 where fin: "write_merge_finished E mp (active_id e + 1) fs2 = (Ok (), fs3)"
    and fin_ok: "merge_done E mp fs1 mlogs H (active_id e + 1) fs3"
    using write_merge_finished_ok [OF ok left] by blast
  have "df_file_id (last (map (std_handle ?dir \<circ> fst) logs)) = active_id e"
    using ne act by (simp add: last_map)
  then have "merge_to E mp (e, fs) = Some (Ok (), rotated e, fs3)"
    using b live fin ne u32_succ(1) [OF id1] by (simp add: merge_to_def on_fs_def)
  then show ?thesis by (rule that [OF _ begun fin_ok cp])
qed

end
