(* ===== verification/MergeMove.thy ===== *)
theory MergeMove
  imports MergeDone
begin

text \<open>
  What \<open>load_merge_files\<close> does with the directory of a finished merge: the files that were merged
  are removed, and what the merge wrote takes their place.
\<close>

subsection \<open>Removing and moving files\<close>

lemma file_data_del_file [fs_simps]:
  "file_data (del_file fs f) g = (if g = f then [] else file_data fs g)"
  "is_file (del_file fs f) g \<longleftrightarrow> g \<noteq> f \<and> is_file fs g"
  by (simp_all add: file_data_def is_file_def fs_simps)

lemma fs_wf_del_file: "fs_wf fs \<Longrightarrow> fs_wf (del_file fs f)"
  by (auto simp: fs_wf_def del_file_def distinct_delete split: option.splits)

lemma fs_locks_del_file [simp]: "fs_locks (del_file fs f) = fs_locks fs"
  by (simp add: del_file_def split: option.splits)

definition removed :: "fpath set \<Rightarrow> fs \<Rightarrow> fs \<Rightarrow> bool" where
  "removed F fs fs' \<longleftrightarrow>
     (\<forall>g. g \<notin> F \<longrightarrow> file_data fs' g = file_data fs g) \<and> (\<forall>g. is_file fs' g \<longleftrightarrow> g \<notin> F \<and> is_file fs g) \<and>
     (\<forall>d. is_dir fs' d = is_dir fs d) \<and> fs_locks fs' = fs_locks fs \<and> (fs_wf fs \<longrightarrow> fs_wf fs')"

lemma removedD:
  assumes "removed F fs fs'"
  shows "g \<notin> F \<Longrightarrow> file_data fs' g = file_data fs g" "is_file fs' g \<longleftrightarrow> g \<notin> F \<and> is_file fs g"
    "is_dir fs' d = is_dir fs d" "fs_locks fs' = fs_locks fs" "fs_wf fs \<Longrightarrow> fs_wf fs'"
  using assms unfolding removed_def by blast+

lemma removed_del_file: "removed {f} fs (del_file fs f)"
  by (auto simp: removed_def fs_simps fs_wf_del_file)

lemma remove_merged_ok:
  assumes "os_ok E"
  shows "\<exists>fs'. remove_merged E dir fids fs = (Ok (), fs') \<and>
    removed (get_data_file_name dir ` of_nat ` set fids) fs fs'"
proof (induction fids arbitrary: fs)
  case (Cons fid fids)
  let ?f = "get_data_file_name dir (of_nat fid)"
  show ?case
  proof (cases "is_file fs ?f")
    case True
    from Cons [of "del_file fs ?f"] obtain fs' where fs': "remove_merged E dir fids (del_file fs ?f) = (Ok (), fs')"
      "removed (get_data_file_name dir ` of_nat ` set fids) (del_file fs ?f) fs'" by blast
    then have "removed (get_data_file_name dir ` of_nat ` set (fid # fids)) fs fs'"
      by (auto simp: removed_def fs_simps fs_wf_del_file)
    then show ?thesis using fs'(1) assms True by (simp add: remove_file_def)
  next
    case False
    from Cons [of fs] obtain fs' where fs': "remove_merged E dir fids fs = (Ok (), fs')"
      "removed (get_data_file_name dir ` of_nat ` set fids) fs fs'" by blast
    then have "removed (get_data_file_name dir ` of_nat ` set (fid # fids)) fs fs'"
      using False by (auto simp: removed_def)
    then show ?thesis using fs'(1) False by simp
  qed
qed (simp add: removed_def)

definition moved :: "path \<Rightarrow> path \<Rightarrow> string set \<Rightarrow> fs \<Rightarrow> fs \<Rightarrow> bool" where
  "moved mp dir N fs fs' \<longleftrightarrow>
     (\<forall>n. file_data fs' (dir, n) = (if n \<in> N then file_data fs (mp, n) else file_data fs (dir, n))) \<and>
     (\<forall>n. is_file fs' (dir, n) \<longleftrightarrow> n \<in> N \<or> is_file fs (dir, n)) \<and>
     (\<forall>d. is_dir fs' d = is_dir fs d) \<and> fs_locks fs' = fs_locks fs \<and> (fs_wf fs \<longrightarrow> fs_wf fs')"

lemma movedD:
  assumes "moved mp dir N fs fs'"
  shows "file_data fs' (dir, n) = (if n \<in> N then file_data fs (mp, n) else file_data fs (dir, n))"
    "is_file fs' (dir, n) \<longleftrightarrow> n \<in> N \<or> is_file fs (dir, n)"
    "is_dir fs' d = is_dir fs d" "fs_locks fs' = fs_locks fs" "fs_wf fs \<Longrightarrow> fs_wf fs'"
  using assms unfolding moved_def by blast+

lemma move_files_ok:
  assumes os: "os_ok E" and dir: "is_dir fs dir" "dir \<noteq> mp"
    and names: "\<forall>n \<in> set names. is_file fs (mp, n)" "distinct names"
  shows "\<exists>fs'. move_files E mp dir names fs = (Ok (), fs') \<and> moved mp dir (set names) fs fs'"
  using dir(1) names
proof (induction names arbitrary: fs)
  case (Cons n names)
  obtain i where i: "lookup_file fs (mp, n) = Some i" "fdata i = file_data fs (mp, n)"
    using lookup_file_Some [of fs "(mp, n)"] Cons.prems(2) by auto
  let ?fs1 = "put_file (del_file fs (mp, n)) (dir, n) i"
  have f1: "file_data ?fs1 (dir, m) = (if m = n then file_data fs (mp, n) else file_data fs (dir, m))"
    "is_file ?fs1 (dir, m) \<longleftrightarrow> m = n \<or> is_file fs (dir, m)"
    "m \<noteq> n \<Longrightarrow> file_data ?fs1 (mp, m) = file_data fs (mp, m)"
    "m \<noteq> n \<Longrightarrow> is_file ?fs1 (mp, m) = is_file fs (mp, m)" "is_dir ?fs1 d = is_dir fs d" for m d
    using Cons.prems(1) dir(2) i(2) by (auto simp: fs_simps)
  have "is_dir ?fs1 dir" "\<forall>m \<in> set names. is_file ?fs1 (mp, m)" "distinct names"
    using Cons.prems f1(4) by (auto simp: fs_simps)
  from Cons.IH [OF this] obtain fs' where fs': "move_files E mp dir names ?fs1 = (Ok (), fs')"
    "moved mp dir (set names) ?fs1 fs'" by blast
  have "rename_file E (mp, n) (dir, n) fs = (True, ?fs1)"
    using os Cons.prems(1) i(1) by (simp add: rename_file_def)
  moreover have "moved mp dir (set (n # names)) fs fs'"
  proof -
    have "file_data ?fs1 (mp, m) = file_data fs (mp, m)" if "m \<in> set names" for m
      using f1(3) [of m] that Cons.prems(3) by auto
    then show ?thesis
      using fs'(2) Cons.prems(3) f1(1,2,5) unfolding moved_def
      by (auto simp: fs_wf_put_file fs_wf_del_file)
  qed
  ultimately show ?case using fs'(1) by simp
qed (simp add: moved_def)

lemma remove_merge_dir_ok:
  assumes "os_ok E" "is_dir fs mp"
  obtains fs' where "remove_merge_dir E mp fs = (Ok (), fs')"
    "\<And>d n. \<not> starts_with d mp \<Longrightarrow> file_data fs' (d, n) = file_data fs (d, n)"
    "\<And>d n. \<not> starts_with d mp \<Longrightarrow> is_file fs' (d, n) = is_file fs (d, n)"
    "\<And>d. is_dir fs' d \<longleftrightarrow> is_dir fs d \<and> \<not> starts_with d mp" "fs_locks fs' = fs_locks fs" "fs_wf fs \<Longrightarrow> fs_wf fs'"
proof -
  let ?fs' = "fs\<lparr>fs_dirs := (\<lambda>p. if starts_with p mp then None else fs_dirs fs p)\<rparr>"
  have look: "\<not> starts_with d mp \<Longrightarrow> lookup_file ?fs' (d, n) = lookup_file fs (d, n)" for d n
    by (simp add: lookup_file_def)
  have "remove_merge_dir E mp fs = (Ok (), ?fs')"
    using assms by (simp add: remove_merge_dir_def remove_dir_all_def)
  then show ?thesis
    by (rule that) (auto simp: look file_data_def is_file_def is_dir_def fs_wf_def)
qed

subsection \<open>The names that are moved\<close>

definition moves :: "fs \<Rightarrow> path \<Rightarrow> string \<Rightarrow> bool" where
  "moves fs mp n \<longleftrightarrow> \<not> ends_with n SEQ_NO_FILE_NAME \<and> \<not> ends_with n FILE_LOCK_NAME \<and>
     \<not> (ends_with n DATA_FILE_NAME_SUFFIX \<and> file_data fs (mp, n) = [])"

lemma merge_file_names_eq: "merge_file_names fs mp names = filter (moves fs mp) names"
  by (induction names) (auto simp: moves_def)

lemma ends_with_last: "ends_with n s \<Longrightarrow> s \<noteq> [] \<Longrightarrow> last n = last s"
  unfolding ends_with_def by (metis append_take_drop_id last_appendR)

lemma not_ends_with:
  "\<not> ends_with (data_file_name fid) SEQ_NO_FILE_NAME" "\<not> ends_with (data_file_name fid) FILE_LOCK_NAME"
  "\<not> ends_with HINT_FILE_NAME SEQ_NO_FILE_NAME" "\<not> ends_with HINT_FILE_NAME FILE_LOCK_NAME"
  "\<not> ends_with MERGE_FINISHED_FILE_NAME SEQ_NO_FILE_NAME" "\<not> ends_with MERGE_FINISHED_FILE_NAME FILE_LOCK_NAME"
  by (auto dest!: ends_with_last simp: data_file_name_def SEQ_NO_FILE_NAME_def FILE_LOCK_NAME_def
      HINT_FILE_NAME_def MERGE_FINISHED_FILE_NAME_def DATA_FILE_NAME_SUFFIX_def)

subsection \<open>\<open>load_merge_files\<close>\<close>

text \<open>
  A merge of the files below \<open>n\<close> has finished, and its directory is there; the data file \<open>n\<close> is
  still empty.
\<close>

definition merge_pending ::
  "('s, 'b) env \<Rightarrow> path \<Rightarrow> path \<Rightarrow> u32 \<Rightarrow> logs \<Rightarrow> (bytes \<times> log_record_pos) list \<Rightarrow> fs \<Rightarrow> bool" where
  "merge_pending E dir mp n mlogs H fs \<longleftrightarrow>
     get_merge_path dir = Ok mp \<and> is_dir fs dir \<and> merge_done E mp fs mlogs H n fs \<and>
     is_file fs (get_data_file_name dir n) \<and> file_data fs (get_data_file_name dir n) = [] \<and>
     (\<forall>m. is_file fs (dir, m) \<and> ends_with m DATA_FILE_NAME_SUFFIX \<longrightarrow> m \<in> data_file_name ` {..n}) \<and>
     (\<forall>(fid, rs) \<in> set mlogs. rs \<noteq> [] \<longrightarrow> fid < n)"

definition kept_logs :: "logs \<Rightarrow> logs" where
  "kept_logs logs = filter (\<lambda>(fid, rs). rs \<noteq> []) logs"

lemma log_entries_kept: "log_entries C (kept_logs logs) = log_entries C logs"
  by (induction logs) (auto simp: kept_logs_def)

text \<open>The directory once the files are moved.\<close>

definition merged_dir ::
  "('s, 'b) env \<Rightarrow> path \<Rightarrow> u32 \<Rightarrow> logs \<Rightarrow> (bytes \<times> log_record_pos) list \<Rightarrow> fs \<Rightarrow> bool" where
  "merged_dir E dir n logs H fs \<longleftrightarrow>
     data_log E dir fs (logs @ [(n, [])]) \<and> (\<forall>fid \<in> fst ` set logs. fid < n) \<and>
     is_file fs (dir, HINT_FILE_NAME) \<and>
     file_data fs (dir, HINT_FILE_NAME) = log_bytes E (map (hint_record E) H) \<and>
     list_all (wf_record \<circ> hint_record E) H \<and> is_file fs (dir, MERGE_FINISHED_FILE_NAME) \<and>
     file_data fs (dir, MERGE_FINISHED_FILE_NAME) = record_bytes E (fin_record n)"

lemma read_non_merge_fid_ok:
  assumes ok: "crates_ok E" "os_ok E" and f: "is_file fs (d, MERGE_FINISHED_FILE_NAME)"
    "file_data fs (d, MERGE_FINISHED_FILE_NAME) = record_bytes E (fin_record n)"
  shows "read_non_merge_fid E d fs = (Ok n, fs)"
proof -
  let ?f = "(d, MERGE_FINISHED_FILE_NAME)" and ?r = "fin_record n"
  have dir: "is_dir fs d" using is_file_is_dir [OF f(1)] by simp
  note en = record_bytes_encode [OF ok(1) wf_fin_record, of n]
  have len: "length (record_bytes E ?r) < 2 ^ 64"
    using en(2) encoded_length_bounds [OF ok(1) wf_fin_record, of n] by simp
  have "record_at E (file_data fs ?f) (unat (0 :: u64)) ?r"
    by (rule record_atI [OF wf_fin_record en(1), where pre = "[]" and post = "[]"]) (simp_all add: f)
  from fio.read_record_anywhere [OF ok(2,1) _ this] len
  have "read_log_record E fs \<lparr>df_file_id = 0, df_write_off = 0, df_io = FileIO ?f\<rparr> 0 =
      Ok \<lparr>rlr_record = ?r, rlr_size = encoded_length E ?r\<rparr>"
    by (simp add: read_log_record_def f)
  moreover have "parse_u32 (to_decimal (unat n)) = Some n"
    by (rule parse_u32_to_decimal)
  ultimately show ?thesis
    using f open_named_ok [OF ok(2) dir, of MERGE_FINISHED_FILE_NAME 0]
    by (simp add: read_non_merge_fid_def new_merge_fin_file_def fin_record_def)
qed

lemma of_nat_below: "(of_nat ` {0..<unat n} :: u32 set) = {..<n}"
proof
  show "(of_nat ` {0..<unat n} :: u32 set) \<subseteq> {..<n}"
    using unsigned_less [of n] by (auto simp: word_less_nat_alt unat_of_nat)
  show "{..<n} \<subseteq> (of_nat ` {0..<unat n} :: u32 set)"
  proof
    fix i :: u32 assume "i \<in> {..<n}"
    then have "unat i \<in> {0..<unat n}" by (simp add: word_less_nat_alt)
    then show "i \<in> of_nat ` {0..<unat n}" by (auto intro!: image_eqI [of _ _ "unat i"])
  qed
qed

lemma merged_dirI:
  assumes C: "crates_ok E" and pend: "merge_pending E dir mp n mlogs H fs"
    and N: "\<And>m. m \<in> N \<longleftrightarrow> is_file fs (mp, m) \<and> moves fs mp m"
    and files: "\<And>m. is_file fs' (dir, m) \<longleftrightarrow> m \<in> N \<or> is_file fs (dir, m) \<and> (dir, m) \<notin> get_data_file_name dir ` {..<n}"
    and data: "\<And>m. m \<in> N \<Longrightarrow> file_data fs' (dir, m) = file_data fs (mp, m)"
      "\<And>m. m \<notin> N \<Longrightarrow> (dir, m) \<notin> get_data_file_name dir ` {..<n} \<Longrightarrow>
         file_data fs' (dir, m) = file_data fs (dir, m)"
    and dirs: "is_dir fs' dir" "fs_wf fs'"
  shows "merged_dir E dir n (kept_logs mlogs) H fs'"
proof -
  have fin_ok: "merge_done E mp fs mlogs H n fs"
    and new: "is_file fs (dir, data_file_name n)" "file_data fs (dir, data_file_name n) = []"
    and old: "\<And>m. is_file fs (dir, m) \<Longrightarrow> ends_with m DATA_FILE_NAME_SUFFIX \<Longrightarrow> m \<in> data_file_name ` {..n}"
    and below: "\<And>fid rs. (fid, rs) \<in> set mlogs \<Longrightarrow> rs \<noteq> [] \<Longrightarrow> fid < n"
    using pend by (auto simp: merge_pending_def get_data_file_name_def)
  have log: "data_log E mp fs mlogs" using fin_ok by (simp add: merge_done_def)
  have F: "(dir, data_file_name i) \<in> get_data_file_name dir ` {..<n} \<longleftrightarrow> i < n" for i
    by (auto simp: get_data_file_name_def)
  have bytes: "log_bytes E rs \<noteq> []" if "(fid, rs) \<in> set mlogs" "rs \<noteq> []" for fid rs
  proof -
    obtain r rs' where rs: "rs = r # rs'" using \<open>rs \<noteq> []\<close> by (cases rs) auto
    have "wf_record r" using data_log_file(4) [OF log that(1)] by (simp add: rs)
    then show ?thesis using record_bytes_encode(2) [OF C] encoded_length_bounds(1) [OF C, of r] by (fastforce simp: rs)
  qed
  have N_data: "data_file_name i \<in> N \<longleftrightarrow> (\<exists>rs. (i, rs) \<in> set (kept_logs mlogs))" for i
  proof
    assume "data_file_name i \<in> N"
    then have i: "is_file fs (mp, data_file_name i)" "file_data fs (mp, data_file_name i) \<noteq> []"
      by (simp_all add: N moves_def)
    then have "data_file_name i \<in> data_file_name ` fst ` set mlogs" using log by (auto simp: data_log_def)
    then obtain rs where rs: "(i, rs) \<in> set mlogs" by auto
    moreover have "rs \<noteq> []" using data_log_file(2) [OF log rs] i(2) by (auto simp: get_data_file_name_def)
    ultimately show "\<exists>rs. (i, rs) \<in> set (kept_logs mlogs)" by (auto simp: kept_logs_def)
  next
    assume "\<exists>rs. (i, rs) \<in> set (kept_logs mlogs)"
    then obtain rs where rs: "(i, rs) \<in> set mlogs" "rs \<noteq> []" by (auto simp: kept_logs_def)
    with data_log_file(1,2) [OF log rs(1)] bytes [OF rs] show "data_file_name i \<in> N"
      by (simp add: N moves_def get_data_file_name_def not_ends_with)
  qed
  have kept: "fid < n" "is_file fs' (dir, data_file_name fid)" "file_data fs' (dir, data_file_name fid) = log_bytes E rs"
    "list_all (good_record E) rs" "log_length E rs \<le> 2 ^ 63" if "(fid, rs) \<in> set (kept_logs mlogs)" for fid rs
  proof -
    have rs: "(fid, rs) \<in> set mlogs" "rs \<noteq> []" using that by (auto simp: kept_logs_def)
    note f = data_log_file [OF log rs(1)]
    show "fid < n" by (rule below [OF rs])
    have "data_file_name fid \<in> N" using that N_data by blast
    then show "is_file fs' (dir, data_file_name fid)" "file_data fs' (dir, data_file_name fid) = log_bytes E rs"
      "list_all (good_record E) rs" "log_length E rs \<le> 2 ^ 63"
      using f by (simp_all add: files data(1) get_data_file_name_def)
  qed
  have n: "data_file_name n \<notin> N" using kept(1) N_data by blast
  have names: "m \<in> data_file_name ` fst ` set (kept_logs mlogs @ [(n, [])])"
    if "is_file fs' (dir, m)" "ends_with m DATA_FILE_NAME_SUFFIX" for m
  proof (cases "m \<in> N")
    case True
    then have "m \<in> data_file_name ` fst ` set mlogs" using N log that(2) by (auto simp: data_log_def)
    then show ?thesis using True N_data by force
  next
    case False
    then have "is_file fs (dir, m)" "(dir, m) \<notin> get_data_file_name dir ` {..<n}" using files that by blast+
    moreover from this obtain i where "m = data_file_name i" "i \<le> n" using old \<open>ends_with m _\<close> by auto
    ultimately have "m = data_file_name n" using F by auto
    then show ?thesis by simp
  qed
  have "sorted_wrt (<) (map fst (kept_logs mlogs @ [(n, [])]))"
    using log kept(1) by (auto simp: data_log_def kept_logs_def sorted_wrt_append sorted_wrt_map sorted_wrt_filter)
  moreover have "is_file fs' (dir, data_file_name n)" "file_data fs' (dir, data_file_name n) = []"
    using n new by (simp_all add: files data(2) F)
  ultimately have "data_log E dir fs' (kept_logs mlogs @ [(n, [])])"
    using dirs names kept unfolding data_log_def by (auto simp: get_data_file_name_def)
  moreover have "HINT_FILE_NAME \<in> N" "MERGE_FINISHED_FILE_NAME \<in> N"
    using fin_ok by (simp_all add: N moves_def merge_done_def not_ends_with)
  ultimately show ?thesis
    using fin_ok kept(1) by (auto simp: merged_dir_def merge_done_def files data(1))
qed

lemma load_merge_files_ok:
  assumes ok: "crates_ok E" "os_ok E" and pend: "merge_pending E dir mp n mlogs H fs"
  obtains fs' where "load_merge_files E dir fs = (Ok (), fs')" "merged_dir E dir n (kept_logs mlogs) H fs'"
    "fs_locks fs' = fs_locks fs" "is_dir fs' dir" "\<not> is_dir fs' mp"
proof -
  have path: "get_merge_path dir = Ok mp" and dir: "is_dir fs dir"
    and fin_ok: "merge_done E mp fs mlogs H n fs"
    and new: "is_file fs (get_data_file_name dir n)" "file_data fs (get_data_file_name dir n) = []"
    and old: "\<And>m. is_file fs (dir, m) \<Longrightarrow> ends_with m DATA_FILE_NAME_SUFFIX \<Longrightarrow> m \<in> data_file_name ` {..n}"
    and below: "\<And>fid rs. (fid, rs) \<in> set mlogs \<Longrightarrow> rs \<noteq> [] \<Longrightarrow> fid < n"
    using pend by (auto simp: merge_pending_def)
  have data: "data_log E mp fs mlogs" and wf: "is_dir fs mp" "fs_wf fs"
    using fin_ok by (simp_all add: merge_done_def data_log_def)
  have apart: "dir \<noteq> mp" "\<not> starts_with dir mp"
    using apart_neq [OF merge_path_apart(1) [OF path]] merge_path_apart(1) [OF path] by (auto simp: apart_def)
  obtain names where names: "read_dir E fs mp = Some names" "distinct names"
    "\<And>m. m \<in> set names \<longleftrightarrow> is_file fs (mp, m)"
    using read_dir_names [OF ok(2) wf] by metis
  have fin: "is_file fs (mp, MERGE_FINISHED_FILE_NAME)"
    "file_data fs (mp, MERGE_FINISHED_FILE_NAME) = record_bytes E (fin_record n)"
    using fin_ok by (simp_all add: merge_done_def)
  have ex: "list_ex (\<lambda>m. ends_with m MERGE_FINISHED_FILE_NAME) names"
    using names(3) fin(1) by (auto simp: list_ex_iff ends_with_def intro!: bexI [of _ MERGE_FINISHED_FILE_NAME])
  let ?N = "filter (moves fs mp) names" and ?F = "get_data_file_name dir ` {..<n}"
  obtain fs1 where fs1: "remove_merged E dir [0..<unat n] fs = (Ok (), fs1)" "removed ?F fs fs1"
    using remove_merged_ok [OF ok(2), of dir "[0..<unat n]" fs] by (auto simp: of_nat_below)
  have notF: "(mp, m) \<notin> ?F" for m using apart(1) by (auto simp: get_data_file_name_def)
  have "\<forall>m \<in> set ?N. is_file fs1 (mp, m)" "distinct ?N" "is_dir fs1 dir"
    using names notF dir by (auto simp: removedD [OF fs1(2)])
  then obtain fs2 where fs2: "move_files E mp dir ?N fs1 = (Ok (), fs2)" "moved mp dir (set ?N) fs1 fs2"
    using move_files_ok [OF ok(2) _ apart(1)] by blast
  have "is_dir fs2 mp" using wf(1) by (simp add: movedD(3) [OF fs2(2)] removedD(3) [OF fs1(2)])
  then obtain fs3 where fs3: "remove_merge_dir E mp fs2 = (Ok (), fs3)"
    and f3: "\<And>d m. \<not> starts_with d mp \<Longrightarrow> file_data fs3 (d, m) = file_data fs2 (d, m)"
      "\<And>d m. \<not> starts_with d mp \<Longrightarrow> is_file fs3 (d, m) = is_file fs2 (d, m)"
      "\<And>d. is_dir fs3 d \<longleftrightarrow> is_dir fs2 d \<and> \<not> starts_with d mp" "fs_locks fs3 = fs_locks fs2"
      "fs_wf fs2 \<Longrightarrow> fs_wf fs3"
    by (rule remove_merge_dir_ok [OF ok(2)]) blast
  have is3: "is_file fs3 (dir, m) \<longleftrightarrow> m \<in> set ?N \<or> is_file fs (dir, m) \<and> (dir, m) \<notin> ?F" for m
    by (simp add: f3(2) apart(2) movedD(2) [OF fs2(2)] removedD(2) [OF fs1(2)] conj_commute)
  have data3: "m \<in> set ?N \<Longrightarrow> file_data fs3 (dir, m) = file_data fs (mp, m)"
    "m \<notin> set ?N \<Longrightarrow> (dir, m) \<notin> ?F \<Longrightarrow> file_data fs3 (dir, m) = file_data fs (dir, m)" for m
    by (auto simp: f3(1) apart(2) movedD(1) [OF fs2(2)] removedD(1) [OF fs1(2) notF] removedD(1) [OF fs1(2)])
  have "merged_dir E dir n (kept_logs mlogs) H fs3"
  proof (rule merged_dirI [OF ok(1) pend])
    show "m \<in> set ?N \<longleftrightarrow> is_file fs (mp, m) \<and> moves fs mp m" for m using names(3) by auto
    show "is_dir fs3 dir" "fs_wf fs3"
      using dir wf(2) apart(2) by (simp_all add: f3(3,5) movedD(3,5) [OF fs2(2)] removedD(3,5) [OF fs1(2)])
  qed (fact is3 data3)+
  moreover have "load_merge_files E dir fs = (Ok (), fs3)"
    using path wf(1) names(1) ex read_non_merge_fid_ok [OF ok fin] fs1(1) fs2(1) fs3
    by (simp add: load_merge_files_def merge_file_names_eq Let_def)
  moreover have "fs_locks fs3 = fs_locks fs" "is_dir fs3 dir" "\<not> is_dir fs3 mp"
    using dir apart(2) f3(4) by (simp_all add: f3(3) movedD(3,4) [OF fs2(2)] removedD(3,4) [OF fs1(2)] starts_with_def)
  ultimately show ?thesis using that by blast
qed

end
