(* ===== verification/MergeHint.thy ===== *)
theory MergeHint
  imports MergeMove
begin

text \<open>
  Loading the index of a directory that a merge has filled: the hint file gives the whole index,
  and the only data file that is read is the empty one behind the merged files.
\<close>

subsection \<open>The hint file\<close>

fun hint_step :: "'z crates_scheme \<Rightarrow> log_record_pos \<times> log_record \<Rightarrow>
    (bytes \<Rightarrow> log_record_pos option) \<Rightarrow> bytes \<Rightarrow> log_record_pos option" where
  "hint_step C (p, r) m =
     (case decode_log_record_pos C (rec_value r) of Ok q \<Rightarrow> m(rec_key r \<mapsto> q) | _ \<Rightarrow> m)"

definition is_hint :: "'z crates_scheme \<Rightarrow> log_record \<Rightarrow> bool" where
  "is_hint C r \<longleftrightarrow> (\<exists>h. r = hint_record C h)"

definition hint_map :: "(bytes \<times> log_record_pos) list \<Rightarrow> bytes \<Rightarrow> log_record_pos option" where
  "hint_map H = map_of (rev H)"

lemma hint_record_sel [simp]:
  "rec_key (hint_record C h) = fst h" "rec_value (hint_record C h) = LogRecordPos_encode C (snd h)"
  by (simp_all add: hint_record_def)

lemma hint_map_Cons: "m ++ hint_map (h # H) = m(fst h \<mapsto> snd h) ++ hint_map H"
  by (cases h) (simp add: hint_map_def)

lemma fold_hint_step:
  assumes "crates_ok C"
  shows "fold (hint_step C) (layout C fid n (map (hint_record C) H)) m = m ++ hint_map H"
proof (induction H arbitrary: n m)
  case (Cons h H)
  show ?case
    by (simp add: Cons hint_map_Cons decode_encode_pos [OF assms] fun_upd_def)
qed (simp add: hint_map_def)

lemma hint_map_Some: "hint_map H k = Some p \<Longrightarrow> (k, p) \<in> set H"
  by (auto simp: hint_map_def dest: map_of_SomeD)

lemma hint_map_None: "hint_map H k = None \<longleftrightarrow> k \<notin> fst ` set H"
  by (simp add: hint_map_def map_of_eq_None_iff)

text \<open>The engine while hints are loaded.\<close>

definition hint_rel :: "('s, 'b) env \<Rightarrow> ('s, 'b) engine \<Rightarrow> fs \<Rightarrow> (bytes \<Rightarrow> log_record_pos option) \<Rightarrow> ('s, 'b) st \<Rightarrow> bool" where
  "hint_rel E e fs m st \<longleftrightarrow>
     (\<exists>i. st = (reindexed i (reclaim_size e) e, fs) \<and> index_inv E i \<and> index_entries E i = m) \<and> crates_ok E"

lemma load_hint_step:
  assumes "hint_rel E e fs m st" "is_hint E r"
  shows "\<exists>st'. load_hint E off \<lparr>rlr_record = r, rlr_size = n\<rparr> st = (Ok (), st') \<and>
    hint_rel E e fs (hint_step E (p, r) m) st'"
proof -
  obtain i where st: "st = (reindexed i (reclaim_size e) e, fs)" and i: "index_inv E i" "index_entries E i = m"
    and C: "crates_ok E" using assms(1) by (auto simp: hint_rel_def)
  obtain h where r: "r = hint_record E h" using assms(2) by (auto simp: is_hint_def)
  obtain i' where i': "index_put E i (fst h) (snd h) = (Ok (index_entries E i (fst h)), i')" "index_inv E i'"
    "index_entries E i' = (index_entries E i)(fst h \<mapsto> snd h)"
    using ix.putE [OF i(1)] .
  have "load_hint E off \<lparr>rlr_record = r, rlr_size = n\<rparr> st = (Ok (), reindexed i' (reclaim_size e) e, fs)"
    using i'(1) by (simp add: load_hint_def r decode_encode_pos [OF C] st) (simp add: reindexed_def)
  moreover have "hint_rel E e fs (hint_step E (p, r) m) (reindexed i' (reclaim_size e) e, fs)"
    using i'(2,3) i(2) C by (auto simp: hint_rel_def r decode_encode_pos [OF C])
  ultimately show ?thesis by blast
qed

interpretation hints: log_scan E "\<lambda>st. read_log_record E (snd st) df" "load_hint E" fid "is_hint E"
    "hint_step E" "\<lambda>_. hint_rel E e fs" "2 ^ 63"
  for E :: "('s, 'b) env" and df fid e fs
  by unfold_locales (simp, rule load_hint_step)

lemma load_hint_file_ok:
  assumes ok: "crates_ok E" "os_ok E" and f: "is_file fs (dir_path (eng_options e), HINT_FILE_NAME)"
    "file_data fs (dir_path (eng_options e), HINT_FILE_NAME) = log_bytes E (map (hint_record E) H)"
    and H: "list_all (wf_record \<circ> hint_record E) H" "log_length E (map (hint_record E) H) \<le> 2 ^ 61"
    and idx: "index_inv E (eng_index e)" "index_entries E (eng_index e) = Map.empty"
  shows "\<exists>i. load_index_from_hint_file E (e, fs) = Some (Ok (), reindexed i (reclaim_size e) e, fs) \<and>
    index_inv E i \<and> index_entries E i = hint_map H"
proof -
  let ?f = "(dir_path (eng_options e), HINT_FILE_NAME)" and ?rs = "map (hint_record E) H"
  let ?df = "\<lparr>df_file_id = 0, df_write_off = 0, df_io = FileIO ?f\<rparr>"
  have dir: "is_dir fs (dir_path (eng_options e))" using is_file_is_dir [OF f(1)] by simp
  have o: "new_hint_file E (dir_path (eng_options e)) fs = (Ok ?df, fs)"
    using open_named_ok [OF ok(2) dir, of HINT_FILE_NAME 0] f(1) by (simp add: new_hint_file_def)
  have wf: "list_all wf_record ?rs" using H(1) by (simp add: list_all_iff)
  have rd: "log_readable E (read_log_record E fs ?df) 0 0 ?rs"
    using H(2) f(2) by (intro fio_log_readable [OF ok wf]) simp_all
  have rel: "hint_rel E e fs Map.empty (e, fs)"
    using idx ok(1) by (auto simp: hint_rel_def reindexed_def intro!: exI [of _ "eng_index e"])
  have "\<exists>st'. scan_log (\<lambda>st. read_log_record E (snd st) ?df) (load_hint E) (of_nat 0) (e, fs) =
      Some (Ok (of_nat (0 + log_length E ?rs)), st') \<and>
      hint_rel E e fs (fold (hint_step E) (layout E 0 0 ?rs) Map.empty) st'"
  proof (rule hints.scan_log_fold [OF rel])
    show "log_readable E (read_log_record E (snd st) ?df) 0 0 ?rs" if "hint_rel E e fs m st" for m st
      using that rd by (auto simp: hint_rel_def)
  qed (use H(2) in \<open>auto simp: list_all_iff is_hint_def\<close>)
  then obtain st' where "scan_log (\<lambda>st. read_log_record E (snd st) ?df) (load_hint E) 0 (e, fs) =
      Some (Ok (of_nat (log_length E ?rs)), st')" "hint_rel E e fs (hint_map H) st'"
    by (auto simp: fold_hint_step [OF ok(1)])
  then show ?thesis using f(1) o by (auto simp: load_index_from_hint_file_def hint_rel_def Let_def on_fs_def)
qed

subsection \<open>The data files\<close>

lemma load_files_skip:
  "\<forall>fid \<in> set fids. skip fid \<Longrightarrow> load_files E skip (fids @ rest) s = load_files E skip rest s"
  by (induction fids) simp_all

lemma load_merged_ok:
  assumes ok: "crates_ok E" "os_ok E" and dir: "merged_dir E (dir_path (eng_options e)) n logs H fs"
    and opened: "opened_handles e fs (logs @ [(n, [])])"
  shows "load_index_from_data_files E (reindexed i c e, fs) =
    Some (Ok 0, (reindexed i c e)\<lparr>active_file := set_write_off 0 (active_file e)\<rparr>, fs)"
proof -
  let ?d = "dir_path (eng_options e)" and ?e = "reindexed i c e"
  let ?v = "\<lparr>transaction_records = [], current_seq_no = NON_TRANSACTION_SEQ_NO\<rparr>"
  have data: "data_log E ?d fs (logs @ [(n, [])])" and below: "\<forall>fid \<in> fst ` set logs. fid < n"
    and fin: "is_file fs (?d, MERGE_FINISHED_FILE_NAME)"
      "file_data fs (?d, MERGE_FINISHED_FILE_NAME) = record_bytes E (fin_record n)"
    using dir by (simp_all add: merged_dir_def)
  have e: "eng_options ?e = eng_options e" "file_ids ?e = map fst logs @ [n]" "active_file ?e = active_file e"
    using opened by (simp_all add: reindexed_def opened_handles_def)
  obtain df where df: "engine_handle e n = Some df" "df_io df = FileIO (get_data_file_name ?d n)"
    using opened below by (force simp: opened_handles_def opened_handle_def butlast_append)
  have h: "engine_handle ?e n = Some df" using df(1) by (auto simp: engine_handle_def reindexed_def active_id_def)
  have f: "file_data fs (get_data_file_name ?d n) = log_bytes E []"
    using data_log_file(2) [OF data, of n "[]"] by simp
  have "log_readable E (read_log_record E fs df) n 0 []"
    by (rule fio_log_readable [OF ok _ _ f df(2)]) simp_all
  then have "read_file_id E n (?v, ?e, fs) 0 = Err ReadDataFileEOF"
    by (simp add: log_readable_def read_file_id_handle [OF h])
  then have "load_files E (\<lambda>fid. fid < n) (map fst logs @ [n]) (?v, ?e, fs) =
      Some (Ok (), ?v, ?e\<lparr>active_file := set_write_off 0 (active_file e)\<rparr>, fs)"
    using below by (subst load_files_skip) (auto simp: scan_log.simps [of "read_file_id E n"] e(3))
  then show ?thesis
    using fin read_non_merge_fid_ok [OF ok fin]
    by (simp add: load_index_from_data_files_def e Let_def on_fs_def NON_TRANSACTION_SEQ_NO_def)
qed

subsection \<open>Opening\<close>

text \<open>Other files may come to the directory of the database.\<close>

lemma merge_pending_frame:
  assumes pend: "merge_pending E dir mp n mlogs H fs"
    and same: "\<And>d m. d \<noteq> dir \<or> ends_with m DATA_FILE_NAME_SUFFIX \<Longrightarrow> file_data fs' (d, m) = file_data fs (d, m)"
      "\<And>d m. d \<noteq> dir \<or> ends_with m DATA_FILE_NAME_SUFFIX \<Longrightarrow> is_file fs' (d, m) = is_file fs (d, m)"
    and dirs: "\<And>d. is_dir fs' d = is_dir fs d" "fs_wf fs'"
  shows "merge_pending E dir mp n mlogs H fs'"
proof -
  have path: "get_merge_path dir = Ok mp" and fin_ok: "merge_done E mp fs mlogs H n fs"
    using pend by (simp_all add: merge_pending_def)
  have "mp \<noteq> dir" using apart_neq [OF merge_path_apart(1) [OF path]] .
  note mp = same [OF disjI1, OF this]
  have "data_log E mp fs' mlogs"
    by (rule data_log_frame) (use fin_ok dirs in \<open>auto simp: mp merge_done_def data_log_def get_data_file_name_def\<close>)
  then have "merge_done E mp fs' mlogs H n fs'"
    using fin_ok by (simp add: merge_done_def mp)
  then show ?thesis
    using pend by (auto simp: merge_pending_def same dirs get_data_file_name_def)
qed

lemma engine_open_merged:
  assumes ok: "crates_ok E" "os_ok E" "skipmap_ok (skipmap E)"
    and opts: "check_options opts = Ok ()" "index_type opts \<noteq> BPlusTree"
    and pend: "merge_pending E (dir_path opts) mp n mlogs H fs"
    and H: "log_length E (map (hint_record E) H) \<le> 2 ^ 61"
    and free: "(dir_path opts, FILE_LOCK_NAME) \<notin> set (fs_locks fs)"
    and from_log: "\<And>k p. hint_map H k = Some p \<Longrightarrow> from_log E (log_entries E mlogs) (k, Normal, p)"
  shows "\<exists>e fs'. engine_open E opts fs = Some (Ok e, fs') \<and>
    data_log E (dir_path opts) fs' (kept_logs mlogs @ [(n, [])]) \<and> eng_options e = opts \<and>
    reads_inv E (e, fs') \<and> index_entries E (eng_index e) = hint_map H"
proof -
  let ?dir = "dir_path opts" and ?fs = "locked_fs (dir_path opts) fs" and ?logs = "kept_logs mlogs @ [(n, [])]"
  have dir: "is_dir fs ?dir" using pend by (simp add: merge_pending_def)
  have pend': "merge_pending E ?dir mp n mlogs H ?fs"
    by (rule merge_pending_frame [OF pend])
      (use pend not_data_names(1) in \<open>auto simp: locked_fs_frame merge_pending_def merge_done_def data_log_def\<close>)
  obtain fs' where merged: "load_merge_files E ?dir ?fs = (Ok (), fs')"
    and md: "merged_dir E ?dir n (kept_logs mlogs) H fs'"
    by (rule load_merge_files_ok [OF ok(1,2) pend'])
  have data: "data_log E ?dir fs' ?logs" and hint: "is_file fs' (?dir, HINT_FILE_NAME)"
      "file_data fs' (?dir, HINT_FILE_NAME) = log_bytes E (map (hint_record E) H)"
      "list_all (wf_record \<circ> hint_record E) H"
    using md by (simp_all add: merged_dir_def)
  have dir': "is_dir ?fs ?dir" using dir by (simp add: locked_fs_frame)
  obtain e0 where e0: "open_files E opts False (?dir, FILE_LOCK_NAME) ?fs = (Ok e0, fs')"
    "opened_handles e0 fs' ?logs" "eng_options e0 = opts" "index_inv E (eng_index e0)"
    "index_entries E (eng_index e0) = Map.empty" "seq_no e0 = 1"
    "lock_file e0 = (?dir, FILE_LOCK_NAME)" "bytes_write e0 = 0"
    using open_files_merged [OF ok(2,3) opts(2) data _ merged dir'] by blast
  obtain i where i: "load_index_from_hint_file E (e0, fs') = Some (Ok (), reindexed i (reclaim_size e0) e0, fs')"
    "index_inv E i" "index_entries E i = hint_map H"
    using load_hint_file_ok [OF ok(1,2) _ _ hint(3) H e0(4,5)] hint(1,2) by (auto simp: e0(3))
  have load: "load_index_from_data_files E (reindexed i (reclaim_size e0) e0, fs') =
      Some (Ok 0, (reindexed i (reclaim_size e0) e0)\<lparr>active_file :=
        set_write_off (of_nat (log_length E (snd (last ?logs)))) (active_file e0)\<rparr>, fs')"
    using load_merged_ok [OF ok(1,2) _ e0(2)] md by (simp add: e0(3))
  obtain e where e: "load_engine E (e0, fs') = Some (Ok (), e, fs')" "loaded E e0 fs' ?logs 0 e"
    "index_inv E (eng_index e)" "index_entries E (eng_index e) = hint_map H"
    using load_engine_tail [OF ok(2) _ e0(2) _ i(1) load i(2,3)] data opts(2) by (auto simp: e0(3))
  have oe: "opened_engine E opts ?logs 0 e"
    by (rule loaded_opened [OF e0(2) e(2) e0(3,6,7,8)])
  have "reads_inv E (e, fs')"
    by (rule opened_reads [OF ok(1) data oe e(3,4)])
      (use from_log log_entries_kept [of E mlogs] in simp)
  moreover have "engine_open E opts fs = Some (Ok e, fs')"
    using opts(1) dir take_lock_ok [OF ok(2) dir free] e0(1) e(1)
    by (simp add: engine_open_def open_locked_def)
  ultimately show ?thesis using data oe e(4) by (auto simp: opened_engine_def)
qed

end
