(* ===== verification/MergeKeeps.thy ===== *)
theory MergeKeeps
  imports MergeFrame MergeRotate
begin

text \<open>
  A merge returns, and the running engine answers as before, whatever the data files hold, whether
  or not the merge succeeds.
\<close>

subsection \<open>Merging returns\<close>

lemma merge_files_total: "crates_ok E \<Longrightarrow> merge_files E idx dfs s \<noteq> None"
proof (induction dfs arbitrary: s)
  case (Cons df dfs)
  have "scan_log (\<lambda>s. read_log_record E (snd (snd s)) df) (merge_record E idx fid) 0 s \<noteq> None" for fid
    using read_log_record_size [OF Cons.prems] by (intro scan_log_total) (simp only: read_log_record_def)
  then show ?case
    unfolding merge_files.simps by (rule loop_then_total) (rule Cons.IH [OF Cons.prems])
qed simp

lemma rewrite_live_total:
  assumes "crates_ok E"
  shows "rewrite_live E idx dfs mp opts fs \<noteq> None"
proof -
  have "map_option f (merge_files E idx dfs s) \<noteq> None" for f s
    using merge_files_total [OF assms] by simp
  then show ?thesis
    unfolding rewrite_live_def
    by (intro loop_then_total option.distinct(2) engine_open_total [OF assms])
qed

lemma merge_to_total:
  assumes "crates_ok E"
  shows "merge_to E mp st \<noteq> None"
proof -
  have live: "map_option f (rewrite_live E idx dfs mp opts fs) \<noteq> None"
    for f :: "_ \<Rightarrow> unit res \<times> _" and idx dfs mp opts fs
    using rewrite_live_total [OF assms] by simp
  show ?thesis
    unfolding merge_to_def
    by (intro loop_then_total option.distinct(2) live, simp only: split: if_split)
      (intro conjI impI loop_then_total option.distinct(2))
qed

lemma merge_total:
  assumes "crates_ok E"
  shows "merge E busy st \<noteq> None"
  unfolding merge_def Let_def
  by (simp only: split: if_split)
    (intro conjI impI loop_then_total option.distinct(2) merge_to_total [OF assms];
     simp only: split: if_split; intro conjI impI loop_then_total option.distinct(2) merge_to_total [OF assms])

subsection \<open>The running engine\<close>

lemma in_place_data:
  assumes "in_place d D fs" "in_place d D fs'" "fst f = d"
  shows "file_data fs' f = file_data fs f" "is_file fs' f = is_file fs f"
  using assms by (simp_all add: in_place_def file_data_def is_file_def lookup_file_def)

lemma in_place_engine:
  assumes "crates_ok E" "os_ok E" "engine_inv E (e, fs)"
    and "in_place (dir_path (eng_options e)) D fs" "in_place (dir_path (eng_options e)) D fs'"
  shows "engine_inv E (e, fs')" and "kv E (e, fs') = kv E (e, fs)"
  by (rule same_files_engine [OF assms(1-3) conjI [OF in_place_data [OF assms(4,5)]]]; assumption)+

lemma stays_loop_change:
  assumes "stays_opt P Q m" "\<And>s. P s \<Longrightarrow> P' s" "\<And>a s. P s \<Longrightarrow> Q a \<Longrightarrow> stays_opt P' R (f a s)"
  shows "stays_opt P' R (loop_then m f)"
  using assms by (cases m; cases "fst (the m)"; cases "the m") (auto simp: stays_opt_def stays_def)

definition answers :: "('s, 'b) env \<Rightarrow> (bytes \<Rightarrow> bytes option) \<Rightarrow> ('s, 'b) st \<Rightarrow> bool" where
  "answers E m st \<longleftrightarrow> engine_inv E st \<and> kv E st = m"

lemma engine_inv_dir:
  assumes "engine_inv E (e, fs)"
  obtains D where "in_place (dir_path (eng_options e)) D fs"
proof -
  have "is_file fs (data_path e (active_id e))" using assms by (simp add: engine_inv_def files_inv_def)
  from is_file_is_dir [OF this] show ?thesis using that by (auto simp: in_place_def is_dir_def)
qed

lemma answers_elsewhere:
  assumes ok: "crates_ok E" "os_ok E" and a: "answers E m (e, fs)"
    and "\<And>D. in_place (dir_path (eng_options e)) D fs \<Longrightarrow> in_place (dir_path (eng_options e)) D fs'"
  shows "answers E m (e, fs')"
proof -
  have inv: "engine_inv E (e, fs)" "kv E (e, fs) = m" using a by (simp_all add: answers_def)
  obtain D where D: "in_place (dir_path (eng_options e)) D fs" by (rule engine_inv_dir [OF inv(1)])
  from in_place_engine [OF ok inv(1) D assms(4) [OF D]] inv(2) show ?thesis by (simp add: answers_def)
qed

lemma ratate_answers:
  assumes ok: "crates_ok E" "os_ok E" and a: "answers E m (e, fs)" and id: "unat (active_id e) + 1 < 2 ^ 32"
  shows "stays (answers E m) (\<lambda>dfs. dfs \<noteq> []) (ratate_merge_files E (e, fs))"
    and "eng_options (fst (snd (ratate_merge_files E (e, fs)))) = eng_options e"
proof -
  have inv: "engine_inv E (e, fs)" "kv E (e, fs) = m" using a by (simp_all add: answers_def)
  have files: "files_inv (e, fs)" "bw_ok e" using inv by (simp_all add: engine_inv_def)
  obtain fs' where r: "ratate_merge_files E (e, fs) =
      (Ok (map (std_handle (dir_path (eng_options e))) (sort (map fst (older_files e) @ [active_id e]))), rotated e, fs')"
    and t: "touched (data_path e ` insert (active_id e + 1) (known_ids e)) fs fs'"
    by (rule ratate_merge_files_ok [OF ok(2) files(1) id])
  note files' = rotated_files_inv [OF ok(2) files(1) id t]
  have "same_index e (rotated e)" by (auto simp: same_index_def)
  moreover have "bw_ok (rotated e)" using files(2) by (simp add: bw_ok_def)
  ultimately have "answers E m (rotated e, fs')"
    using engine_inv_frame [OF ok inv(1) files' touched_grows [OF t]] inv(2) by (simp add: answers_def)
  then show "stays (answers E m) (\<lambda>dfs. dfs \<noteq> []) (ratate_merge_files E (e, fs))"
    by (simp add: r stays_def flip: length_greater_0_conv)
  show "eng_options (fst (snd (ratate_merge_files E (e, fs)))) = eng_options e" by (simp add: r)
qed

text \<open>The states before and after the rotation.\<close>

definition answers_as :: "('s, 'b) env \<Rightarrow> options \<Rightarrow> (bytes \<Rightarrow> bytes option) \<Rightarrow> ('s, 'b) st \<Rightarrow> bool" where
  "answers_as E opts m st \<longleftrightarrow> answers E m st \<and> eng_options (fst st) = opts"

lemma answers_as_fs:
  assumes ok: "crates_ok E" "os_ok E" and a: "answers_as E opts m st"
    and "\<And>D. in_place (dir_path opts) D (snd st) \<Longrightarrow> in_place (dir_path opts) D fs'"
  shows "answers_as E opts m (fst st, fs')"
  using answers_elsewhere [OF ok, of m "fst st" "snd st" fs'] assms(3,4) by (auto simp: answers_as_def)

lemma write_finished_answers:
  assumes ok: "crates_ok E" "os_ok E" and a: "answers_as E opts m st" and mp: "apart (dir_path opts) mp"
  shows "stays (answers_as E opts m) anything (on_fs (write_merge_finished E mp n) st)"
proof -
  have "answers_as E opts m (fst st, snd (write_merge_finished E mp n (snd st)))"
    using write_merge_finished_stays [OF apart_neq [OF mp], of _ "snd st" E n]
    by (intro answers_as_fs [OF ok a]) (simp add: stays_def)
  then show ?thesis by (cases st) (auto simp: on_fs_def stays_def split: prod.split)
qed

lemma rewrite_live_answers:
  assumes ok: "crates_ok E" "os_ok E" and a: "answers_as E opts m st"
    and mp: "get_merge_path (dir_path opts) = Ok mp" "dir_path mopts = mp"
  shows "stays_opt (answers_as E opts m) anything
    (map_option (\<lambda>(r, fs). (r, fst st, fs)) (rewrite_live E idx dfs mp mopts (snd st)))"
proof (rule stays_opt_map)
  let ?P = "\<lambda>fs. \<forall>D. in_place (dir_path opts) D (snd st) \<longrightarrow> in_place (dir_path opts) D fs"
  have "stays_opt (in_place (dir_path opts) D) anything (rewrite_live E idx dfs mp mopts (snd st))"
    if "in_place (dir_path opts) D (snd st)" for D
    using merge_path_apart [OF mp(1)] mp(2) that by (intro rewrite_live_stays) (auto dest: apart_neq)
  then show "stays_opt ?P anything (rewrite_live E idx dfs mp mopts (snd st))"
    by (auto simp: stays_opt_def stays_def)
  fix r :: "unit res \<times> fs" assume "stays ?P anything r"
  then have "answers_as E opts m (fst st, snd r)" by (intro answers_as_fs [OF ok a]) (simp add: stays_def)
  then show "stays (answers_as E opts m) anything (case r of (r, fs) \<Rightarrow> (r, fst st, fs))"
    by (cases r) (simp add: stays_def)
qed

lemma prepare_answers:
  assumes ok: "crates_ok E" "os_ok E" and a: "answers_as E opts m (e, fs)" and mp: "apart (dir_path opts) mp"
  shows "stays (\<lambda>st. answers_as E opts m st \<and> fst st = e) anything (on_fs (prepare_merge_dir E mp) (e, fs))"
proof -
  have "answers_as E opts m (e, snd (prepare_merge_dir E mp fs))"
    using prepare_merge_dir_stays [OF mp, of _ fs E] answers_as_fs [OF ok a]
    by (simp add: stays_def)
  then show ?thesis by (auto simp: on_fs_def stays_def split: prod.split)
qed

lemma merge_to_answers:
  fixes E :: "('s, 'b) env" and e :: "('s, 'b) engine"
  assumes ok: "crates_ok E" "os_ok E" and a: "answers E m (e, fs)" and id: "unat (active_id e) + 1 < 2 ^ 32"
    and mp: "get_merge_path (dir_path (eng_options e)) = Ok mp"
  shows "stays_opt (answers_as E (eng_options e) m) anything (merge_to E mp (e, fs))"
proof -
  let ?opts = "eng_options e"
  let ?A = "answers_as E ?opts m" and ?B = "\<lambda>st. answers_as E ?opts m st \<and> fst st = e"
  have a': "answers_as E ?opts m (e, fs)" using a by (simp add: answers_as_def)
  note path = merge_path_apart(1) [OF mp]
  have prep: "stays_opt ?B anything (Some (on_fs (prepare_merge_dir E mp) (e, fs)))"
    by (rule stays_opt_Some [OF prepare_answers [OF ok a' path]])
  have rotate: "stays_opt ?A (\<lambda>dfs. dfs \<noteq> []) (Some (ratate_merge_files E st))" if "?B st" for st
  proof -
    have st: "st = (e, snd st)" using that by (simp add: prod_eq_iff)
    then have "answers E m (e, snd st)" using that by (simp add: answers_as_def)
    from ratate_answers [OF ok this id, folded st] show ?thesis by (simp add: stays_opt_def stays_def answers_as_def)
  qed
  have live: "stays_opt ?A anything (map_option (\<lambda>(r, fs). (r, fst st, fs))
      (rewrite_live E idx dfs mp (merge_db_opts opts mp) (snd st)))" if "?A st" for idx dfs opts st
    by (rule rewrite_live_answers [OF ok that mp]) (simp add: merge_db_opts_def)
  have last: "stays_opt ?A anything (if dfs = [] then Some (Err FailedToGetMergeFile, st) else
      loop_then (Some (add_u32 (df_file_id (last dfs)) 1, st)) (\<lambda>n st. Some (on_fs (write_merge_finished E mp n) st)))"
    if "?A st" for dfs st
    using write_finished_answers [OF ok that path] that
    by (cases "add_u32 (df_file_id (last dfs)) 1") (simp_all add: stays_opt_Some stays_pair)
  show ?thesis
    unfolding merge_to_def
    by (rule stays_loop_change [where P = ?B, OF prep _ stays_loop_then [OF rotate stays_loop_then [OF live last]]]) simp
qed

lemma merge_answers:
  fixes E :: "('s, 'b) env" and e :: "('s, 'b) engine"
  assumes ok: "crates_ok E" "os_ok E" and a: "answers E m (e, fs)" and id: "unat (active_id e) + 1 < 2 ^ 32"
  shows "stays_opt (answers_as E (eng_options e) m) anything (merge E busy (e, fs))"
proof -
  let ?opts = "eng_options e"
  have now: "stays_opt (answers_as E ?opts m) anything (Some (r, e, fs))" for r :: "unit res"
    using a by (simp add: stays_opt_def stays_def answers_as_def)
  have path: "stays_opt (answers_as E ?opts m) anything
      (loop_then (Some (get_merge_path (dir_path ?opts), e, fs)) (merge_to E))"
    using now merge_to_answers [OF ok a id] by (cases "get_merge_path (dir_path ?opts)") simp_all
  have "stays_opt (answers_as E ?opts m) anything (loop_then (Some (n, e, fs)) (\<lambda>needed st.
      if available_disk_size E (snd st) \<le> needed then Some (Err MergeNoEnoughSpace, st)
      else loop_then (Some (get_merge_path (dir_path ?opts), st)) (merge_to E)))" for n
    using now path by (cases n) simp_all
  then show ?thesis
    unfolding merge_def Let_def fst_conv snd_conv by (intro stays_opt_if now)
qed

lemma merge_keeps_answers:
  fixes E :: "('s, 'b) env" and e :: "('s, 'b) engine"
  assumes ok: "crates_ok E" "os_ok E" and inv: "engine_inv E (e, fs)" and id: "unat (active_id e) + 1 < 2 ^ 32"
  shows "\<exists>r e' fs'. merge E busy (e, fs) = Some (r, e', fs') \<and> engine_inv E (e', fs') \<and>
    kv E (e', fs') = kv E (e, fs) \<and> eng_options e' = eng_options e"
proof -
  obtain r e' fs' where m: "merge E busy (e, fs) = Some (r, e', fs')"
    using merge_total [OF ok(1), of busy "(e, fs)"] by auto
  have "answers E (kv E (e, fs)) (e, fs)" using inv by (simp add: answers_def)
  from merge_answers [OF ok this id, of busy] show ?thesis
    by (simp add: m stays_opt_def stays_def answers_as_def answers_def)
qed

end
