(* ===== verification/MergeReopen.thy ===== *)
theory MergeReopen
  imports MergeHint MergeKeeps Session
begin

text \<open>
  A merge, then closing and opening: every key has the value it had.
\<close>

subsection \<open>The copied records\<close>

lemma set_fold_copy_step:
  "(k, r) \<in> set (fold (copy_step C m) entries a) \<longleftrightarrow> (k, r) \<in> set a \<or>
     (\<exists>p n. (p, r) \<in> set entries \<and> parse_log_record_key C (rec_key r) = Ok (k, n) \<and> live m p k)"
proof (induction entries arbitrary: a)
  case (Cons x entries)
  obtain q s where x: "x = (q, s)" by (cases x)
  have "(k, r) \<in> set (copy_step C m (q, s) a) \<longleftrightarrow> (k, r) \<in> set a \<or>
      (r = s \<and> (\<exists>n. parse_log_record_key C (rec_key r) = Ok (k, n)) \<and> live m q k)"
    by (auto split: res.split)
  then show ?case unfolding x fold.simps o_apply Cons by auto
qed simp

lemma list_all2_members:
  assumes "list_all2 P xs ys"
  shows "x \<in> set xs \<Longrightarrow> \<exists>y \<in> set ys. P x y" and "y \<in> set ys \<Longrightarrow> \<exists>x \<in> set xs. P x y"
  using assms by (induction rule: list_all2_induct) auto

lemma record_at_unique:
  assumes "crates_ok E" "os_ok E" "length (file_data fs f) \<le> 2 ^ 63"
    and "record_at E (file_data fs f) (unat (off :: u64)) r" "record_at E (file_data fs f) (unat off) r'"
  shows "r' = r"
proof -
  have "length (file_data fs f) < 2 ^ 64" using assms(3) by simp
  from fio.read_record_anywhere [OF assms(2,1) this assms(4)] fio.read_record_anywhere [OF assms(2,1) this assms(5)]
  show ?thesis by simp
qed

text \<open>Every entry of the index points to a record in the log; the log may have more than the index knows of.\<close>

definition index_logged :: "('s, 'b) env \<Rightarrow> ('s, 'b) engine \<Rightarrow> logs \<Rightarrow> bool" where
  "index_logged E e logs \<longleftrightarrow>
     (\<forall>k p. index_entries E (eng_index e) k = Some p \<longrightarrow> from_log E (log_entries E logs) (k, Normal, p))"

lemma log_state_logged: "log_state E (e, fs) logs \<Longrightarrow> index_logged E e logs"
  using replay_from_log [of E "log_entries E logs"]
  by (auto simp: index_logged_def log_state_def replays_to_def split: prod.splits)

lemma index_logged_more:
  assumes "index_logged E e logs" "eng_index e' = eng_index e" "set (log_entries E logs) \<subseteq> set (log_entries E logs')"
  shows "index_logged E e' logs'"
  using assms(1) subsetD [OF assms(3)] unfolding index_logged_def assms(2) by (fastforce simp: from_log_def)

text \<open>The hints have the keys of the index, and point to copies with their values.\<close>

lemma copied_keys:
  assumes log: "index_logged E e logs" and cp: "merge_copy E (index_entries E (eng_index e)) logs mlogs H"
  shows "hint_map H k = None \<longleftrightarrow> index_entries E (eng_index e) k = None"
proof -
  let ?m = "index_entries E (eng_index e)"
  let ?a = "fold (copy_step E ?m) (log_entries E logs) []"
  have all2: "list_all2 (copied E mlogs) ?a H" using cp by (simp add: merge_copy_def copies_def)
  have "k \<in> fst ` set H" if "?m k = Some q" for q
  proof -
    have "from_log E (log_entries E logs) (k, Normal, q)"
      using log that by (simp add: index_logged_def)
    then obtain r n where "(q, r) \<in> set (log_entries E logs)" "parse_log_record_key E (rec_key r) = Ok (k, n)"
      by (auto simp: from_log_def)
    then have "(k, r) \<in> set ?a" using that by (auto simp: set_fold_copy_step live_def)
    from list_all2_members(1) [OF all2 this] obtain h where "h \<in> set H" "copied E mlogs (k, r) h" by blast
    then show ?thesis by (auto simp: copied_def intro!: image_eqI [of _ _ h])
  qed
  moreover have "?m k \<noteq> None" if kp: "(k, p) \<in> set H" for p
  proof -
    obtain x where "x \<in> set ?a" "copied E mlogs x (k, p)"
      using list_all2_members(2) [OF all2 kp] by blast
    then have "(k, snd x) \<in> set ?a" by (cases x) (auto simp: copied_def)
    then obtain q where "live ?m q k" unfolding set_fold_copy_step by auto
    then show ?thesis by (auto simp: live_def split: option.splits)
  qed
  ultimately show ?thesis
    unfolding hint_map_None by (cases "?m k") (auto simp del: not_None_eq)
qed

lemma copied_value:
  assumes ok: "crates_ok E" "os_ok E" and reads: "reads_inv E (e, fs)" and log: "log_files E (e, fs) logs"
    and cp: "merge_copy E (index_entries E (eng_index e)) logs mlogs H" and k: "hint_map H k = Some p"
  obtains r where "(p, r\<lparr>rec_key := 0 # k\<rparr>) \<in> set (log_entries E mlogs)" "rec_type r = Normal"
    "kv E (e, fs) k = Some (rec_value r)"
proof -
  let ?m = "index_entries E (eng_index e)"
  let ?a = "fold (copy_step E ?m) (log_entries E logs) []"
  have disk: "disk_log E (dir_path (eng_options e)) fs logs" using log by (simp add: log_files_def)
  have all2: "list_all2 (copied E mlogs) ?a H" using cp by (simp add: merge_copy_def copies_def)
  obtain x where x: "x \<in> set ?a" "copied E mlogs x (k, p)"
    using list_all2_members(2) [OF all2 hint_map_Some [OF k]] by blast
  obtain r where r: "x = (k, r)" using x(2) by (cases x) (auto simp: copied_def)
  obtain p0 n where p0: "(p0, r) \<in> set (log_entries E logs)" "live ?m p0 k"
    using x(1) by (auto simp: r set_fold_copy_step)
  obtain q where q: "?m k = Some q" "pos_file_id q = pos_file_id p0" "pos_offset q = pos_offset p0"
    using p0(2) by (auto simp: live_def split: option.splits)
  have "entry_ok E (e, fs) k q" using reads q(1) by (auto simp: reads_inv_def)
  then obtain r' where r': "record_at E (file_bytes (e, fs) (pos_file_id q)) (unat (pos_offset q)) r'" "rec_type r' = Normal"
    by (auto elim: entry_okE)
  have bytes: "file_bytes (e, fs) fid = file_data fs (get_data_file_name (dir_path (eng_options e)) fid)" for fid
    by (simp add: file_bytes_def data_path_def)
  have "r' = r"
    by (rule record_at_unique [OF ok disk_log_bytes [OF ok(1) disk]])
      (use log_entries_at(3) [OF ok(1) disk p0(1)] r'(1) q(2,3) in \<open>simp_all add: bytes\<close>)
  then have "get E k (e, fs) = Ok (rec_value r)" using get_indexed [OF ok reads, of k q r] q(1) r' by simp
  then have "kv E (e, fs) k = Some (rec_value r)" by (simp add: kv_def)
  then show ?thesis using that [of r] x(2) r'(2) \<open>r' = r\<close> by (simp add: r copied_def)
qed

subsection \<open>From the merge to the next opening\<close>

lemma merge_pending_ok:
  assumes ok: "crates_ok E" "os_ok E" and inv: "files_inv (e, fs)" and log: "log_files E (e, fs) logs"
    and mp: "get_merge_path (dir_path (eng_options e)) = Ok mp" and id: "unat (active_id e) + 1 < 2 ^ 32"
    and begun: "merge_begun e mp fs fs1" and fin_ok: "merge_done E mp fs1 mlogs H (active_id e + 1) fs2"
    and cp: "merge_copy E m logs mlogs H"
  shows "merge_pending E (dir_path (eng_options e)) mp (active_id e + 1) mlogs H fs2"
proof -
  let ?dir = "dir_path (eng_options e)" and ?n = "active_id e + 1"
  have disk: "disk_log E ?dir fs logs" and known: "known_ids e = fst ` set logs" using log by (simp_all add: log_files_def)
  have f1: "file_data fs1 f = file_data fs f" "is_file fs1 f \<longleftrightarrow> f = data_path e ?n \<or> is_file fs f"
    "is_dir fs1 d \<longleftrightarrow> is_dir fs d \<or> starts_with mp d" for f d
    using begun unfolding merge_begun_def by blast+
  have ag: "agrees mp fs1 fs2" using fin_ok by (simp add: merge_done_def)
  have "mp \<noteq> ?dir" using apart_neq [OF merge_path_apart(1) [OF mp]] .
  then have f2: "file_data fs2 (?dir, m) = file_data fs (?dir, m)"
    "is_file fs2 (?dir, m) \<longleftrightarrow> (?dir, m) = data_path e ?n \<or> is_file fs (?dir, m)" for m
    using agreesD(1,2) [OF ag, of "(?dir, m)"] by (auto simp: f1)
  have le: "i \<le> active_id e" if "i \<in> fst ` set logs" for i
  proof -
    have "i \<in> known_ids e" using that known by simp
    then show ?thesis using inv by (auto simp: known_ids_def files_inv_def)
  qed
  have n: "unat ?n = unat (active_id e) + 1" by (rule u32_succ(2) [OF id])
  have gt: "active_id e < ?n" by (rule u32_succ(3) [OF id])
  have "\<not> is_file fs (data_path e ?n)" using inv gt by (auto simp: files_inv_def)
  then have "file_data fs (data_path e ?n) = []" by (rule file_data_new)
  moreover have "m \<in> data_file_name ` {..?n}"
    if "is_file fs2 (?dir, m)" "ends_with m DATA_FILE_NAME_SUFFIX" for m
  proof (cases "is_file fs (?dir, m)")
    case True
    then have "m \<in> data_file_name ` fst ` set logs" using that(2) disk by (simp add: disk_log_def)
    then show ?thesis using le gt by (force dest: order_le_less_trans)
  next
    case False
    then show ?thesis using that(1) f2(2) by (simp add: data_path_def get_data_file_name_def)
  qed
  moreover have "fid < ?n" if "(fid, rs) \<in> set mlogs" "rs \<noteq> []" for fid rs
  proof -
    have "sorted_wrt (<) (map fst logs)" using disk by (simp add: disk_log_def)
    then have "length (map fst logs) \<le> unat (active_id e) + 1" using le by (intro length_ids_le) auto
    moreover have "unat fid < length logs" using cp that by (auto simp: merge_copy_def)
    ultimately show ?thesis by (simp add: word_less_nat_alt n)
  qed
  moreover have "is_dir fs2 ?dir" using disk agreesD(4) [OF ag] f1(3) by (simp add: disk_log_def)
  moreover have "merge_done E mp fs2 mlogs H ?n fs2" using fin_ok by (simp add: merge_done_def)
  ultimately show ?thesis
    using mp f2 by (auto simp: merge_pending_def data_path_def get_data_file_name_def)
qed

lemma closed_pending:
  assumes pend: "merge_pending E (dir_path (eng_options e)) mp n mlogs H fs" and closed: "closed_fs E e fs fs'"
  shows "merge_pending E (dir_path (eng_options e)) mp n mlogs H fs'"
proof -
  note d = added_toD [OF closed_fsD(1) [OF closed]]
  have "fs_wf fs" using pend by (simp add: merge_pending_def merge_done_def data_log_def)
  then show ?thesis
    by (intro merge_pending_frame [OF pend] d(4)) (use not_data_names(2) in \<open>auto simp: d\<close>)
qed

text \<open>Opening such a directory, in whatever state of its other files: the values are the old ones.\<close>

lemma pending_reopen:
  fixes E :: "('s, 'b) env" and e :: "('s, 'b) engine"
  assumes ok: "crates_ok E" "os_ok E" "skipmap_ok (skipmap E)"
    and opts: "check_options opts = Ok ()" "index_type opts \<noteq> BPlusTree"
    and reads: "reads_inv E (e, fs)" and log: "log_files E (e, fs) logs" "index_logged E e logs"
    and cp: "merge_copy E (index_entries E (eng_index e)) logs mlogs H"
    and pend: "merge_pending E (dir_path opts) mp n mlogs H fs3"
    and free: "(dir_path opts, FILE_LOCK_NAME) \<notin> set (fs_locks fs3)"
  shows "\<exists>e' fs'. engine_open E opts fs3 = Some (Ok e', fs') \<and> reads_inv E (e', fs') \<and>
    kv E (e', fs') = kv E (e, fs)"
proof -
  have from_hint: "from_log E (log_entries E mlogs) (k, Normal, p)" if k: "hint_map H k = Some p" for k p
  proof -
    obtain r where "(p, r\<lparr>rec_key := 0 # k\<rparr>) \<in> set (log_entries E mlogs)" "rec_type r = Normal"
      by (rule copied_value [OF ok(1,2) reads log(1) cp k])
    moreover have "parse_log_record_key E (0 # k) = Ok (k, NON_TRANSACTION_SEQ_NO)"
      by (rule parse_key_with_seq [OF ok(1) key_with_seq_0 [OF ok(1)]])
    ultimately show ?thesis by (force simp: from_log_def)
  qed
  have "log_length E (map (hint_record E) H) \<le> 2 ^ 61" using cp by (simp add: merge_copy_def)
  from engine_open_merged [OF ok opts(1,2) pend this free from_hint] obtain e' fs' where
    e': "engine_open E opts fs3 = Some (Ok e', fs')" "data_log E (dir_path opts) fs' (kept_logs mlogs @ [(n, [])])"
      "eng_options e' = opts" "reads_inv E (e', fs')" "index_entries E (eng_index e') = hint_map H" by blast
  have "kv E (e', fs') k = kv E (e, fs) k" for k
  proof (cases "hint_map H k")
    case None
    then have "kv E (e', fs') k = None" "kv E (e, fs) k = None"
      using kv_indexed_iff [OF ok(1,2) e'(4), of k] kv_indexed_iff [OF ok(1,2) reads, of k]
        copied_keys [OF log(2) cp, of k] by (simp_all add: e'(5))
    then show ?thesis by simp
  next
    case (Some p)
    obtain r where r: "(p, r\<lparr>rec_key := 0 # k\<rparr>) \<in> set (log_entries E mlogs)" "rec_type r = Normal"
      "kv E (e, fs) k = Some (rec_value r)"
      by (rule copied_value [OF ok(1,2) reads log(1) cp Some])
    have "(p, r\<lparr>rec_key := 0 # k\<rparr>) \<in> set (log_entries E (kept_logs mlogs @ [(n, [])]))"
      using r(1) by (simp add: log_entries_kept)
    from data_entries_at(3) [OF ok(1) e'(2) this]
    have "get E k (e', fs') = Ok (rec_value (r\<lparr>rec_key := 0 # k\<rparr>))"
      by (intro get_indexed [OF ok(1,2) e'(4)])
        (use Some r(2) e'(3,5) in \<open>simp_all add: file_bytes_def data_path_def\<close>)
    then show ?thesis using r(3) by (simp add: kv_def)
  qed
  then show ?thesis using e'(1,4) by (auto simp: fun_eq_iff)
qed

lemma merge_outcome:
  fixes E :: "('s, 'b) env" and e :: "('s, 'b) engine"
  assumes ok: "crates_ok E" "os_ok E"
    and inv: "engine_inv E (e, fs)" and log: "log_files E (e, fs) logs"
    and mp: "get_merge_path (dir_path (eng_options e)) = Ok mp" "no_merge mp fs"
    and free: "(mp, FILE_LOCK_NAME) \<notin> set (fs_locks fs)" and id: "unat (active_id e) + 2 < 2 ^ 32"
    and size: "data_file_size (eng_options e) \<noteq> 0"
      "\<forall>(fid, rs) \<in> set logs. log_length E rs \<le> unat (data_file_size (eng_options e))" "log_total E logs \<le> 2 ^ 58"
  obtains fs2 n mlogs H where "merge_to E mp (e, fs) = Some (Ok (), rotated e, fs2)"
    "engine_inv E (rotated e, fs2)" "kv E (rotated e, fs2) = kv E (e, fs)"
    "merge_pending E (dir_path (eng_options e)) mp n mlogs H fs2"
    "merge_copy E (index_entries E (eng_index e)) logs mlogs H"
    "\<And>fid. file_bytes (rotated e, fs2) fid = file_bytes (e, fs) fid"
proof -
  have id1: "unat (active_id e) + 1 < 2 ^ 32" using id by simp
  have files: "files_inv (e, fs)" using inv by (simp add: engine_inv_def)
  obtain fs1 fs2 mlogs H where m: "merge_to E mp (e, fs) = Some (Ok (), rotated e, fs2)"
    and begun: "merge_begun e mp fs fs1" and fin_ok: "merge_done E mp fs1 mlogs H (active_id e + 1) fs2"
    and cp: "merge_copy E (index_entries E (eng_index e)) logs mlogs H"
    by (rule merge_to_ok [OF ok inv log mp free id size])
  have "answers E (kv E (e, fs)) (e, fs)" using inv by (simp add: answers_def)
  from merge_to_answers [OF ok this id1 mp(1)]
  have "engine_inv E (rotated e, fs2)" "kv E (rotated e, fs2) = kv E (e, fs)"
    by (simp_all add: m stays_opt_def stays_def answers_as_def answers_def)
  moreover have "file_bytes (rotated e, fs2) fid = file_bytes (e, fs) fid" for fid
  proof -
    have "mp \<noteq> dir_path (eng_options e)" using apart_neq [OF merge_path_apart(1) [OF mp(1)]] .
    moreover have "agrees mp fs1 fs2" using fin_ok by (simp add: merge_done_def)
    ultimately have "file_data fs2 (data_path e fid) = file_data fs1 (data_path e fid)"
      using agreesD(1) [of mp fs1 fs2 "data_path e fid"] by (auto simp: data_path_def get_data_file_name_def)
    moreover have "file_data fs1 f = file_data fs f" for f using begun unfolding merge_begun_def by blast
    ultimately show ?thesis by (simp add: file_bytes_def data_path_def rotated_def)
  qed
  ultimately show ?thesis
    using that [OF m _ _ merge_pending_ok [OF ok files log mp(1) id1 begun fin_ok cp] cp] by blast
qed

text \<open>The process is gone.\<close>

lemma killed_pending:
  assumes "merge_pending E dir mp n mlogs H fs"
  shows "merge_pending E dir mp n mlogs H (killed fs)"
proof -
  have "fs_wf fs" using assms by (simp add: merge_pending_def merge_done_def data_log_def)
  then show ?thesis by (intro merge_pending_frame [OF assms]) (simp_all add: killed_def)
qed

end
