(* ===== verification/MergeProps.thy ===== *)
theory MergeProps
  imports RecoveryProps MergeReopen
begin

text \<open>Properties of merging.\<close>

subsection \<open>The effect of \<open>put\<close> on the files\<close>

lemma put_appended:
  assumes ok: "crates_ok E" "os_ok E" and inv: "engine_inv E (e, fs)" and kv: "storable k v"
    and id: "unat (active_id e) + 1 < 2 ^ 32" and put: "put E k v (e, fs) = (Ok (), e', fs')"
  obtains en e1 where "LogRecord_encode E (LogRecord_new (0 # k) v Normal) = Ok en" "appended e fs en e1 fs'"
    "active_id e' = active_id e1" "known_ids e' = known_ids e1" "data_path e' = data_path e"
    "reclaim_size e' = (case index_entries E (eng_index e) k of
       None \<Rightarrow> reclaim_size e | Some p \<Rightarrow> fetch_add (reclaim_size e) (unat (pos_size p)))"
proof -
  let ?r = "LogRecord_new (0 # k) v Normal"
  have wf: "wf_record ?r" and k: "k \<noteq> []" using kv by (auto simp: storable_def wf_record_def)
  have files: "files_inv (e, fs)" "bw_ok e" and idx: "index_inv E (eng_index e)" using inv by (simp_all add: engine_inv_def)
  from append_log_record_ok [OF ok files(1) wf id files(2)] obtain p e1 fs1 en where
    ap: "append_log_record E ?r (e, fs) = (Ok p, e1, fs1)" and same: "same_index e e1" and
    en: "LogRecord_encode E ?r = Ok en" "appended e fs en e1 fs1" by blast
  obtain i where i: "index_put E (eng_index e) k p = (Ok (index_entries E (eng_index e) k), i)"
    using ix.putE [OF idx] .
  have "e' = add_reclaim (index_entries E (eng_index e) k) (e1\<lparr>eng_index := i\<rparr>)" "fs' = fs1"
    using put ap i k same by (simp_all add: put_def key_with_seq_0 [OF ok(1)] same_index_def)
  then show ?thesis
    using that [OF en(1)] en(2) same appended_data_path [OF en(2)]
    by (simp add: add_reclaim_def same_index_def active_id_def known_ids_def data_path_def fun_eq_iff split: option.split)
qed

text \<open>A database that holds a key is not empty.\<close>

lemma not_empty_engine:
  assumes ok: "crates_ok E" "os_ok E" and inv: "engine_inv E (e, fs)" and k: "kv E (e, fs) k = Some v"
  shows "\<not> is_empty_engine e"
proof
  assume empty: "is_empty_engine e"
  have files: "files_inv (e, fs)" using inv by (simp add: engine_inv_def)
  obtain p where "index_entries E (eng_index e) k = Some p"
    using kv_indexed_iff [OF ok engine_inv_reads [OF inv], of k] k by fastforce
  then have "entry_ok E (e, fs) k p" using inv by (auto simp: engine_inv_def)
  then obtain r where r: "record_at E (file_bytes (e, fs) (pos_file_id p)) (unat (pos_offset p)) r"
    "pos_file_id p \<in> known_ids e" by (auto simp: entry_ok_def)
  have "pos_file_id p = active_id e" using r(2) empty by (simp add: is_empty_engine_def known_ids_def)
  moreover have "file_bytes (e, fs) (active_id e) = []"
    using files empty by (auto simp: files_inv_def is_empty_engine_def)
  ultimately have "record_at E [] (unat (pos_offset p)) r" using r(1) by simp
  from record_at_split [OF this] obtain en where "wf_record r" "LogRecord_encode E r = Ok en" "en = []" by auto
  then show False using LogRecord_encode_length [OF ok(1)] encoded_length_bounds(1) [OF ok(1)] by fastforce
qed

subsection \<open>When a merge is due, and when it fits\<close>

text \<open>\<open>merge\<close> passes its checks.\<close>

definition merge_due :: "('s, 'b) env \<Rightarrow> ('s, 'b) st \<Rightarrow> bool" where
  "merge_due E st \<longleftrightarrow>
     (let opts = eng_options (fst st); reclaim = reclaim_size (fst st); total = dir_dis_size E (snd st) (dir_path opts)
      in \<not> is_empty_engine (fst st) \<and>
         \<not> f32_less (f32_div (f32_of_nat reclaim) (f32_of_nat (unat total))) (data_file_merge_ratio opts) \<and>
         (case sub_u64 total (of_nat reclaim) of Ok needed \<Rightarrow> needed < available_disk_size E (snd st) | _ \<Rightarrow> False))"

text \<open>
  No file is longer than \<open>data_file_size\<close>, no counter is at its end, and nothing uses the merge
  directory or its own merge directory.
\<close>

definition merge_fits :: "('s, 'b) st \<Rightarrow> bool" where
  "merge_fits st \<longleftrightarrow>
     (\<exists>mp. get_merge_path (dir_path (eng_options (fst st))) = Ok mp \<and> no_merge mp (snd st) \<and>
        (mp, FILE_LOCK_NAME) \<notin> set (fs_locks (snd st))) \<and>
     room 2 st \<and>
     (\<forall>fid \<in> known_ids (fst st). length (file_bytes st fid) \<le> unat (data_file_size (eng_options (fst st)))) \<and>
     (\<Sum>fid \<in> known_ids (fst st). length (file_bytes st fid)) \<le> 2 ^ 58"

lemma merge_when_due:
  assumes "merge_due E (e, fs)" "get_merge_path (dir_path (eng_options e)) = Ok mp"
  shows "merge E False (e, fs) = merge_to E mp (e, fs)"
  using assms by (auto simp: merge_due_def merge_def Let_def not_le split: res.splits)

lemma merge_fits_log:
  assumes C: "crates_ok E" and log: "log_files E (e, fs) logs" and fits: "merge_fits (e, fs)"
  shows "\<forall>(fid, rs) \<in> set logs. log_length E rs \<le> unat (data_file_size (eng_options e))"
    and "log_total E logs \<le> 2 ^ 58"
proof -
  have disk: "disk_log E (dir_path (eng_options e)) fs logs" and known: "known_ids e = fst ` set logs"
    using log by (simp_all add: log_files_def)
  have len: "log_length E rs = length (file_bytes (e, fs) fid)" if "(fid, rs) \<in> set logs" for fid rs
    using disk_log_file(2,4) [OF disk that] length_log_bytes [OF C]
    by (simp add: file_bytes_def data_path_def)
  show "\<forall>(fid, rs) \<in> set logs. log_length E rs \<le> unat (data_file_size (eng_options e))"
    using fits len known by (fastforce simp: merge_fits_def)
  have "log_total E logs = sum_list (map (\<lambda>fid. length (file_bytes (e, fs) fid)) (map fst logs))"
    unfolding log_total_def map_map by (rule arg_cong [of _ _ sum_list], rule map_cong) (auto simp: len)
  also have "\<dots> = (\<Sum>fid \<in> set (map fst logs). length (file_bytes (e, fs) fid))"
    using disk by (intro sum.distinct_set_conv_list [symmetric]) (simp add: disk_log_def strict_sorted_iff)
  finally show "log_total E logs \<le> 2 ^ 58" using fits known by (simp add: merge_fits_def)
qed

subsection \<open>A closed example\<close>

definition opts_m :: options where
  "opts_m = opts0\<lparr>data_file_merge_ratio := 0\<rparr>"

lemma opts_m_sel [simp]:
  "dir_path opts_m = dir0" "data_file_size opts_m = 64" "bytes_per_sync opts_m = 0"
  "index_type opts_m = BTree" "mmap_at_startup opts_m = False" "data_file_merge_ratio opts_m = 0"
  by (simp_all add: opts_m_def)

lemma setting_m: "setting E0 opts_m"
proof -
  have "check_options opts_m = Ok ()"
    by (simp add: check_options_def dir0_def f32_less_def f32_is_nan_def f32_key_def)
  then show ?thesis by (simp add: setting_def)
qed

lemma merge_due_m:
  assumes "eng_options e = opts_m" "reclaim_size e = 0" "\<not> is_empty_engine e" "is_dir fs dir0"
  shows "merge_due E0 (e, fs)"
proof -
  obtain es where es: "fs_dirs fs dir0 = Some es" using assms(4) by (auto simp: is_dir_def)
  define n where "n = min (2 ^ 30) (sum_list (map (\<lambda>e. length (fdata (snd e))) es))"
  have total: "dir_dis_size E0 fs dir0 = of_nat n" "n \<le> 2 ^ 30" by (simp_all add: dir_dis_size_def E0_def es n_def)
  have un: "unat (of_nat n :: u64) = n" using total(2) by (simp add: unat_of_nat)
  have "\<not> f32_less (f32_div (f32_of_nat 0) x) 0" for x
    by (simp add: f32_div_def f32_of_nat_def f32_less_def f32_is_nan_def f32_key_def)
  moreover have "sub_u64 (of_nat n) 0 = Ok (of_nat n)" by (simp add: sub_u64_def)
  moreover have "(of_nat n :: u64) < available_disk_size E0 fs"
    using un total(2) by (simp add: available_disk_size_def E0_def word_less_nat_alt)
  ultimately show ?thesis using assms(1-3) total(1) by (simp add: merge_due_def Let_def)
qed

text \<open>A database after \<open>n\<close> appends of short records, the first of them to an empty file.\<close>

definition small_db :: "nat \<Rightarrow> ('s, 'b) st \<Rightarrow> bool" where
  "small_db n st \<longleftrightarrow>
     (case st of (e, fs) \<Rightarrow>
        eng_options e = opts_m \<and> unat (active_id e) \<le> n \<and> seq_no e = 1 \<and> reclaim_size e = 0 \<and>
        (\<forall>fid. length (file_bytes (e, fs) fid) \<le> 10 * n) \<and> fs_locks fs = [(dir0, FILE_LOCK_NAME)] \<and>
        (\<forall>d. is_dir fs d \<longleftrightarrow> starts_with dir0 d))"

lemma small_db_appended:
  assumes "small_db n (e, fs)" "appended e fs en e1 fs'" "length en \<le> 10" "unat (active_id e1) \<le> unat (active_id e) + 1"
    and "active_id e' = active_id e1" "data_path e' = data_path e" "eng_options e' = eng_options e"
      "seq_no e' = seq_no e" "reclaim_size e' = 0"
  shows "small_db (Suc n) (e', fs')"
proof -
  have old: "length (file_data fs f) \<le> 10 * n" if "f = data_path e fid" for f fid
    using assms(1) by (simp add: small_db_def file_bytes_def that)
  have "length (file_bytes (e', fs') fid) \<le> 10 * Suc n" for fid
    using old [OF refl, of fid] assms(3) by (auto simp: file_bytes_def assms(6) appendedD(1) [OF assms(2)])
  then show ?thesis
    using assms(1,4,5,7-9) by (simp add: small_db_def appendedD(3,4) [OF assms(2)])
qed

lemma small_db_fits:
  assumes small: "small_db n (e, fs)" and n: "n \<le> 6"
  shows "merge_fits (e, fs)" and "room 2 (e, fs)" and "\<not> is_empty_engine e \<Longrightarrow> merge_due E0 (e, fs)"
proof -
  note d = small [unfolded small_db_def split_conv]
  have len: "length (file_bytes (e, fs) fid) \<le> 64" for fid
  proof -
    have "length (file_bytes (e, fs) fid) \<le> 10 * n" using d by blast
    then show ?thesis using n by simp
  qed
  have "(\<Sum>fid \<in> known_ids e. length (file_bytes (e, fs) fid)) \<le> card (known_ids e) * 64"
    using sum_bounded_above [of "known_ids e" "\<lambda>fid. length (file_bytes (e, fs) fid)" 64] len by simp
  moreover have "card (known_ids e) \<le> 2 ^ 32"
    using card_mono [OF finite, of "known_ids e" "UNIV :: u32 set"] by (simp add: card_word)
  ultimately have "(\<Sum>fid \<in> known_ids e. length (file_bytes (e, fs) fid)) \<le> 2 ^ 58" by simp
  moreover have "no_merge [''db-merge''] fs"
    using d by (simp add: no_merge_def get_merge_path_def path_file_name_def path_parent_def
        MERGE_DIR_NAME_def starts_with_def dir0_def)
  moreover have "([''db-merge''], FILE_LOCK_NAME) \<notin> set (fs_locks fs)" using d by (simp add: dir0_def)
  moreover show "room 2 (e, fs)" using d n by (simp add: room_def)
  ultimately show "merge_fits (e, fs)"
    using d len get_merge_path0 by (simp add: merge_fits_def)
  show "merge_due E0 (e, fs)" if "\<not> is_empty_engine e"
    by (rule merge_due_m) (use d that in \<open>simp_all add: starts_with_def\<close>)
qed

lemma short_record:
  assumes "LogRecord_encode E0 (LogRecord_new [a, b] [c] ty) = Ok en"
  shows "length en \<le> 10"
  using LogRecord_encode_length [OF settingD(1) [OF setting_m] assms] leb128_len_bound [of 2 0] leb128_len_bound [of 1 0]
  by (simp add: encoded_length_def leb128_len.simps)

text \<open>A database with one key.\<close>

lemma merge_example:
  obtains e fs where "db_run E0 opts_m [[107] \<mapsto> [118]] (e, fs)" "merge_due E0 (e, fs)" "merge_fits (e, fs)"
    "small_db 1 (e, fs)"
proof -
  note s = settingD [OF setting_m]
  have new: "new_place opts_m no_fs" using new_place0 by (simp add: new_place_def)
  obtain e fs where o: "engine_open E0 opts_m no_fs = Some (Ok e, fs)" "engine_inv E0 (e, fs)"
    "kv E0 (e, fs) = Map.empty" "log_state E0 (e, fs) [(0, [])]" "eng_options e = opts_m" "seq_no e = 1"
    "active_id e = 0" "reclaim_size e = 0" "fs_locks fs = (dir_path opts_m, FILE_LOCK_NAME) # fs_locks no_fs"
    and d: "\<And>d. is_dir fs d \<longleftrightarrow> is_dir no_fs d \<or> starts_with (dir_path opts_m) d"
    by (rule engine_open_new [OF s(1,2,4-8), where fs = no_fs and mp = "[''db-merge'']"])
      (simp_all add: no_fs_def is_dir_def fs_wf_def get_merge_path0 [simplified])
  have run0: "db_run E0 opts_m Map.empty (e, fs)" by (rule db_run.create [OF new o(1)])
  have kv: "loggable [107] [118]" "storable [107] [118]" by (simp_all add: loggable_def storable_def)
  have id: "unat (active_id e) + 1 < 2 ^ 32" by (simp add: o(7))
  obtain e' fs' where p: "put E0 [107] [118] (e, fs) = (Ok (), e', fs')" "engine_inv E0 (e', fs')"
    "kv E0 (e', fs') = [[107] \<mapsto> [118]]" "unat (active_id e') \<le> 1" "seq_no e' = 1" "eng_options e' = opts_m"
    using put_ok [OF s(1,2) o(2) kv(2) id] by (auto simp: o)
  have run: "db_run E0 opts_m [[107] \<mapsto> [118]] (e', fs')"
    using db_run.stored [OF run0 kv(1)] by (simp add: p(1) room_def o)
  obtain en e1 where a: "LogRecord_encode E0 (LogRecord_new [0, 107] [118] Normal) = Ok en" "appended e fs en e1 fs'"
    "active_id e' = active_id e1" "data_path e' = data_path e"
    "reclaim_size e' = (case index_entries E0 (eng_index e) [107] of
       None \<Rightarrow> reclaim_size e | Some p \<Rightarrow> fetch_add (reclaim_size e) (unat (pos_size p)))"
    by (rule put_appended [OF s(1,2) o(2) kv(2) id p(1)])
  have "index_entries E0 (eng_index e) [107] = None"
    using kv_indexed_iff [OF s(1,2) engine_inv_reads [OF o(2)], of "[107]"] by (simp add: o(3))
  then have rec: "reclaim_size e' = 0" by (simp add: a(5) o(8))
  have log: "disk_log E0 dir0 fs [(0, [])]" using o(4,5) by (simp add: log_state_def log_files_def)
  have old: "file_bytes (e, fs) fid = []" for fid
  proof (cases "is_file fs (data_path e fid)")
    case True
    then have "data_file_name fid \<in> data_file_name ` fst ` set [(0, [] :: log_record list)]"
      using log by (auto simp: disk_log_def data_path_def o(5) get_data_file_name_def)
    then show ?thesis using disk_log_file(2) [OF log, of 0 "[]"] by (simp add: file_bytes_def data_path_def o(5))
  qed (simp add: file_bytes_def file_data_new)
  have "\<not> is_dir no_fs d" for d by (simp add: no_fs_def is_dir_def)
  then have "small_db 0 (e, fs)" by (simp add: small_db_def o(5-9) old d no_fs_def)
  from small_db_appended [OF this a(2) short_record [OF a(1)] _ a(3,4)]
  have small: "small_db 1 (e', fs')" using p(4-6) rec by (simp add: o(5-7) flip: a(3))
  have "\<not> is_empty_engine e'"
    by (rule not_empty_engine [OF s(1,2) p(2), of "[107]" "[118]"]) (simp add: p(3))
  then show ?thesis using that [OF run] small_db_fits [OF small] small by simp
qed

subsection \<open>Properties\<close>

text \<open>C7: Merging returns in every reachable state, whether or not it is due, another merge is running,
  or the merge directory holds what an earlier one left; and the running database then answers every
  \<open>get\<close> as before: nothing is lost or changed under its feet.\<close>

theorem merge_keeps_map:
  assumes "setting E opts" "db_run E opts m st" "room 1 st"
  shows "\<exists>r st'. merge E busy st = Some (r, st') \<and> engine_inv E st' \<and> kv E st' = m \<and>
    (\<forall>k. get E k st' = get E k st)"
proof -
  obtain e fs where st: "st = (e, fs)" by (cases st)
  note ok = settingD(1,2) [OF assms(1)]
  have inv: "engine_inv E (e, fs)" "kv E (e, fs) = m" using db_run_inv [OF assms(1,2)] by (simp_all add: db_inv_def st)
  have "unat (active_id e) + 1 < 2 ^ 32" using assms(3) by (simp add: room_def st)
  from merge_keeps_answers [OF ok inv(1) this, of busy] obtain r e' fs' where
    m: "merge E busy (e, fs) = Some (r, e', fs')" "engine_inv E (e', fs')" "kv E (e', fs') = m"
    unfolding inv(2) by blast
  have "get E k (e', fs') = get E k (e, fs)" for k
    using get_cases [OF ok engine_inv_reads [OF m(2)]] get_cases [OF ok engine_inv_reads [OF inv(1)]] m(3) inv(2) by simp
  then show ?thesis using m st by blast
qed

lemma merge_keeps_map_witness:
  "\<exists>st. db_run E0 opts_m [[107] \<mapsto> [118]] st \<and> merge_due E0 st \<and>
    (\<exists>r st'. merge E0 False st = Some (r, st') \<and> engine_inv E0 st' \<and> kv E0 st' = [[107] \<mapsto> [118]] \<and>
      (\<forall>k. get E0 k st' = get E0 k st))"
proof -
  obtain e fs where st: "db_run E0 opts_m [[107] \<mapsto> [118]] (e, fs)" "merge_due E0 (e, fs)" "merge_fits (e, fs)"
    by (rule merge_example)
  have "room 1 (e, fs)" using st(3) by (simp add: merge_fits_def room_def)
  from merge_keeps_map [OF setting_m st(1) this, of False] st(1,2) show ?thesis by blast
qed

text \<open>C6: A merge that is due succeeds, and loses nothing: when the process is killed right after it, or
  ends with \<open>close\<close>, opening finds the merge directory, moves its files over the old ones, loads the
  hint file, and every key has the value it had.\<close>

theorem merge_then_open:
  assumes "setting E opts" "db_run E opts m (e, fs)" "merge_due E (e, fs)" "merge_fits (e, fs)"
  shows "\<exists>e2 fs2 fs3. merge E False (e, fs) = Some (Ok (), e2, fs2) \<and> close E (e2, fs2) = (Ok (), e2, fs3) \<and>
    (\<forall>fs' \<in> {fs2, fs3}. \<exists>e4 fs4. engine_open E opts (killed fs') = Some (Ok e4, fs4) \<and> kv E (e4, fs4) = m)"
proof -
  note s = settingD [OF assms(1)]
  obtain logs where inv: "engine_inv E (e, fs)" "kv E (e, fs) = m" "eng_options e = opts"
    and log: "log_state E (e, fs) logs"
    using db_run_inv [OF assms(1,2)] by (auto simp: db_inv_def)
  have lf: "log_files E (e, fs) logs" "index_logged E e logs"
    using log log_state_logged by (simp_all add: log_state_def)
  obtain mp where mp: "get_merge_path (dir_path (eng_options e)) = Ok mp" "no_merge mp fs"
    "(mp, FILE_LOCK_NAME) \<notin> set (fs_locks fs)" using assms(4) by (auto simp: merge_fits_def)
  have id: "unat (active_id e) + 2 < 2 ^ 32" "seq_no e < 2 ^ 64" using assms(4) by (simp_all add: merge_fits_def room_def)
  have size: "data_file_size (eng_options e) \<noteq> 0" using s(5) by (auto simp: check_options_def inv(3) split: if_splits)
  obtain fs2 n mlogs H where m: "merge_to E mp (e, fs) = Some (Ok (), rotated e, fs2)"
    "engine_inv E (rotated e, fs2)" "kv E (rotated e, fs2) = kv E (e, fs)"
    "merge_pending E (dir_path (eng_options e)) mp n mlogs H fs2"
    "merge_copy E (index_entries E (eng_index e)) logs mlogs H"
    by (rule merge_outcome [OF s(1,2) inv(1) lf(1) mp id(1) size merge_fits_log [OF s(1) lf(1) assms(4)]])
  have r: "eng_options (rotated e) = eng_options e" "seq_no (rotated e) < 2 ^ 64" "files_inv (rotated e, fs2)"
    using m(2) id(2) by (simp_all add: rotated_def engine_inv_def)
  obtain fs3 where fs3: "close E (rotated e, fs2) = (Ok (), rotated e, fs3)" "closed_fs E (rotated e) fs2 fs3"
    by (rule close_ok [OF s(1,2) r(3,2)])
  have "merge_pending E (dir_path opts) mp n mlogs H fs'" if "fs' \<in> {fs2, fs3}" for fs'
    using that m(4) closed_pending [OF m(4) [folded r(1)] fs3(2)] by (auto simp: r(1) inv(3))
  then have "\<exists>e4 fs4. engine_open E opts (killed fs') = Some (Ok e4, fs4) \<and> kv E (e4, fs4) = m"
    if "fs' \<in> {fs2, fs3}" for fs'
    using pending_reopen [OF s(1,2,4-6) engine_inv_reads [OF inv(1)] lf m(5) killed_pending] that inv(2)
    by (fastforce simp: killed_def)
  then show ?thesis using merge_when_due [OF assms(3) mp(1)] m(1) fs3(1) by auto
qed

lemma merge_then_open_witness:
  "\<exists>e fs e2 fs2 fs3. db_run E0 opts_m [[107] \<mapsto> [118]] (e, fs) \<and> merge E0 False (e, fs) = Some (Ok (), e2, fs2) \<and>
    close E0 (e2, fs2) = (Ok (), e2, fs3) \<and>
    (\<forall>fs' \<in> {fs2, fs3}. \<exists>e4 fs4. engine_open E0 opts_m (killed fs') = Some (Ok e4, fs4) \<and>
       kv E0 (e4, fs4) = [[107] \<mapsto> [118]])"
proof -
  obtain e fs where st: "db_run E0 opts_m [[107] \<mapsto> [118]] (e, fs)" "merge_due E0 (e, fs)" "merge_fits (e, fs)"
    by (rule merge_example)
  from merge_then_open [OF setting_m this] st(1) show ?thesis by blast
qed

end
