(* ===== verification/Concurrent.thy ===== *)
theory Concurrent
  imports KvSpec Session
begin

text \<open>
  Calls of \<open>put\<close>, \<open>get\<close> and \<open>delete\<close> (\<^verbatim>\<open>db.rs\<close>) and commits of batches (\<^verbatim>\<open>batch.rs\<close>) from several
  threads, as interleavings of their atomic parts: an append under the lock of the active file, a
  sync, one operation of the index, an update of a counter, or reading one record under the locks of
  the files.  One thread at a time is between taking and releasing the lock of the commits; each
  batch is committed by one thread.
\<close>

subsection \<open>The parts of a call\<close>

datatype conc_op = OpKv kv_op | OpCommit write_batch

text \<open>How far a commit has come, with the positions of the records it has appended.\<close>

datatype commit_stage =
    CheckSize
  | AwaitLock
  | DrawNumber
  | AppendItems nat "log_record list" "(bytes \<times> log_record_pos) list"
  | SyncLog "(bytes \<times> log_record_pos) list"
  | IndexItems "(bytes \<times> log_record_pos) list" "log_record list"
  | CountOld "log_record_pos option" "(bytes \<times> log_record_pos) list" "log_record list"

text \<open>What a thread is about to do next, with the values it has at hand.\<close>

datatype thread =
    PutStart bytes bytes
  | PutAppended bytes log_record_pos
  | PutIndexed "log_record_pos option"
  | GetStart bytes
  | GetFound log_record_pos
  | DelStart bytes
  | DelFound bytes
  | DelAppended bytes log_record_pos
  | DelCounted bytes
  | DelIndexed "log_record_pos option"
  | Committing write_batch commit_stage
  | Returned kv_out

fun thread_of :: "conc_op \<Rightarrow> thread" where
  "thread_of (OpKv (OpPut k v)) = PutStart k v"
| "thread_of (OpKv (OpGet k)) = GetStart k"
| "thread_of (OpKv (OpDelete k)) = DelStart k"
| "thread_of (OpCommit b) = Committing b CheckSize"

text \<open>The \<open>?\<close> operator: an error is returned at once.\<close>

definition continue :: "'a res \<times> 's \<Rightarrow> ('a \<Rightarrow> thread) \<Rightarrow> thread \<times> 's" where
  "continue m f =
     (case m of (r, st) \<Rightarrow>
        ((case r of
            Ok a \<Rightarrow> f a
          | Err x \<Rightarrow> Returned (OutUnit (Err x))
          | Panic \<Rightarrow> Returned (OutUnit Panic)), st))"

text \<open>\<open>WriteBatch::commit\<close>.\<close>

fun commit_step ::
  "('s, 'b) env \<Rightarrow> write_batch \<Rightarrow> commit_stage \<Rightarrow> ('s, 'b) st \<Rightarrow> thread \<times> ('s, 'b) st" where
  "commit_step E b CheckSize st =
     (if pending_write b = [] then Returned (OutUnit (Ok ()))
      else if max_batch_num (wb_options b) < length (pending_write b)
        then Returned (OutUnit (Err ExceedMaxBatchNum))
      else Committing b AwaitLock, st)"
| "commit_step E b AwaitLock st = (Committing b DrawNumber, st)"
| "commit_step E b DrawNumber st =
     (Committing b (AppendItems (seq_no (fst st)) (pending_items E b) []),
      on_engine (\<lambda>e. e\<lparr>seq_no := fetch_add (seq_no e) 1\<rparr>) st)"
| "commit_step E b (AppendItems seq (item # items) positions) st =
     continue
       (and_then (log_record_key_with_seq E (rec_key item) seq, st) (\<lambda>enc_key st.
          append_log_record E (LogRecord_new enc_key (rec_value item) (rec_type item)) st))
       (\<lambda>pos. Committing b (AppendItems seq items (AList.update (rec_key item) pos positions)))"
| "commit_step E b (AppendItems seq [] positions) st =
     continue
       (and_then (log_record_key_with_seq E (string_bytes TXN_FIN_KEY) seq, st) (\<lambda>fin_key st.
          append_log_record E (LogRecord_new fin_key [] TxnFinished) st))
       (\<lambda>_. Committing b (SyncLog positions))"
| "commit_step E b (SyncLog positions) st =
     continue (if wb_sync_writes (wb_options b) then engine_sync E st else (Ok (), st))
       (\<lambda>_. Committing b (IndexItems positions (pending_items E b)))"
| "commit_step E b (IndexItems positions (item # items)) st =
     (case map_of positions (rec_key item) of
        None \<Rightarrow> (Committing b (IndexItems positions items), st)
      | Some record_pos \<Rightarrow>
          (case rec_type item of
             Normal \<Rightarrow> continue (on_index (\<lambda>i. index_put E i (rec_key item) record_pos) st)
                         (\<lambda>old_pos. Committing b (CountOld old_pos positions items))
           | Delete \<Rightarrow> continue (on_index (\<lambda>i. index_delete E i (rec_key item)) st)
                         (\<lambda>old_pos. Committing b (CountOld old_pos positions items))
           | TxnFinished \<Rightarrow> (Committing b (IndexItems positions items), st)))"
| "commit_step E b (CountOld old_pos positions items) st =
     (Committing b (IndexItems positions items), on_engine (add_reclaim old_pos) st)"
| "commit_step E b (IndexItems positions []) st = (Returned (OutUnit (Ok ())), st)"

fun thread_step :: "('s, 'b) env \<Rightarrow> thread \<Rightarrow> ('s, 'b) st \<Rightarrow> thread \<times> ('s, 'b) st" where
  "thread_step E (PutStart k v) st =
     (if k = [] then (Returned (OutUnit (Err KeyIsEmpty)), st)
      else continue
        (and_then (log_record_key_with_seq E k NON_TRANSACTION_SEQ_NO, st) (\<lambda>enc_key st.
           append_log_record E (LogRecord_new enc_key v Normal) st))
        (\<lambda>pos. PutAppended k pos))"
| "thread_step E (PutAppended k pos) st = continue (on_index (\<lambda>i. index_put E i k pos) st) PutIndexed"
| "thread_step E (PutIndexed old_pos) st =
     (Returned (OutUnit (Ok ())), on_engine (add_reclaim old_pos) st)"
| "thread_step E (GetStart k) st =
     (if k = [] then (Returned (OutBytes (Err KeyIsEmpty)), st)
      else ((case index_get E (eng_index (fst st)) k of
               Ok None \<Rightarrow> Returned (OutBytes (Err KeyNotFound))
             | Ok (Some p) \<Rightarrow> GetFound p
             | Err x \<Rightarrow> Returned (OutBytes (Err x))
             | Panic \<Rightarrow> Returned (OutBytes Panic)), st))"
| "thread_step E (GetFound p) st = (Returned (OutBytes (get_value_by_position E p st)), st)"
| "thread_step E (DelStart k) st =
     (if k = [] then (Returned (OutUnit (Err KeyIsEmpty)), st)
      else continue (index_get E (eng_index (fst st)) k, st)
        (\<lambda>found. case found of None \<Rightarrow> Returned (OutUnit (Ok ())) | Some _ \<Rightarrow> DelFound k))"
| "thread_step E (DelFound k) st =
     continue (append_log_record E (LogRecord_new k [] Delete) st) (\<lambda>pos. DelAppended k pos)"
| "thread_step E (DelAppended k pos) st = (DelCounted k, on_engine (add_reclaim (Some pos)) st)"
| "thread_step E (DelCounted k) st = continue (on_index (\<lambda>i. index_delete E i k) st) DelIndexed"
| "thread_step E (DelIndexed old_pos) st =
     (Returned (OutUnit (Ok ())), on_engine (add_reclaim old_pos) st)"
| "thread_step E (Committing b c) st = commit_step E b c st"
| "thread_step E (Returned out) st = (Returned out, st)"

subsection \<open>Interleavings\<close>

text \<open>\<open>batch_commit_lock\<close>: a thread waits for it while another one has it.\<close>

definition takes_lock :: "thread \<Rightarrow> bool" where
  "takes_lock t \<longleftrightarrow> (case t of Committing b AwaitLock \<Rightarrow> True | _ \<Rightarrow> False)"

definition holds_lock :: "thread \<Rightarrow> bool" where
  "holds_lock t \<longleftrightarrow>
     (case t of Committing b c \<Rightarrow> (case c of CheckSize \<Rightarrow> False | AwaitLock \<Rightarrow> False | _ \<Rightarrow> True) | _ \<Rightarrow> False)"

definition can_move :: "thread list \<Rightarrow> nat \<Rightarrow> bool" where
  "can_move ts i \<longleftrightarrow> i < length ts \<and> \<not> (takes_lock (ts ! i) \<and> list_ex holds_lock ts)"

inductive conc_step ::
  "('s, 'b) env \<Rightarrow> thread list \<times> ('s, 'b) st \<Rightarrow> thread list \<times> ('s, 'b) st \<Rightarrow> bool" for E where
  "can_move ts i \<Longrightarrow> thread_step E (ts ! i) st = (t, st') \<Longrightarrow> conc_step E (ts, st) (ts[i := t], st')"

inductive_cases conc_stepE: "conc_step E c c'"

inductive conc_run ::
  "('s, 'b) env \<Rightarrow> thread list \<times> ('s, 'b) st \<Rightarrow> thread list \<times> ('s, 'b) st \<Rightarrow> bool" for E where
  conc_refl: "conc_run E c c"
| conc_more: "conc_run E c c' \<Longrightarrow> conc_step E c' c'' \<Longrightarrow> conc_run E c c''"

text \<open>
  A schedule: the numbers of the threads, in the order in which they take their steps.  A thread
  that has to wait takes none.
\<close>

fun conc_schedule ::
  "('s, 'b) env \<Rightarrow> nat list \<Rightarrow> thread list \<times> ('s, 'b) st \<Rightarrow> thread list \<times> ('s, 'b) st" where
  "conc_schedule E [] c = c"
| "conc_schedule E (i # is) (ts, st) =
     (if can_move ts i then
        case thread_step E (ts ! i) st of (t, st') \<Rightarrow> conc_schedule E is (ts[i := t], st')
      else conc_schedule E is (ts, st))"

lemma conc_run_trans:
  assumes "conc_run E a b" "conc_run E b c"
  shows "conc_run E a c"
  using assms(2,1) by (induction rule: conc_run.induct) (auto intro: conc_more)

lemma conc_schedule_run: "conc_run E c (conc_schedule E is c)"
proof (induction E "is" c rule: conc_schedule.induct)
  case (2 E i "is" ts st)
  show ?case
  proof (cases "can_move ts i")
    case True
    obtain t st' where s: "thread_step E (ts ! i) st = (t, st')" by (cases "thread_step E (ts ! i) st")
    have "conc_run E (ts, st) (ts[i := t], st')"
      by (rule conc_more [OF conc_refl conc_step.intros [OF True s]])
    then show ?thesis using conc_run_trans "2.IH"(1) [OF True s [symmetric]] True by (simp add: s)
  qed (use "2.IH"(2) in simp)
qed (simp add: conc_refl)

text \<open>A call that nothing interrupts is the call of the engine.\<close>

definition alone :: "('s, 'b) env \<Rightarrow> thread \<times> ('s, 'b) st \<Rightarrow> thread \<times> ('s, 'b) st \<Rightarrow> bool" where
  "alone E c c' \<longleftrightarrow>
     (\<exists>is. set is \<subseteq> {0} \<and> conc_schedule E is ([fst c], snd c) = ([fst c'], snd c'))"

lemma can_move_alone [simp]: "can_move [t] 0"
  by (auto simp: can_move_def takes_lock_def holds_lock_def split: thread.splits commit_stage.splits)

lemma alone_refl: "alone E c c"
  unfolding alone_def by (rule exI [of _ "[]"]) simp

lemma alone_step: "alone E (thread_step E t st) c \<Longrightarrow> alone E (t, st) c"
  unfolding alone_def
  by (elim exE, rule_tac x = "0 # is" in exI) (simp add: case_prod_unfold)

lemma alone_and_then:
  assumes "\<And>a st'. m = (Ok a, st') \<Longrightarrow> alone E (f a, st') (continue (g a st') h)"
  shows "alone E (continue m f) (continue (and_then m g) h)"
proof -
  obtain r st where "m = (r, st)" by (metis surj_pair)
  then show ?thesis using assms by (cases r) (simp_all add: continue_def and_then_def alone_refl)
qed

lemma alone_append:
  "alone E (Committing b (AppendItems seq items positions), st)
     (continue (append_items E seq items positions st) (\<lambda>ps. Committing b (AppendItems seq [] ps)))"
proof (induction items arbitrary: positions st)
  case (Cons item items)
  show ?case
    by (rule alone_step, unfold thread_step.simps commit_step.simps append_items.simps,
        subst and_then_assoc [symmetric], rule alone_and_then) (rule Cons.IH)
qed (simp add: continue_def alone_refl)

lemma alone_count:
  assumes "\<And>st. alone E (Committing b (IndexItems positions items), st) (f st)"
  shows "alone E (Committing b (CountOld old positions items), st) (f (on_engine (add_reclaim old) st))"
  by (rule alone_step) (simp add: assms)

lemma alone_index:
  "alone E (Committing b (IndexItems positions items), st)
     (continue (index_batch E positions items st) (\<lambda>_. Returned (OutUnit (Ok ()))))"
proof (induction items arbitrary: st)
  case Nil
  show ?case by (rule alone_step) (simp add: continue_def alone_refl)
next
  case (Cons item items)
  have skip: "and_then (Ok (), st) g = g () st" for g :: "unit \<Rightarrow> ('a, 'b) st \<Rightarrow> 'c res \<times> ('a, 'b) st" and st
    by (simp add: and_then_def)
  note count = alone_count [OF Cons.IH]
  show ?case
  proof (cases "map_of positions (rec_key item)")
    case None
    then show ?thesis by (intro alone_step) (simp add: Cons.IH skip)
  next
    case p: (Some p)
    show ?thesis
    proof (cases "rec_type item")
      case Normal
      show ?thesis
        by (rule alone_step, simp add: p Normal index_item_def and_then_assoc skip del: alone_refl,
            rule alone_and_then) (rule count)
    next
      case Delete
      show ?thesis
        by (rule alone_step, simp add: p Delete index_item_def and_then_assoc skip del: alone_refl,
            rule alone_and_then) (rule count)
    next
      case TxnFinished
      then show ?thesis by (intro alone_step) (simp add: Cons.IH p index_item_def skip)
    qed
  qed
qed

lemma conc_schedule_append: "conc_schedule E (is @ js) c = conc_schedule E js (conc_schedule E is c)"
  by (induction E "is" c rule: conc_schedule.induct) (simp_all split: prod.split)

lemma alone_trans: "alone E a b \<Longrightarrow> alone E b c \<Longrightarrow> alone E a c"
  unfolding alone_def by (metis conc_schedule_append set_append Un_least)

lemma alone_commit_writes:
  "alone E (Committing b (AppendItems seq (pending_items E b) []), st)
     (continue (commit_writes E seq b st) (\<lambda>_. Returned (OutUnit (Ok ()))))"
proof -
  let ?done = "\<lambda>_. Returned (OutUnit (Ok ()))"
  have sync: "alone E (Committing b (SyncLog positions), st)
      (continue (and_then (if wb_sync_writes (wb_options b) then engine_sync E st else (Ok (), st))
         (\<lambda>_ st. index_batch E positions (pending_items E b) st)) ?done)" for positions st
    by (rule alone_step, unfold thread_step.simps commit_step.simps, rule alone_and_then) (rule alone_index)
  have fin: "alone E (Committing b (AppendItems seq [] positions), st)
      (continue (and_then (log_record_key_with_seq E (string_bytes TXN_FIN_KEY) seq, st) (\<lambda>fin_key st.
         and_then (append_log_record E (LogRecord_new fin_key [] TxnFinished) st) (\<lambda>_ st.
         and_then (if wb_sync_writes (wb_options b) then engine_sync E st else (Ok (), st)) (\<lambda>_ st.
           index_batch E positions (pending_items E b) st)))) ?done)" for positions st
    by (rule alone_step, unfold thread_step.simps commit_step.simps, subst and_then_assoc [symmetric],
        rule alone_and_then) (rule sync)
  show ?thesis
    unfolding commit_writes_def by (rule alone_trans [OF alone_append], rule alone_and_then) (rule fin)
qed

fun conc_call :: "('s, 'b) env \<Rightarrow> conc_op \<Rightarrow> ('s, 'b) st \<Rightarrow> kv_out \<times> ('s, 'b) st" where
  "conc_call E (OpKv x) st = engine_step E x st"
| "conc_call E (OpCommit b) st = (case commit E b st of (r, b', st') \<Rightarrow> (OutUnit r, st'))"

lemma uninterrupted: "alone E (thread_of x, st) (map_prod Returned id (conc_call E x st))"
proof (cases x)
  case (OpKv y)
  show ?thesis
  proof (cases y)
    case (OpPut k v)
    show ?thesis unfolding alone_def
      by (rule exI [of _ "[0, 0, 0]"])
        (auto simp: OpKv OpPut put_def continue_def and_then_def split: prod.splits res.splits)
  next
    case (OpGet k)
    show ?thesis unfolding alone_def
      by (rule exI [of _ "[0, 0]"]) (auto simp: OpKv OpGet get_def split: res.splits option.splits)
  next
    case (OpDelete k)
    show ?thesis unfolding alone_def
      by (rule exI [of _ "[0, 0, 0, 0, 0]"])
        (auto simp: OpKv OpDelete delete_def continue_def and_then_def Let_def
          split: prod.splits res.splits option.splits)
  qed
next
  case (OpCommit b)
  let ?m = "commit_writes E (seq_no (fst st)) b (on_engine (\<lambda>e. e\<lparr>seq_no := fetch_add (seq_no (fst st)) 1\<rparr>) st)"
  show ?thesis
  proof (cases "pending_write b = [] \<or> max_batch_num (wb_options b) < length (pending_write b)")
    case True
    then show ?thesis by (intro alone_step) (auto simp: OpCommit commit_def intro!: alone_step alone_refl)
  next
    case False
    have "on_engine (\<lambda>e. e\<lparr>seq_no := fetch_add (seq_no e) 1\<rparr>) st =
        on_engine (\<lambda>e. e\<lparr>seq_no := fetch_add (seq_no (fst st)) 1\<rparr>) st"
      by (simp add: on_engine_def split: prod.split)
    then have "alone E (Committing b DrawNumber, st) (continue ?m (\<lambda>_. Returned (OutUnit (Ok ()))))"
      by (intro alone_step) (simp add: alone_commit_writes)
    then have "alone E (Committing b CheckSize, st) (continue ?m (\<lambda>_. Returned (OutUnit (Ok ()))))"
      using False by (intro alone_step) (simp add: alone_step)
    moreover have "continue ?m (\<lambda>_. Returned (OutUnit (Ok ()))) = map_prod Returned id (conc_call E x st)"
      using False by (auto simp: OpCommit commit_def continue_def Let_def split: prod.split res.split)
    ultimately show ?thesis by (simp add: OpCommit)
  qed
qed

subsection \<open>What every interleaving keeps\<close>

text \<open>A position of a record of the key \<open>k\<close>, with one of the values \<open>V k\<close>.\<close>

definition value_at ::
  "('s, 'b) env \<Rightarrow> (bytes \<Rightarrow> bytes set) \<Rightarrow> ('s, 'b) st \<Rightarrow> bytes \<Rightarrow> log_record_pos \<Rightarrow> bool" where
  "value_at E V st k p \<longleftrightarrow>
     k \<noteq> [] \<and> pos_file_id p \<in> known_ids (fst st) \<and>
     (\<exists>r n. record_at E (file_bytes st (pos_file_id p)) (unat (pos_offset p)) r \<and>
            rec_type r = Normal \<and> parse_log_record_key E (rec_key r) = Ok (k, n) \<and> rec_value r \<in> V k)"

definition index_values :: "('s, 'b) env \<Rightarrow> (bytes \<Rightarrow> bytes set) \<Rightarrow> ('s, 'b) st \<Rightarrow> bool" where
  "index_values E V st \<longleftrightarrow>
     (\<forall>k p. index_entries E (eng_index (fst st)) k = Some p \<longrightarrow> value_at E V st k p)"


text \<open>What a call returns when it is not alone.\<close>

fun out_ok :: "(bytes \<Rightarrow> bytes set) \<Rightarrow> conc_op \<Rightarrow> kv_out \<Rightarrow> bool" where
  "out_ok V (OpKv (OpPut k v)) out \<longleftrightarrow> out = OutUnit (if k = [] then Err KeyIsEmpty else Ok ())"
| "out_ok V (OpKv (OpDelete k)) out \<longleftrightarrow> out = OutUnit (if k = [] then Err KeyIsEmpty else Ok ())"
| "out_ok V (OpKv (OpGet k)) out \<longleftrightarrow>
     (if k = [] then out = OutBytes (Err KeyIsEmpty)
      else out = OutBytes (Err KeyNotFound) \<or> (\<exists>v \<in> V k. out = OutBytes (Ok v)))"
| "out_ok V (OpCommit b) out \<longleftrightarrow>
     out = OutUnit (if max_batch_num (wb_options b) < length (pending_write b) then Err ExceedMaxBatchNum else Ok ())"

text \<open>The positions at hand are those of the records that were appended for the items.\<close>

definition items_at ::
  "('s, 'b) env \<Rightarrow> ('s, 'b) st \<Rightarrow> (bytes \<times> log_record_pos) list \<Rightarrow> log_record list \<Rightarrow> bool" where
  "items_at E st positions items \<longleftrightarrow>
     (\<forall>r \<in> set items. \<exists>p. map_of positions (rec_key r) = Some p \<and> item_at E st r p)"

fun stage_ok ::
  "('s, 'b) env \<Rightarrow> ('s, 'b) st \<Rightarrow> write_batch \<Rightarrow> commit_stage \<Rightarrow> bool" where
  "stage_ok E st b CheckSize \<longleftrightarrow> True"
| "stage_ok E st b AwaitLock \<longleftrightarrow> \<not> max_batch_num (wb_options b) < length (pending_write b)"
| "stage_ok E st b DrawNumber \<longleftrightarrow> \<not> max_batch_num (wb_options b) < length (pending_write b)"
| "stage_ok E st b (AppendItems seq items positions) \<longleftrightarrow>
     \<not> max_batch_num (wb_options b) < length (pending_write b) \<and> seq < 2 ^ 64 \<and>
     (\<exists>appended. pending_items E b = appended @ items \<and> items_at E st positions appended)"
| "stage_ok E st b (SyncLog positions) \<longleftrightarrow>
     \<not> max_batch_num (wb_options b) < length (pending_write b) \<and> items_at E st positions (pending_items E b)"
| "stage_ok E st b (IndexItems positions items) \<longleftrightarrow>
     \<not> max_batch_num (wb_options b) < length (pending_write b) \<and> items_at E st positions items \<and>
     set items \<subseteq> set (pending_items E b)"
| "stage_ok E st b (CountOld old positions items) \<longleftrightarrow>
     \<not> max_batch_num (wb_options b) < length (pending_write b) \<and> items_at E st positions items \<and>
     set items \<subseteq> set (pending_items E b)"

fun thread_ok ::
  "('s, 'b) env \<Rightarrow> (bytes \<Rightarrow> bytes set) \<Rightarrow> ('s, 'b) st \<Rightarrow> conc_op \<Rightarrow> thread \<Rightarrow> bool" where
  "thread_ok E V st x (PutStart k v) \<longleftrightarrow> x = OpKv (OpPut k v) \<and> v \<in> V k"
| "thread_ok E V st x (PutAppended k p) \<longleftrightarrow> (\<exists>v. x = OpKv (OpPut k v)) \<and> value_at E V st k p"
| "thread_ok E V st x (PutIndexed old) \<longleftrightarrow> (\<exists>k v. x = OpKv (OpPut k v) \<and> k \<noteq> [])"
| "thread_ok E V st x (GetStart k) \<longleftrightarrow> x = OpKv (OpGet k)"
| "thread_ok E V st x (GetFound p) \<longleftrightarrow> (\<exists>k. x = OpKv (OpGet k) \<and> value_at E V st k p)"
| "thread_ok E V st x (DelStart k) \<longleftrightarrow> x = OpKv (OpDelete k)"
| "thread_ok E V st x (DelFound k) \<longleftrightarrow> x = OpKv (OpDelete k) \<and> k \<noteq> []"
| "thread_ok E V st x (DelAppended k p) \<longleftrightarrow> x = OpKv (OpDelete k) \<and> k \<noteq> []"
| "thread_ok E V st x (DelCounted k) \<longleftrightarrow> x = OpKv (OpDelete k) \<and> k \<noteq> []"
| "thread_ok E V st x (DelIndexed old) \<longleftrightarrow> (\<exists>k. x = OpKv (OpDelete k) \<and> k \<noteq> [])"
| "thread_ok E V st x (Committing b c) \<longleftrightarrow>
     x = OpCommit b \<and> stage_ok E st b c \<and> (\<forall>k v. batch_view b k = Some (Some v) \<longrightarrow> v \<in> V k)"
| "thread_ok E V st x (Returned out) \<longleftrightarrow> out_ok V x out"

text \<open>What a call needs: the sizes the record format is made for.\<close>

primrec conc_fits :: "conc_op \<Rightarrow> bool" where
  "conc_fits (OpKv x) \<longleftrightarrow> op_fits x"
| "conc_fits (OpCommit b) \<longleftrightarrow> batch_ok b"

text \<open>The appends a thread has still to make, and the sequence numbers it has still to draw.\<close>

fun stage_appends :: "write_batch \<Rightarrow> commit_stage \<Rightarrow> nat" where
  "stage_appends b (AppendItems seq items positions) = length items + 1"
| "stage_appends b (SyncLog positions) = 0"
| "stage_appends b (IndexItems positions items) = 0"
| "stage_appends b (CountOld old positions items) = 0"
| "stage_appends b c = length (pending_write b) + 1"

fun appends_left :: "thread \<Rightarrow> nat" where
  "appends_left (PutStart k v) = 1"
| "appends_left (DelStart k) = 1"
| "appends_left (DelFound k) = 1"
| "appends_left (Committing b c) = stage_appends b c"
| "appends_left t = 0"

definition numbers_left :: "thread \<Rightarrow> nat" where
  "numbers_left t =
     (case t of
        Committing b c \<Rightarrow> (case c of CheckSize \<Rightarrow> 1 | AwaitLock \<Rightarrow> 1 | DrawNumber \<Rightarrow> 1 | _ \<Rightarrow> 0)
      | _ \<Rightarrow> 0)"

text \<open>A later state: files have grown and none is forgotten.\<close>

definition later :: "('s, 'b) st \<Rightarrow> ('s, 'b) st \<Rightarrow> bool" where
  "later st st' \<longleftrightarrow>
     grows (snd st) (snd st') \<and> known_ids (fst st) \<subseteq> known_ids (fst st') \<and>
     eng_options (fst st') = eng_options (fst st)"

lemma later_refl [simp]: "later st st"
  by (simp add: later_def)

lemma later_sel [simp]:
  "later (e, fs) (e\<lparr>eng_index := i\<rparr>, fs)" "later (e, fs) (add_reclaim old e, fs)"
  by (simp_all add: later_def)

lemma record_at_later:
  assumes "later st st'" "record_at E (file_bytes st fid) n r"
  shows "record_at E (file_bytes st' fid) n r"
proof -
  obtain e fs e' fs' where st: "st = (e, fs)" "st' = (e', fs')" by (cases st, cases st')
  have "grows fs fs'" "data_path e' = data_path e"
    using assms(1) by (simp_all add: later_def st data_path_def fun_eq_iff)
  then show ?thesis using assms(2) grows_record_at by (simp add: st file_bytes_def)
qed

lemma later_known: "later st st' \<Longrightarrow> i \<in> known_ids (fst st) \<Longrightarrow> i \<in> known_ids (fst st')"
  by (auto simp: later_def)

lemma value_at_later: "value_at E V st k p \<Longrightarrow> later st st' \<Longrightarrow> value_at E V st' k p"
  unfolding value_at_def using record_at_later later_known by blast

lemma item_at_later: "item_at E st r p \<Longrightarrow> later st st' \<Longrightarrow> item_at E st' r p"
  unfolding item_at_def using record_at_later later_known by blast

lemma items_at_later: "items_at E st ps items \<Longrightarrow> later st st' \<Longrightarrow> items_at E st' ps items"
  unfolding items_at_def using item_at_later by blast

lemma stage_ok_later: "stage_ok E st b c \<Longrightarrow> later st st' \<Longrightarrow> stage_ok E st' b c"
  by (cases "(E, st, b, c)" rule: stage_ok.cases) (auto intro: items_at_later)

lemma value_at_index [simp]: "value_at E V (e\<lparr>eng_index := i\<rparr>, fs) k p = value_at E V (e, fs) k p"
  by (simp add: value_at_def)

lemma thread_ok_later: "thread_ok E V st x t \<Longrightarrow> later st st' \<Longrightarrow> thread_ok E V st' x t"
  by (cases t) (auto intro: value_at_later stage_ok_later)

lemma value_at_read:
  assumes "crates_ok E" "os_ok E" "engine_inv E st" "value_at E V st k p"
  shows "\<exists>v \<in> V k. get_value_by_position E p st = Ok v"
proof -
  have h: "handles_inv st" using assms(3) by (simp add: engine_inv_def files_inv_handles)
  obtain r where r: "pos_file_id p \<in> known_ids (fst st)" "rec_type r = Normal" "rec_value r \<in> V k"
    "record_at E (file_bytes st (pos_file_id p)) (unat (pos_offset p)) r"
    using assms(4) by (auto simp: value_at_def)
  show ?thesis using get_value_by_position_ok [OF assms(1,2) h r(1,4)] r(2,3) by auto
qed

text \<open>A state in which threads can go on.\<close>

definition conc_state :: "('s, 'b) env \<Rightarrow> (bytes \<Rightarrow> bytes set) \<Rightarrow> ('s, 'b) st \<Rightarrow> bool" where
  "conc_state E V st \<longleftrightarrow> engine_inv E st \<and> index_values E V st"

text \<open>What an append does to it.\<close>

lemma append_step:
  assumes ok: "crates_ok E" "os_ok E" and st: "conc_state E V (e, fs)" and wf: "wf_record r"
    and id: "unat (active_id e) + 1 < 2 ^ 32"
  obtains p e' fs' where "append_log_record E r (e, fs) = (Ok p, e', fs')" "conc_state E V (e', fs')"
    "later (e, fs) (e', fs')" "unat (active_id e') \<le> unat (active_id e) + 1"
    "pos_file_id p \<in> known_ids e'" "record_at E (file_bytes (e', fs') (pos_file_id p)) (unat (pos_offset p)) r"
    "seq_no e' = seq_no e"
proof -
  have inv: "engine_inv E (e, fs)" "files_inv (e, fs)" "bw_ok e" using st by (simp_all add: conc_state_def engine_inv_def)
  from append_log_record_ok [OF ok inv(2) wf id inv(3)] obtain p e' fs' where
    a: "append_log_record E r (e, fs) = (Ok p, e', fs')" "files_inv (e', fs')" "grows fs fs'" "same_index e e'"
      "bw_ok e'" "unat (active_id e') \<le> unat (active_id e) + 1" "pos_file_id p = active_id e'"
      "record_at E (file_bytes (e', fs') (pos_file_id p)) (unat (pos_offset p)) r" by blast
  have l: "later (e, fs) (e', fs')" using a(3,4) by (simp add: later_def same_index_def)
  have "index_values E V (e', fs')"
    using st a(4) value_at_later [OF _ l] by (simp add: conc_state_def index_values_def same_index_def)
  then have "conc_state E V (e', fs')"
    using engine_inv_frame(1) [OF ok inv(1) a(2-5)] by (simp add: conc_state_def)
  moreover have "pos_file_id p \<in> known_ids e'" by (simp add: a(7) known_ids_def)
  moreover have "seq_no e' = seq_no e" using a(4) by (simp add: same_index_def)
  ultimately show ?thesis using that a l by blast
qed

lemma conc_state_reclaim [simp]: "conc_state E V (add_reclaim old e, fs) = conc_state E V (e, fs)"
  by (simp add: conc_state_def index_values_def value_at_def)

lemma conc_state_later:
  assumes "conc_state E V (e, fs)" "later (e, fs) (e', fs')" "eng_index e' = eng_index e" "engine_inv E (e', fs')"
  shows "conc_state E V (e', fs')"
  using assms(1,3,4) value_at_later [OF _ assms(2)] by (simp add: conc_state_def index_values_def)

lemma later_seq_no [simp]: "later (e, fs) (e\<lparr>seq_no := n\<rparr>, fs)"
  by (simp add: later_def known_ids_def)

lemma put_index_step:
  assumes ok: "crates_ok E" "os_ok E" and st: "conc_state E V (e, fs)" and p: "value_at E V (e, fs) k p"
  obtains old i where "index_put E (eng_index e) k p = (Ok old, i)" "conc_state E V (e\<lparr>eng_index := i\<rparr>, fs)"
proof -
  have inv: "engine_inv E (e, fs)" "files_inv (e, fs)" "bw_ok e" using st by (simp_all add: conc_state_def engine_inv_def)
  obtain r n where r: "k \<noteq> []" "pos_file_id p \<in> known_ids e" "rec_type r = Normal"
    "record_at E (file_bytes (e, fs) (pos_file_id p)) (unat (pos_offset p)) r"
    "parse_log_record_key E (rec_key r) = Ok (k, n)"
    using p by (auto simp: value_at_def)
  from point_index [OF ok inv(1,2) _ _ inv(3) r(4,2,3,5,1)] obtain i where
    i: "index_put E (eng_index e) k p = (Ok (index_entries E (eng_index e) k), i)"
      "engine_inv E (e\<lparr>eng_index := i\<rparr>, fs)" "index_entries E i = (index_entries E (eng_index e))(k \<mapsto> p)"
    by auto
  have "index_values E V (e\<lparr>eng_index := i\<rparr>, fs)"
    using st p by (auto simp: conc_state_def index_values_def i(3) split: if_splits)
  then show ?thesis using that i(1,2) by (simp add: conc_state_def)
qed

lemma delete_index_step:
  assumes ok: "crates_ok E" "os_ok E" and st: "conc_state E V (e, fs)"
  obtains old i where "index_delete E (eng_index e) k = (Ok old, i)" "conc_state E V (e\<lparr>eng_index := i\<rparr>, fs)"
proof -
  have inv: "engine_inv E (e, fs)" "files_inv (e, fs)" "bw_ok e" using st by (simp_all add: conc_state_def engine_inv_def)
  from unpoint_index [OF ok inv(1,2) _ _ inv(3), of k] obtain i where
    i: "index_delete E (eng_index e) k = (Ok (index_entries E (eng_index e) k), i)"
      "engine_inv E (e\<lparr>eng_index := i\<rparr>, fs)" "index_entries E i = (index_entries E (eng_index e))(k := None)"
    by auto
  have "index_values E V (e\<lparr>eng_index := i\<rparr>, fs)"
    using st by (auto simp: conc_state_def index_values_def i(3) split: if_splits)
  then show ?thesis using that i(1,2) by (simp add: conc_state_def)
qed

text \<open>One step of one thread.\<close>

definition step_ok ::
  "('s, 'b) env \<Rightarrow> (bytes \<Rightarrow> bytes set) \<Rightarrow> conc_op \<Rightarrow> thread \<Rightarrow> ('s, 'b) st \<Rightarrow> thread \<times> ('s, 'b) st \<Rightarrow> bool" where
  "step_ok E V x t st c \<longleftrightarrow>
     (case c of (t', st') \<Rightarrow>
        conc_state E V st' \<and> thread_ok E V st' x t' \<and> later st st' \<and>
        unat (active_id (fst st')) + appends_left t' \<le> unat (active_id (fst st)) + appends_left t \<and>
        seq_no (fst st') + numbers_left t' \<le> seq_no (fst st) + numbers_left t)"

lemma put_start_ok:
  assumes ok: "crates_ok E" "os_ok E" and st: "conc_state E V (e, fs)" and fits: "op_fits (OpPut k v)"
    and id: "unat (active_id e) + 1 < 2 ^ 32" and v: "v \<in> V k"
  shows "step_ok E V (OpKv (OpPut k v)) (PutStart k v) (e, fs) (thread_step E (PutStart k v) (e, fs))"
proof (cases "k = []")
  case True
  then show ?thesis using st by (simp add: step_ok_def numbers_left_def)
next
  case False
  let ?r = "LogRecord_new (0 # k) v Normal"
  have wf: "wf_record ?r" using fits by (simp add: wf_record_def)
  obtain p e' fs' where a: "append_log_record E ?r (e, fs) = (Ok p, e', fs')" "conc_state E V (e', fs')"
    "later (e, fs) (e', fs')" "unat (active_id e') \<le> unat (active_id e) + 1" "pos_file_id p \<in> known_ids e'"
    "record_at E (file_bytes (e', fs') (pos_file_id p)) (unat (pos_offset p)) ?r" "seq_no e' = seq_no e"
    by (rule append_step [OF ok st wf id])
  have "parse_log_record_key E (rec_key ?r) = Ok (k, 0)"
    using parse_key_with_seq [OF ok(1) key_with_seq_0 [OF ok(1)]] by (simp add: NON_TRANSACTION_SEQ_NO_def)
  then have "value_at E V (e', fs') k p"
    using False a(5,6) v by (fastforce simp: value_at_def)
  then show ?thesis
    using False a(1-4,7) by (simp add: step_ok_def numbers_left_def continue_def key_with_seq_0 [OF ok(1)])
qed

lemma del_found_ok:
  assumes ok: "crates_ok E" "os_ok E" and st: "conc_state E V (e, fs)" and fits: "op_fits (OpDelete k)"
    and id: "unat (active_id e) + 1 < 2 ^ 32" and k: "k \<noteq> []"
  shows "step_ok E V (OpKv (OpDelete k)) (DelFound k) (e, fs) (thread_step E (DelFound k) (e, fs))"
proof -
  have wf: "wf_record (LogRecord_new k [] Delete)" using fits k by (simp add: wf_record_def)
  obtain p e' fs' where "append_log_record E (LogRecord_new k [] Delete) (e, fs) = (Ok p, e', fs')"
    "conc_state E V (e', fs')" "later (e, fs) (e', fs')" "unat (active_id e') \<le> unat (active_id e) + 1"
    "seq_no e' = seq_no e"
    by (rule append_step [OF ok st wf id]) blast
  then show ?thesis using k by (simp add: step_ok_def continue_def numbers_left_def)
qed

lemma item_value_at:
  assumes "item_at E st r p" "rec_type r = Normal" "rec_key r \<noteq> []" "rec_value r \<in> V (rec_key r)"
  shows "value_at E V st (rec_key r) p"
  using assms by (auto simp: item_at_def value_at_def)

lemma items_at_update:
  assumes "items_at E st positions items" "item_at E st r p" "rec_key r \<notin> rec_key ` set items"
  shows "items_at E st (AList.update (rec_key r) p positions) (items @ [r])"
proof -
  have "rec_key x \<noteq> rec_key r" if "x \<in> set items" for x using assms(3) that by (metis imageI)
  then show ?thesis using assms(1,2) by (auto simp: items_at_def update_conv')
qed

lemma append_item_ok:
  assumes ok: "crates_ok E" "os_ok E" and st: "conc_state E V (e, fs)"
    and kv: "loggable k v" and seq: "seq < 2 ^ 64" and id: "unat (active_id e) + 1 < 2 ^ 32"
  obtains en p e' fs' where "log_record_key_with_seq E k seq = Ok (en @ k)" "encode_length_delimiter E seq = Some en"
    "append_log_record E (LogRecord_new (en @ k) v ty) (e, fs) = (Ok p, e', fs')"
    "conc_state E V (e', fs')" "later (e, fs) (e', fs')" "unat (active_id e') \<le> unat (active_id e) + 1"
    "item_at E (e', fs') (LogRecord_new k v ty) p" "seq_no e' = seq_no e"
proof -
  obtain en where en: "encode_length_delimiter E seq = Some en" using encode_delimiter_total [OF ok(1) seq] .
  then have key: "log_record_key_with_seq E k seq = Ok (en @ k)" by (simp add: log_record_key_with_seq_def)
  have "good_record E (LogRecord_new (en @ k) v ty)"
    using good_with_seq [OF ok(1) key seq] kv by (simp add: loggable_def)
  then have wf: "wf_record (LogRecord_new (en @ k) v ty)" by (simp add: good_record_def)
  obtain p e' fs' where a: "append_log_record E (LogRecord_new (en @ k) v ty) (e, fs) = (Ok p, e', fs')"
    "conc_state E V (e', fs')" "later (e, fs) (e', fs')" "unat (active_id e') \<le> unat (active_id e) + 1"
    "pos_file_id p \<in> known_ids e'"
    "record_at E (file_bytes (e', fs') (pos_file_id p)) (unat (pos_offset p)) (LogRecord_new (en @ k) v ty)"
    "seq_no e' = seq_no e"
    by (rule append_step [OF ok st wf id])
  have "item_at E (e', fs') (LogRecord_new k v ty) p"
    using a(5,6) parse_key_with_seq [OF ok(1) key] by (auto simp: item_at_def)
  then show ?thesis using that key en a by blast
qed

lemma record_eta: "LogRecord_new (rec_key r) (rec_value r) (rec_type r) = r"
  by simp

lemma index_step_ok:
  assumes ok: "crates_ok E" "os_ok E" and st: "conc_state E V (e, fs)"
    and c: "stage_ok E (e, fs) b (IndexItems positions (item # items))" and b: "batch_ok b"
    and V: "\<forall>k v. batch_view b k = Some (Some v) \<longrightarrow> v \<in> V k" and hash: "hash_ok E"
  shows "step_ok E V (OpCommit b) (Committing b (IndexItems positions (item # items))) (e, fs)
    (commit_step E b (IndexItems positions (item # items)) (e, fs))"
proof -
  have "map_of (pending_write b) (rec_key item) = Some item"
    using c pending_items_props(2) [OF b hash, of item] by auto
  then have item: "rec_type item \<noteq> TxnFinished" "rec_key item \<noteq> []"
    "rec_type item = Normal \<Longrightarrow> rec_value item \<in> V (rec_key item)"
    using batch_okD [OF b, of "rec_key item" item] V by (auto simp: loggable_def batch_view_def)
  obtain p where p: "map_of positions (rec_key item) = Some p" "item_at E (e, fs) item p"
    using c by (auto simp: items_at_def)
  have rest: "items_at E (e, fs) positions items" using c by (simp add: items_at_def)
  have rest': "items_at E (e\<lparr>eng_index := i\<rparr>, fs) positions items" for i
    by (rule items_at_later [OF rest]) simp
  show ?thesis
  proof (cases "rec_type item")
    case Normal
    have "value_at E V (e, fs) (rec_key item) p" using item_value_at p(2) Normal item(2,3) by blast
    then obtain old i where "index_put E (eng_index e) (rec_key item) p = (Ok old, i)"
      "conc_state E V (e\<lparr>eng_index := i\<rparr>, fs)" by (rule put_index_step [OF ok st])
    then show ?thesis using c V rest' p(1) Normal by (simp add: step_ok_def continue_def numbers_left_def)
  next
    case Delete
    obtain old i where "index_delete E (eng_index e) (rec_key item) = (Ok old, i)" "conc_state E V (e\<lparr>eng_index := i\<rparr>, fs)"
      by (rule delete_index_step [OF ok st])
    then show ?thesis using c V rest' p(1) Delete by (simp add: step_ok_def continue_def numbers_left_def)
  qed (use item(1) in simp)
qed

lemma commit_step_ok:
  assumes ok: "crates_ok E" "os_ok E" "hash_ok E" and st: "conc_state E V (e, fs)"
    and c: "stage_ok E (e, fs) b c" and b: "batch_ok b"
    and V: "\<forall>k v. batch_view b k = Some (Some v) \<longrightarrow> v \<in> V k"
    and id: "0 < stage_appends b c \<Longrightarrow> unat (active_id e) + 1 < 2 ^ 32"
    and num: "0 < numbers_left (Committing b c) \<Longrightarrow> seq_no e + 1 < 2 ^ 64"
  shows "step_ok E V (OpCommit b) (Committing b c) (e, fs) (commit_step E b c (e, fs))"
proof -
  have inv: "engine_inv E (e, fs)" using st by (simp add: conc_state_def)
  note items = pending_items_props [OF b ok(3)]
  show ?thesis
  proof (cases c)
    case DrawNumber
    have "seq_no e + 1 < 2 ^ 64" using num by (simp add: DrawNumber numbers_left_def)
    moreover have "conc_state E V (e\<lparr>seq_no := n\<rparr>, fs)" for n
      by (rule conc_state_later [OF st]) (simp_all add: inv)
    ultimately show ?thesis
      using c V items(3) by (simp add: DrawNumber step_ok_def fetch_add_def items_at_def numbers_left_def)
  next
    case (AppendItems seq left positions)
    then obtain appended where a: "pending_items E b = appended @ left" "items_at E (e, fs) positions appended"
      "seq < 2 ^ 64" using c by auto
    have id1: "unat (active_id e) + 1 < 2 ^ 32" using id by (simp add: AppendItems)
    show ?thesis
    proof (cases left)
      case Nil
      have fin: "loggable (string_bytes TXN_FIN_KEY) []" by (simp add: loggable_def TXN_FIN_KEY_def string_bytes_def)
      obtain en p e' fs' where f: "log_record_key_with_seq E (string_bytes TXN_FIN_KEY) seq = Ok (en @ string_bytes TXN_FIN_KEY)"
        "append_log_record E (LogRecord_new (en @ string_bytes TXN_FIN_KEY) [] TxnFinished) (e, fs) = (Ok p, e', fs')"
        "conc_state E V (e', fs')" "later (e, fs) (e', fs')" "unat (active_id e') \<le> unat (active_id e) + 1"
        "seq_no e' = seq_no e"
        by (rule append_item_ok [OF ok(1,2) st fin a(3) id1]) blast
      have "items_at E (e', fs') positions (pending_items E b)" using items_at_later [OF a(2) f(4)] a(1) Nil by simp
      then show ?thesis
        using c V f by (simp add: AppendItems Nil step_ok_def continue_def numbers_left_def)
    next
      case (Cons item items')
      have item: "item \<in> set (pending_items E b)" "rec_key item \<notin> rec_key ` set appended"
        using items(1) by (auto simp: a(1) Cons)
      then have kv: "loggable (rec_key item) (rec_value item)" using items(2) batch_okD(3) [OF b] by blast
      obtain en p e' fs' where f: "log_record_key_with_seq E (rec_key item) seq = Ok (en @ rec_key item)"
        "append_log_record E (LogRecord_new (en @ rec_key item) (rec_value item) (rec_type item)) (e, fs) = (Ok p, e', fs')"
        "conc_state E V (e', fs')" "later (e, fs) (e', fs')" "unat (active_id e') \<le> unat (active_id e) + 1"
        "item_at E (e', fs') item p" "seq_no e' = seq_no e"
        by (rule append_item_ok [OF ok(1,2) st kv a(3) id1, of "rec_type item", unfolded record_eta]) blast
      have "items_at E (e', fs') (AList.update (rec_key item) p positions) (appended @ [item])"
        by (rule items_at_update [OF items_at_later [OF a(2) f(4)] f(6) item(2)])
      moreover have "pending_items E b = (appended @ [item]) @ items'" by (simp add: a(1) Cons)
      ultimately have "\<exists>appended. pending_items E b = appended @ items' \<and>
          items_at E (e', fs') (AList.update (rec_key item) p positions) appended" by blast
      then show ?thesis
        using c V f by (simp add: AppendItems Cons step_ok_def continue_def numbers_left_def)
    qed
  next
    case (SyncLog positions)
    obtain fs' where s: "(if wb_sync_writes (wb_options b) then engine_sync E (e, fs) else (Ok (), e, fs)) = (Ok (), e, fs')"
      "engine_inv E (e, fs')" "grows fs fs'" using optional_sync [OF ok(1,2) inv] by blast
    have l: "later (e, fs) (e, fs')" using s(3) by (simp add: later_def)
    have "items_at E (e, fs') positions (pending_items E b)" using items_at_later [OF _ l] c by (simp add: SyncLog)
    then show ?thesis
      using c V l conc_state_later [OF st l _ s(2)]
      by (simp add: SyncLog step_ok_def s(1) continue_def numbers_left_def)
  next
    case (IndexItems positions left)
    then show ?thesis
      using index_step_ok [OF ok(1,2) st _ b V ok(3)] c st
      by (cases left) (simp_all add: step_ok_def numbers_left_def)
  next
    case (CountOld old positions left)
    have "items_at E (add_reclaim old e, fs) positions left"
      by (rule items_at_later [of E "(e, fs)"]) (use c CountOld in simp_all)
    then show ?thesis using c V st by (simp add: CountOld step_ok_def numbers_left_def)
  qed (use c V st b in \<open>auto simp: step_ok_def numbers_left_def\<close>)
qed

lemma thread_step_ok:
  assumes ok: "crates_ok E" "os_ok E" "hash_ok E" and st: "conc_state E V (e, fs)"
    and t: "thread_ok E V (e, fs) x t" and fits: "conc_fits x"
    and id: "0 < appends_left t \<Longrightarrow> unat (active_id e) + 1 < 2 ^ 32"
    and num: "0 < numbers_left t \<Longrightarrow> seq_no e + 1 < 2 ^ 64"
  shows "step_ok E V x t (e, fs) (thread_step E t (e, fs))"
proof -
  have inv: "engine_inv E (e, fs)" and idx: "index_inv E (eng_index e)"
    using st by (simp_all add: conc_state_def engine_inv_def)
  note get = ix.get_law [OF idx]
  show ?thesis
  proof (cases t)
    case (PutStart k v)
    then show ?thesis using put_start_ok [OF ok(1,2) st, of k v] t fits id by simp
  next
    case (PutAppended k p)
    then obtain v where v: "x = OpKv (OpPut k v)" "value_at E V (e, fs) k p" using t by auto
    obtain old i where "index_put E (eng_index e) k p = (Ok old, i)" "conc_state E V (e\<lparr>eng_index := i\<rparr>, fs)"
      by (rule put_index_step [OF ok(1,2) st v(2)])
    moreover have "k \<noteq> []" using v(2) by (simp add: value_at_def)
    ultimately show ?thesis by (simp add: PutAppended v(1) step_ok_def continue_def numbers_left_def)
  next
    case (GetStart k)
    show ?thesis
    proof (cases "index_entries E (eng_index e) k")
      case None
      then show ?thesis using st t GetStart get [of k] by (simp add: step_ok_def numbers_left_def)
    next
      case (Some p)
      then have "value_at E V (e, fs) k p" using st by (simp add: conc_state_def index_values_def)
      then show ?thesis using st t GetStart get [of k] Some by (simp add: step_ok_def value_at_def numbers_left_def)
    qed
  next
    case (GetFound p)
    then obtain k where k: "x = OpKv (OpGet k)" "value_at E V (e, fs) k p" using t by auto
    from value_at_read [OF ok(1,2) inv k(2)] obtain v where "v \<in> V k" "get_value_by_position E p (e, fs) = Ok v" by blast
    moreover have "k \<noteq> []" using k(2) by (simp add: value_at_def)
    ultimately show ?thesis using st by (simp add: GetFound k(1) step_ok_def numbers_left_def)
  next
    case (DelStart k)
    then show ?thesis using st t get [of k] by (simp add: step_ok_def continue_def numbers_left_def split: option.split)
  next
    case (DelFound k)
    then show ?thesis using del_found_ok [OF ok(1,2) st, of k] t fits id by simp
  next
    case (DelCounted k)
    obtain old i where "index_delete E (eng_index e) k = (Ok old, i)" "conc_state E V (e\<lparr>eng_index := i\<rparr>, fs)"
      by (rule delete_index_step [OF ok(1,2) st])
    then show ?thesis using t by (simp add: DelCounted step_ok_def continue_def numbers_left_def)
  next
    case (Committing b c)
    then show ?thesis using commit_step_ok [OF ok st, of b c] t fits id num by simp
  qed (use st t in \<open>auto simp: step_ok_def numbers_left_def\<close>)
qed

subsection \<open>Every interleaving\<close>

text \<open>\<open>n\<close> and \<open>m\<close> bound the file ids and the sequence numbers that are still to come.\<close>

definition conc_inv ::
  "('s, 'b) env \<Rightarrow> (bytes \<Rightarrow> bytes set) \<Rightarrow> conc_op list \<Rightarrow> nat \<Rightarrow> nat \<Rightarrow> thread list \<times> ('s, 'b) st \<Rightarrow> bool" where
  "conc_inv E V xs n m c \<longleftrightarrow>
     (case c of (ts, st) \<Rightarrow>
        conc_state E V st \<and> list_all2 (thread_ok E V st) xs ts \<and>
        unat (active_id (fst st)) + sum_list (map appends_left ts) \<le> n \<and>
        seq_no (fst st) + sum_list (map numbers_left ts) \<le> m)"

lemma sum_list_step:
  fixes f :: "'a \<Rightarrow> nat"
  assumes "i < length ts" "a' + f t \<le> a + f (ts ! i)" "a + sum_list (map f ts) \<le> n"
  shows "a' + sum_list (map f (ts[i := t])) \<le> n"
proof -
  have "f (ts ! i) \<le> sum_list (map f ts)" by (rule member_le_sum_list) (use assms(1) in simp_all)
  then show ?thesis using assms by (simp add: map_update sum_list_update)
qed

lemma conc_inv_moves:
  assumes ok: "crates_ok E" "os_ok E" "hash_ok E" and inv: "conc_inv E V xs n m (ts, e, fs)"
    and fits: "list_all conc_fits xs" and n: "n < 2 ^ 32" "m < 2 ^ 64" and i: "i < length ts"
  shows "step_ok E V (xs ! i) (ts ! i) (e, fs) (thread_step E (ts ! i) (e, fs))"
proof -
  have st: "conc_state E V (e, fs)" "list_all2 (thread_ok E V (e, fs)) xs ts"
    "unat (active_id e) + sum_list (map appends_left ts) \<le> n" "seq_no e + sum_list (map numbers_left ts) \<le> m"
    using inv by (simp_all add: conc_inv_def)
  have len: "i < length xs" using i list_all2_lengthD [OF st(2)] by simp
  have le: "f (ts ! i) \<le> sum_list (map f ts)" for f :: "thread \<Rightarrow> nat"
    by (rule member_le_sum_list) (use i in simp_all)
  show ?thesis
  proof (rule thread_step_ok [OF ok st(1)])
    show "thread_ok E V (e, fs) (xs ! i) (ts ! i)" using st(2) i by (simp add: list_all2_conv_all_nth)
    show "conc_fits (xs ! i)" using fits len by (simp add: list_all_length)
    show "unat (active_id e) + 1 < 2 ^ 32" if "0 < appends_left (ts ! i)"
      using that le [of appends_left] st(3) n(1) by linarith
    show "seq_no e + 1 < 2 ^ 64" if "0 < numbers_left (ts ! i)"
      using that le [of numbers_left] st(4) n(2) by linarith
  qed
qed

lemma conc_step_inv:
  assumes ok: "crates_ok E" "os_ok E" "hash_ok E" and inv: "conc_inv E V xs n m c"
    and fits: "list_all conc_fits xs" and n: "n < 2 ^ 32" "m < 2 ^ 64" and step: "conc_step E c c'"
  shows "conc_inv E V xs n m c'"
proof -
  obtain i ts e fs t st' where c: "c = (ts, e, fs)" "c' = (ts[i := t], st')" "i < length ts"
    "thread_step E (ts ! i) (e, fs) = (t, st')"
    using step by (auto simp: can_move_def elim!: conc_stepE)
  have st: "list_all2 (thread_ok E V (e, fs)) xs ts"
    "unat (active_id e) + sum_list (map appends_left ts) \<le> n" "seq_no e + sum_list (map numbers_left ts) \<le> m"
    using inv by (simp_all add: conc_inv_def c(1))
  have s: "conc_state E V st'" "thread_ok E V st' (xs ! i) t" "later (e, fs) st'"
    "unat (active_id (fst st')) + appends_left t \<le> unat (active_id e) + appends_left (ts ! i)"
    "seq_no (fst st') + numbers_left t \<le> seq_no e + numbers_left (ts ! i)"
    using conc_inv_moves [OF ok inv [unfolded c(1)] fits n c(3)] by (simp_all add: step_ok_def c(4))
  have "list_all2 (thread_ok E V st') xs ts" using st(1) thread_ok_later [OF _ s(3)] by (rule list_all2_mono)
  then have "list_all2 (thread_ok E V st') (xs[i := xs ! i]) (ts[i := t])"
    using s(2) by (rule list_all2_update_cong)
  then have "list_all2 (thread_ok E V st') xs (ts[i := t])" by simp
  then show ?thesis
    using s(1) sum_list_step [OF c(3) s(4) st(2)] sum_list_step [OF c(3) s(5) st(3)]
    by (simp add: conc_inv_def c(2))
qed

lemma conc_run_inv:
  assumes "crates_ok E" "os_ok E" "hash_ok E" "list_all conc_fits xs" "n < 2 ^ 32" "m < 2 ^ 64"
  shows "conc_run E c c' \<Longrightarrow> conc_inv E V xs n m c \<Longrightarrow> conc_inv E V xs n m c'"
  by (induction rule: conc_run.induct) (use conc_step_inv [OF assms(1-3) _ assms(4-6)] in blast)+

text \<open>The values that a key had, or that one of the calls gives it.\<close>

definition possible_values ::
  "('s, 'b) env \<Rightarrow> ('s, 'b) st \<Rightarrow> conc_op list \<Rightarrow> bytes \<Rightarrow> bytes set" where
  "possible_values E st xs k =
     {v. kv E st k = Some v \<or> OpKv (OpPut k v) \<in> set xs \<or>
         (\<exists>b. OpCommit b \<in> set xs \<and> batch_view b k = Some (Some v))}"

text \<open>The appends and the sequence numbers that the calls need, at most.\<close>

definition conc_room :: "conc_op list \<Rightarrow> ('s, 'b) st \<Rightarrow> bool" where
  "conc_room xs st \<longleftrightarrow>
     unat (active_id (fst st)) + sum_list (map (appends_left \<circ> thread_of) xs) < 2 ^ 32 \<and>
     seq_no (fst st) + length xs < 2 ^ 64"

lemma numbers_start: "sum_list (map numbers_left (map thread_of xs)) \<le> length xs"
proof (induction xs)
  case (Cons x xs)
  have "numbers_left (thread_of x) \<le> 1" by (cases x rule: thread_of.cases) (simp_all add: numbers_left_def)
  then show ?case using Cons by simp
qed simp

lemma conc_inv_start:
  assumes ok: "crates_ok E" "os_ok E" and inv: "engine_inv E st"
  shows "conc_inv E (possible_values E st xs) xs
    (unat (active_id (fst st)) + sum_list (map (appends_left \<circ> thread_of) xs)) (seq_no (fst st) + length xs)
    (map thread_of xs, st)"
proof -
  note reads = engine_inv_reads [OF inv]
  have "value_at E (possible_values E st xs) st k p" if "index_entries E (eng_index (fst st)) k = Some p" for k p
  proof -
    have "entry_ok E st k p" using that reads by (auto simp: reads_inv_def)
    then obtain r n where r: "k \<noteq> []" "pos_file_id p \<in> known_ids (fst st)"
      "record_at E (file_bytes st (pos_file_id p)) (unat (pos_offset p)) r"
      "rec_type r = Normal" "parse_log_record_key E (rec_key r) = Ok (k, n)" by (auto elim: entry_okE)
    have "kv E st k = Some (rec_value r)" using get_indexed [OF ok reads that r(3,4)] by (simp add: kv_def)
    then show ?thesis using r by (auto simp: value_at_def possible_values_def)
  qed
  then have "conc_state E (possible_values E st xs) st" using inv by (simp add: conc_state_def index_values_def)
  moreover have "thread_ok E (possible_values E st xs) st x (thread_of x)" if "x \<in> set xs" for x
    by (cases x rule: thread_of.cases) (use that in \<open>auto simp: possible_values_def\<close>)
  ultimately show ?thesis using numbers_start [of xs] by (simp add: conc_inv_def list_all2_conv_all_nth)
qed

end
