(* ===== verification/ConcLog.thy ===== *)
theory ConcLog
  imports Concurrent
begin

text \<open>
  What interleaved calls leave in the log: the records of \<open>put\<close> calls and of one open transaction,
  mixed.  Replaying it has the effect of the calls one after the other, in the order in which their
  records (for a commit its finishing record) were appended.  Calls of \<open>delete\<close> are left out: their
  tombstones are logged under the bare key.
\<close>

subsection \<open>Calls and their records\<close>

fun conc_effect :: "conc_op \<Rightarrow> (bytes \<Rightarrow> bytes option) \<Rightarrow> bytes \<Rightarrow> bytes option" where
  "conc_effect (OpKv (OpPut k v)) m = m(k \<mapsto> v)"
| "conc_effect (OpCommit b) m = after_batch b m"
| "conc_effect (OpKv x) m = m"

definition after_calls :: "conc_op list \<Rightarrow> nat list \<Rightarrow> (bytes \<Rightarrow> bytes option) \<Rightarrow> bytes \<Rightarrow> bytes option" where
  "after_calls xs is m = fold conc_effect (map ((!) xs) is) m"

lemma after_calls_simps [simp]:
  "after_calls xs [] m = m"
  "after_calls xs (is @ js) m = after_calls xs js (after_calls xs is m)"
  "after_calls xs [i] m = conc_effect (xs ! i) m"
  by (simp_all add: after_calls_def)

text \<open>A call counts from the moment at which its record, or its finishing record, is in the log.\<close>

fun logged :: "thread \<Rightarrow> bool" where
  "logged (PutAppended k p) \<longleftrightarrow> True"
| "logged (PutIndexed old) \<longleftrightarrow> True"
| "logged (Committing b (SyncLog positions)) \<longleftrightarrow> True"
| "logged (Committing b (IndexItems positions items)) \<longleftrightarrow> True"
| "logged (Committing b (CountOld old positions items)) \<longleftrightarrow> True"
| "logged (Returned out) \<longleftrightarrow> out = OutUnit (Ok ())"
| "logged t \<longleftrightarrow> False"

primrec log_fits :: "conc_op \<Rightarrow> bool" where
  "log_fits (OpKv x) \<longleftrightarrow> (case x of OpPut k v \<Rightarrow> loggable k v | OpGet k \<Rightarrow> True | OpDelete k \<Rightarrow> False)"
| "log_fits (OpCommit b) \<longleftrightarrow> batch_ok b"

lemma log_fits_conc_fits: "log_fits x \<Longrightarrow> conc_fits x"
  by (cases x) (auto simp: loggable_def split: kv_op.splits)

subsection \<open>An index and the map it stands for\<close>

definition entry_is ::
  "('s, 'b) env \<Rightarrow> ('s, 'b) st \<Rightarrow> bytes \<Rightarrow> bytes option \<Rightarrow> log_record_pos option \<Rightarrow> bool" where
  "entry_is E st k val pos \<longleftrightarrow>
     (case val of None \<Rightarrow> pos = None | Some v \<Rightarrow> \<exists>p. pos = Some p \<and> value_at E (\<lambda>_. {v}) st k p)"

definition stands_for ::
  "('s, 'b) env \<Rightarrow> ('s, 'b) st \<Rightarrow> (bytes \<Rightarrow> log_record_pos option) \<Rightarrow> (bytes \<Rightarrow> bytes option) \<Rightarrow> bool" where
  "stands_for E st ix m \<longleftrightarrow> (\<forall>k. entry_is E st k (m k) (ix k))"

lemma entry_is_simps [simp]:
  "entry_is E st k None pos \<longleftrightarrow> pos = None"
  "entry_is E st k (Some v) (Some p) \<longleftrightarrow> value_at E (\<lambda>_. {v}) st k p"
  by (simp_all add: entry_is_def)

lemma entry_is_later: "entry_is E st k val pos \<Longrightarrow> later st st' \<Longrightarrow> entry_is E st' k val pos"
  by (cases val) (auto simp: entry_is_def elim: value_at_later)

lemma stands_for_later: "stands_for E st ix m \<Longrightarrow> later st st' \<Longrightarrow> stands_for E st' ix m"
  unfolding stands_for_def using entry_is_later by blast

lemma stands_for_upd:
  assumes "stands_for E st ix m" "value_at E (\<lambda>_. {v}) st k p"
  shows "stands_for E st (ix(k \<mapsto> p)) (m(k \<mapsto> v))"
  using assms by (simp add: stands_for_def)

lemma stands_for_item:
  assumes "stands_for E st ix m" "item_at E st r p" "rec_type r \<noteq> TxnFinished" "rec_key r \<noteq> []"
  shows "stands_for E st (apply_update (rec_key r, rec_type r, p) ix) (item_effect r m)"
proof (cases "rec_type r")
  case Normal
  have "value_at E (\<lambda>_. {rec_value r}) st (rec_key r) p" by (rule item_value_at) (use assms Normal in simp_all)
  then show ?thesis using stands_for_upd [OF assms(1)] by (simp add: Normal item_effect_def)
next
  case Delete
  then show ?thesis using assms(1) by (simp add: stands_for_def item_effect_def)
qed (use assms(3) in simp)

definition item_update :: "(bytes \<times> log_record_pos) list \<Rightarrow> log_record \<Rightarrow> index_update" where
  "item_update positions r = (rec_key r, rec_type r, the (map_of positions (rec_key r)))"

lemma stands_for_items:
  assumes "stands_for E st ix m" "items_at E st positions items"
    and "\<forall>r \<in> set items. rec_type r \<noteq> TxnFinished \<and> rec_key r \<noteq> []"
  shows "stands_for E st (fold apply_update (map (item_update positions) items) ix) (fold item_effect items m)"
  using assms
proof (induction items arbitrary: ix m)
  case (Cons r items)
  then obtain p where "map_of positions (rec_key r) = Some p" "item_at E st r p" by (auto simp: items_at_def)
  then have "stands_for E st (apply_update (item_update positions r) ix) (item_effect r m)"
    using stands_for_item [OF Cons.prems(1)] Cons.prems(3) by (simp add: item_update_def)
  then show ?case using Cons.IH Cons.prems(2,3) by (simp add: items_at_def)
qed simp

subsection \<open>The log of a run\<close>

text \<open>What the replay knows of the transaction that a thread has open.\<close>

definition open_txn :: "('s, 'b) env \<Rightarrow> ('s, 'b) st \<Rightarrow> (nat \<Rightarrow> index_update list) \<Rightarrow> thread \<Rightarrow> bool" where
  "open_txn E st txns t \<longleftrightarrow>
     (case t of
        Committing b (AppendItems seq items positions) \<Rightarrow>
          seq \<noteq> 0 \<and> seq < seq_no (fst st) \<and>
          (\<exists>appended. pending_items E b = appended @ items \<and> items_at E st positions appended \<and>
             txns seq = map (item_update positions) appended)
      | _ \<Rightarrow> True)"

lemma open_txn_later:
  assumes "open_txn E st txns t" "later st st'" "seq_no (fst st) \<le> seq_no (fst st')"
  shows "open_txn E st' txns t"
  using assms items_at_later [OF _ assms(2)]
  unfolding open_txn_def by (fastforce split: thread.splits commit_stage.splits)

lemma open_txn_free: "\<not> holds_lock t \<Longrightarrow> open_txn E st txns t"
  by (auto simp: open_txn_def holds_lock_def split: thread.splits commit_stage.splits)

definition log_holds ::
  "('s, 'b) env \<Rightarrow> thread list \<Rightarrow> ('s, 'b) st \<Rightarrow> (bytes \<Rightarrow> bytes option) \<Rightarrow> bool" where
  "log_holds E ts st m \<longleftrightarrow>
     (\<exists>logs ix txns cur. log_files E st logs \<and> replay E (log_entries E logs) = (ix, txns, cur) \<and>
        cur < seq_no (fst st) \<and> (\<forall>n \<ge> seq_no (fst st). txns n = []) \<and>
        stands_for E st ix m \<and> (\<forall>t \<in> set ts. open_txn E st txns t))"

text \<open>One thread at a time has the lock of the commits.\<close>

definition one_holder :: "thread list \<Rightarrow> bool" where
  "one_holder ts \<longleftrightarrow>
     (\<forall>i j. i < length ts \<longrightarrow> j < length ts \<longrightarrow> holds_lock (ts ! i) \<longrightarrow> holds_lock (ts ! j) \<longrightarrow> i = j)"

lemma one_holder_step:
  assumes one: "one_holder ts" and i: "i < length ts"
    and t: "holds_lock t \<Longrightarrow> holds_lock (ts ! i) \<or> \<not> list_ex holds_lock ts"
  shows "one_holder (ts[i := t])"
proof -
  have "j = i" if "j < length ts" "holds_lock (ts ! j)" "holds_lock t" for j
    using t [OF that(3)] one i that(1,2) nth_mem [OF that(1)] unfolding one_holder_def list_ex_iff by blast
  moreover have "j = k" if "j < length ts" "k < length ts" "holds_lock (ts ! j)" "holds_lock (ts ! k)" for j k
    using one that unfolding one_holder_def by blast
  ultimately show ?thesis
    unfolding one_holder_def length_list_update by (metis nth_list_update_eq nth_list_update_neq)
qed

definition log_order ::
  "('s, 'b) env \<Rightarrow> (bytes \<Rightarrow> bytes option) \<Rightarrow> conc_op list \<Rightarrow> nat list \<Rightarrow> thread list \<times> ('s, 'b) st \<Rightarrow> bool" where
  "log_order E m xs is c \<longleftrightarrow>
     (case c of (ts, st) \<Rightarrow>
        distinct is \<and> set is = {i. i < length ts \<and> logged (ts ! i)} \<and> one_holder ts \<and>
        log_holds E ts st (after_calls xs is m))"

text \<open>A step of the thread \<open>i\<close> that appends the records \<open>new\<close> (one or none).\<close>

lemma log_order_step:
  assumes ord: "log_order E m xs is (ts, e, fs)" and i: "i < length ts"
    and lk: "holds_lock t \<Longrightarrow> holds_lock (ts ! i) \<or> \<not> list_ex holds_lock ts"
    and l: "later (e, fs) (e', fs')" and seq: "seq_no e \<le> seq_no e'"
    and js: "logged t \<longleftrightarrow> logged (ts ! i) \<or> js \<noteq> []" "js = [] \<or> js = [i] \<and> \<not> logged (ts ! i)"
    and files: "\<And>logs. log_files E (e, fs) logs \<Longrightarrow>
      \<exists>logs'. log_files E (e', fs') logs' \<and> log_entries E logs' = log_entries E logs @ new"
    and rep: "\<And>ix txns cur. stands_for E (e', fs') ix (after_calls xs is m) \<Longrightarrow> open_txn E (e, fs) txns (ts ! i) \<Longrightarrow>
      cur < seq_no e \<Longrightarrow> \<forall>n \<ge> seq_no e. txns n = [] \<Longrightarrow>
      \<exists>ix' txns' cur'. fold (replay_step E) new (ix, txns, cur) = (ix', txns', cur') \<and> cur' < seq_no e' \<and>
        (\<forall>n \<ge> seq_no e'. txns' n = []) \<and> stands_for E (e', fs') ix' (after_calls xs js (after_calls xs is m)) \<and>
        open_txn E (e', fs') txns' t \<and> (txns' = txns \<or> holds_lock (ts ! i))"
  shows "log_order E m xs (is @ js) (ts[i := t], e', fs')"
proof -
  have o: "distinct is" "set is = {i. i < length ts \<and> logged (ts ! i)}" "one_holder ts"
    using ord by (simp_all add: log_order_def)
  obtain logs ix txns cur where a: "log_files E (e, fs) logs" "replay E (log_entries E logs) = (ix, txns, cur)"
    "cur < seq_no e" "\<forall>n \<ge> seq_no e. txns n = []" "stands_for E (e, fs) ix (after_calls xs is m)"
    "\<forall>t \<in> set ts. open_txn E (e, fs) txns t"
    using ord by (auto simp: log_order_def log_holds_def)
  obtain logs' where logs': "log_files E (e', fs') logs'" "log_entries E logs' = log_entries E logs @ new"
    using files [OF a(1)] by blast
  have "open_txn E (e, fs) txns (ts ! i)" using a(6) i by simp
  from rep [OF stands_for_later [OF a(5) l] this a(3,4)] obtain ix' txns' cur' where
    r: "fold (replay_step E) new (ix, txns, cur) = (ix', txns', cur')" "cur' < seq_no e'"
    "\<forall>n \<ge> seq_no e'. txns' n = []" "stands_for E (e', fs') ix' (after_calls xs js (after_calls xs is m))"
    "open_txn E (e', fs') txns' t" "txns' = txns \<or> holds_lock (ts ! i)" by blast
  have "open_txn E (e', fs') txns' (ts ! j)" if "j < length ts" "j \<noteq> i" for j
  proof (cases "holds_lock (ts ! i)")
    case True
    then have "\<not> holds_lock (ts ! j)" using o(3) that i by (auto simp: one_holder_def)
    then show ?thesis by (rule open_txn_free)
  next
    case False
    then show ?thesis using r(6) open_txn_later [OF _ l] seq a(6) that(1) by simp
  qed
  then have "open_txn E (e', fs') txns' (ts[i := t] ! j)" if "j < length ts" for j
    using r(5) that by (cases "j = i") simp_all
  then have "\<forall>t' \<in> set (ts[i := t]). open_txn E (e', fs') txns' t'"
    by (simp add: all_set_conv_all_nth del: nth_list_update)
  moreover have "replay E (log_entries E logs') = (ix', txns', cur')" by (simp add: logs'(2) replay_append a(2) r(1))
  ultimately have "log_holds E (ts[i := t]) (e', fs') (after_calls xs (is @ js) m)"
    unfolding log_holds_def
    by (intro exI [of _ logs'] exI [of _ ix'] exI [of _ txns'] exI [of _ cur'] conjI)
      (use logs'(1) r(2-4) in \<open>simp_all del: list_update.simps\<close>)
  moreover have "distinct (is @ js)" by (rule disjE [OF js(2)]) (use o(1,2) in simp_all)
  moreover have "set (is @ js) = {j. j < length (ts[i := t]) \<and> logged (ts[i := t] ! j)}"
    by (rule disjE [OF js(2)]) (use o(2) js(1) i in \<open>auto simp: nth_list_update\<close>)
  ultimately show ?thesis using one_holder_step [OF o(3) i lk] by (simp add: log_order_def)
qed

subsection \<open>Steps that append nothing\<close>

definition quiet :: "('s, 'b) env \<Rightarrow> ('s, 'b) st \<Rightarrow> ('s, 'b) st \<Rightarrow> bool" where
  "quiet E st st' \<longleftrightarrow>
     later st st' \<and> seq_no (fst st) \<le> seq_no (fst st') \<and> (\<forall>logs. log_files E st logs \<longrightarrow> log_files E st' logs)"

lemma quiet_simps [simp]:
  "quiet E st st"
  "quiet E (e, fs) (e\<lparr>eng_index := i\<rparr>, fs)"
  "quiet E (e, fs) (add_reclaim old e, fs)"
  by (simp_all add: quiet_def)

lemma quiet_continue: "quiet E st (snd (continue m f)) = quiet E st (snd m)"
  by (simp add: continue_def case_prod_unfold)

definition appends :: "thread \<Rightarrow> bool" where
  "appends t \<longleftrightarrow>
     (case t of
        PutStart k v \<Rightarrow> True | DelFound k \<Rightarrow> True | Committing b (AppendItems seq items ps) \<Rightarrow> True | _ \<Rightarrow> False)"

lemma quiet_commit_step:
  assumes ok: "crates_ok E" "os_ok E" and inv: "engine_inv E (e, fs)"
    and c: "\<not> appends (Committing b c)"
    and num: "0 < numbers_left (Committing b c) \<Longrightarrow> seq_no e + 1 < 2 ^ 64"
  shows "quiet E (e, fs) (snd (commit_step E b c (e, fs)))"
proof (cases c)
  case DrawNumber
  then have "seq_no e + 1 < 2 ^ 64" using num by (simp add: numbers_left_def)
  then show ?thesis by (simp add: DrawNumber quiet_def fetch_add_def)
next
  case (SyncLog positions)
  obtain fs' where s: "(if wb_sync_writes (wb_options b) then engine_sync E (e, fs) else (Ok (), e, fs)) = (Ok (), e, fs')"
    "grows fs fs'" "\<forall>logs. log_files E (e, fs) logs \<longrightarrow> log_files E (e, fs') logs"
    using optional_sync [OF ok inv] by blast
  then show ?thesis by (simp add: SyncLog quiet_continue, simp add: quiet_def later_def)
next
  case (IndexItems positions items)
  then show ?thesis
    by (cases items) (auto simp: quiet_continue split: option.split log_record_type.split prod.split)
qed (use c in \<open>simp_all add: appends_def\<close>)

lemma quiet_step:
  assumes ok: "crates_ok E" "os_ok E" and inv: "engine_inv E (e, fs)" and t: "\<not> appends t"
    and num: "0 < numbers_left t \<Longrightarrow> seq_no e + 1 < 2 ^ 64"
  shows "quiet E (e, fs) (snd (thread_step E t (e, fs)))"
proof (cases t)
  case (Committing b c)
  then show ?thesis using quiet_commit_step [OF ok inv, of b c] t num by simp
qed (use t in \<open>simp_all add: appends_def quiet_continue split: prod.split\<close>)

text \<open>How the thread itself goes on.\<close>

lemma fst_continue:
  "fst (continue m f) =
     (case fst m of Ok a \<Rightarrow> f a | Err x \<Rightarrow> Returned (OutUnit (Err x)) | Panic \<Rightarrow> Returned (OutUnit Panic))"
  by (simp add: continue_def case_prod_unfold)

lemma value_at_key: "value_at E V st k p \<Longrightarrow> k \<noteq> []"
  by (simp add: value_at_def)

lemma quiet_thread:
  assumes step: "fst (thread_step E t (e, fs)) = t'" and t: "\<not> appends t" "thread_ok E V (e, fs) x t" "log_fits x"
    and t': "thread_ok E V st' x t'"
  shows "logged t' \<longleftrightarrow> logged t \<or> (\<exists>b. t = Committing b CheckSize \<and> pending_write b = [])"
    and "holds_lock t' \<Longrightarrow> holds_lock t \<or> takes_lock t"
proof -
  note defs = logged.simps holds_lock_def takes_lock_def appends_def
  have "(logged t' \<longleftrightarrow> logged t \<or> (\<exists>b. t = Committing b CheckSize \<and> pending_write b = [])) \<and>
    (holds_lock t' \<longrightarrow> holds_lock t \<or> takes_lock t)"
  proof (cases t)
    case (PutAppended k p)
    then show ?thesis using step t t' by (auto simp: defs fst_continue dest: value_at_key split: res.splits)
  next
    case (Committing b c)
    show ?thesis
    proof (cases c)
      case (IndexItems positions items)
      then show ?thesis
        using step t t' Committing
        by (cases items) (auto simp: defs fst_continue dest: value_at_key split: option.splits log_record_type.splits res.splits)
    next
      case (SyncLog positions)
      then show ?thesis using step t t' Committing by (auto simp: defs fst_continue split: res.splits)
    qed (use step t t' Committing in \<open>auto simp: defs split: if_splits\<close>)
  qed (use step t t' in \<open>auto simp: defs fst_continue split: if_splits option.splits res.splits\<close>)
  then show "logged t' \<longleftrightarrow> logged t \<or> (\<exists>b. t = Committing b CheckSize \<and> pending_write b = [])"
    "holds_lock t' \<Longrightarrow> holds_lock t \<or> takes_lock t" by blast+
qed

lemma quiet_open_txn:
  assumes step: "fst (thread_step E t (e, fs)) = t'" and t: "\<not> appends t"
    and txns: "cur < seq_no e" "\<forall>n \<ge> seq_no e. txns n = []"
    and seq: "\<And>b. t = Committing b DrawNumber \<Longrightarrow> seq_no e < seq_no (fst st')"
  shows "open_txn E st' txns t'"
proof (cases "\<exists>b. t = Committing b DrawNumber")
  case True
  then show ?thesis using step txns seq by (auto simp: open_txn_def items_at_def)
next
  case False
  have "\<forall>b q items ps. t' \<noteq> Committing b (AppendItems q items ps)"
  proof (cases t)
    case (Committing b c)
    show ?thesis
    proof (cases c)
      case (IndexItems positions items)
      then show ?thesis
        using step Committing
        by (cases items) (auto simp: fst_continue split: option.splits log_record_type.splits res.splits)
    qed (use step t False Committing in \<open>auto simp: appends_def fst_continue split: if_splits res.splits\<close>)
  qed (use step t in \<open>auto simp: appends_def fst_continue split: if_splits option.splits res.splits\<close>)
  then show ?thesis by (auto simp: open_txn_def split: thread.splits commit_stage.splits)
qed

subsection \<open>Steps that append a record\<close>

lemma append_in_log:
  assumes ok: "crates_ok E" "os_ok E" and inv: "engine_inv E (e, fs)" and good: "good_record E r"
    and id: "unat (active_id e) + 1 < 2 ^ 32"
  obtains p e' fs' where "append_log_record E r (e, fs) = (Ok p, e', fs')" "later (e, fs) (e', fs')"
    "seq_no e' = seq_no e" "pos_file_id p \<in> known_ids e'"
    "record_at E (file_bytes (e', fs') (pos_file_id p)) (unat (pos_offset p)) r"
    "\<forall>logs. log_files E (e, fs) logs \<longrightarrow>
       (\<exists>logs'. log_files E (e', fs') logs' \<and> log_entries E logs' = log_entries E logs @ [(p, r)])"
proof -
  have files: "files_inv (e, fs)" "bw_ok e" using inv by (simp_all add: engine_inv_def)
  from append_logged [OF ok files good id] obtain p e' fs' where
    a: "append_log_record E r (e, fs) = (Ok p, e', fs')" "files_inv (e', fs')" "bw_ok e'" "grows fs fs'" "same_index e e'"
      "unat (active_id e') \<le> unat (active_id e) + 1"
      "record_at E (file_bytes (e', fs') (pos_file_id p)) (unat (pos_offset p)) r" "pos_file_id p \<in> known_ids e'"
      "\<forall>logs. log_files E (e, fs) logs \<longrightarrow>
         (\<exists>logs'. log_files E (e', fs') logs' \<and> log_entries E logs' = log_entries E logs @ [(p, r)])" .
  have "later (e, fs) (e', fs')" "seq_no e' = seq_no e" using a(4,5) by (simp_all add: later_def same_index_def)
  then show ?thesis using that a(1,7-9) by blast
qed

lemma put_order:
  assumes ok: "crates_ok E" "os_ok E" and inv: "engine_inv E (e, fs)" and kv: "loggable k v"
    and id: "unat (active_id e) + 1 < 2 ^ 32"
    and ord: "log_order E m xs is (ts, e, fs)" and i: "i < length ts" "ts ! i = PutStart k v" "xs ! i = OpKv (OpPut k v)"
    and step: "thread_step E (PutStart k v) (e, fs) = (t, st')"
  shows "log_order E m xs (is @ [i]) (ts[i := t], st')"
proof -
  let ?r = "LogRecord_new (0 # k) v Normal"
  note key = key_with_seq_0 [OF ok(1), of k]
  have good: "good_record E ?r"
    using good_with_seq [OF ok(1) key] kv by (simp add: loggable_def NON_TRANSACTION_SEQ_NO_def)
  obtain p e' fs' where a: "append_log_record E ?r (e, fs) = (Ok p, e', fs')" "later (e, fs) (e', fs')"
    "seq_no e' = seq_no e" "pos_file_id p \<in> known_ids e'"
    "record_at E (file_bytes (e', fs') (pos_file_id p)) (unat (pos_offset p)) ?r"
    "\<forall>logs. log_files E (e, fs) logs \<longrightarrow>
       (\<exists>logs'. log_files E (e', fs') logs' \<and> log_entries E logs' = log_entries E logs @ [(p, ?r)])"
    by (rule append_in_log [OF ok inv good id])
  have parse: "parse_log_record_key E (0 # k) = Ok (k, 0)"
    using parse_key_with_seq [OF ok(1) key] by (simp add: NON_TRANSACTION_SEQ_NO_def)
  have t: "t = PutAppended k p" "st' = (e', fs')"
    using step a(1) kv by (simp_all add: continue_def key loggable_def)
  have at: "value_at E (\<lambda>_. {v}) (e', fs') k p"
    using a(4,5) parse kv by (auto simp: value_at_def loggable_def)
  show ?thesis
    unfolding t
  proof (rule log_order_step [OF ord i(1) _ a(2) _ _ _ a(6) [rule_format]])
    fix ix txns cur
    assume h: "stands_for E (e', fs') ix (after_calls xs is m)" "open_txn E (e, fs) txns (ts ! i)"
      "cur < seq_no e" "\<forall>n \<ge> seq_no e. txns n = []"
    have "fold (replay_step E) [(p, ?r)] (ix, txns, cur) = (ix(k \<mapsto> p), txns, cur)"
      by (simp add: parse NON_TRANSACTION_SEQ_NO_def)
    then show "\<exists>ix' txns' cur'. fold (replay_step E) [(p, ?r)] (ix, txns, cur) = (ix', txns', cur') \<and> cur' < seq_no e' \<and>
        (\<forall>n \<ge> seq_no e'. txns' n = []) \<and> stands_for E (e', fs') ix' (after_calls xs [i] (after_calls xs is m)) \<and>
        open_txn E (e', fs') txns' (PutAppended k p) \<and> (txns' = txns \<or> holds_lock (ts ! i))"
      using h stands_for_upd [OF h(1) at] by (simp add: i(3) a(3) open_txn_def)
  qed (simp_all add: i(2) a(3) holds_lock_def)
qed

lemma item_update_map:
  assumes "distinct (map rec_key (xs @ [r]))"
  shows "map (item_update (AList.update (rec_key r) p positions)) (xs @ [r]) =
    map (item_update positions) xs @ [(rec_key r, rec_type r, p)]"
proof -
  have "rec_key x \<noteq> rec_key r" if "x \<in> set xs" for x
    using assms imageI [OF that, of rec_key] by (auto simp del: image_eqI)
  then show ?thesis by (simp add: item_update_def update_conv')
qed

lemma item_order:
  assumes ok: "crates_ok E" "os_ok E" "hash_ok E" and inv: "engine_inv E (e, fs)" and b: "batch_ok b"
    and id: "unat (active_id e) + 1 < 2 ^ 32" and seq: "seq < 2 ^ 64"
    and ord: "log_order E m xs is (ts, e, fs)"
    and i: "i < length ts" "ts ! i = Committing b (AppendItems seq (r # items) positions)"
    and step: "thread_step E (ts ! i) (e, fs) = (t, st')"
  shows "log_order E m xs is (ts[i := t], st')"
proof -
  note items = pending_items_props [OF b ok(3)]
  obtain txns where "open_txn E (e, fs) txns (ts ! i)"
    using ord nth_mem [OF i(1)] unfolding log_order_def log_holds_def by auto
  then have "r \<in> set (pending_items E b)" by (auto simp: i(2) open_txn_def)
  then have r: "loggable (rec_key r) (rec_value r)" "rec_type r \<noteq> TxnFinished"
    using items(2) batch_okD [OF b] by blast+
  obtain en where en: "encode_length_delimiter E seq = Some en" using encode_delimiter_total [OF ok(1) seq] .
  then have key: "log_record_key_with_seq E (rec_key r) seq = Ok (en @ rec_key r)" by (simp add: log_record_key_with_seq_def)
  have good: "good_record E (txn_rec en r)"
    using good_with_seq [OF ok(1) key seq] r by (simp add: txn_rec_def loggable_def)
  obtain p e' fs' where a: "append_log_record E (txn_rec en r) (e, fs) = (Ok p, e', fs')" "later (e, fs) (e', fs')"
    "seq_no e' = seq_no e" "pos_file_id p \<in> known_ids e'"
    "record_at E (file_bytes (e', fs') (pos_file_id p)) (unat (pos_offset p)) (txn_rec en r)"
    "\<forall>logs. log_files E (e, fs) logs \<longrightarrow>
       (\<exists>logs'. log_files E (e', fs') logs' \<and> log_entries E logs' = log_entries E logs @ [(p, txn_rec en r)])"
    by (rule append_in_log [OF ok(1,2) inv good id])
  let ?positions = "AList.update (rec_key r) p positions"
  have t: "t = Committing b (AppendItems seq items ?positions)" "st' = (e', fs')"
    using step a(1) by (simp_all add: i(2) continue_def key txn_rec_def)
  have parse: "parse_log_record_key E (en @ rec_key r) = Ok (rec_key r, seq)" by (rule parse_key_with_seq [OF ok(1) key])
  have at: "item_at E (e', fs') r p" using a(4,5) parse by (auto simp: item_at_def txn_rec_def)
  have "log_order E m xs (is @ []) (ts[i := t], e', fs')"
    unfolding t
  proof (rule log_order_step [OF ord i(1) _ a(2) _ _ _ a(6) [rule_format]])
    fix ix txns cur
    assume h: "stands_for E (e', fs') ix (after_calls xs is m)" "open_txn E (e, fs) txns (ts ! i)" "cur < seq_no e"
      "\<forall>n \<ge> seq_no e. txns n = []"
    then obtain appended where o: "seq \<noteq> 0" "seq < seq_no e" "pending_items E b = appended @ r # items"
      "items_at E (e, fs) positions appended" "txns seq = map (item_update positions) appended"
      by (auto simp: open_txn_def i(2))
    have d: "distinct (map rec_key (appended @ [r]))" using items(1) by (simp add: o(3))
    let ?txns = "txns(seq := txns seq @ [(rec_key r, rec_type r, p)])"
    have "fold (replay_step E) [(p, txn_rec en r)] (ix, txns, cur) = (ix, ?txns, max cur seq)"
      using o(1) r(2) by (simp add: txn_rec_def parse NON_TRANSACTION_SEQ_NO_def)
    moreover have "items_at E (e', fs') ?positions (appended @ [r])"
      by (rule items_at_update [OF items_at_later [OF o(4) a(2)] at]) (use d in auto)
    then have "open_txn E (e', fs') ?txns (Committing b (AppendItems seq items ?positions))"
      using o item_update_map [OF d, of p positions] unfolding open_txn_def thread.case commit_stage.case
      by (intro conjI exI [of _ "appended @ [r]"]) (simp_all add: a(3))
    moreover have "max cur seq < seq_no e'" "\<forall>n \<ge> seq_no e'. ?txns n = []" using h(3,4) o(2) by (auto simp: a(3))
    ultimately show "\<exists>ix' txns' cur'. fold (replay_step E) [(p, txn_rec en r)] (ix, txns, cur) = (ix', txns', cur') \<and>
        cur' < seq_no e' \<and> (\<forall>n \<ge> seq_no e'. txns' n = []) \<and>
        stands_for E (e', fs') ix' (after_calls xs [] (after_calls xs is m)) \<and>
        open_txn E (e', fs') txns' (Committing b (AppendItems seq items ?positions)) \<and> (txns' = txns \<or> holds_lock (ts ! i))"
      using h(1) by (intro exI [of _ ix] exI [of _ ?txns] exI [of _ "max cur seq"]) (simp add: i(2) holds_lock_def)
  qed (simp_all add: i(2) a(3) holds_lock_def)
  then show ?thesis by (simp add: t)
qed

lemma finish_order:
  assumes ok: "crates_ok E" "os_ok E" "hash_ok E" and inv: "engine_inv E (e, fs)" and b: "batch_ok b"
    and id: "unat (active_id e) + 1 < 2 ^ 32" and seq: "seq < 2 ^ 64"
    and ord: "log_order E m xs is (ts, e, fs)"
    and i: "i < length ts" "ts ! i = Committing b (AppendItems seq [] positions)" "xs ! i = OpCommit b"
    and step: "thread_step E (ts ! i) (e, fs) = (t, st')"
  shows "log_order E m xs (is @ [i]) (ts[i := t], st')"
proof -
  note items = pending_items_props [OF b ok(3)]
  obtain en where en: "encode_length_delimiter E seq = Some en" using encode_delimiter_total [OF ok(1) seq] .
  let ?fin = "string_bytes TXN_FIN_KEY"
  have key: "log_record_key_with_seq E ?fin seq = Ok (en @ ?fin)" by (simp add: log_record_key_with_seq_def en)
  have good: "good_record E (fin_rec en)"
    unfolding fin_rec_def by (rule good_with_seq [OF ok(1) key seq]) (simp_all add: TXN_FIN_KEY_def string_bytes_def)
  obtain p e' fs' where a: "append_log_record E (fin_rec en) (e, fs) = (Ok p, e', fs')" "later (e, fs) (e', fs')"
    "seq_no e' = seq_no e" "pos_file_id p \<in> known_ids e'"
    "record_at E (file_bytes (e', fs') (pos_file_id p)) (unat (pos_offset p)) (fin_rec en)"
    "\<forall>logs. log_files E (e, fs) logs \<longrightarrow>
       (\<exists>logs'. log_files E (e', fs') logs' \<and> log_entries E logs' = log_entries E logs @ [(p, fin_rec en)])"
    by (rule append_in_log [OF ok(1,2) inv good id])
  have t: "t = Committing b (SyncLog positions)" "st' = (e', fs')"
    using step a(1) by (simp_all add: i(2) continue_def key fin_rec_def)
  have parse: "parse_log_record_key E (en @ ?fin) = Ok (?fin, seq)" by (rule parse_key_with_seq [OF ok(1) key])
  have types: "\<forall>r \<in> set (pending_items E b). rec_type r \<noteq> TxnFinished \<and> rec_key r \<noteq> []"
    using items(2) batch_okD(2,3) [OF b] unfolding loggable_def by blast
  show ?thesis
    unfolding t
  proof (rule log_order_step [OF ord i(1) _ a(2) _ _ _ a(6) [rule_format]])
    fix ix txns cur
    assume h: "stands_for E (e', fs') ix (after_calls xs is m)" "open_txn E (e, fs) txns (ts ! i)" "cur < seq_no e"
      "\<forall>n \<ge> seq_no e. txns n = []"
    then have o: "seq \<noteq> 0" "seq < seq_no e" "items_at E (e, fs) positions (pending_items E b)"
      "txns seq = map (item_update positions) (pending_items E b)"
      using h(2) by (simp_all add: open_txn_def i(2))
    let ?ix = "fold apply_update (map (item_update positions) (pending_items E b)) ix"
    have "fold (replay_step E) [(p, fin_rec en)] (ix, txns, cur) = (?ix, txns(seq := []), max cur seq)"
      using o(1) by (simp add: fin_rec_def parse NON_TRANSACTION_SEQ_NO_def o(4))
    moreover have "stands_for E (e', fs') ?ix (fold item_effect (pending_items E b) (after_calls xs is m))"
      by (rule stands_for_items [OF h(1) items_at_later [OF o(3) a(2)] types])
    then have "stands_for E (e', fs') ?ix (after_calls xs [i] (after_calls xs is m))"
      by (simp add: i(3) fold_pending_items [OF b ok(3)] after_batch_def [abs_def])
    moreover have "max cur seq < seq_no e'" "\<forall>n \<ge> seq_no e'. (txns(seq := [])) n = []" using h(3,4) o(2) by (auto simp: a(3))
    ultimately show "\<exists>ix' txns' cur'. fold (replay_step E) [(p, fin_rec en)] (ix, txns, cur) = (ix', txns', cur') \<and>
        cur' < seq_no e' \<and> (\<forall>n \<ge> seq_no e'. txns' n = []) \<and>
        stands_for E (e', fs') ix' (after_calls xs [i] (after_calls xs is m)) \<and>
        open_txn E (e', fs') txns' (Committing b (SyncLog positions)) \<and> (txns' = txns \<or> holds_lock (ts ! i))"
      by (intro exI [of _ ?ix] exI [of _ "txns(seq := [])"] exI [of _ "max cur seq"])
        (simp add: i(2) holds_lock_def open_txn_def)
  qed (simp_all add: i(2) a(3) holds_lock_def)
qed

subsection \<open>Every step\<close>

lemma quiet_order:
  assumes ok: "crates_ok E" "os_ok E" and inv: "engine_inv E (e, fs)"
    and num: "0 < numbers_left (ts ! i) \<Longrightarrow> seq_no e + 1 < 2 ^ 64"
    and ord: "log_order E m xs is (ts, e, fs)" and i: "can_move ts i" "\<not> appends (ts ! i)"
    and ti: "thread_ok E V (e, fs) (xs ! i) (ts ! i)" "log_fits (xs ! i)"
    and step: "thread_step E (ts ! i) (e, fs) = (t, st')" and t: "thread_ok E V st' (xs ! i) t"
  shows "\<exists>js. log_order E m xs (is @ js) (ts[i := t], st')"
proof -
  obtain e' fs' where st': "st' = (e', fs')" by (cases st')
  have q: "quiet E (e, fs) (e', fs')" using quiet_step [OF ok inv i(2) num] by (simp add: step st')
  have fst: "fst (thread_step E (ts ! i) (e, fs)) = t" by (simp add: step)
  note th = quiet_thread [OF fst i(2) ti t]
  have len: "i < length ts" using i(1) by (simp add: can_move_def)
  define empty where "empty \<longleftrightarrow> (\<exists>b. ts ! i = Committing b CheckSize \<and> pending_write b = [])"
  define js where "js = (if empty then [i] else [])"
  have "log_order E m xs (is @ js) (ts[i := t], e', fs')"
  proof (rule log_order_step [OF ord len])
    show "holds_lock (ts ! i) \<or> \<not> list_ex holds_lock ts" if "holds_lock t"
      using th(2) [OF that] i(1) by (auto simp: can_move_def)
    show "logged t = (logged (ts ! i) \<or> js \<noteq> [])" using th(1) by (auto simp: js_def empty_def)
    show "js = [] \<or> js = [i] \<and> \<not> logged (ts ! i)" by (auto simp: js_def empty_def)
    show "\<exists>logs'. log_files E (e', fs') logs' \<and> log_entries E logs' = log_entries E logs @ []"
      if "log_files E (e, fs) logs" for logs using that q by (auto simp: quiet_def)
    fix ix txns cur
    assume h: "stands_for E (e', fs') ix (after_calls xs is m)" "open_txn E (e, fs) txns (ts ! i)" "cur < seq_no e"
      "\<forall>n \<ge> seq_no e. txns n = []"
    have "seq_no e < seq_no (fst (e', fs'))" if "ts ! i = Committing b DrawNumber" for b
      using step num that by (auto simp: st' numbers_left_def fetch_add_def)
    then have "open_txn E (e', fs') txns t" using quiet_open_txn [OF fst i(2) h(3,4)] by blast
    moreover have "after_calls xs js (after_calls xs is m) = after_calls xs is m"
      using ti by (auto simp: js_def empty_def after_batch_def batch_view_def)
    moreover have "seq_no e \<le> seq_no e'" using q by (simp add: quiet_def)
    ultimately show "\<exists>ix' txns' cur'. fold (replay_step E) [] (ix, txns, cur) = (ix', txns', cur') \<and> cur' < seq_no e' \<and>
        (\<forall>n \<ge> seq_no e'. txns' n = []) \<and> stands_for E (e', fs') ix' (after_calls xs js (after_calls xs is m)) \<and>
        open_txn E (e', fs') txns' t \<and> (txns' = txns \<or> holds_lock (ts ! i))"
      using h by simp
  qed (use q in \<open>simp_all add: quiet_def\<close>)
  then show ?thesis unfolding st' by blast
qed

lemma conc_step_order:
  assumes ok: "crates_ok E" "os_ok E" "hash_ok E" and inv: "conc_inv E V xs n q c"
    and fits: "list_all log_fits xs" and n: "n < 2 ^ 32" "q < 2 ^ 64"
    and ord: "log_order E m xs is c" and step: "conc_step E c c'"
  shows "\<exists>js. log_order E m xs (is @ js) c'"
proof -
  obtain i ts e fs t st' where c: "c = (ts, e, fs)" "c' = (ts[i := t], st')" "can_move ts i"
    "thread_step E (ts ! i) (e, fs) = (t, st')"
    using step by (auto elim!: conc_stepE)
  then have i: "i < length ts" by (simp add: can_move_def)
  have st: "conc_state E V (e, fs)" "list_all2 (thread_ok E V (e, fs)) xs ts"
    "unat (active_id e) + sum_list (map appends_left ts) \<le> n" "seq_no e + sum_list (map numbers_left ts) \<le> q"
    using inv by (simp_all add: conc_inv_def c(1))
  then have einv: "engine_inv E (e, fs)" and len: "i < length xs"
    using i list_all2_lengthD [OF st(2)] by (simp_all add: conc_state_def)
  have ti: "thread_ok E V (e, fs) (xs ! i) (ts ! i)" "log_fits (xs ! i)"
    using st(2) i fits len by (simp_all add: list_all2_conv_all_nth list_all_length)
  have cf: "list_all conc_fits xs" using fits log_fits_conc_fits by (auto simp: list_all_iff)
  have t: "thread_ok E V st' (xs ! i) t"
    using conc_inv_moves [OF ok inv [unfolded c(1)] cf n i] by (simp add: step_ok_def c(4))
  have le: "f (ts ! i) \<le> sum_list (map f ts)" for f :: "thread \<Rightarrow> nat"
    by (rule member_le_sum_list) (use i in simp_all)
  have id: "unat (active_id e) + 1 < 2 ^ 32" if "0 < appends_left (ts ! i)"
    using that le [of appends_left] st(3) n(1) by linarith
  have num: "seq_no e + 1 < 2 ^ 64" if "0 < numbers_left (ts ! i)"
    using that le [of numbers_left] st(4) n(2) by linarith
  have ord': "log_order E m xs is (ts, e, fs)" using ord by (simp add: c(1))
  show ?thesis
    unfolding c(2)
  proof (cases "appends (ts ! i)")
    case False
    show "\<exists>js. log_order E m xs (is @ js) (ts[i := t], st')"
      by (rule quiet_order [OF ok(1,2) einv num ord' c(3) False ti c(4) t])
  next
    case True
    then consider (put) k v where "ts ! i = PutStart k v" | (del) k where "ts ! i = DelFound k"
      | (item) b seq r items ps where "ts ! i = Committing b (AppendItems seq (r # items) ps)"
      | (fin) b seq ps where "ts ! i = Committing b (AppendItems seq [] ps)"
      by (auto simp: appends_def split: thread.splits commit_stage.splits) (metis list.exhaust)
    then show "\<exists>js. log_order E m xs (is @ js) (ts[i := t], st')"
    proof cases
      case put
      then have "xs ! i = OpKv (OpPut k v)" "loggable k v" using ti by auto
      moreover have "unat (active_id e) + 1 < 2 ^ 32" using id by (simp add: put)
      ultimately show ?thesis using put_order [OF ok(1,2) einv _ _ ord' i put] c(4) put by auto
    next
      case item
      then have b: "batch_ok b" "seq < 2 ^ 64" using ti by auto
      have "unat (active_id e) + 1 < 2 ^ 32" using id by (simp add: item)
      from item_order [OF ok einv b(1) this b(2) ord' i item c(4)] show ?thesis by (metis append_Nil2)
    next
      case fin
      then have b: "batch_ok b" "seq < 2 ^ 64" "xs ! i = OpCommit b" using ti by auto
      have "unat (active_id e) + 1 < 2 ^ 32" using id by (simp add: fin)
      from finish_order [OF ok einv b(1) this b(2) ord' i fin b(3) c(4)] show ?thesis by blast
    qed (use ti in auto)
  qed
qed

lemma conc_run_order:
  assumes ok: "crates_ok E" "os_ok E" "hash_ok E" and fits: "list_all log_fits xs" and n: "n < 2 ^ 32" "q < 2 ^ 64"
  shows "conc_run E c c' \<Longrightarrow> conc_inv E V xs n q c \<Longrightarrow> log_order E m xs is c \<Longrightarrow>
    \<exists>js. log_order E m xs (is @ js) c'"
proof (induction rule: conc_run.induct)
  case (conc_refl c)
  then show ?case by (metis append_Nil2)
next
  case (conc_more c c' c'')
  have cf: "list_all conc_fits xs" using fits log_fits_conc_fits by (auto simp: list_all_iff)
  obtain js where js: "log_order E m xs (is @ js) c'" using conc_more by blast
  have "conc_inv E V xs n q c'" by (rule conc_run_inv [OF ok cf n conc_more(1,4)])
  from conc_step_order [OF ok this fits n js conc_more(2)] show ?case by (metis append.assoc)
qed

text \<open>At the start nothing is in the log that the running database does not have.\<close>

lemma log_order_start:
  assumes ok: "crates_ok E" "os_ok E" and inv: "db_inv E opts m st"
  shows "log_order E m xs [] (map thread_of xs, st)"
proof -
  obtain e fs where st: "st = (e, fs)" by (cases st)
  have ei: "engine_inv E (e, fs)" "kv E (e, fs) = m" using inv by (simp_all add: db_inv_def st)
  obtain logs where logs: "log_state E (e, fs) logs" using inv by (auto simp: db_inv_def st)
  obtain ix txns cur where rep: "replay E (log_entries E logs) = (ix, txns, cur)" by (cases "replay E (log_entries E logs)")
  have l: "log_files E (e, fs) logs" "ix = index_entries E (eng_index e)" "cur < seq_no e" "\<forall>n \<ge> seq_no e. txns n = []"
    using logs by (simp_all add: log_state_def replays_to_def rep)
  note reads = engine_inv_reads [OF ei(1)]
  have "entry_is E (e, fs) k (m k) (ix k)" for k
  proof (cases "ix k")
    case None
    then show ?thesis using kv_indexed_iff [OF ok reads, of k] l(2) ei(2) by simp
  next
    case (Some p)
    then have p: "index_entries E (eng_index (fst (e, fs))) k = Some p" using l(2) by simp
    then have "entry_ok E (e, fs) k p" using reads by (auto simp: reads_inv_def)
    then obtain r j where r: "k \<noteq> []" "pos_file_id p \<in> known_ids (fst (e, fs))"
      "record_at E (file_bytes (e, fs) (pos_file_id p)) (unat (pos_offset p)) r"
      "rec_type r = Normal" "parse_log_record_key E (rec_key r) = Ok (k, j)" by (auto elim: entry_okE)
    have "m k = Some (rec_value r)" using get_indexed [OF ok reads p r(3,4)] ei(2) by (auto simp: kv_def)
    then show ?thesis using Some r by (auto simp: value_at_def)
  qed
  then have "stands_for E (e, fs) ix m" by (simp add: stands_for_def)
  moreover have free: "\<not> holds_lock (thread_of x) \<and> \<not> logged (thread_of x)" for x
    by (cases x rule: thread_of.cases) (simp_all add: holds_lock_def)
  moreover have "\<forall>t \<in> set (map thread_of xs). open_txn E (e, fs) txns t" by (auto intro!: open_txn_free simp: free)
  ultimately have "log_holds E (map thread_of xs) (e, fs) m" unfolding log_holds_def using l(1,3,4) rep by auto
  then show ?thesis using free by (simp add: log_order_def st one_holder_def)
qed

subsection \<open>Opening again\<close>

lemma log_order_reopens:
  assumes S: "setting E opts" and inv: "engine_inv E (e, fs)" and opts: "eng_options e = opts"
    and seq: "seq_no e < 2 ^ 64" and ord: "log_order E m xs is (ts, e, fs)"
  obtains e' fs' where "engine_open E opts (killed fs) = Some (Ok e', fs')" "kv E (e', fs') = after_calls xs is m"
proof -
  note s = settingD [OF S]
  let ?m = "after_calls xs is m"
  obtain logs ix txns cur where l: "log_files E (e, fs) logs" "replay E (log_entries E logs) = (ix, txns, cur)"
    "cur < seq_no e" "stands_for E (e, fs) ix ?m"
    using ord by (auto simp: log_order_def log_holds_def)
  have disk: "disk_log E (dir_path opts) (killed fs) logs" "logs \<noteq> []"
    using l(1) opts by (simp_all add: log_files_def killed_def)
  have free: "(dir_path opts, FILE_LOCK_NAME) \<notin> set (fs_locks (killed fs))" by (simp add: killed_def)
  let ?fs = "locked_fs (dir_path opts) (killed fs)"
  have "cur + 1 < 2 ^ 64" using l(3) seq by simp
  from engine_open_log [OF s(1,2,4-6) disk s(9) free l(2) this] obtain e' where
    e': "engine_open E opts (killed fs) = Some (Ok e', ?fs)" "opened_engine E opts logs cur e'"
      "reads_inv E (e', ?fs)" "index_entries E (eng_index e') = ix" by blast
  have bytes: "file_bytes (e', ?fs) fid = file_bytes (e, fs) fid" for fid
    using e'(2) opts
    by (simp add: file_bytes_def data_path_def get_data_file_name_def opened_engine_def locked_fs_frame
        data_file_name_neq killed_def)
  have "kv E (e', ?fs) k = ?m k" for k
  proof (cases "?m k")
    case None
    then have "ix k = None" using l(4) by (auto simp: stands_for_def dest: spec [of _ k])
    then show ?thesis using kv_indexed_iff [OF s(1,2) e'(3), of k] e'(4) None by simp
  next
    case (Some v)
    have "entry_is E (e, fs) k (?m k) (ix k)" using l(4) by (simp add: stands_for_def)
    then obtain p where p: "ix k = Some p" "value_at E (\<lambda>_. {v}) (e, fs) k p" by (auto simp: Some entry_is_def)
    then obtain r where r: "record_at E (file_bytes (e', ?fs) (pos_file_id p)) (unat (pos_offset p)) r"
      "rec_type r = Normal" "rec_value r = v" by (auto simp: value_at_def bytes)
    have "index_entries E (eng_index (fst (e', ?fs))) k = Some p" using p(1) e'(4) by simp
    from get_indexed [OF s(1,2) e'(3) this r(1,2)] show ?thesis using r(3) Some by (simp add: kv_def)
  qed
  then show ?thesis using that e'(1) by blast
qed

text \<open>
  What is found after the process is killed in the middle of its calls: the calls \<open>is\<close> one after the
  other.  They are those whose records are in the log, all calls that have returned among them.
\<close>

definition recovers ::
  "('s, 'b) env \<Rightarrow> options \<Rightarrow> (bytes \<Rightarrow> bytes option) \<Rightarrow> conc_op list \<Rightarrow> nat list \<Rightarrow> thread list \<times> ('s, 'b) st \<Rightarrow> bool" where
  "recovers E opts m xs is c \<longleftrightarrow>
     distinct is \<and> set is = {i. i < length xs \<and> logged (fst c ! i)} \<and>
     (\<exists>e fs. engine_open E opts (killed (snd (snd c))) = Some (Ok e, fs) \<and> kv E (e, fs) = after_calls xs is m)"

lemma order_recovers:
  assumes S: "setting E opts" and inv: "conc_inv E V xs n q (ts, e, fs)" and q: "q < 2 ^ 64"
    and opts: "eng_options e = opts" and ord: "log_order E m xs is (ts, e, fs)"
  shows "recovers E opts m xs is (ts, e, fs)"
proof -
  have c: "engine_inv E (e, fs)" "length ts = length xs" "seq_no e < 2 ^ 64"
    using inv q by (auto simp: conc_inv_def conc_state_def dest: list_all2_lengthD)
  obtain e' fs' where "engine_open E opts (killed fs) = Some (Ok e', fs')" "kv E (e', fs') = after_calls xs is m"
    by (rule log_order_reopens [OF S c(1) opts c(3) ord])
  then show ?thesis using ord c(2) by (auto simp: recovers_def log_order_def)
qed

text \<open>What a run leaves as it is.\<close>

lemma later_trans: "later a b \<Longrightarrow> later b c \<Longrightarrow> later a c"
  unfolding later_def using grows_trans by (metis subset_trans)

lemma conc_run_later: "conc_run E c c' \<Longrightarrow> conc_inv E V xs n q c \<Longrightarrow> crates_ok E \<Longrightarrow> os_ok E \<Longrightarrow> hash_ok E \<Longrightarrow>
    list_all conc_fits xs \<Longrightarrow> n < 2 ^ 32 \<Longrightarrow> q < 2 ^ 64 \<Longrightarrow> later (snd c) (snd c')"
proof (induction rule: conc_run.induct)
  case (conc_more c c' c'')
  note ok = conc_more.prems(2-4)
  have inv: "conc_inv E V xs n q c'" by (rule conc_run_inv [OF ok conc_more.prems(5-7) conc_more(1) conc_more.prems(1)])
  obtain i ts e fs t st' where c: "c' = (ts, e, fs)" "c'' = (ts[i := t], st')" "i < length ts"
    "thread_step E (ts ! i) (e, fs) = (t, st')"
    using conc_more(2) by (auto simp: can_move_def elim!: conc_stepE)
  have "later (e, fs) st'"
    using conc_inv_moves [OF ok inv [unfolded c(1)] conc_more.prems(5-7) c(3)] by (simp add: step_ok_def c(4))
  then show ?case using conc_more.IH conc_more.prems later_trans by (simp add: c) blast
qed simp

end
