(* ===== verification/ConcProps.thy ===== *)
theory ConcProps
  imports ConcLog MergeProps
begin

text \<open>What holds when calls run side by side, and what does not.\<close>

text \<open>C14: However calls of \<open>put\<close>, \<open>get\<close> and \<open>delete\<close> and commits of batches are interleaved, the
  invariant of the engine holds at every moment; a call that has returned has not failed (but for an
  empty key or a batch that is too large), and a \<open>get\<close> has found nothing or a value that its key had
  before or that one of the calls stored under it: never a part of a record or the value of another
  key.\<close>

theorem concurrent_calls_valid:
  assumes "crates_ok E" "os_ok E" "hash_ok E" "engine_inv E st" "list_all conc_fits xs" "conc_room xs st"
    and "conc_run E (map thread_of xs, st) (ts, st')"
  shows "engine_inv E st' \<and> length ts = length xs \<and>
    (\<forall>i out. i < length xs \<longrightarrow> ts ! i = Returned out \<longrightarrow> out_ok (possible_values E st xs) (xs ! i) out) \<and>
    (\<forall>k v. kv E st' k = Some v \<longrightarrow> v \<in> possible_values E st xs k)"
proof -
  let ?V = "possible_values E st xs"
  have inv: "conc_inv E ?V xs (unat (active_id (fst st)) + sum_list (map (appends_left \<circ> thread_of) xs))
      (seq_no (fst st) + length xs) (ts, st')"
    using assms(6) by (intro conc_run_inv [OF assms(1-3,5) _ _ assms(7) conc_inv_start [OF assms(1,2,4)]])
      (simp_all add: conc_room_def)
  then have st': "engine_inv E st'" "index_values E ?V st'" "list_all2 (thread_ok E ?V st') xs ts"
    by (simp_all add: conc_inv_def conc_state_def)
  have "out_ok ?V (xs ! i) out" if "i < length xs" "ts ! i = Returned out" for i out
    using list_all2_nthD [OF st'(3) that(1)] that(2) by simp
  moreover have "v \<in> ?V k" if kv: "kv E st' k = Some v" for k v
  proof -
    note reads = engine_inv_reads [OF st'(1)]
    obtain p where p: "index_entries E (eng_index (fst st')) k = Some p"
      using kv_indexed_iff [OF assms(1,2) reads, of k] kv by auto
    then obtain r n where r: "record_at E (file_bytes st' (pos_file_id p)) (unat (pos_offset p)) r"
      "rec_type r = Normal" "rec_value r \<in> ?V k"
      using st'(2) unfolding index_values_def value_at_def by blast
    show ?thesis using get_indexed [OF assms(1,2) reads p r(1,2)] r(3) kv by (simp add: kv_def)
  qed
  ultimately show ?thesis using st'(1) list_all2_lengthD [OF st'(3)] by auto
qed

text \<open>A \<open>put\<close>, a \<open>get\<close> and the commit of a batch of two keys.\<close>

definition conc_batch0 :: write_batch where
  "conc_batch0 =
     \<lparr>pending_write = [([1], LogRecord_new [1] [11] Normal), ([107], LogRecord_new [107] [12] Normal)],
      wb_options = batch_opts0\<rparr>"

definition conc_calls0 :: "conc_op list" where
  "conc_calls0 = [OpKv (OpPut [107] [118]), OpKv (OpGet [107]), OpCommit conc_batch0]"

lemma conc_calls0_fits: "list_all log_fits conc_calls0" "list_all conc_fits conc_calls0"
  by (simp_all add: conc_calls0_def conc_batch0_def batch_ok_def loggable_def)

lemma concurrent_calls_valid_witness:
  "\<exists>ts st'. conc_run E0 (map thread_of conc_calls0, st0) (ts, st') \<and>
    engine_inv E0 st' \<and> length ts = 3 \<and>
    (\<forall>i out. i < length conc_calls0 \<longrightarrow> ts ! i = Returned out \<longrightarrow>
       out_ok (possible_values E0 st0 conc_calls0) (conc_calls0 ! i) out)"
proof -
  let ?xs = conc_calls0
  obtain ts st' where run: "conc_schedule E0 [0, 2, 2, 2, 1, 2, 0, 1, 2] (map thread_of ?xs, st0) = (ts, st')"
    by (metis surj_pair)
  have "conc_run E0 (map thread_of ?xs, st0) (ts, st')"
    using conc_schedule_run [of E0 "(map thread_of ?xs, st0)" "[0, 2, 2, 2, 1, 2, 0, 1, 2]"] run by simp
  moreover have "conc_room ?xs st0"
    by (simp add: conc_room_def conc_calls0_def conc_batch0_def st0_def)
  from concurrent_calls_valid [OF _ _ _ engine_inv0 conc_calls0_fits(2) this calculation] have
    "engine_inv E0 st' \<and> length ts = length ?xs \<and>
     (\<forall>i out. i < length ?xs \<longrightarrow> ts ! i = Returned out \<longrightarrow> out_ok (possible_values E0 st0 ?xs) (?xs ! i) out)"
    by auto
  ultimately show ?thesis by (intro exI [of _ ts] exI [of _ st']) (simp add: conc_calls0_def)
qed

subsection \<open>Killed in the middle\<close>

text \<open>C13: Whatever calls of \<open>put\<close> and \<open>get\<close> and commits run side by side, the process can be killed at
  any moment: opening the database again succeeds and finds the effect of some of the calls one after
  the other, among them every \<open>put\<close> and every commit that has returned \<open>Ok\<close>; a commit is there as a
  whole or not at all.  What is found later continues the same order, so a call that had returned
  before another one was started comes before it.\<close>

theorem concurrent_kill_is_ordered:
  assumes S: "setting E opts" and run: "db_run E opts m st" and fits: "list_all log_fits xs" and room: "conc_room xs st"
    and c: "conc_run E (map thread_of xs, st) c1" "conc_run E c1 c2"
  shows "\<exists>is js. recovers E opts m xs is c1 \<and> recovers E opts m xs (is @ js) c2"
proof -
  note s = settingD [OF S]
  have db: "db_inv E opts m st" by (rule db_run_inv [OF S run])
  then have st: "engine_inv E st" "eng_options (fst st) = opts" by (simp_all add: db_inv_def)
  have cf: "list_all conc_fits xs" using fits log_fits_conc_fits by (auto simp: list_all_iff)
  let ?n = "unat (active_id (fst st)) + sum_list (map (appends_left \<circ> thread_of) xs)" and ?q = "seq_no (fst st) + length xs"
  have n: "?n < 2 ^ 32" "?q < 2 ^ 64" using room by (simp_all add: conc_room_def)
  note start = conc_inv_start [OF s(1,2) st(1)]
  note inv1 = conc_run_inv [OF s(1-3) cf n c(1) start]
  note inv2 = conc_run_inv [OF s(1-3) cf n c(2) inv1]
  obtain "is" where o1: "log_order E m xs is c1"
    using conc_run_order [OF s(1-3) fits n c(1) start log_order_start [OF s(1,2) db]] by auto
  obtain js where o2: "log_order E m xs (is @ js) c2"
    using conc_run_order [OF s(1-3) fits n c(2) inv1 o1] by blast
  have "eng_options (fst (snd c1)) = opts" using conc_run_later [OF c(1) start s(1-3) cf n] st(2) by (simp add: later_def)
  moreover from this have "eng_options (fst (snd c2)) = opts" using conc_run_later [OF c(2) inv1 s(1-3) cf n] by (simp add: later_def)
  ultimately have "recovers E opts m xs is c1" "recovers E opts m xs (is @ js) c2"
    using order_recovers [OF S _ n(2)] inv1 inv2 o1 o2 by (metis prod.collapse)+
  then show ?thesis by blast
qed

lemma concurrent_kill_is_ordered_witness:
  "\<exists>e fs is js. db_run E0 opts0 Map.empty (e, fs) \<and>
     recovers E0 opts0 Map.empty conc_calls0 is
       (conc_schedule E0 [0, 2, 2, 2, 2, 1] (map thread_of conc_calls0, e, fs)) \<and>
     recovers E0 opts0 Map.empty conc_calls0 (is @ js)
       (conc_schedule E0 [0, 2, 2, 2, 2, 1, 2, 0, 2, 2] (map thread_of conc_calls0, e, fs))"
proof -
  obtain e fs where e: "db_run E0 opts0 Map.empty (e, fs)" "active_id e = 0" "seq_no e = 1" by (rule db_run0)
  let ?c = "(map thread_of conc_calls0, e, fs)"
  have c2: "conc_schedule E0 [0, 2, 2, 2, 2, 1, 2, 0, 2, 2] ?c =
      conc_schedule E0 [2, 0, 2, 2] (conc_schedule E0 [0, 2, 2, 2, 2, 1] ?c)"
    using conc_schedule_append [of E0 "[0, 2, 2, 2, 2, 1]" "[2, 0, 2, 2]" ?c] by (simp only: append_Cons append_Nil)
  have room: "conc_room conc_calls0 (e, fs)"
    by (simp add: conc_room_def conc_calls0_def conc_batch0_def e(2,3))
  show ?thesis
    using concurrent_kill_is_ordered [OF setting0 e(1) conc_calls0_fits(1) room conc_schedule_run
        conc_schedule_run, of "[0, 2, 2, 2, 2, 1]" "[2, 0, 2, 2]", folded c2] e(1)
    by blast
qed

subsection \<open>A commit seen half\<close>

text \<open>A call of one thread that is not interrupted, when no other thread has the lock of the commits.\<close>

lemma alone_conc_run:
  assumes "alone E (t, st) (t', st')" "i < length ts" "\<And>j. j < length ts \<Longrightarrow> j \<noteq> i \<Longrightarrow> \<not> holds_lock (ts ! j)"
  shows "conc_run E (ts[i := t], st) (ts[i := t'], st')"
proof -
  obtain steps where "set steps \<subseteq> {0}" "conc_schedule E steps ([t], st) = ([t'], st')"
    using assms(1) by (auto simp: alone_def)
  then show ?thesis
  proof (induction steps arbitrary: t st)
    case (Cons n steps)
    obtain t1 st1 where s: "thread_step E t st = (t1, st1)" by (metis surj_pair)
    have "can_move (ts[i := t]) i"
      using assms(2,3) by (auto simp: can_move_def list_ex_length nth_list_update takes_lock_def holds_lock_def
          split: thread.splits commit_stage.splits)
    then have "conc_step E (ts[i := t], st) (ts[i := t, i := t1], st1)"
      by (rule conc_step.intros) (simp add: assms(2) s)
    then have "conc_run E (ts[i := t], st) (ts[i := t1], st1)" by (auto intro: conc_more [OF conc_refl])
    moreover have "conc_run E (ts[i := t1], st1) (ts[i := t'], st')" by (rule Cons.IH) (use Cons.prems s in auto)
    ultimately show ?case by (rule conc_run_trans)
  qed (simp add: conc_refl)
qed

lemma get_conc_run:
  assumes "i < length ts" "ts ! i = GetStart k"
  shows "conc_run E (ts, st) (ts[i := Returned (OutBytes (get E k st))], st)"
proof -
  let ?c = "conc_schedule E [i, i] (ts, st)"
  have "?c = (ts[i := Returned (OutBytes (get E k st))], st)"
    using assms by (auto simp: get_def can_move_def takes_lock_def split: res.split option.split)
  then show ?thesis using conc_schedule_run [of E "(ts, st)" "[i, i]"] by simp
qed

lemma kv_get: "kv E st k = Some v \<Longrightarrow> get E k st = Ok v"
  by (simp add: kv_def split: res.splits)

text \<open>A commit up to its first update of the index.\<close>

lemma commit_reaches_index:
  assumes ok: "crates_ok E" "os_ok E" "hash_ok E" and inv: "engine_inv E (e, fs)" and b: "batch_fits b (e, fs)"
  obtains e' fs' positions where
    "alone E (Committing b CheckSize, e, fs) (Committing b (IndexItems positions (pending_items E b)), e', fs')"
    "engine_inv E (e', fs')" "kv E (e', fs') = kv E (e, fs)" "items_at E (e', fs') positions (pending_items E b)"
proof -
  have bok: "batch_ok b" and r: "room (length (pending_write b) + 1) (e, fs)"
    and nb: "pending_write b \<noteq> []" "\<not> max_batch_num (wb_options b) < length (pending_write b)"
    using b by (simp_all add: batch_fits_def)
  note items = pending_items_props [OF bok ok(3)]
  let ?seq = "seq_no e" and ?items = "pending_items E b"
  let ?e = "e\<lparr>seq_no := fetch_add ?seq 1\<rparr>"
  have seq: "?seq < 2 ^ 64" using r by (simp add: room_def)
  obtain en where en: "encode_length_delimiter E ?seq = Some en" using encode_delimiter_total [OF ok(1) seq] .
  have inv0: "engine_inv E (?e, fs)" "kv E (?e, fs) = kv E (e, fs)" using inv by simp_all
  have lg: "\<forall>r \<in> set ?items. loggable (rec_key r) (rec_value r)" using items(2) batch_okD(3) [OF bok] by blast
  have id: "unat (active_id ?e) + length ?items + 1 < 2 ^ 32" using r items(3) by (simp add: room_def)
  obtain ps e1 fs1 q e2 fs2 fs3 where a:
    "append_items E ?seq ?items [] (?e, fs) = (Ok (fold (\<lambda>(r, p). AList.update (rec_key r) p) (zip ?items ps) []), e1, fs1)"
    "length ps = length ?items" "append_log_record E (fin_rec en) (e1, fs1) = (Ok q, e2, fs2)"
    "(if wb_sync_writes (wb_options b) then engine_sync E (e2, fs2) else (Ok (), e2, fs2)) = (Ok (), e2, fs3)"
    "engine_inv E (e2, fs3)" "kv E (e2, fs3) = kv E (?e, fs)"
    "\<forall>(r, p) \<in> set (zip ?items ps). item_at E (e2, fs3) r p"
    by (rule append_txn_ok [OF ok(1,2) en seq inv0(1) lg id, of "wb_sync_writes (wb_options b)"]) blast
  let ?positions = "fold (\<lambda>(r, p). AList.update (rec_key r) p) (zip ?items ps) []"
  have fin: "log_record_key_with_seq E (string_bytes TXN_FIN_KEY) ?seq = Ok (en @ string_bytes TXN_FIN_KEY)"
    by (simp add: log_record_key_with_seq_def en)
  have "alone E (Committing b (AppendItems ?seq [] ?positions), e1, fs1) (Committing b (IndexItems ?positions ?items), e2, fs3)"
    by (rule alone_step, simp add: fin a(3) [unfolded fin_rec_def] continue_def,
        rule alone_step, simp add: a(4) continue_def alone_refl)
  moreover have "alone E (Committing b (AppendItems ?seq ?items []), ?e, fs) (Committing b (AppendItems ?seq [] ?positions), e1, fs1)"
    using alone_append [of E b ?seq ?items "[]" "(?e, fs)"] by (simp only: a(1) continue_def prod.case res.case)
  ultimately have "alone E (Committing b (AppendItems ?seq ?items []), ?e, fs) (Committing b (IndexItems ?positions ?items), e2, fs3)"
    using alone_trans by blast
  then have "alone E (Committing b CheckSize, e, fs) (Committing b (IndexItems ?positions ?items), e2, fs3)"
    using nb by (intro alone_step) (simp add: alone_step)
  moreover have "items_at E (e2, fs3) ?positions ?items"
    unfolding items_at_def
  proof
    fix r
    assume "r \<in> set ?items"
    then obtain p where p: "(r, p) \<in> set (zip ?items ps)" using a(2) by (metis in_set_impl_in_set_zip1)
    then show "\<exists>p. map_of ?positions (rec_key r) = Some p \<and> item_at E (e2, fs3) r p"
      using fold_positions [OF items(1) a(2) p] a(7) by blast
  qed
  ultimately show ?thesis using that a(5,6) inv0(2) by metis
qed

text \<open>It goes on with the first item of the batch, and it ends with all of them.\<close>

lemma commit_indexes_first:
  assumes ok: "crates_ok E" "os_ok E" "hash_ok E" and inv: "engine_inv E (e, fs)" and b: "batch_fits b (e, fs)"
    and first: "pending_items E b = r # items" and r: "rec_type r = Normal"
  obtains old positions e' fs' where
    "alone E (Committing b CheckSize, e, fs) (Committing b (CountOld old positions items), e', fs')"
    "engine_inv E (e', fs')" "kv E (e', fs') = (kv E (e, fs))(rec_key r \<mapsto> rec_value r)"
    "items_at E (e', fs') positions items"
proof -
  have bok: "batch_ok b" using b by (simp add: batch_fits_def)
  obtain e1 fs1 ps where a:
    "alone E (Committing b CheckSize, e, fs) (Committing b (IndexItems ps (r # items)), e1, fs1)"
    "engine_inv E (e1, fs1)" "kv E (e1, fs1) = kv E (e, fs)" "items_at E (e1, fs1) ps (r # items)"
    using commit_reaches_index [OF ok inv b] first by metis
  have k: "rec_key r \<noteq> []"
    using pending_items_props(2) [OF bok ok(3), of r] batch_okD(3) [OF bok, of "rec_key r" r]
    by (simp add: first loggable_def)
  obtain p where p: "map_of ps (rec_key r) = Some p" "item_at E (e1, fs1) r p" using a(4) by (auto simp: items_at_def)
  then obtain q n where q: "record_at E (file_bytes (e1, fs1) (pos_file_id p)) (unat (pos_offset p)) q"
    "pos_file_id p \<in> known_ids e1" "rec_type q = Normal" "parse_log_record_key E (rec_key q) = Ok (rec_key r, n)"
    "rec_value q = rec_value r"
    by (auto simp: item_at_def r)
  have files: "files_inv (e1, fs1)" "grows fs1 fs1" "same_index e1 e1" "bw_ok e1" using a(2) by (simp_all add: engine_inv_def)
  obtain i where i: "index_put E (eng_index e1) (rec_key r) p = (Ok (index_entries E (eng_index e1) (rec_key r)), i)"
    "engine_inv E (e1\<lparr>eng_index := i\<rparr>, fs1)"
    "kv E (e1\<lparr>eng_index := i\<rparr>, fs1) = (kv E (e, fs))(rec_key r \<mapsto> rec_value r)"
    using point_index [OF ok(1,2) a(2) files q(1-4) k] by (auto simp: a(3) q(5))
  let ?old = "index_entries E (eng_index e1) (rec_key r)"
  have "alone E (Committing b (IndexItems ps (r # items)), e1, fs1)
      (Committing b (CountOld ?old ps items), e1\<lparr>eng_index := i\<rparr>, fs1)"
    by (rule alone_step) (simp add: p(1) i(1) r continue_def alone_refl)
  moreover have "items_at E (e1\<lparr>eng_index := i\<rparr>, fs1) ps items"
    by (rule items_at_later [of E "(e1, fs1)"]) (use a(4) in \<open>simp_all add: items_at_def\<close>)
  ultimately show ?thesis using that alone_trans [OF a(1)] i(2,3) by blast
qed

lemma commit_finishes:
  assumes ok: "crates_ok E" "os_ok E" "hash_ok E" and inv: "engine_inv E (e, fs)" and b: "batch_ok b"
    and at: "items_at E (e, fs) positions items" and sub: "set items \<subseteq> set (pending_items E b)"
  obtains st' where "alone E (Committing b (CountOld old positions items), e, fs) (Returned (OutUnit (Ok ())), st')"
    "kv E st' = fold item_effect items (kv E (e, fs))"
proof -
  let ?e = "add_reclaim old e"
  define qs where "qs = map (\<lambda>r. the (map_of positions (rec_key r))) items"
  have at': "items_at E (?e, fs) positions items" by (rule items_at_later [OF at]) simp
  have "item_at E (?e, fs) r p \<and> map_of positions (rec_key r) = Some p" if "(r, p) \<in> set (zip items qs)" for r p
  proof -
    have "r \<in> set items" "p = the (map_of positions (rec_key r))"
      using that set_zip_leftD [OF that] by (auto simp: qs_def in_set_zip)
    then show ?thesis using at' by (auto simp: items_at_def)
  qed
  then have rest: "\<forall>(r, p) \<in> set (zip items qs). item_at E (?e, fs) r p \<and> map_of positions (rec_key r) = Some p"
    by blast
  have types: "\<forall>r \<in> set items. rec_type r \<noteq> TxnFinished \<and> rec_key r \<noteq> []"
    using sub pending_items_props(2) [OF b ok(3)] batch_okD(2,3) [OF b] unfolding loggable_def by blast
  have "engine_inv E (?e, fs)" "kv E (?e, fs) = kv E (e, fs)" using inv by simp_all
  with index_batch_ok [OF ok(1,2) _ _ rest types] obtain e3 where
    e3: "index_batch E positions items (?e, fs) = (Ok (), e3, fs)" "kv E (e3, fs) = fold item_effect items (kv E (e, fs))"
    by (auto simp: qs_def)
  have "alone E (Committing b (CountOld old positions items), e, fs) (Returned (OutUnit (Ok ())), e3, fs)"
    using alone_count [of E b positions items
        "\<lambda>st. continue (index_batch E positions items st) (\<lambda>_. Returned (OutUnit (Ok ())))" old "(e, fs)", OF alone_index]
    by (simp add: e3(1) continue_def)
  then show ?thesis using that e3(2) by blast
qed

text \<open>C35: A commit is not isolated: it updates the index entry by entry, so one \<open>get\<close> can return the value
  that the batch gives its key, and a later \<open>get\<close> of another key of the batch, started after the
  first has returned, still the value from before the commit, which then ends with all its writes in
  place.  No order of the three calls explains this.\<close>

theorem commit_not_isolated:
  assumes S: "setting E opts" and run: "db_run E opts m st" and b: "batch_fits b st"
    and first: "pending_items E b = LogRecord_new k1 v1 Normal # items"
    and k2: "k2 \<noteq> k1" "m k2 = Some w" "after_batch b m k2 \<noteq> Some w" and k1: "m k1 \<noteq> Some v1"
  shows "\<exists>c1 c2 c3.
    conc_run E (map thread_of [OpCommit b, OpKv (OpGet k1), OpKv (OpGet k2)], st) c1 \<and>
    fst c1 ! 1 = Returned (OutBytes (Ok v1)) \<and> fst c1 ! 2 = GetStart k2 \<and>
    conc_run E c1 c2 \<and> fst c2 ! 2 = Returned (OutBytes (Ok w)) \<and>
    conc_run E c2 c3 \<and> fst c3 ! 0 = Returned (OutUnit (Ok ())) \<and> kv E (snd c3) = after_batch b m"
proof -
  note s = settingD [OF S]
  obtain e fs where st: "st = (e, fs)" by (cases st)
  have inv: "engine_inv E (e, fs)" "kv E (e, fs) = m" using db_run_inv [OF S run] by (simp_all add: db_inv_def st)
  have bok: "batch_ok b" using b by (simp add: batch_fits_def)
  have "rec_type (LogRecord_new k1 v1 Normal) = Normal" by simp
  from commit_indexes_first [OF s(1-3) inv(1) b [unfolded st] first this] obtain old ps e1 fs1 where
    a: "alone E (Committing b CheckSize, e, fs) (Committing b (CountOld old ps items), e1, fs1)"
    "engine_inv E (e1, fs1)" "kv E (e1, fs1) = m(k1 \<mapsto> v1)" "items_at E (e1, fs1) ps items"
    unfolding LogRecord_new_sel inv(2) by metis
  have "set items \<subseteq> set (pending_items E b)" by (auto simp: first)
  from commit_finishes [OF s(1-3) a(2) bok a(4) this] obtain st3 where
    c: "alone E (Committing b (CountOld old ps items), e1, fs1) (Returned (OutUnit (Ok ())), st3)"
    "kv E st3 = fold item_effect items (m(k1 \<mapsto> v1))" using a(3) by metis
  let ?t0 = "Committing b (CountOld old ps items)" and ?st = "(e1, fs1)"
  let ?g1 = "Returned (OutBytes (Ok v1))" and ?g2 = "Returned (OutBytes (Ok w))"
  have r0: "conc_run E ([Committing b CheckSize, GetStart k1, GetStart k2], e, fs) ([?t0, GetStart k1, GetStart k2], ?st)"
    using alone_conc_run [OF a(1), of 0 "[?t0, GetStart k1, GetStart k2]"]
    by (simp add: holds_lock_def nth_Cons split: nat.split)
  have get: "get E k1 ?st = Ok v1" "get E k2 ?st = Ok w" using a(3) k2 by (simp_all add: kv_get)
  have "conc_run E ([?t0, GetStart k1, GetStart k2], ?st) ([?t0, ?g1, GetStart k2], ?st)"
    using get_conc_run [of 1 "[?t0, GetStart k1, GetStart k2]" k1 E ?st] get(1) by simp
  then have r1: "conc_run E ([Committing b CheckSize, GetStart k1, GetStart k2], e, fs) ([?t0, ?g1, GetStart k2], ?st)"
    by (rule conc_run_trans [OF r0])
  have r2: "conc_run E ([?t0, ?g1, GetStart k2], ?st) ([?t0, ?g1, ?g2], ?st)"
    using get_conc_run [of 2 "[?t0, ?g1, GetStart k2]" k2 E ?st] get(2) by simp
  have r3: "conc_run E ([?t0, ?g1, ?g2], ?st) ([Returned (OutUnit (Ok ())), ?g1, ?g2], st3)"
    using alone_conc_run [OF c(1), of 0 "[?t0, ?g1, ?g2]"] by (simp add: holds_lock_def nth_Cons split: nat.split)
  have "kv E st3 = after_batch b m"
    using fold_pending_items [OF bok s(3), of m] by (simp add: c(2) first after_batch_def [abs_def] item_effect_def)
  then show ?thesis
    using r1 r2 r3 unfolding st
    by (intro exI [of _ "([?t0, ?g1, GetStart k2], ?st)"] exI [of _ "([?t0, ?g1, ?g2], ?st)"]
        exI [of _ "([Returned (OutUnit (Ok ())), ?g1, ?g2], st3)"]) simp
qed

lemma commit_not_isolated_witness:
  "\<exists>st c1 c2 c3. db_run E0 opts0 [[107] \<mapsto> [118]] st \<and>
    conc_run E0 (map thread_of [OpCommit conc_batch0, OpKv (OpGet [1]), OpKv (OpGet [107])], st) c1 \<and>
    fst c1 ! 1 = Returned (OutBytes (Ok [11])) \<and> fst c1 ! 2 = GetStart [107] \<and>
    conc_run E0 c1 c2 \<and> fst c2 ! 2 = Returned (OutBytes (Ok [118])) \<and>
    conc_run E0 c2 c3 \<and> fst c3 ! 0 = Returned (OutUnit (Ok ())) \<and>
    kv E0 (snd c3) = after_batch conc_batch0 [[107] \<mapsto> [118]]"
proof -
  obtain e fs where e: "db_run E0 opts0 Map.empty (e, fs)" "active_id e = 0" "seq_no e = 1" by (rule db_run0)
  have inv: "engine_inv E0 (e, fs)" using db_run_inv [OF setting0 e(1)] by (simp add: db_inv_def)
  have "storable [107] [118]" "unat (active_id e) + 1 < 2 ^ 32" by (simp_all add: storable_def e(2))
  with put_ok [OF _ _ inv, of "[107]" "[118]"] obtain e' fs' where
    p: "put E0 [107] [118] (e, fs) = (Ok (), e', fs')" "unat (active_id e') \<le> 1" "seq_no e' = 1"
    by (auto simp: e(2,3))
  have run: "db_run E0 opts0 [[107] \<mapsto> [118]] (e', fs')"
    using db_run.stored [OF e(1), of "[107]" "[118]"] by (simp add: p(1) loggable_def room_def e(2,3))
  have b: "batch_fits conc_batch0 (e', fs')"
    using p(2,3) by (simp add: batch_fits_def batch_ok_def conc_batch0_def loggable_def room_def batch_opts0_def)
  have items: "pending_items E0 conc_batch0 = LogRecord_new [1] [11] Normal # [LogRecord_new [107] [12] Normal]"
    by (simp add: pending_items_def conc_batch0_def E0_def List.map_filter_simps)
  have "after_batch conc_batch0 [[107] \<mapsto> [118]] [107] \<noteq> Some [118]"
    by (simp add: after_batch_def batch_view_def conc_batch0_def)
  from commit_not_isolated [OF setting0 run b items _ _ this] show ?thesis using run by force
qed

subsection \<open>Two \<open>put\<close> calls on one key\<close>

lemma put_puts_record:
  assumes ok: "crates_ok E" "os_ok E" and inv: "engine_inv E (e, fs)" and kv: "loggable k v"
    and id: "unat (active_id e) + 1 < 2 ^ 32"
  obtains p e' fs' where "thread_step E (PutStart k v) (e, fs) = (PutAppended k p, e', fs')"
    "engine_inv E (e', fs')" "kv E (e', fs') = kv E (e, fs)" "later (e, fs) (e', fs')" "same_index e e'"
    "unat (active_id e') \<le> unat (active_id e) + 1" "value_at E (\<lambda>_. {v}) (e', fs') k p"
proof -
  note key = key_with_seq_0 [OF ok(1), of k]
  let ?r = "LogRecord_new (0 # k) v Normal"
  have good: "good_record E ?r"
    using good_with_seq [OF ok(1) key] kv by (simp add: loggable_def NON_TRANSACTION_SEQ_NO_def)
  have files: "files_inv (e, fs)" "bw_ok e" using inv by (simp_all add: engine_inv_def)
  from append_logged [OF ok files good id] obtain p e' fs' where
    a: "append_log_record E ?r (e, fs) = (Ok p, e', fs')"
    "files_inv (e', fs')" "bw_ok e'" "grows fs fs'" "same_index e e'"
    "unat (active_id e') \<le> unat (active_id e) + 1"
    "record_at E (file_bytes (e', fs') (pos_file_id p)) (unat (pos_offset p)) ?r" "pos_file_id p \<in> known_ids e'"
    by metis
  have "parse_log_record_key E (0 # k) = Ok (k, 0)"
    using parse_key_with_seq [OF ok(1) key] by (simp add: NON_TRANSACTION_SEQ_NO_def)
  then have "value_at E (\<lambda>_. {v}) (e', fs') k p" using a(7,8) kv by (auto simp: value_at_def loggable_def)
  moreover have "later (e, fs) (e', fs')" using a(4,5) by (simp add: later_def same_index_def)
  moreover have "thread_step E (PutStart k v) (e, fs) = (PutAppended k p, e', fs')"
    using a(1) kv by (simp add: continue_def key loggable_def)
  ultimately show ?thesis using that engine_inv_frame [OF ok inv a(2,4,5,3)] a(5,6) by blast
qed

lemma value_indexed:
  assumes ok: "crates_ok E" "os_ok E" and inv: "engine_inv E (e, fs)" and at: "value_at E (\<lambda>_. {v}) (e, fs) k p"
  obtains old i where "index_put E (eng_index e) k p = (Ok old, i)" "engine_inv E (e\<lparr>eng_index := i\<rparr>, fs)"
    "kv E (e\<lparr>eng_index := i\<rparr>, fs) = (kv E (e, fs))(k \<mapsto> v)"
proof -
  obtain r n where r: "record_at E (file_bytes (e, fs) (pos_file_id p)) (unat (pos_offset p)) r" "pos_file_id p \<in> known_ids e"
    "rec_type r = Normal" "parse_log_record_key E (rec_key r) = Ok (k, n)" "k \<noteq> []" "rec_value r = v"
    using at by (auto simp: value_at_def)
  have "files_inv (e, fs)" "grows fs fs" "same_index e e" "bw_ok e" using inv by (simp_all add: engine_inv_def)
  from point_index [OF ok inv this r(1-5)] show ?thesis using that r(6) by auto
qed

text \<open>C39: Two \<open>put\<close> calls on one key can end in a disagreement of the index and the log: both return, the
  running database has the value of one, and after the process is gone and the database is opened
  again it has the value of the other.\<close>

theorem concurrent_puts_diverge:
  assumes S: "setting E opts" and run: "db_run E opts m (e, fs)"
    and kv: "loggable k v1" "loggable k v2" and r: "room 2 (e, fs)"
  shows "\<exists>e' fs'. conc_run E (map thread_of [OpKv (OpPut k v1), OpKv (OpPut k v2)], e, fs)
      ([Returned (OutUnit (Ok ())), Returned (OutUnit (Ok ()))], e', fs') \<and>
    kv E (e', fs') = m(k \<mapsto> v1) \<and>
    (\<exists>e2 fs2. engine_open E opts (killed fs') = Some (Ok e2, fs2) \<and> kv E (e2, fs2) = m(k \<mapsto> v2))"
proof -
  note s = settingD [OF S]
  let ?xs = "[OpKv (OpPut k v1), OpKv (OpPut k v2)]"
  have db: "db_inv E opts m (e, fs)" by (rule db_run_inv [OF S run])
  then have inv: "engine_inv E (e, fs)" "eng_options e = opts" "kv E (e, fs) = m" by (simp_all add: db_inv_def)
  have id: "unat (active_id e) + 1 < 2 ^ 32" using r by (simp add: room_def)
  obtain p1 e1 fs1 where a1: "thread_step E (PutStart k v1) (e, fs) = (PutAppended k p1, e1, fs1)"
    "engine_inv E (e1, fs1)" "kv E (e1, fs1) = m" "later (e, fs) (e1, fs1)" "same_index e e1"
    "unat (active_id e1) \<le> unat (active_id e) + 1" "value_at E (\<lambda>_. {v1}) (e1, fs1) k p1"
    by (rule put_puts_record [OF s(1,2) inv(1) kv(1) id]) (use inv(3) in simp)
  have id1: "unat (active_id e1) + 1 < 2 ^ 32" using a1(6) r by (simp add: room_def)
  obtain p2 e2 fs2 where a2: "thread_step E (PutStart k v2) (e1, fs1) = (PutAppended k p2, e2, fs2)"
    "engine_inv E (e2, fs2)" "kv E (e2, fs2) = m" "later (e1, fs1) (e2, fs2)" "same_index e1 e2"
    "unat (active_id e2) \<le> unat (active_id e1) + 1" "value_at E (\<lambda>_. {v2}) (e2, fs2) k p2"
    by (rule put_puts_record [OF s(1,2) a1(2) kv(2) id1]) (use a1(3) in simp)
  obtain old2 i2 where i2: "index_put E (eng_index e2) k p2 = (Ok old2, i2)" "engine_inv E (e2\<lparr>eng_index := i2\<rparr>, fs2)"
    "kv E (e2\<lparr>eng_index := i2\<rparr>, fs2) = m(k \<mapsto> v2)"
    by (rule value_indexed [OF s(1,2) a2(2,7)]) (use a2(3) in simp)
  have at1: "value_at E (\<lambda>_. {v1}) (e2\<lparr>eng_index := i2\<rparr>, fs2) k p1" using value_at_later [OF a1(7) a2(4)] by simp
  obtain old1 i1 where "index_put E (eng_index (e2\<lparr>eng_index := i2\<rparr>)) k p1 = (Ok old1, i1)"
    "kv E (e2\<lparr>eng_index := i2, eng_index := i1\<rparr>, fs2) = (kv E (e2\<lparr>eng_index := i2\<rparr>, fs2))(k \<mapsto> v1)"
    by (rule value_indexed [OF s(1,2) i2(2) at1])
  then have i1: "index_put E i2 k p1 = (Ok old1, i1)" "kv E (e2\<lparr>eng_index := i1\<rparr>, fs2) = m(k \<mapsto> v1)"
    by (simp_all add: i2(3))
  let ?f = "add_reclaim old2 (add_reclaim old1 (e2\<lparr>eng_index := i1\<rparr>))"
  have "conc_schedule E [0, 1, 1, 0, 0, 1] (map thread_of ?xs, e, fs) =
      ([Returned (OutUnit (Ok ())), Returned (OutUnit (Ok ()))], ?f, fs2)"
    using a1(1) a2(1) i2(1) i1(1) by (simp add: continue_def can_move_def takes_lock_def del: thread_step.simps(1))
  then have ran: "conc_run E (map thread_of ?xs, e, fs) ([Returned (OutUnit (Ok ())), Returned (OutUnit (Ok ()))], ?f, fs2)"
    using conc_schedule_run [of E "(map thread_of ?xs, e, fs)" "[0, 1, 1, 0, 0, 1]"] by simp
  have o1: "log_order E m ?xs [0] ([PutAppended k p1, PutStart k v2], e1, fs1)"
    using put_order [OF s(1,2) inv(1) kv(1) id log_order_start [OF s(1,2) db, of ?xs] _ _ _ a1(1), of 0] by simp
  have o2: "log_order E m ?xs [0, 1] ([PutAppended k p1, PutAppended k p2], e2, fs2)"
    using put_order [OF s(1,2) a1(2) kv(2) id1 o1 _ _ _ a2(1), of 1] by simp
  have "eng_options e2 = opts" "seq_no e2 < 2 ^ 64" using a1(5) a2(5) inv(2) r by (simp_all add: same_index_def room_def)
  from log_order_reopens [OF S a2(2) this o2] obtain e3 fs3 where
    "engine_open E opts (killed fs2) = Some (Ok e3, fs3)" "kv E (e3, fs3) = m(k \<mapsto> v2)"
    by (auto simp: after_calls_def)
  then show ?thesis using ran i1(2) by (intro exI [of _ ?f] exI [of _ fs2]) simp
qed

lemma concurrent_puts_diverge_witness:
  "\<exists>e fs e' fs'. conc_run E0 (map thread_of [OpKv (OpPut [7] [1]), OpKv (OpPut [7] [2])], e, fs)
      ([Returned (OutUnit (Ok ())), Returned (OutUnit (Ok ()))], e', fs') \<and>
    kv E0 (e', fs') = [[107] \<mapsto> [118], [7] \<mapsto> [1]] \<and>
    (\<exists>e2 fs2. engine_open E0 opts_m (killed fs') = Some (Ok e2, fs2) \<and>
       kv E0 (e2, fs2) = [[107] \<mapsto> [118], [7] \<mapsto> [2]])"
proof -
  obtain e fs where st: "db_run E0 opts_m [[107] \<mapsto> [118]] (e, fs)" "merge_fits (e, fs)"
    by (rule merge_example) blast
  have "room 2 (e, fs)" using st(2) by (simp add: merge_fits_def)
  from concurrent_puts_diverge [OF setting_m st(1) _ _ this, of "[7]" "[1]" "[2]"] show ?thesis
    by (simp add: loggable_def) blast
qed

end
