(* ===== verification/MergeRace.thy ===== *)
theory MergeRace
  imports ConcProps
begin

text \<open>
  A merge in the middle of a \<open>put\<close>.  A \<open>put\<close> appends its record under the lock of the active file and
  updates the index afterwards, without a lock; a merge keeps the records the index points to, of all
  files there are when it begins.
\<close>

subsection \<open>The state after the append\<close>

lemma put_logs_record:
  assumes ok: "crates_ok E" "os_ok E" and inv: "engine_inv E (e, fs)" and log: "log_state E (e, fs) logs"
    and kv: "loggable k v" and id: "unat (active_id e) + 1 < 2 ^ 32"
    and step: "thread_step E (PutStart k v) (e, fs) = (t, e1, fs')"
  obtains p logs1 where "t = PutAppended k p" "engine_inv E (e1, fs')" "kv E (e1, fs') = kv E (e, fs)"
    "eng_options e1 = eng_options e" "value_at E (\<lambda>_. {v}) (e1, fs') k p"
    "log_files E (e1, fs') logs1" "index_logged E e1 logs1"
proof -
  note key = key_with_seq_0 [OF ok(1), of k]
  let ?r = "LogRecord_new (0 # k) v Normal"
  obtain p e2 fs2 where a: "thread_step E (PutStart k v) (e, fs) = (PutAppended k p, e2, fs2)"
    "engine_inv E (e2, fs2)" "kv E (e2, fs2) = kv E (e, fs)" "same_index e e2"
    "value_at E (\<lambda>_. {v}) (e2, fs2) k p"
    by (rule put_puts_record [OF ok inv kv id])
  have good: "good_record E ?r"
    using good_with_seq [OF ok(1) key] kv by (simp add: loggable_def NON_TRANSACTION_SEQ_NO_def)
  obtain q e'' fs'' where b: "append_log_record E ?r (e, fs) = (Ok q, e'', fs'')"
    "\<forall>logs. log_files E (e, fs) logs \<longrightarrow>
       (\<exists>logs'. log_files E (e'', fs'') logs' \<and> log_entries E logs' = log_entries E logs @ [(q, ?r)])"
    by (rule append_in_log [OF ok inv good id])
  have same: "e'' = e1" "fs'' = fs'" "t = PutAppended k p" "e2 = e1" "fs2 = fs'"
    using step a(1) b(1) kv by (simp_all add: continue_def key loggable_def)
  obtain logs1 where l: "log_files E (e1, fs') logs1" "log_entries E logs1 = log_entries E logs @ [(q, ?r)]"
    using b(2) log by (auto simp: same log_state_def)
  have "index_logged E e1 logs1"
    by (rule index_logged_more [OF log_state_logged [OF log]]) (use a(4) l(2) in \<open>auto simp: same same_index_def\<close>)
  then show ?thesis using that [OF same(3)] a(2-5) l(1) by (simp add: same same_index_def)
qed

text \<open>The rest of the call: two steps, which change the index and a counter.\<close>

lemma put_returns:
  assumes ok: "crates_ok E" "os_ok E" and inv: "engine_inv E (e, fs)" and at: "value_at E (\<lambda>_. {v}) (e, fs) k p"
  obtains e' where "conc_schedule E [0, 0] ([PutAppended k p], e, fs) = ([Returned (OutUnit (Ok ()))], e', fs)"
    "engine_inv E (e', fs)" "kv E (e', fs) = (kv E (e, fs))(k \<mapsto> v)" "eng_options e' = eng_options e" "seq_no e' = seq_no e"
proof -
  obtain old i where i: "index_put E (eng_index e) k p = (Ok old, i)" "engine_inv E (e\<lparr>eng_index := i\<rparr>, fs)"
    "kv E (e\<lparr>eng_index := i\<rparr>, fs) = (kv E (e, fs))(k \<mapsto> v)"
    by (rule value_indexed [OF ok inv at])
  show ?thesis by (rule that [of "add_reclaim old (e\<lparr>eng_index := i\<rparr>)"]) (use i in \<open>simp_all add: continue_def\<close>)
qed

subsection \<open>The acknowledged value is lost\<close>

text \<open>C34: A merge that runs between the append of a \<open>put\<close> and its update of the index loses the value: the
  merge succeeds and the call returns \<open>Ok\<close>, the running database answers with the new value, and
  after it was closed, or its process killed, and opened again every key has the value it had before
  the call.  The record was in a file the merge replaced, and the index did not point to it.\<close>

theorem merge_loses_put:
  assumes S: "setting E opts" and run: "db_run E opts m (e, fs)" and kv: "loggable k v" and r: "room 2 (e, fs)"
    and first: "conc_schedule E [0] ([PutStart k v], e, fs) = ([t], e1, fs')"
    and due: "merge_due E (e1, fs')" "merge_fits (e1, fs')"
  shows "\<exists>e2 fs2 e3 fs3 fs4. merge E False (e1, fs') = Some (Ok (), e2, fs2) \<and>
    conc_schedule E [0, 0] ([t], e2, fs2) = ([Returned (OutUnit (Ok ()))], e3, fs3) \<and>
    get E k (e3, fs3) = Ok v \<and> kv E (e3, fs3) = m(k \<mapsto> v) \<and> close E (e3, fs3) = (Ok (), e3, fs4) \<and>
    (\<forall>gs \<in> {fs3, fs4}. \<exists>e5 fs5. engine_open E opts (killed gs) = Some (Ok e5, fs5) \<and> kv E (e5, fs5) = m)"
proof -
  note s = settingD [OF S]
  obtain logs where inv: "engine_inv E (e, fs)" "kv E (e, fs) = m" "eng_options e = opts"
    and log: "log_state E (e, fs) logs"
    using db_run_inv [OF S run] by (auto simp: db_inv_def)
  have id: "unat (active_id e) + 1 < 2 ^ 32" using r by (simp add: room_def)
  have step: "thread_step E (PutStart k v) (e, fs) = (t, e1, fs')"
    using first by (auto simp del: thread_step.simps split: prod.splits)
  obtain p logs1 where a: "t = PutAppended k p" "engine_inv E (e1, fs')" "kv E (e1, fs') = m" "eng_options e1 = opts"
    "value_at E (\<lambda>_. {v}) (e1, fs') k p" "log_files E (e1, fs') logs1" "index_logged E e1 logs1"
    by (rule put_logs_record [OF s(1,2) inv(1) log kv id step]) (simp add: inv(2,3))
  obtain mp where mp: "get_merge_path (dir_path (eng_options e1)) = Ok mp" "no_merge mp fs'"
    "(mp, FILE_LOCK_NAME) \<notin> set (fs_locks fs')" using due(2) by (auto simp: merge_fits_def)
  have id2: "unat (active_id e1) + 2 < 2 ^ 32" "seq_no e1 < 2 ^ 64" using due(2) by (simp_all add: merge_fits_def room_def)
  have size: "data_file_size (eng_options e1) \<noteq> 0" using s(5) by (auto simp: check_options_def a(4) split: if_splits)
  obtain fs2 n mlogs H where g: "merge_to E mp (e1, fs') = Some (Ok (), rotated e1, fs2)"
    "engine_inv E (rotated e1, fs2)" "kv E (rotated e1, fs2) = kv E (e1, fs')"
    "merge_pending E (dir_path (eng_options e1)) mp n mlogs H fs2"
    "merge_copy E (index_entries E (eng_index e1)) logs1 mlogs H"
    "\<And>fid. file_bytes (rotated e1, fs2) fid = file_bytes (e1, fs') fid"
    by (rule merge_outcome [OF s(1,2) a(2,6) mp id2(1) size merge_fits_log [OF s(1) a(6) due(2)]]) blast
  have at: "value_at E (\<lambda>_. {v}) (rotated e1, fs2) k p"
    using a(5) by (auto simp: value_at_def g(6))
  have rot: "eng_options (rotated e1) = opts" "seq_no (rotated e1) < 2 ^ 64" using id2(2) by (simp_all add: rotated_def a(4))
  have still: "kv E (rotated e1, fs2) = m" using g(3) a(3) by (rule trans)
  obtain e3 where e3: "conc_schedule E [0, 0] ([PutAppended k p], rotated e1, fs2) = ([Returned (OutUnit (Ok ()))], e3, fs2)"
    "engine_inv E (e3, fs2)" "kv E (e3, fs2) = m(k \<mapsto> v)" "eng_options e3 = opts" "seq_no e3 < 2 ^ 64"
    using put_returns [OF s(1,2) g(2) at] rot still by metis
  obtain fs4 where fs4: "close E (e3, fs2) = (Ok (), e3, fs4)" "closed_fs E e3 fs2 fs4"
    using close_ok [OF s(1,2) _ e3(5)] e3(2) by (auto simp: engine_inv_def)
  have pend: "merge_pending E (dir_path opts) mp n mlogs H fs2" using g(4) by (simp add: a(4))
  have "merge_pending E (dir_path opts) mp n mlogs H gs" if "gs \<in> {fs2, fs4}" for gs
    using that pend closed_pending [OF _ fs4(2)] by (auto simp: e3(4))
  then have "\<forall>gs \<in> {fs2, fs4}. \<exists>e5 fs5. engine_open E opts (killed gs) = Some (Ok e5, fs5) \<and> kv E (e5, fs5) = m"
    using pending_reopen [OF s(1,2,4-6) engine_inv_reads [OF a(2)] a(6,7) g(5) killed_pending] a(3)
    by (fastforce simp: killed_def)
  moreover have "get E k (e3, fs2) = Ok v" using e3(3) by (simp add: kv_get)
  moreover have "merge E False (e1, fs') = Some (Ok (), rotated e1, fs2)"
    using merge_when_due [OF due(1) mp(1)] g(1) by (rule trans)
  ultimately show ?thesis using e3(1,3) fs4(1) unfolding a(1) by (intro exI conjI)
qed

text \<open>The state after the first step of a call, in the closed example.\<close>

lemma put_stays_small:
  assumes small: "small_db 1 (e, fs)" and inv: "engine_inv E0 (e, fs)"
    and step: "thread_step E0 (PutStart [107] [119]) (e, fs) = (PutAppended k p, e1, fs')"
  shows "small_db 2 (e1, fs')"
proof -
  note s = settingD [OF setting_m]
  let ?r = "LogRecord_new [0, 107] [119] Normal"
  have files: "files_inv (e, fs)" "bw_ok e" using inv by (simp_all add: engine_inv_def)
  have wf: "wf_record ?r" by (simp add: wf_record_def)
  have id: "unat (active_id e) + 1 < 2 ^ 32" using small by (simp add: small_db_def)
  from append_log_record_ok [OF s(1,2) files(1) wf id files(2)] obtain q e2 fs2 en where
    a: "append_log_record E0 ?r (e, fs) = (Ok q, e2, fs2)" "same_index e e2"
      "unat (active_id e2) \<le> unat (active_id e) + 1" "LogRecord_encode E0 ?r = Ok en" "appended e fs en e2 fs2" by blast
  have same: "e2 = e1" "fs2 = fs'" using step a(1) by (simp_all add: continue_def key_with_seq_0 [OF s(1)])
  have "reclaim_size e1 = 0" "eng_options e1 = eng_options e" "seq_no e1 = seq_no e"
    using a(2) small by (simp_all add: same same_index_def small_db_def)
  from small_db_appended [OF small a(5) short_record [OF a(4)] a(3) _ _ this(2,3,1)]
  show ?thesis using appended_data_path [OF a(5)] by (simp add: same numeral_2_eq_2)
qed

lemma merge_loses_put_witness:
  "\<exists>e fs t e1 fs' e2 fs2 e3 fs3 fs4. db_run E0 opts_m [[107] \<mapsto> [118]] (e, fs) \<and>
    conc_schedule E0 [0] ([PutStart [107] [119]], e, fs) = ([t], e1, fs') \<and>
    merge E0 False (e1, fs') = Some (Ok (), e2, fs2) \<and>
    conc_schedule E0 [0, 0] ([t], e2, fs2) = ([Returned (OutUnit (Ok ()))], e3, fs3) \<and>
    get E0 [107] (e3, fs3) = Ok [119] \<and> kv E0 (e3, fs3) = [[107] \<mapsto> [119]] \<and> close E0 (e3, fs3) = (Ok (), e3, fs4) \<and>
    (\<forall>gs \<in> {fs3, fs4}. \<exists>e5 fs5. engine_open E0 opts_m (killed gs) = Some (Ok e5, fs5) \<and>
       kv E0 (e5, fs5) = [[107] \<mapsto> [118]])"
proof -
  note s = settingD [OF setting_m]
  obtain e fs where st: "db_run E0 opts_m [[107] \<mapsto> [118]] (e, fs)" "small_db 1 (e, fs)"
    by (rule merge_example)
  have room: "room 2 (e, fs)" using small_db_fits(2) [OF st(2)] by simp
  have inv: "engine_inv E0 (e, fs)" "kv E0 (e, fs) = [[107] \<mapsto> [118]]"
    using db_run_inv [OF setting_m st(1)] by (simp_all add: db_inv_def)
  have kv: "loggable [107] [119]" and id: "unat (active_id e) + 1 < 2 ^ 32"
    using room by (simp_all add: loggable_def room_def)
  obtain p e1 fs' where a: "thread_step E0 (PutStart [107] [119]) (e, fs) = (PutAppended [107] p, e1, fs')"
    "engine_inv E0 (e1, fs')" "kv E0 (e1, fs') = [[107] \<mapsto> [118]]"
    by (rule put_puts_record [OF s(1,2) inv(1) kv id]) (simp add: inv(2))
  have small: "small_db 2 (e1, fs')" by (rule put_stays_small [OF st(2) inv(1) a(1)])
  have "\<not> is_empty_engine e1" by (rule not_empty_engine [OF s(1,2) a(2), of "[107]" "[118]"]) (simp add: a(3))
  then have fits: "merge_due E0 (e1, fs')" "merge_fits (e1, fs')" using small_db_fits [OF small] by simp_all
  have "conc_schedule E0 [0] ([PutStart [107] [119]], e, fs) = ([PutAppended [107] p], e1, fs')"
    using a(1) by (simp del: thread_step.simps)
  from merge_loses_put [OF setting_m st(1) kv room this fits] this st(1) show ?thesis by fastforce
qed

end
