(* ===== verification/Backup.thy ===== *)
theory Backup
  imports Engine
begin

text \<open>
  Model of \<open>copy_dir\<close> of \<^verbatim>\<open>bitcask-rs/src/util/file.rs\<close> and \<open>Engine::backup\<close> of \<^verbatim>\<open>db.rs\<close>.

  The entries of a directory, its sub-directories with them, are what the operating system lists
  (\<open>list_dir\<close>); they are listed once, before anything is copied.  A copy into the tree below its
  source may go on forever: \<open>copy_entries\<close> is in the option monad.
\<close>

subsection \<open>Calls of \<^verbatim>\<open>std::fs\<close>\<close>

text \<open>A path names a directory or a file.\<close>

definition path_exists :: "fs \<Rightarrow> path \<Rightarrow> bool" where
  "path_exists fs p \<longleftrightarrow> is_dir fs p \<or> p \<noteq> [] \<and> is_file fs (butlast p, last p)"

definition read_entries :: "'z os_scheme \<Rightarrow> fs \<Rightarrow> path \<Rightarrow> (string \<times> bool option) option list option" where
  "read_entries E fs d = (if read_dir_fails E fs d \<or> \<not> is_dir fs d then None else Some (list_dir E fs d))"

text \<open>
  The target is emptied before the source is read, so a file copied onto itself is truncated, as
  the documentation of \<^verbatim>\<open>fs::copy\<close> warns.
\<close>

definition copy_file :: "'z os_scheme \<Rightarrow> fpath \<Rightarrow> fpath \<Rightarrow> fs \<Rightarrow> bool \<times> fs" where
  "copy_file E src dest fs =
     (if copy_fails E fs src dest \<or> \<not> is_file fs src \<or> \<not> is_dir fs (fst dest) \<or> is_dir fs (fst dest @ [snd dest])
      then (False, fs)
      else let fs' = put_file fs dest new_inode
           in (True, put_file fs' dest \<lparr>fdata = file_data fs' src, fsynced = 0\<rparr>))"

subsection \<open>\<open>copy_dir\<close>\<close>

text \<open>The part before the loop.\<close>

definition start_copy ::
  "'z os_scheme \<Rightarrow> path \<Rightarrow> path \<Rightarrow> fs \<Rightarrow> (string \<times> bool option) option list res \<times> fs" where
  "start_copy E src dest fs =
     and_then (if path_exists fs dest then (Ok (), fs)
               else case create_dir_all E dest fs of
                      (True, fs) \<Rightarrow> (Ok (), fs)
                    | (False, fs) \<Rightarrow> (Err FailedToCreateDatabaseDir, fs)) (\<lambda>_ fs.
       case read_entries E fs src of
         None \<Rightarrow> (Err FailedToReadDatabaseDir, fs)
       | Some entries \<Rightarrow> (Ok entries, fs))"

text \<open>The loop, with the call for a sub-directory inside.  \<open>ends_with\<close> compares whole components.\<close>

partial_function (option) copy_entries ::
  "'z os_scheme \<Rightarrow> path \<Rightarrow> path \<Rightarrow> string list \<Rightarrow> (string \<times> bool option) option list \<Rightarrow> fs \<Rightarrow>
   (unit res \<times> fs) option" where
  [code]: "copy_entries E src dest exclude entries fs =
     (case entries of
        [] \<Rightarrow> Some (Ok (), fs)
      | entry # entries \<Rightarrow>
          (case entry of
             None \<Rightarrow> Some (Err FailedToReadDatabaseDir, fs)
           | Some (name, kind) \<Rightarrow>
               if name \<in> set exclude then copy_entries E src dest exclude entries fs
               else
                 (case kind of
                    None \<Rightarrow> Some (Panic, fs)
                  | Some is_sub_dir \<Rightarrow>
                      if is_sub_dir then
                        loop_then
                          (loop_then (Some (start_copy E (src @ [name]) (dest @ [name]) fs)) (\<lambda>sub fs.
                             copy_entries E (src @ [name]) (dest @ [name]) exclude sub fs))
                          (\<lambda>_ fs. copy_entries E src dest exclude entries fs)
                      else
                        (case copy_file E (src, name) (dest, name) fs of
                           (copied, fs) \<Rightarrow>
                             if copied then copy_entries E src dest exclude entries fs
                             else Some (Err FailedToCopyDir, fs)))))"

definition copy_dir :: "'z os_scheme \<Rightarrow> path \<Rightarrow> path \<Rightarrow> string list \<Rightarrow> fs \<Rightarrow> (unit res \<times> fs) option" where
  "copy_dir E src dest exclude fs =
     loop_then (Some (start_copy E src dest fs)) (\<lambda>entries fs. copy_entries E src dest exclude entries fs)"

definition backup :: "('s, 'b) env \<Rightarrow> path \<Rightarrow> ('s, 'b) st \<Rightarrow> (unit res \<times> ('s, 'b) st) option" where
  "backup E dest st =
     map_option (\<lambda>(r, fs). (r, fst st, fs))
       (copy_dir E (dir_path (eng_options (fst st))) dest [FILE_LOCK_NAME] (snd st))"

subsection \<open>Copying a directory of files\<close>

text \<open>What \<open>read_dir\<close> is documented to list, for a directory without sub-directories.\<close>

definition list_dir_ok :: "'z os_scheme \<Rightarrow> bool" where
  "list_dir_ok E \<longleftrightarrow>
     (\<forall>fs d. is_dir fs d \<and> fs_wf fs \<and> (\<forall>n. \<not> is_dir fs (d @ [n])) \<longrightarrow>
        (\<exists>names. list_dir E fs d = map (\<lambda>n. Some (n, Some False)) names \<and> distinct names \<and>
           set names = {n. is_file fs (d, n)}))"

text \<open>The directory \<open>dest\<close> has got the files \<open>N\<close> of \<open>src\<close>.\<close>

definition copied_to :: "path \<Rightarrow> path \<Rightarrow> string set \<Rightarrow> fs \<Rightarrow> fs \<Rightarrow> bool" where
  "copied_to src dest N fs fs' \<longleftrightarrow>
     (\<forall>n. file_data fs' (dest, n) = (if n \<in> N then file_data fs (src, n) else file_data fs (dest, n))) \<and>
     (\<forall>n. is_file fs' (dest, n) \<longleftrightarrow> n \<in> N \<or> is_file fs (dest, n)) \<and>
     (\<forall>d n. d \<noteq> dest \<longrightarrow> file_data fs' (d, n) = file_data fs (d, n) \<and> is_file fs' (d, n) = is_file fs (d, n)) \<and>
     (\<forall>d. is_dir fs' d = is_dir fs d) \<and> fs_locks fs' = fs_locks fs \<and> (fs_wf fs \<longrightarrow> fs_wf fs')"

lemma copied_toD:
  assumes "copied_to src dest N fs fs'"
  shows "file_data fs' (dest, n) = (if n \<in> N then file_data fs (src, n) else file_data fs (dest, n))"
    "is_file fs' (dest, n) \<longleftrightarrow> n \<in> N \<or> is_file fs (dest, n)"
    "d \<noteq> dest \<Longrightarrow> file_data fs' (d, n) = file_data fs (d, n)"
    "d \<noteq> dest \<Longrightarrow> is_file fs' (d, n) = is_file fs (d, n)"
    "is_dir fs' d = is_dir fs d" "fs_locks fs' = fs_locks fs" "fs_wf fs \<Longrightarrow> fs_wf fs'"
  using assms unfolding copied_to_def by blast+

lemma copied_to_trans:
  assumes "copied_to src dest N a b" "copied_to src dest M b c" "src \<noteq> dest"
  shows "copied_to src dest (N \<union> M) a c"
  using assms unfolding copied_to_def by auto

lemma copy_file_ok:
  assumes "os_ok E" "is_file fs (src, n)" "is_dir fs dest" "\<not> is_dir fs (dest @ [n])" "src \<noteq> dest"
  obtains fs' where "copy_file E (src, n) (dest, n) fs = (True, fs')" "copied_to src dest {n} fs fs'"
proof -
  let ?fs' = "put_file (put_file fs (dest, n) new_inode) (dest, n) \<lparr>fdata = file_data fs (src, n), fsynced = 0\<rparr>"
  have "copy_file E (src, n) (dest, n) fs = (True, ?fs')"
    using assms by (simp add: copy_file_def fs_simps)
  then show ?thesis
    by (rule that) (use assms(3,5) in \<open>auto simp: copied_to_def fs_simps fs_wf_put_file\<close>)
qed

lemma copy_entries_ok:
  assumes os: "os_ok E" and neq: "src \<noteq> dest"
    and "\<forall>n \<in> set names. is_file fs (src, n)" "is_dir fs dest" "\<And>n. \<not> is_dir fs (dest @ [n])"
  shows "\<exists>fs'. copy_entries E src dest exclude (map (\<lambda>n. Some (n, Some False)) names) fs = Some (Ok (), fs') \<and>
    copied_to src dest (set names - set exclude) fs fs'"
  using assms(3-)
proof (induction names arbitrary: fs)
  case Nil
  then show ?case by (simp add: copy_entries.simps [of E src dest exclude "[]"] copied_to_def)
next
  case (Cons n names)
  show ?case
  proof (cases "n \<in> set exclude")
    case True
    with Cons.IH [of fs] Cons.prems show ?thesis by (subst copy_entries.simps) (simp add: insert_Diff_if)
  next
    case False
    have n: "is_file fs (src, n)" using Cons.prems(1) by simp
    obtain fs1 where c: "copy_file E (src, n) (dest, n) fs = (True, fs1)" "copied_to src dest {n} fs fs1"
      by (rule copy_file_ok [OF os n Cons.prems(2,3) neq])
    have "\<forall>m \<in> set names. is_file fs1 (src, m)" "is_dir fs1 dest" "\<And>m. \<not> is_dir fs1 (dest @ [m])"
      using Cons.prems neq by (simp_all add: copied_toD(4,5) [OF c(2)])
    from Cons.IH [OF this] obtain fs2 where fs2:
      "copy_entries E src dest exclude (map (\<lambda>n. Some (n, Some False)) names) fs1 = Some (Ok (), fs2)"
      "copied_to src dest (set names - set exclude) fs1 fs2" by blast
    have "copied_to src dest (set (n # names) - set exclude) fs fs2"
      using copied_to_trans [OF c(2) fs2(2) neq] False by (simp add: insert_Diff_if)
    then show ?thesis using c(1) fs2(1) False by (subst copy_entries.simps) simp
  qed
qed

end
