(* ===== verification/BackupProps.thy ===== *)
theory BackupProps
  imports Backup MergeProps
begin

text \<open>A backup of a running database, opened as a database of its own.\<close>

lemma start_copy_ok:
  assumes "os_ok E" "is_dir fs src" "\<not> path_exists fs dest"
  obtains fs' where "start_copy E src dest fs = (Ok (list_dir E fs' src), fs')"
    "\<And>f. file_data fs' f = file_data fs f" "\<And>f. is_file fs' f = is_file fs f"
    "\<And>d. is_dir fs' d \<longleftrightarrow> is_dir fs d \<or> starts_with dest d" "fs_locks fs' = fs_locks fs" "fs_wf fs \<Longrightarrow> fs_wf fs'"
proof -
  let ?fs' = "fs\<lparr>fs_dirs := (\<lambda>p. if starts_with dest p \<and> fs_dirs fs p = None then Some [] else fs_dirs fs p)\<rparr>"
  have look: "lookup_file ?fs' f = lookup_file fs f" for f by (auto simp: lookup_file_def)
  have dirs: "is_dir ?fs' d \<longleftrightarrow> is_dir fs d \<or> starts_with dest d" for d by (auto simp: is_dir_def)
  have "start_copy E src dest fs = (Ok (list_dir E ?fs' src), ?fs')"
    using assms dirs [of src] by (simp add: start_copy_def create_dir_all_def read_entries_def)
  then show ?thesis
    by (rule that) (auto simp: dirs file_data_def is_file_def look fs_wf_def)
qed

text \<open>
  \<open>dest\<close> is a path where nothing is, not below the directory of the database, which has no
  sub-directory.
\<close>

definition backup_place :: "path \<Rightarrow> path \<Rightarrow> fs \<Rightarrow> bool" where
  "backup_place src dest fs \<longleftrightarrow>
     \<not> path_exists fs dest \<and> (\<forall>n. \<not> is_dir fs (dest @ [n])) \<and> \<not> starts_with dest src \<and>
     (\<forall>n. \<not> is_dir fs (src @ [n])) \<and> no_merge dest fs \<and> (dest, FILE_LOCK_NAME) \<notin> set (fs_locks fs)"

lemma starts_with_longer: "starts_with xs (xs @ [x]) = False"
  by (simp add: starts_with_def)

lemma starts_with_snoc: "starts_with dest (src @ [n]) \<Longrightarrow> starts_with dest src"
proof -
  assume "starts_with dest (src @ [n])"
  then have "take (length src) (take (Suc (length src)) dest) = take (length src) (src @ [n])"
    by (simp add: starts_with_def del: take_append)
  then show "starts_with dest src" by (simp only: starts_with_def take_take) simp
qed

lemma backup_ok:
  assumes os: "os_ok E" and ls: "list_dir_ok E" and src: "is_dir fs src" "fs_wf fs" "dir_path (eng_options e) = src"
    and place: "backup_place src dest fs"
  obtains fs' where "backup E dest (e, fs) = Some (Ok (), e, fs')"
    "\<And>n. is_file fs' (dest, n) \<longleftrightarrow> is_file fs (src, n) \<and> n \<noteq> FILE_LOCK_NAME"
    "\<And>n. n \<noteq> FILE_LOCK_NAME \<Longrightarrow> file_data fs' (dest, n) = file_data fs (src, n)"
    "\<And>d n. d \<noteq> dest \<Longrightarrow> file_data fs' (d, n) = file_data fs (d, n) \<and> is_file fs' (d, n) = is_file fs (d, n)"
    "\<And>d. is_dir fs' d \<longleftrightarrow> is_dir fs d \<or> starts_with dest d" "fs_locks fs' = fs_locks fs" "fs_wf fs'"
proof -
  have new: "\<not> path_exists fs dest" "\<And>n. \<not> is_dir fs (dest @ [n])" "\<not> starts_with dest src" "\<And>n. \<not> is_dir fs (src @ [n])"
    using place by (simp_all add: backup_place_def)
  then have neq: "src \<noteq> dest" by (auto simp: starts_with_def)
  obtain fs1 where s: "start_copy E src dest fs = (Ok (list_dir E fs1 src), fs1)"
    and f1: "\<And>f. file_data fs1 f = file_data fs f" "\<And>f. is_file fs1 f = is_file fs f"
      "\<And>d. is_dir fs1 d \<longleftrightarrow> is_dir fs d \<or> starts_with dest d" "fs_locks fs1 = fs_locks fs" "fs_wf fs \<Longrightarrow> fs_wf fs1"
    by (rule start_copy_ok [OF os src(1) new(1)]) blast
  have "\<not> is_dir fs1 (src @ [n])" for n using new(3,4) starts_with_snoc [of dest src n] by (auto simp: f1(3))
  then obtain names where names: "list_dir E fs1 src = map (\<lambda>n. Some (n, Some False)) names"
    "set names = {n. is_file fs (src, n)}"
    using ls [unfolded list_dir_ok_def, rule_format, of fs1 src] src(1) f1(5) [OF src(2)] by (auto simp: f1(2,3))
  have "is_dir fs1 dest" "\<And>n. \<not> is_dir fs1 (dest @ [n])" "\<forall>n \<in> set names. is_file fs1 (src, n)"
    using new(2) names(2) by (simp_all add: f1 starts_with_longer) (simp add: starts_with_def)
  then obtain fs2 where c: "copy_entries E src dest [FILE_LOCK_NAME] (list_dir E fs1 src) fs1 = Some (Ok (), fs2)"
    "copied_to src dest (set names - {FILE_LOCK_NAME}) fs1 fs2"
    using copy_entries_ok [OF os neq, of names fs1 "[FILE_LOCK_NAME]"] names(1) by auto
  have "\<not> is_file fs (dest, n)" for n using new(1) is_file_is_dir [of fs "(dest, n)"] by (auto simp: path_exists_def)
  then show ?thesis
    using s c(1) src(3) names(2) f1(5) [OF src(2)]
    by (intro that [of fs2]) (auto simp: backup_def copy_dir_def copied_toD [OF c(2)] f1 file_data_new)
qed

text \<open>The copy holds the same log.\<close>

lemma backup_disk_log:
  assumes disk: "disk_log E src fs logs"
    and files: "\<And>n. is_file fs' (dest, n) \<longleftrightarrow> is_file fs (src, n) \<and> n \<noteq> FILE_LOCK_NAME"
      "\<And>n. n \<noteq> FILE_LOCK_NAME \<Longrightarrow> file_data fs' (dest, n) = file_data fs (src, n)"
    and dirs: "is_dir fs' dest" "fs_wf fs'" "no_merge dest fs'"
  shows "disk_log E dest fs' logs"
proof -
  have "data_file_name fid \<noteq> FILE_LOCK_NAME" for fid by (rule data_file_name_neq) simp
  then show ?thesis
    using disk dirs unfolding disk_log_iff data_log_def by (auto simp: files get_data_file_name_def)
qed

lemma same_length_starts: "length a = length b \<Longrightarrow> starts_with a b \<Longrightarrow> a = b"
  by (simp add: starts_with_def)

lemma no_merge_created:
  assumes "no_merge dest fs" "\<And>d. is_dir fs' d \<longleftrightarrow> is_dir fs d \<or> starts_with dest d"
  shows "no_merge dest fs'"
proof -
  obtain mp where mp: "get_merge_path dest = Ok mp" "\<not> is_dir fs mp" using assms(1) by (auto simp: no_merge_def)
  have "\<not> starts_with dest mp" using merge_path_apart(1) [OF mp(1)] by (simp add: apart_def)
  then show ?thesis using mp assms(2) by (auto simp: no_merge_def)
qed

text \<open>C8: A backup of a running database succeeds, leaves the database as it is, and can be opened as a
  database of its own that holds the same values: every file but the lock is copied.\<close>

theorem backup_holds_values:
  assumes "setting E opts" "db_run E opts m (e, fs)" "list_dir_ok E" "room 0 (e, fs)"
    and "backup_place (dir_path opts) dest fs"
  shows "\<exists>fs'. backup E dest (e, fs) = Some (Ok (), e, fs') \<and> engine_inv E (e, fs') \<and> kv E (e, fs') = m \<and>
    (\<exists>e2 fs2. engine_open E (opts\<lparr>dir_path := dest\<rparr>) fs' = Some (Ok e2, fs2) \<and> kv E (e2, fs2) = m)"
proof -
  note s = settingD [OF assms(1)]
  let ?src = "dir_path opts" and ?opts = "opts\<lparr>dir_path := dest\<rparr>"
  obtain logs where inv: "engine_inv E (e, fs)" "kv E (e, fs) = m" "eng_options e = opts"
    and log: "log_state E (e, fs) logs"
    using db_run_inv [OF assms(1,2)] by (auto simp: db_inv_def)
  have disk: "disk_log E ?src fs logs" and ne: "logs \<noteq> []" using log inv(3) by (simp_all add: log_state_def log_files_def)
  have src: "is_dir fs ?src" "fs_wf fs" "dir_path (eng_options e) = ?src" using disk inv(3) by (simp_all add: disk_log_def)
  obtain fs' where b: "backup E dest (e, fs) = Some (Ok (), e, fs')"
    and files: "\<And>n. is_file fs' (dest, n) \<longleftrightarrow> is_file fs (?src, n) \<and> n \<noteq> FILE_LOCK_NAME"
      "\<And>n. n \<noteq> FILE_LOCK_NAME \<Longrightarrow> file_data fs' (dest, n) = file_data fs (?src, n)"
    and other: "\<And>d n. d \<noteq> dest \<Longrightarrow> file_data fs' (d, n) = file_data fs (d, n) \<and> is_file fs' (d, n) = is_file fs (d, n)"
    and dirs: "\<And>d. is_dir fs' d \<longleftrightarrow> is_dir fs d \<or> starts_with dest d" "fs_locks fs' = fs_locks fs" "fs_wf fs'"
    by (rule backup_ok [OF s(2) assms(3) src assms(5)]) blast
  have place: "\<not> starts_with dest ?src" "no_merge dest fs" "(dest, FILE_LOCK_NAME) \<notin> set (fs_locks fs)"
    using assms(5) by (simp_all add: backup_place_def)
  then have neq: "?src \<noteq> dest" by (auto simp: starts_with_def)
  have "file_data fs' f = file_data fs f \<and> is_file fs' f = is_file fs f" if "fst f = dir_path (eng_options e)" for f
    using other [of "fst f" "snd f"] that neq inv(3) by (cases f) simp
  then have here: "engine_inv E (e, fs')" "kv E (e, fs') = m"
    using same_files_engine [OF s(1,2) inv(1), of fs'] inv(2) by simp_all
  have ddir: "is_dir fs' dest" by (simp add: dirs(1) starts_with_def)
  have disk': "disk_log E (dir_path ?opts) fs' logs"
    using backup_disk_log [OF disk files ddir dirs(3) no_merge_created [OF place(2) dirs(1)]] by simp
  have "dest \<noteq> []" using place(2) by (auto simp: no_merge_def get_merge_path_def path_file_name_def)
  then have opts: "check_options ?opts = Ok ()" "index_type ?opts \<noteq> BPlusTree"
    using s(5,6) by (auto simp: check_options_def split: if_splits)
  have fit: "mmap_fit E ?opts logs" using assms(1) by (simp add: setting_def mmap_fit_def)
  have free: "(dir_path ?opts, FILE_LOCK_NAME) \<notin> set (fs_locks fs')" using place(3) dirs(2) by simp
  obtain txns cur where rep: "replay E (log_entries E logs) = (index_entries E (eng_index e), txns, cur)" "cur + 1 < 2 ^ 64"
    using log assms(4) by (cases "replay E (log_entries E logs)") (auto simp: log_state_def replays_to_def room_def)
  have "data_file_name fid \<noteq> FILE_LOCK_NAME" for fid by (rule data_file_name_neq) simp
  then have "\<exists>tail. file_data fs' (dir_path ?opts, data_file_name fid) = file_bytes (e, fs) fid @ tail" for fid
    using inv(3) by (simp add: file_bytes_def data_path_def get_data_file_name_def files(2))
  from open_log_kv [OF s(1,2,4) opts disk' ne fit free rep engine_inv_reads [OF inv(1)] this]
  show ?thesis using b here inv(2) by auto
qed

lemma list_dir_ok_E0: "list_dir_ok E0"
  unfolding list_dir_ok_def
proof (intro allI impI)
  fix fs d assume "is_dir fs d \<and> fs_wf fs \<and> (\<forall>n. \<not> is_dir fs (d @ [n]))"
  then obtain es where es: "fs_dirs fs d = Some es" "distinct (map fst es)" by (auto simp: is_dir_def fs_wf_def)
  then have "list_dir E0 fs d = map (\<lambda>n. Some (n, Some False)) (map fst es)" by (simp add: E0_def comp_def)
  moreover have "set (map fst es) = {n. is_file fs (d, n)}"
    by (auto simp: is_file_def lookup_file_def es(1) map_of_eq_None_iff)
  ultimately show "\<exists>names. list_dir E0 fs d = map (\<lambda>n. Some (n, Some False)) names \<and> distinct names \<and>
      set names = {n. is_file fs (d, n)}" using es(2) by blast
qed

lemma backup_holds_values_witness:
  "\<exists>e fs fs'. db_run E0 opts_m [[107] \<mapsto> [118]] (e, fs) \<and> backup E0 [''copy'', ''db''] (e, fs) = Some (Ok (), e, fs') \<and>
    engine_inv E0 (e, fs') \<and> kv E0 (e, fs') = [[107] \<mapsto> [118]] \<and>
    (\<exists>e2 fs2. engine_open E0 (opts_m\<lparr>dir_path := [''copy'', ''db'']\<rparr>) fs' = Some (Ok e2, fs2) \<and>
       kv E0 (e2, fs2) = [[107] \<mapsto> [118]])"
proof -
  obtain e fs where st: "db_run E0 opts_m [[107] \<mapsto> [118]] (e, fs)" "merge_due E0 (e, fs)" "merge_fits (e, fs)"
    "fs_locks fs = [(dir0, FILE_LOCK_NAME)]" and d: "\<And>d. is_dir fs d \<longleftrightarrow> starts_with dir0 d"
    by (rule merge_example) (simp add: small_db_def)
  have "room 0 (e, fs)" using st(3) by (simp add: merge_fits_def room_def)
  moreover have "\<not> is_file fs ([''copy''], n)" for n
    using is_file_is_dir [of fs "([''copy''], n)"] by (auto simp: d starts_with_def dir0_def)
  then have "backup_place (dir_path opts_m) [''copy'', ''db''] fs"
    by (auto simp: backup_place_def path_exists_def d no_merge_def get_merge_path_def path_file_name_def
        path_parent_def MERGE_DIR_NAME_def starts_with_def dir0_def st(4))
  ultimately show ?thesis using backup_holds_values [OF setting_m st(1) list_dir_ok_E0] st(1) by blast
qed

end
