(* ===== verification/BackupDefect.thy ===== *)
theory BackupDefect
  imports BackupProps
begin

text \<open>A backup into the directory of the database itself.\<close>

text \<open>The contents of the files \<open>N\<close> of the directory \<open>d\<close> are gone.\<close>

definition emptied :: "path \<Rightarrow> string set \<Rightarrow> fs \<Rightarrow> fs \<Rightarrow> bool" where
  "emptied d N fs fs' \<longleftrightarrow>
     (\<forall>f. file_data fs' f = (if fst f = d \<and> snd f \<in> N then [] else file_data fs f)) \<and>
     (\<forall>f. is_file fs' f = is_file fs f) \<and> (\<forall>p. is_dir fs' p = is_dir fs p)"

lemma copy_file_onto_itself:
  assumes "os_ok E" "is_file fs (d, n)" "\<not> is_dir fs (d @ [n])"
  obtains fs' where "copy_file E (d, n) (d, n) fs = (True, fs')" "emptied d {n} fs fs'"
proof -
  let ?fs' = "put_file (put_file fs (d, n) new_inode) (d, n) \<lparr>fdata = file_data (put_file fs (d, n) new_inode) (d, n), fsynced = 0\<rparr>"
  have dir: "is_dir fs d" using is_file_is_dir [OF assms(2)] by simp
  have "copy_file E (d, n) (d, n) fs = (True, ?fs')" using assms dir by (simp add: copy_file_def Let_def)
  then show ?thesis
    by (rule that) (use dir assms(2) in \<open>auto simp: emptied_def fs_simps new_inode_def\<close>)
qed

lemma copy_entries_onto_itself:
  assumes "os_ok E" "\<forall>n \<in> set names. is_file fs (d, n)" "\<And>n. \<not> is_dir fs (d @ [n])"
  shows "\<exists>fs'. copy_entries E d d exclude (map (\<lambda>n. Some (n, Some False)) names) fs = Some (Ok (), fs') \<and>
    emptied d (set names - set exclude) fs fs'"
  using assms(2-)
proof (induction names arbitrary: fs)
  case Nil
  then show ?case by (simp add: copy_entries.simps [of E d d exclude "[]"] emptied_def)
next
  case (Cons n names)
  show ?case
  proof (cases "n \<in> set exclude")
    case True
    with Cons.IH [of fs] Cons.prems show ?thesis by (subst copy_entries.simps) (simp add: insert_Diff_if)
  next
    case False
    have n: "is_file fs (d, n)" using Cons.prems(1) by simp
    obtain fs1 where c: "copy_file E (d, n) (d, n) fs = (True, fs1)" "emptied d {n} fs fs1"
      by (rule copy_file_onto_itself [OF assms(1) n Cons.prems(2)])
    have "\<forall>m \<in> set names. is_file fs1 (d, m)" "\<And>m. \<not> is_dir fs1 (d @ [m])"
      using Cons.prems c(2) by (simp_all add: emptied_def)
    from Cons.IH [OF this] obtain fs2 where fs2:
      "copy_entries E d d exclude (map (\<lambda>n. Some (n, Some False)) names) fs1 = Some (Ok (), fs2)"
      "emptied d (set names - set exclude) fs1 fs2" by blast
    have "emptied d (set (n # names) - set exclude) fs fs2"
      using c(2) fs2(2) False by (auto simp: emptied_def)
    then show ?thesis using c(1) fs2(1) False by (subst copy_entries.simps) simp
  qed
qed

text \<open>Reading from an emptied file.\<close>

lemma get_emptied:
  assumes ok: "crates_ok E" "os_ok E" and reads: "reads_inv E (e, fs)" and empty: "\<And>fid. file_bytes (e, fs') fid = []"
  shows "kv E (e, fs') = Map.empty"
proof -
  have "kv E (e, fs') k = None" for k
  proof (cases "k = [] \<or> index_entries E (eng_index e) k = None")
    case True
    then show ?thesis
      using ix.get_law [of E "eng_index e" k] reads by (auto simp: kv_def get_def reads_inv_def)
  next
    case False
    then obtain p where p: "index_entries E (eng_index e) k = Some p" "k \<noteq> []" by auto
    then have "pos_file_id p \<in> known_ids e" using reads by (auto simp: reads_inv_def entry_ok_def)
    moreover have "handles_inv (e, fs)" using reads by (simp add: reads_inv_def)
    ultimately obtain df where df: "handle_ok e (pos_file_id p) df"
      "if active_id e = pos_file_id p then df = active_file e else map_of (older_files e) (pos_file_id p) = Some df"
      using handle_of_id by blast
    have "read_log_record E fs' df (pos_offset p) = Err ReadDataFileEOF"
      using df(1) empty [of "pos_file_id p"] fio.read_at_end [OF ok(2,1), of fs' "data_path e (pos_file_id p)" "pos_offset p"]
      by (simp add: read_log_record_def handle_ok_def file_bytes_def)
    then have "get_value_by_position E p (e, fs') = Err ReadDataFileEOF"
      using df(2) by (auto simp: get_value_by_position_def active_id_def)
    moreover have "index_get E (eng_index e) k = Ok (Some p)"
      using ix.get_law [of E "eng_index e" k] reads p(1) by (simp add: reads_inv_def)
    ultimately show ?thesis using p(2) by (simp add: kv_def get_def)
  qed
  then show ?thesis by (simp add: fun_eq_iff)
qed

text \<open>C37: A backup does not compare its target with the directory of the database: into that directory
  it succeeds, truncates every data file, and no key can be read any more.\<close>

theorem backup_onto_itself_empties:
  assumes "setting E opts" "db_run E opts m (e, fs)" "list_dir_ok E"
    and "\<forall>n. \<not> is_dir fs (dir_path opts @ [n])"
  shows "\<exists>fs'. backup E (dir_path opts) (e, fs) = Some (Ok (), e, fs') \<and>
    (\<forall>fid. file_bytes (e, fs') fid = []) \<and> kv E (e, fs') = Map.empty"
proof -
  note s = settingD [OF assms(1)]
  let ?d = "dir_path opts"
  obtain logs where inv: "engine_inv E (e, fs)" "eng_options e = opts" and log: "log_state E (e, fs) logs"
    using db_run_inv [OF assms(1,2)] by (auto simp: db_inv_def)
  have dir: "is_dir fs ?d" "fs_wf fs" using log inv(2) by (simp_all add: log_state_def log_files_def disk_log_def)
  obtain names where names: "list_dir E fs ?d = map (\<lambda>n. Some (n, Some False)) names" "set names = {n. is_file fs (?d, n)}"
    using assms(3) [unfolded list_dir_ok_def, rule_format, of fs ?d] dir assms(4) by auto
  have "\<forall>n \<in> set names. is_file fs (?d, n)" "\<And>n. \<not> is_dir fs (?d @ [n])" using names(2) assms(4) by auto
  from copy_entries_onto_itself [OF s(2) this, of "[FILE_LOCK_NAME]"] obtain fs' where
    c: "copy_entries E ?d ?d [FILE_LOCK_NAME] (list_dir E fs ?d) fs = Some (Ok (), fs')"
      "emptied ?d (set names - {FILE_LOCK_NAME}) fs fs'" by (auto simp: names(1))
  have "start_copy E ?d ?d fs = (Ok (list_dir E fs ?d), fs)"
    using dir(1) s(2) by (simp add: start_copy_def path_exists_def read_entries_def)
  then have b: "backup E ?d (e, fs) = Some (Ok (), e, fs')"
    using c(1) inv(2) by (simp add: backup_def copy_dir_def)
  have empty: "file_bytes (e, fs') fid = []" for fid
  proof -
    have "data_file_name fid \<noteq> FILE_LOCK_NAME" by (rule data_file_name_neq) simp
    then show ?thesis
      using c(2) names(2) file_data_new [of fs "(?d, data_file_name fid)"] inv(2)
      by (auto simp: emptied_def file_bytes_def data_path_def get_data_file_name_def)
  qed
  then show ?thesis using b get_emptied [OF s(1,2) engine_inv_reads [OF inv(1)] empty] by blast
qed

lemma backup_onto_itself_empties_witness:
  "\<exists>e fs fs'. db_run E0 opts_m [[107] \<mapsto> [118]] (e, fs) \<and> get E0 [107] (e, fs) = Ok [118] \<and>
    backup E0 dir0 (e, fs) = Some (Ok (), e, fs') \<and> (\<forall>fid. file_bytes (e, fs') fid = []) \<and> kv E0 (e, fs') = Map.empty"
proof -
  obtain e fs where st: "db_run E0 opts_m [[107] \<mapsto> [118]] (e, fs)" "merge_due E0 (e, fs)" "merge_fits (e, fs)"
    "fs_locks fs = [(dir0, FILE_LOCK_NAME)]" and d: "\<And>d. is_dir fs d \<longleftrightarrow> starts_with dir0 d"
    by (rule merge_example) (simp add: small_db_def)
  have "engine_inv E0 (e, fs)" "kv E0 (e, fs) = [[107] \<mapsto> [118]]"
    using db_run_inv [OF setting_m st(1)] by (simp_all add: db_inv_def)
  then have "get E0 [107] (e, fs) = Ok [118]"
    using get_cases [OF crates_ok_E0 os_ok_E0 engine_inv_reads, of "(e, fs)" "[107]"] by simp
  moreover have "\<forall>n. \<not> is_dir fs (dir_path opts_m @ [n])" by (simp add: d starts_with_def)
  ultimately show ?thesis
    using backup_onto_itself_empties [OF setting_m st(1) list_dir_ok_E0] st(1) by auto
qed

end
