(* ===== verification/IndexIterImpl.thy ===== *)
theory IndexIterImpl
  imports IndexIter
begin

text \<open>
  The iterators of the other two indexes, \<open>SkipListIterator\<close> of \<^verbatim>\<open>skiplist.rs\<close> and
  \<open>BPlusTreeIterator\<close> of \<^verbatim>\<open>bptree.rs\<close>, and \<open>Box<dyn IndexIterator>\<close>.

  The trait \<open>IndexIterator\<close> is the locale \<open>iterator_contract\<close>: an iterator stands for a cursor, the
  list of the entries it ranges over and the part of it that is still ahead.  The contract is shown
  for the iterator of the B-tree; an iterator that simulates it satisfies it too (\<open>simulates\<close>).
\<close>

subsection \<open>\<open>SkipListIterator\<close>\<close>

record skip_list_iterator =
  sl_items :: items
  sl_curr_index :: nat
  sl_options :: iterator_options

definition skl_iterator :: "'s skipmap_ops \<Rightarrow> 's \<Rightarrow> iterator_options \<Rightarrow> skip_list_iterator" where
  "skl_iterator S m opts =
     (let items = sm_iter S m in
      \<lparr>sl_items = (if it_reverse opts then rev items else items), sl_curr_index = 0, sl_options = opts\<rparr>)"

definition skl_rewind :: "skip_list_iterator \<Rightarrow> skip_list_iterator" where
  "skl_rewind it = it\<lparr>sl_curr_index := 0\<rparr>"

definition skl_seek :: "bytes \<Rightarrow> skip_list_iterator \<Rightarrow> skip_list_iterator" where
  "skl_seek key it =
     it\<lparr>sl_curr_index :=
         (case binary_search_by
                 (\<lambda>i. let x = fst (sl_items it ! i) in
                      if it_reverse (sl_options it) then ordering_reverse (bytes_cmp x key)
                      else bytes_cmp x key)
                 (length (sl_items it)) of
            Found equal_val \<Rightarrow> equal_val
          | NotFound insert_val \<Rightarrow> insert_val)\<rparr>"

function skl_next_loop ::
  "skip_list_iterator \<Rightarrow> (bytes \<times> log_record_pos) option \<times> skip_list_iterator" where
  "skl_next_loop it =
     (if sl_curr_index it < length (sl_items it) then
        let item = sl_items it ! sl_curr_index it;
            it = it\<lparr>sl_curr_index := sl_curr_index it + 1\<rparr>;
            prefix = it_prefix (sl_options it)
        in if prefix = [] \<or> starts_with (fst item) prefix then (Some item, it)
           else skl_next_loop it
      else (None, it))"
  by pat_completeness auto
termination
  by (relation "measure (\<lambda>it. length (sl_items it) - sl_curr_index it)") auto

declare skl_next_loop.simps [simp del]

definition skl_next ::
  "skip_list_iterator \<Rightarrow> (bytes \<times> log_record_pos) option \<times> skip_list_iterator" where
  "skl_next it =
     (if length (sl_items it) \<le> sl_curr_index it then (None, it) else skl_next_loop it)"

subsection \<open>\<open>BPlusTreeIterator\<close>\<close>

record bptree_iterator =
  bp_items :: items
  bp_curr_index :: nat
  bp_options :: iterator_options

definition bptree_iterator_new ::
  "'z crates_scheme \<Rightarrow> 'b jammdb_ops \<Rightarrow> 'b \<Rightarrow> iterator_options \<Rightarrow> bptree_iterator res" where
  "bptree_iterator_new C J b opts =
     res_map (\<lambda>items.
       \<lparr>bp_items = (if it_reverse opts then rev items else items), bp_curr_index = 0, bp_options = opts\<rparr>)
       (bptree_items C J b)"

definition bptree_rewind :: "bptree_iterator \<Rightarrow> bptree_iterator" where
  "bptree_rewind it = it\<lparr>bp_curr_index := 0\<rparr>"

definition bptree_seek :: "bytes \<Rightarrow> bptree_iterator \<Rightarrow> bptree_iterator" where
  "bptree_seek key it =
     it\<lparr>bp_curr_index :=
         (case binary_search_by
                 (\<lambda>i. let x = fst (bp_items it ! i) in
                      if it_reverse (bp_options it) then ordering_reverse (bytes_cmp x key)
                      else bytes_cmp x key)
                 (length (bp_items it)) of
            Found equal_val \<Rightarrow> equal_val
          | NotFound insert_val \<Rightarrow> insert_val)\<rparr>"

function bptree_next_loop ::
  "bptree_iterator \<Rightarrow> (bytes \<times> log_record_pos) option \<times> bptree_iterator" where
  "bptree_next_loop it =
     (if bp_curr_index it < length (bp_items it) then
        let item = bp_items it ! bp_curr_index it;
            it = it\<lparr>bp_curr_index := bp_curr_index it + 1\<rparr>;
            prefix = it_prefix (bp_options it)
        in if prefix = [] \<or> starts_with (fst item) prefix then (Some item, it)
           else bptree_next_loop it
      else (None, it))"
  by pat_completeness auto
termination
  by (relation "measure (\<lambda>it. length (bp_items it) - bp_curr_index it)") auto

declare bptree_next_loop.simps [simp del]

definition bptree_next ::
  "bptree_iterator \<Rightarrow> (bytes \<times> log_record_pos) option \<times> bptree_iterator" where
  "bptree_next it =
     (if length (bp_items it) \<le> bp_curr_index it then (None, it) else bptree_next_loop it)"

subsection \<open>\<open>Box<dyn IndexIterator>\<close>\<close>

datatype dyn_iterator =
    BTreeIter index_iterator
  | SkipListIter skip_list_iterator
  | BPlusTreeIter bptree_iterator

fun index_iter :: "('s, 'b) env \<Rightarrow> ('s, 'b) index \<Rightarrow> iterator_options \<Rightarrow> dyn_iterator res" where
  "index_iter E (BTreeIndex t) opts = Ok (BTreeIter (iterator_new t opts))"
| "index_iter E (SkipListIndex m) opts = Ok (SkipListIter (skl_iterator (skipmap E) m opts))"
| "index_iter E (BPlusTreeIndex b) opts =
     res_map BPlusTreeIter (bptree_iterator_new E (jammdb E) b opts)"

fun dyn_rewind :: "dyn_iterator \<Rightarrow> dyn_iterator" where
  "dyn_rewind (BTreeIter it) = BTreeIter (iter_rewind it)"
| "dyn_rewind (SkipListIter it) = SkipListIter (skl_rewind it)"
| "dyn_rewind (BPlusTreeIter it) = BPlusTreeIter (bptree_rewind it)"

fun dyn_seek :: "bytes \<Rightarrow> dyn_iterator \<Rightarrow> dyn_iterator" where
  "dyn_seek key (BTreeIter it) = BTreeIter (iter_seek key it)"
| "dyn_seek key (SkipListIter it) = SkipListIter (skl_seek key it)"
| "dyn_seek key (BPlusTreeIter it) = BPlusTreeIter (bptree_seek key it)"

fun dyn_next :: "dyn_iterator \<Rightarrow> (bytes \<times> log_record_pos) option \<times> dyn_iterator" where
  "dyn_next (BTreeIter it) = map_prod id BTreeIter (iter_next it)"
| "dyn_next (SkipListIter it) = map_prod id SkipListIter (skl_next it)"
| "dyn_next (BPlusTreeIter it) = map_prod id BPlusTreeIter (bptree_next it)"

subsection \<open>What an iterator stands for\<close>

text \<open>
  A cursor over entries in the order of the iterator: seeking leaves the entries that do not come
  before the key ahead.
\<close>

record cursor =
  cur_entries :: items
  cur_ahead :: items
  cur_reverse :: bool

definition cursor_new :: "items \<Rightarrow> iterator_options \<Rightarrow> cursor" where
  "cursor_new xs opts =
     (let ys = filter (\<lambda>x. starts_with (fst x) (it_prefix opts)) (if it_reverse opts then rev xs else xs)
      in \<lparr>cur_entries = ys, cur_ahead = ys, cur_reverse = it_reverse opts\<rparr>)"

definition cursor_rewind :: "cursor \<Rightarrow> cursor" where
  "cursor_rewind c = c\<lparr>cur_ahead := cur_entries c\<rparr>"

definition cursor_seek :: "bytes \<Rightarrow> cursor \<Rightarrow> cursor" where
  "cursor_seek key c =
     c\<lparr>cur_ahead := filter (\<lambda>x. if cur_reverse c then fst x \<le> key else key \<le> fst x) (cur_entries c)\<rparr>"

definition cursor_next :: "cursor \<Rightarrow> (bytes \<times> log_record_pos) option \<times> cursor" where
  "cursor_next c =
     (case cur_ahead c of
        [] \<Rightarrow> (None, c)
      | x # xs \<Rightarrow> (Some x, c\<lparr>cur_ahead := xs\<rparr>))"

datatype iter_call = Rewind | Seek bytes | Next

text \<open>Calls of an iterator and what its \<open>next\<close> returned.\<close>

fun run_calls ::
  "('i \<Rightarrow> 'i) \<Rightarrow> (bytes \<Rightarrow> 'i \<Rightarrow> 'i) \<Rightarrow> ('i \<Rightarrow> (bytes \<times> log_record_pos) option \<times> 'i) \<Rightarrow>
   iter_call list \<Rightarrow> 'i \<Rightarrow> (bytes \<times> log_record_pos) option list \<times> 'i" where
  "run_calls rw sk nx [] i = ([], i)"
| "run_calls rw sk nx (Rewind # cs) i = run_calls rw sk nx cs (rw i)"
| "run_calls rw sk nx (Seek k # cs) i = run_calls rw sk nx cs (sk k i)"
| "run_calls rw sk nx (Next # cs) i =
     (case nx i of (y, i') \<Rightarrow> (case run_calls rw sk nx cs i' of (ys, j) \<Rightarrow> (y # ys, j)))"

locale iterator_contract =
  fixes rewind :: "'i \<Rightarrow> 'i"
    and seek :: "bytes \<Rightarrow> 'i \<Rightarrow> 'i"
    and next_item :: "'i \<Rightarrow> (bytes \<times> log_record_pos) option \<times> 'i"
    and cursor :: "'i \<Rightarrow> cursor"
    and inv :: "'i \<Rightarrow> bool"
  assumes rewind_law: "inv i \<Longrightarrow> inv (rewind i) \<and> cursor (rewind i) = cursor_rewind (cursor i)"
    and seek_law: "inv i \<Longrightarrow> inv (seek k i) \<and> cursor (seek k i) = cursor_seek k (cursor i)"
    and next_law: "inv i \<Longrightarrow> \<exists>y i'. next_item i = (y, i') \<and> inv i' \<and> cursor_next (cursor i) = (y, cursor i')"
begin

lemma run_calls_cursor:
  "inv i \<Longrightarrow> \<exists>ys i'. run_calls rewind seek next_item cs i = (ys, i') \<and> inv i' \<and>
     run_calls cursor_rewind cursor_seek cursor_next cs (cursor i) = (ys, cursor i')"
proof (induction cs arbitrary: i)
  case (Cons c cs)
  note rw = rewind_law [OF Cons.prems] and sk = seek_law [OF Cons.prems]
  show ?case
  proof (cases c)
    case Rewind
    with Cons.IH [of "rewind i"] rw show ?thesis by simp
  next
    case (Seek k)
    with Cons.IH [of "seek k i"] sk [of k] show ?thesis by simp
  next
    case Next
    obtain y i' where "next_item i = (y, i')" "inv i'" "cursor_next (cursor i) = (y, cursor i')"
      using next_law [OF Cons.prems] by blast
    moreover from Cons.IH [OF this(2)] show ?thesis using calculation by (auto simp: Next)
  qed
qed simp

text \<open>The \<open>n\<close>-th call of \<open>next\<close> from now on.\<close>

lemma nth_next:
  "inv i \<Longrightarrow> fst (next_item (((snd \<circ> next_item) ^^ n) i)) =
     (if n < length (cur_ahead (cursor i)) then Some (cur_ahead (cursor i) ! n) else None)"
proof (induction n arbitrary: i)
  case 0
  then show ?case using next_law [of i] by (auto simp: cursor_next_def split: list.splits)
next
  case (Suc n)
  obtain y i' where i': "next_item i = (y, i')" "inv i'" "cursor_next (cursor i) = (y, cursor i')"
    using next_law [OF Suc.prems] by blast
  have "((snd \<circ> next_item) ^^ Suc n) i = ((snd \<circ> next_item) ^^ n) i'"
    by (simp add: funpow_Suc_right i'(1) del: funpow.simps)
  then have step: "fst (next_item (((snd \<circ> next_item) ^^ Suc n) i)) = fst (next_item (((snd \<circ> next_item) ^^ n) i'))"
    by (rule arg_cong)
  have tail: "cur_ahead (cursor i') = tl (cur_ahead (cursor i))"
    using arg_cong [OF i'(3), of "\<lambda>x. cur_ahead (snd x)"]
    by (cases "cur_ahead (cursor i)") (simp_all add: cursor_next_def)
  show ?case
    unfolding step Suc.IH [OF i'(2)] by (auto simp: tail nth_tl)
qed

end
subsection \<open>The iterator of the B-tree\<close>

text \<open>The items are in the strict order of the iterator.\<close>

definition iter_sorted :: "index_iterator \<Rightarrow> bool" where
  "iter_sorted it \<longleftrightarrow> bt_ok (if it_reverse (it_options it) then rev (it_items it) else it_items it)"

definition iter_cursor :: "index_iterator \<Rightarrow> cursor" where
  "iter_cursor it =
     \<lparr>cur_entries = filter (\<lambda>x. starts_with (fst x) (it_prefix (it_options it))) (it_items it),
      cur_ahead = filter (\<lambda>x. starts_with (fst x) (it_prefix (it_options it))) (drop (curr_index it) (it_items it)),
      cur_reverse = it_reverse (it_options it)\<rparr>"

lemma iter_seek_ahead:
  assumes "iter_sorted it"
  shows "drop (curr_index (iter_seek key it)) (it_items it) =
    filter (\<lambda>x. if it_reverse (it_options it) then fst x \<le> key else key \<le> fst x) (it_items it)"
proof -
  let ?xs = "if it_reverse (it_options it) then rev (it_items it) else it_items it"
  have ok: "bt_ok ?xs" using assms by (simp add: iter_sorted_def)
  have "if it_reverse (it_options it) then fst (it_items it ! j) < fst (it_items it ! i)
      else fst (it_items it ! i) < fst (it_items it ! j)"
    if "i < j" "j < length (it_items it)" for i j
    using that sorted_nth_less [OF ok, of i j] sorted_nth_less [OF ok, of "length (it_items it) - Suc j" "length (it_items it) - Suc i"]
    by (auto simp: rev_nth split: if_splits)
  from iter_seek_boundary [OF this, of key] show ?thesis
    using drop_takeWhile_eq_filter [OF ok, of key] drop_takeWhile_rev_eq_filter [OF ok, of key]
    by (cases "it_reverse (it_options it)") simp_all
qed

lemma iter_sorted_frame:
  "it_items it' = it_items it \<Longrightarrow> it_options it' = it_options it \<Longrightarrow> iter_sorted it' \<longleftrightarrow> iter_sorted it"
  by (simp add: iter_sorted_def)

lemma iter_next_from_None: "iter_next_from xs prefix i = (None, j) \<Longrightarrow> length xs \<le> j"
proof (induction xs prefix i rule: iter_next_from.induct)
  case (1 xs prefix i)
  then show ?case by (auto simp: iter_next_from.simps [of xs prefix i] split: if_splits)
qed

lemma iter_next_cursor:
  "\<exists>y it'. iter_next it = (y, it') \<and> it_items it' = it_items it \<and> it_options it' = it_options it \<and>
     cursor_next (iter_cursor it) = (y, iter_cursor it')"
proof (cases "length (it_items it) \<le> curr_index it")
  case True
  then show ?thesis by (simp add: iter_next_def iter_cursor_def cursor_next_def)
next
  case False
  obtain y j where yj: "iter_next_from (it_items it) (it_prefix (it_options it)) (curr_index it) = (y, j)"
    by fastforce
  have "drop j (it_items it) = []" if "y = None" using iter_next_from_None yj that by simp
  then show ?thesis
    using False yj iter_next_from_filter [OF yj]
    by (cases y) (simp_all add: iter_next_def iter_cursor_def cursor_next_def)
qed

interpretation bt: iterator_contract iter_rewind iter_seek iter_next iter_cursor iter_sorted
proof unfold_locales
  fix i k assume sorted: "iter_sorted i"
  show "iter_sorted (iter_rewind i) \<and> iter_cursor (iter_rewind i) = cursor_rewind (iter_cursor i)"
    using sorted iter_sorted_frame [of "iter_rewind i" i]
    by (simp add: iter_rewind_def iter_cursor_def cursor_rewind_def)
  have frame: "it_items (iter_seek k i) = it_items i" "it_options (iter_seek k i) = it_options i"
    by (simp_all add: iter_seek_def)
  show "iter_sorted (iter_seek k i) \<and> iter_cursor (iter_seek k i) = cursor_seek k (iter_cursor i)"
    using sorted iter_sorted_frame [OF frame] iter_seek_ahead [OF sorted, of k]
    by (simp add: iter_cursor_def cursor_seek_def frame conj_commute)
  show "\<exists>y i'. iter_next i = (y, i') \<and> iter_sorted i' \<and> cursor_next (iter_cursor i) = (y, iter_cursor i')"
    using sorted iter_next_cursor [of i] iter_sorted_frame [of _ i] by blast
qed

text \<open>An iterator that simulates the one of the B-tree satisfies the contract.\<close>

locale simulates =
  fixes rewind :: "'i \<Rightarrow> 'i"
    and seek :: "bytes \<Rightarrow> 'i \<Rightarrow> 'i"
    and next_item :: "'i \<Rightarrow> (bytes \<times> log_record_pos) option \<times> 'i"
    and abs :: "'i \<Rightarrow> index_iterator"
  assumes rewind_sim: "abs (rewind i) = iter_rewind (abs i)"
    and seek_sim: "abs (seek k i) = iter_seek k (abs i)"
    and next_sim: "map_prod id abs (next_item i) = iter_next (abs i)"

sublocale simulates \<subseteq> iterator_contract rewind seek next_item "iter_cursor \<circ> abs" "iter_sorted \<circ> abs"
proof unfold_locales
  fix i k assume sorted: "(iter_sorted \<circ> abs) i"
  then show "(iter_sorted \<circ> abs) (rewind i) \<and> (iter_cursor \<circ> abs) (rewind i) = cursor_rewind ((iter_cursor \<circ> abs) i)"
    and "(iter_sorted \<circ> abs) (seek k i) \<and> (iter_cursor \<circ> abs) (seek k i) = cursor_seek k ((iter_cursor \<circ> abs) i)"
    using bt.rewind_law bt.seek_law by (simp_all add: rewind_sim seek_sim)
  obtain y i' where "next_item i = (y, i')" by fastforce
  then show "\<exists>y i'. next_item i = (y, i') \<and> (iter_sorted \<circ> abs) i' \<and>
      cursor_next ((iter_cursor \<circ> abs) i) = (y, (iter_cursor \<circ> abs) i')"
    using bt.next_law [of "abs i"] sorted next_sim [of i] by auto
qed

subsection \<open>The other iterators\<close>

definition skl_abs :: "skip_list_iterator \<Rightarrow> index_iterator" where
  "skl_abs it = \<lparr>it_items = sl_items it, curr_index = sl_curr_index it, it_options = sl_options it\<rparr>"

definition bptree_abs :: "bptree_iterator \<Rightarrow> index_iterator" where
  "bptree_abs it = \<lparr>it_items = bp_items it, curr_index = bp_curr_index it, it_options = bp_options it\<rparr>"

lemma skl_next_loop_from:
  "map_prod id skl_abs (skl_next_loop it) =
     (case iter_next_from (sl_items it) (it_prefix (sl_options it)) (sl_curr_index it) of
        (y, j) \<Rightarrow> (y, skl_abs it\<lparr>curr_index := j\<rparr>))"
proof (induction it rule: skl_next_loop.induct)
  case (1 it)
  then show ?case
    by (auto simp: skl_next_loop.simps [of it] iter_next_from.simps [of _ _ "sl_curr_index it"]
        skl_abs_def Let_def)
qed

lemma bptree_next_loop_from:
  "map_prod id bptree_abs (bptree_next_loop it) =
     (case iter_next_from (bp_items it) (it_prefix (bp_options it)) (bp_curr_index it) of
        (y, j) \<Rightarrow> (y, bptree_abs it\<lparr>curr_index := j\<rparr>))"
proof (induction it rule: bptree_next_loop.induct)
  case (1 it)
  then show ?case
    by (auto simp: bptree_next_loop.simps [of it] iter_next_from.simps [of _ _ "bp_curr_index it"]
        bptree_abs_def Let_def)
qed

interpretation sl: simulates skl_rewind skl_seek skl_next skl_abs
  by unfold_locales
    (simp_all add: skl_rewind_def iter_rewind_def skl_seek_def iter_seek_def skl_next_def iter_next_def
      skl_next_loop_from, simp_all add: skl_abs_def)

interpretation bp: simulates bptree_rewind bptree_seek bptree_next bptree_abs
  by unfold_locales
    (simp_all add: bptree_rewind_def iter_rewind_def bptree_seek_def iter_seek_def bptree_next_def
      iter_next_def bptree_next_loop_from, simp_all add: bptree_abs_def)

fun dyn_abs :: "dyn_iterator \<Rightarrow> index_iterator" where
  "dyn_abs (BTreeIter it) = it"
| "dyn_abs (SkipListIter it) = skl_abs it"
| "dyn_abs (BPlusTreeIter it) = bptree_abs it"

interpretation dyn: simulates dyn_rewind dyn_seek dyn_next dyn_abs
proof unfold_locales
  fix i k
  show "dyn_abs (dyn_rewind i) = iter_rewind (dyn_abs i)"
    by (cases i) (simp_all add: sl.rewind_sim bp.rewind_sim)
  show "dyn_abs (dyn_seek k i) = iter_seek k (dyn_abs i)"
    by (cases i) (simp_all add: sl.seek_sim bp.seek_sim)
  show "map_prod id dyn_abs (dyn_next i) = iter_next (dyn_abs i)"
    by (cases i) (simp_all add: map_prod_def split_beta sl.next_sim [symmetric] bp.next_sim [symmetric])
qed

text \<open>The iterator of an index has its entries in order, and its cursor is new.\<close>

lemma index_iterator_abs:
  "res_map dyn_abs (index_iter E i opts) = res_map (\<lambda>xs. iterator_new xs opts) (index_items E i)"
proof (cases i)
  case (BPlusTreeIndex b)
  then show ?thesis
    by (cases "bptree_items E (jammdb E) b")
      (simp_all add: iterator_new_def bptree_iterator_new_def bptree_abs_def)
qed (simp_all add: skl_iterator_def skl_abs_def iterator_new_def Let_def)

lemma iterator_new_cursor: "iter_cursor (iterator_new xs opts) = cursor_new xs opts"
  by (simp add: iter_cursor_def iterator_new_def cursor_new_def Let_def)

lemma iterator_new_sorted: "bt_ok xs \<Longrightarrow> iter_sorted (iterator_new xs opts)"
  by (simp add: iter_sorted_def iterator_new_def)

lemma index_iterator_new:
  assumes "index_inv E i"
  obtains it xs where "index_iter E i opts = Ok it" "index_items E i = Ok xs" "bt_ok xs"
    "map_of xs = index_entries E i" "dyn_abs it = iterator_new xs opts"
proof -
  obtain xs where xs: "index_items E i = Ok xs" "bt_ok xs" "map_of xs = index_entries E i"
    using ix.itemsE [OF assms] .
  with index_iterator_abs [of E i opts] obtain it where "index_iter E i opts = Ok it"
    "dyn_abs it = iterator_new xs opts" by (cases "index_iter E i opts") auto
  with xs that show ?thesis by blast
qed

end
