(* ===== verification/IterProps.thy ===== *)
theory IterProps
  imports EngineProps EngineIter IndexProps IndexIterImpl
begin

text \<open>
  Properties of the iterators: the three kinds against a cursor over the entries of the index, and
  that an iterator of the engine gets to every key.
\<close>

text \<open>C22: The iterator of an index of any type exists, and answers every sequence of \<open>rewind\<close>, \<open>seek\<close>
  and \<open>next\<close> as a cursor over the entries of the index in the order of its options, restricted to
  those with the prefix: indexes with the same entries have iterators that cannot be told apart.\<close>

theorem iterators_refine_cursor:
  assumes "index_inv E i"
  shows "\<exists>it xs. index_iter E i opts = Ok it \<and> sorted_wrt (<) (map fst xs) \<and>
    map_of xs = index_entries E i \<and>
    (\<forall>cs. fst (run_calls dyn_rewind dyn_seek dyn_next cs it) =
       fst (run_calls cursor_rewind cursor_seek cursor_next cs (cursor_new xs opts)))"
proof -
  obtain it xs where it: "index_iter E i opts = Ok it" "bt_ok xs" "map_of xs = index_entries E i"
    "dyn_abs it = iterator_new xs opts" using index_iterator_new [OF assms] by metis
  have "(iter_sorted \<circ> dyn_abs) it" by (simp add: it(4) iterator_new_sorted [OF it(2)])
  from dyn.run_calls_cursor [OF this] have "fst (run_calls dyn_rewind dyn_seek dyn_next cs it) =
      fst (run_calls cursor_rewind cursor_seek cursor_next cs (cursor_new xs opts))" for cs
    by (metis comp_apply fst_conv it(4) iterator_new_cursor)
  with it show ?thesis by (auto simp: bt_ok_def)
qed

lemma iterators_refine_cursor_witness:
  "fst (run_calls cursor_rewind cursor_seek cursor_next [Seek [1, 9], Next, Rewind, Next, Next, Next]
     (cursor_new ix0 \<lparr>it_prefix = [1], it_reverse = True\<rparr>)) =
     [Some ([1, 5], p2), Some ([1, 5], p2), Some ([1], p1), None] \<and>
   (\<exists>it xs. index_iter E0 (BTreeIndex ix0) \<lparr>it_prefix = [1], it_reverse = True\<rparr> = Ok it \<and>
    sorted_wrt (<) (map fst xs) \<and> map_of xs = index_entries E0 (BTreeIndex ix0) \<and>
    (\<forall>cs. fst (run_calls dyn_rewind dyn_seek dyn_next cs it) =
       fst (run_calls cursor_rewind cursor_seek cursor_next cs
              (cursor_new xs \<lparr>it_prefix = [1], it_reverse = True\<rparr>))))"
proof
  show "fst (run_calls cursor_rewind cursor_seek cursor_next [Seek [1, 9], Next, Rewind, Next, Next, Next]
     (cursor_new ix0 \<lparr>it_prefix = [1], it_reverse = True\<rparr>)) =
     [Some ([1, 5], p2), Some ([1, 5], p2), Some ([1], p1), None]"
    by (simp add: cursor_new_def cursor_rewind_def cursor_seek_def cursor_next_def ix0_def starts_with_def Let_def)
qed (rule iterators_refine_cursor, simp add: index_inv_def ix0_def)

subsection \<open>Getting to every key\<close>

text \<open>The iterators that calls lead to.\<close>

inductive iterator_moves ::
  "('s, 'b) env \<Rightarrow> ('s, 'b) st \<Rightarrow> index_iterator \<Rightarrow> index_iterator \<Rightarrow> bool" for E st where
  moves_refl: "iterator_moves E st it it"
| moves_rewind: "iterator_moves E st it it' \<Longrightarrow> iterator_moves E st it (iterator_rewind it')"
| moves_seek: "iterator_moves E st it it' \<Longrightarrow> iterator_moves E st it (iterator_seek key it')"
| moves_next: "iterator_moves E st it it' \<Longrightarrow> iterator_moves E st it (snd (iterator_next E st it'))"

lemma iterator_next_snd: "snd (iterator_next E st it) = snd (iter_next it)"
  by (auto simp: iterator_next_def split: prod.splits option.splits res.splits)

lemma iter_next_frame:
  "it_items (snd (iter_next it)) = it_items it \<and> it_options (snd (iter_next it)) = it_options it"
  by (simp add: iter_next_def split: prod.split)

lemma iterator_moves_frame:
  "iterator_moves E st it it' \<Longrightarrow> it_items it' = it_items it \<and> it_options it' = it_options it"
  by (induction rule: iterator_moves.induct)
    (simp_all add: iterator_rewind_def iter_rewind_def iterator_seek_def iter_seek_def
      iterator_next_snd iter_next_frame)

lemma iter_of_frame: "it_items it' = it_items it \<Longrightarrow> iter_of E st it' = iter_of E st it"
  by (simp add: iter_of_def)

lemma nth_next_frame: "it_items (((snd \<circ> iter_next) ^^ n) it) = it_items it"
  by (induction n) (simp_all add: iter_next_frame)

text \<open>What the \<open>n\<close>-th call of \<open>Iterator::next\<close> returns.\<close>

lemma iterator_nth_next:
  assumes "crates_ok E" "os_ok E" "reads_inv E st" "iter_of E st it" "iter_sorted it"
  shows "fst (iterator_next E st (((snd \<circ> iterator_next E st) ^^ n) it)) =
    Ok (if n < length (cur_ahead (iter_cursor it)) then Some (with_value E st (cur_ahead (iter_cursor it) ! n))
        else None)"
proof -
  define jt where "jt = ((snd \<circ> iter_next) ^^ n) it"
  have eq: "snd \<circ> iterator_next E st = snd \<circ> iter_next"
    by (simp add: fun_eq_iff iterator_next_snd)
  have "iter_of E st jt" using iter_of_frame [of jt it E st] assms(4) nth_next_frame [of n it] by (simp add: jt_def)
  from iterator_next_value [OF assms(1-3) this] have
    "fst (iterator_next E st jt) = Ok (map_option (with_value E st) (fst (iter_next jt)))"
    by (simp split: prod.splits option.splits)
  then show ?thesis unfolding eq jt_def bt.nth_next [OF assms(5)] by simp
qed

text \<open>C25: An iterator of the engine gets everywhere: whatever calls moved it before, once it is rewound, or
  sought to a key that does not come after \<open>k\<close>, some later call of \<open>next\<close> returns \<open>k\<close> with its
  value, for every key \<open>k\<close> of the database with the prefix; and from some call on, \<open>next\<close> returns
  \<open>None\<close>.\<close>

theorem iteration_reaches_key:
  assumes "crates_ok E" "os_ok E" "engine_inv E st" "engine_iter E opts st = Ok it0"
    and "iterator_moves E st it0 it"
    and "it' = iterator_rewind it \<or>
      (\<exists>q. it' = iterator_seek q it \<and> (if it_reverse opts then k \<le> q else q \<le> k))"
    and "kv E st k = Some v" "starts_with k (it_prefix opts)"
  shows "(\<exists>n. fst (iterator_next E st (((snd \<circ> iterator_next E st) ^^ n) it')) = Ok (Some (k, v))) \<and>
    (\<exists>n. \<forall>m \<ge> n. fst (iterator_next E st (((snd \<circ> iterator_next E st) ^^ m) it')) = Ok None)"
proof -
  note reads = engine_inv_reads [OF assms(3)]
  obtain xs where xs: "bt_ok xs" "engine_iter E opts st = Ok (iterator_new xs opts)"
    "iter_of E st (iterator_new xs opts)" "set xs = {(k, p). index_entries E (eng_index (fst st)) k = Some p}"
    by (rule engine_items [OF reads]) blast
  have it0: "it0 = iterator_new xs opts" using assms(4) xs(2) by simp
  have moves: "iterator_moves E st it0 it'"
    using assms(5,6) iterator_moves.intros by metis
  note frame = iterator_moves_frame [OF assms(5)] and frame' = iterator_moves_frame [OF moves]
  have sorted: "iter_sorted it'" "iter_sorted it"
    using iter_sorted_frame [of _ it0] frame frame' iterator_new_sorted [OF xs(1)] by (simp_all add: it0)
  have it_of: "iter_of E st it'" using iter_of_frame [of it' it0 E st] frame' xs(3) by (simp add: it0)
  obtain p where p: "(k, p) \<in> set xs"
    using kv_indexed_iff [OF assms(1,2) reads, of k] assms(7) by (auto simp: xs(4))
  have items: "set (it_items it) = set xs" "it_options it = opts"
    using frame by (simp_all add: it0 iterator_new_def)
  have "(k, p) \<in> set (cur_ahead (iter_cursor it'))"
    using assms(6)
  proof
    assume "it' = iterator_rewind it"
    then show ?thesis
      using bt.rewind_law [OF sorted(2)] p assms(8) items
      by (simp add: iterator_rewind_def cursor_rewind_def) (simp add: iter_cursor_def)
  next
    assume "\<exists>q. it' = iterator_seek q it \<and> (if it_reverse opts then k \<le> q else q \<le> k)"
    then obtain q where "it' = iterator_seek q it" "if it_reverse opts then k \<le> q else q \<le> k" by blast
    then show ?thesis
      using bt.seek_law [OF sorted(2), of q] p assms(8) items
      by (simp add: iterator_seek_def cursor_seek_def) (simp add: iter_cursor_def)
  qed
  then obtain n where n: "n < length (cur_ahead (iter_cursor it'))" "cur_ahead (iter_cursor it') ! n = (k, p)"
    by (metis in_set_conv_nth)
  note nth = iterator_nth_next [OF assms(1,2) reads it_of sorted(1)]
  show ?thesis
  proof
    show "\<exists>n. fst (iterator_next E st (((snd \<circ> iterator_next E st) ^^ n) it')) = Ok (Some (k, v))"
      using nth [of n] n assms(7) by (auto simp: with_value_def)
    show "\<exists>n. \<forall>m \<ge> n. fst (iterator_next E st (((snd \<circ> iterator_next E st) ^^ m) it')) = Ok None"
      using nth by (intro exI [of _ "length (cur_ahead (iter_cursor it'))"]) simp
  qed
qed

definition st_one :: "((bytes, log_record_pos) rbt, (bytes, bytes) rbt) st" where
  "st_one = snd (engine_step E0 (OpPut [107] [118]) st0)"

lemma iteration_reaches_key_witness:
  "\<exists>it. engine_iter E0 IteratorOptions_default st_one = Ok it \<and>
    (\<exists>n. fst (iterator_next E0 st_one (((snd \<circ> iterator_next E0 st_one) ^^ n)
       (iterator_seek [9] (snd (iterator_next E0 st_one it))))) = Ok (Some ([107], [118]))) \<and>
    (\<exists>n. \<forall>m \<ge> n. fst (iterator_next E0 st_one (((snd \<circ> iterator_next E0 st_one) ^^ m)
       (iterator_seek [9] (snd (iterator_next E0 st_one it))))) = Ok None)"
proof -
  have "\<exists>out st'. engine_step E0 (OpPut [107] [118]) st0 = (out, st') \<and> engine_inv E0 st' \<and>
    spec_step (OpPut [107] [118]) (kv E0 st0) = (out, kv E0 st') \<and>
    unat (active_id (fst st')) \<le> unat (active_id (fst st0)) + 1"
    by (rule engine_step_refines) (simp_all add: engine_inv0, simp add: st0_def)
  then have inv: "engine_inv E0 st_one" and kv: "kv E0 st_one = [[107] \<mapsto> [118]]"
    unfolding st_one_def by (auto simp: kv0 simp del: engine_step.simps)
  obtain it where it: "engine_iter E0 IteratorOptions_default st_one = Ok it"
    using engine_items [OF engine_inv_reads [OF inv]] by metis
  have moves: "iterator_moves E0 st_one it (snd (iterator_next E0 st_one it))"
    by (intro iterator_moves.intros)
  have "iterator_seek [9] (snd (iterator_next E0 st_one it)) = iterator_rewind (snd (iterator_next E0 st_one it)) \<or>
    (\<exists>q. iterator_seek [9] (snd (iterator_next E0 st_one it)) = iterator_seek q (snd (iterator_next E0 st_one it)) \<and>
       (if it_reverse IteratorOptions_default then [107] \<le> q else q \<le> [107]))"
    by (rule disjI2, rule exI [of _ "[9]"]) (simp add: IteratorOptions_default_def)
  from iteration_reaches_key [OF _ _ inv it moves this] show ?thesis
    using it by (simp add: kv IteratorOptions_default_def)
qed

end
