(* ===== verification/SnapshotProps.thy ===== *)
theory SnapshotProps
  imports ConcProps IterProps
begin

text \<open>
  An iterator of the engine (\<^verbatim>\<open>iterator.rs\<close>) while other threads go on: it took a copy of the index
  when it was created, and the records it points to stay in the log.
\<close>

lemma iterator_next_later:
  assumes ok: "crates_ok E" "os_ok E" and inv: "engine_inv E st" "engine_inv E st'" and l: "later st st'"
    and it: "iter_of E st it"
  shows "iterator_next E st' it = iterator_next E st it"
proof -
  have "get_value_by_position E p st' = get_value_by_position E p st" if "(k, p) \<in> set (it_items it)" for k p
  proof -
    have entry: "index_entries E (eng_index (fst st)) k = Some p" using it that by (auto simp: iter_of_def)
    then have "entry_ok E st k p" using engine_inv_reads [OF inv(1)] by (auto simp: reads_inv_def)
    then obtain r n where r: "pos_file_id p \<in> known_ids (fst st)"
      "record_at E (file_bytes st (pos_file_id p)) (unat (pos_offset p)) r" "rec_type r = Normal"
      by (auto elim: entry_okE)
    have h: "handles_inv st" "handles_inv st'" using inv by (simp_all add: engine_inv_def files_inv_handles)
    show ?thesis
      using get_value_by_position_ok [OF ok h(1) r(1,2)]
        get_value_by_position_ok [OF ok h(2) later_known [OF l r(1)] record_at_later [OF l r(2)]] by simp
  qed
  then show ?thesis
    using iter_next_item(1) [of it] by (auto simp: iterator_next_def split: prod.split option.split)
qed

text \<open>Calls of \<open>next\<close>, each in the state that the engine has reached by then.\<close>

fun next_along :: "('s, 'b) env \<Rightarrow> ('s, 'b) st list \<Rightarrow> index_iterator \<Rightarrow> (bytes \<times> bytes) option res list" where
  "next_along E [] it = []"
| "next_along E (st # sts) it = (case iterator_next E st it of (r, it') \<Rightarrow> r # next_along E sts it')"

lemma next_along_later:
  assumes ok: "crates_ok E" "os_ok E" and inv: "engine_inv E st"
  shows "\<forall>st' \<in> set sts. engine_inv E st' \<and> later st st' \<Longrightarrow> iter_of E st it \<Longrightarrow>
    next_along E sts it = next_along E (replicate (length sts) st) it"
proof (induction sts arbitrary: it)
  case (Cons st' sts)
  have nxt: "iterator_next E st' it = iterator_next E st it"
    using iterator_next_later [OF ok inv, of st' it] Cons.prems by simp
  have "iter_of E st (snd (iterator_next E st it))"
    using iter_of_frame [of _ it E st] iter_next_frame [of it] Cons.prems(2) by (simp add: iterator_next_snd)
  with Cons.IH [OF _ this] Cons.prems(1) show ?case by (simp add: nxt case_prod_unfold)
qed simp

text \<open>The results in a state that stands still.\<close>

lemma next_along_replicate:
  "next_along E (replicate n st) it =
     map (\<lambda>i. fst (iterator_next E st (((snd \<circ> iterator_next E st) ^^ i) it))) [0..<n]"
proof (induction n arbitrary: it)
  case (Suc n)
  have "map f [0..<Suc n] = f 0 # map (\<lambda>i. f (Suc i)) [0..<n]" for f :: "nat \<Rightarrow> (bytes \<times> bytes) option res"
    by (simp add: upt_conv_Cons map_Suc_upt [symmetric] del: upt_Suc)
  then show ?case using Suc [of "snd (iterator_next E st it)"]
    by (simp add: case_prod_unfold funpow_Suc_right del: funpow.simps upt_Suc)
qed simp

lemma still_iterator:
  assumes ok: "crates_ok E" "os_ok E" and inv: "engine_inv E st" and it: "engine_iter E opts st = Ok it"
  shows "\<exists>ks. sorted_wrt (<) ks \<and> set ks = {k. kv E st k \<noteq> None \<and> starts_with k (it_prefix opts)} \<and>
    next_along E (replicate n st) it =
      map (\<lambda>i. Ok (if i < length ks then let k = (if it_reverse opts then rev ks else ks) ! i in Some (k, the (kv E st k))
                  else None)) [0..<n]"
proof -
  note reads = engine_inv_reads [OF inv]
  obtain xs where xs: "bt_ok xs" "engine_iter E opts st = Ok (iterator_new xs opts)" "iter_of E st (iterator_new xs opts)"
    "set xs = {(k, p). index_entries E (eng_index (fst st)) k = Some p}"
    by (rule engine_items [OF reads]) blast
  have it': "it = iterator_new xs opts" using it xs(2) by simp
  let ?ys = "filter (\<lambda>x. starts_with (fst x) (it_prefix opts)) xs"
  have ahead: "cur_ahead (iter_cursor it) = (if it_reverse opts then rev ?ys else ?ys)"
    by (simp add: it' iterator_new_cursor cursor_new_def Let_def rev_filter)
  have "fst (iterator_next E st (((snd \<circ> iterator_next E st) ^^ i) it)) =
      Ok (if i < length ?ys then let k = (if it_reverse opts then rev (map fst ?ys) else map fst ?ys) ! i in Some (k, the (kv E st k))
          else None)" for i
    using iterator_nth_next [OF ok reads xs(3) iterator_new_sorted [OF xs(1)], of i]
    by (simp add: it' [symmetric] ahead with_value_def Let_def rev_map)
  then have "next_along E (replicate n st) it =
      map (\<lambda>i. Ok (if i < length (map fst ?ys) then let k = (if it_reverse opts then rev (map fst ?ys) else map fst ?ys) ! i
                  in Some (k, the (kv E st k)) else None)) [0..<n]"
    by (simp add: next_along_replicate)
  moreover have "sorted_wrt (<) (map fst ?ys)"
    using xs(1) by (simp add: bt_ok_def sorted_wrt_map sorted_wrt_filter)
  moreover have "set (map fst ?ys) = {k. kv E st k \<noteq> None \<and> starts_with k (it_prefix opts)}"
    using kv_indexed_iff [OF ok reads] by (force simp: xs(4))
  ultimately show ?thesis by blast
qed

lemma conc_run_engine_inv:
  assumes ok: "crates_ok E" "os_ok E" "hash_ok E" and inv: "engine_inv E st"
    and xs: "list_all conc_fits xs" "conc_room xs st" and c: "conc_run E (map thread_of xs, st) c"
  shows "engine_inv E (snd c)"
proof -
  have "conc_inv E (possible_values E st xs) xs
      (unat (active_id (fst st)) + sum_list (map (appends_left \<circ> thread_of) xs)) (seq_no (fst st) + length xs) c"
    using xs(2) by (intro conc_run_inv [OF ok xs(1) _ _ c conc_inv_start [OF ok(1,2) inv]]) (simp_all add: conc_room_def)
  then show ?thesis by (auto simp: conc_inv_def conc_state_def split: prod.splits)
qed

text \<open>C26: An iterator is a snapshot.  Whatever puts, deletes and commits run before it is created and
  between its calls, \<open>next\<close> yields the pairs that the database had when the iterator was created
  (those with its prefix, in its order), each once, and then \<open>None\<close>.\<close>

theorem iterator_is_snapshot:
  assumes ok: "crates_ok E" "os_ok E" "hash_ok E" and inv: "engine_inv E st"
    and xs: "list_all conc_fits xs" "conc_room xs st"
    and c: "conc_run E (map thread_of xs, st) c" "engine_iter E opts (snd c) = Ok it"
    and cs: "sorted_wrt (conc_run E) (c # cs)"
  shows "\<exists>ks. sorted_wrt (<) ks \<and> set ks = {k. kv E (snd c) k \<noteq> None \<and> starts_with k (it_prefix opts)} \<and>
    next_along E (map snd cs) it =
      map (\<lambda>i. Ok (if i < length ks
                  then let k = (if it_reverse opts then rev ks else ks) ! i in Some (k, the (kv E (snd c) k))
                  else None)) [0..<length cs]"
proof -
  let ?n = "unat (active_id (fst st)) + sum_list (map (appends_left \<circ> thread_of) xs)" and ?q = "seq_no (fst st) + length xs"
  have n: "?n < 2 ^ 32" "?q < 2 ^ 64" using xs(2) by (simp_all add: conc_room_def)
  note start = conc_run_inv [OF ok xs(1) n c(1) conc_inv_start [OF ok(1,2) inv]]
  have einv: "engine_inv E (snd c')" if "conc_inv E V xs n q c'" for V n q c'
    using that by (auto simp: conc_inv_def conc_state_def split: prod.splits)
  have "engine_inv E (snd c') \<and> later (snd c) (snd c')" if "c' \<in> set cs" for c'
  proof -
    have run: "conc_run E c c'" using cs that by simp
    show ?thesis using einv [OF conc_run_inv [OF ok xs(1) n run start]] conc_run_later [OF run start ok xs(1) n] by simp
  qed
  moreover have "iter_of E (snd c) it"
    using engine_items [OF engine_inv_reads [OF einv [OF start]]] c(2) by (metis res.inject(1))
  ultimately have "next_along E (map snd cs) it = next_along E (replicate (length cs) (snd c)) it"
    using next_along_later [OF ok(1,2) einv [OF start], of "map snd cs" it] by simp
  then show ?thesis using still_iterator [OF ok(1,2) einv [OF start] c(2), of "length cs"] by simp
qed

lemma iterator_is_snapshot_witness:
  "\<exists>c it ks. conc_run E0 (map thread_of conc_calls0, st0) c \<and> engine_iter E0 IteratorOptions_default (snd c) = Ok it \<and>
    sorted_wrt (<) ks \<and> set ks = {k. kv E0 (snd c) k \<noteq> None} \<and>
    next_along E0 [snd (conc_schedule E0 [2, 2, 2] c), snd (conc_schedule E0 [2, 0, 2] (conc_schedule E0 [2, 2, 2] c))] it =
      map (\<lambda>i. Ok (if i < length ks then Some (ks ! i, the (kv E0 (snd c) (ks ! i))) else None)) [0..<2]"
proof -
  have room: "conc_room conc_calls0 st0" by (simp add: conc_room_def conc_calls0_def conc_batch0_def st0_def)
  let ?c = "conc_schedule E0 [0, 0, 2] (map thread_of conc_calls0, st0)"
  let ?c1 = "conc_schedule E0 [2, 2, 2] ?c"
  let ?c2 = "conc_schedule E0 [2, 0, 2] ?c1"
  have run: "conc_run E0 (map thread_of conc_calls0, st0) ?c" by (rule conc_schedule_run)
  have inv: "engine_inv E0 (snd ?c)"
    by (rule conc_run_engine_inv [OF _ _ _ engine_inv0 conc_calls0_fits(2) room run]) simp_all
  obtain it where it: "engine_iter E0 IteratorOptions_default (snd ?c) = Ok it"
    using engine_items [OF engine_inv_reads [OF inv]] by metis
  have "conc_run E0 ?c ?c1" "conc_run E0 ?c1 ?c2" by (rule conc_schedule_run)+
  then have "sorted_wrt (conc_run E0) (?c # [?c1, ?c2])"
    using conc_run_trans unfolding sorted_wrt.simps list.set by blast
  from iterator_is_snapshot [OF _ _ _ engine_inv0 conc_calls0_fits(2) room run it this] obtain ks where
    "sorted_wrt (<) ks" "set ks = {k. kv E0 (snd ?c) k \<noteq> None}"
    "next_along E0 [snd ?c1, snd ?c2] it =
      map (\<lambda>i. Ok (if i < length ks then Some (ks ! i, the (kv E0 (snd ?c) (ks ! i))) else None)) [0..<2]"
    by (auto simp: IteratorOptions_default_def Let_def numeral_2_eq_2 simp del: conc_schedule.simps upt_Suc)
  then show ?thesis using run it by blast
qed

end
