(* ===== verification/Locks.thy ===== *)
theory Locks
  imports Prelude
begin

text \<open>
  The locks of the engine (\<^verbatim>\<open>db.rs\<close>, \<^verbatim>\<open>batch.rs\<close>, \<^verbatim>\<open>merge.rs\<close>, \<^verbatim>\<open>iterator.rs\<close>): for every call the
  sequence in which it acquires and releases them, and threads that run such sequences side by
  side.

  The locks inside an index, a data file or an IO manager are left out: none of them is held while
  another lock is awaited.
\<close>

subsection \<open>What a call locks\<close>

text \<open>Batches and iterators have a lock each; they are numbered.\<close>

datatype lock =
    IndexIterLock nat
  | PendingWrites nat
  | BatchCommitLock
  | ActiveFile
  | OlderFiles

datatype lock_act = Read lock | Write lock | Release lock

text \<open>\<open>append_log_record\<close>, with or without starting a new file.\<close>

definition append_locks :: "bool \<Rightarrow> lock_act list" where
  "append_locks rotates =
     [Write ActiveFile] @ (if rotates then [Write OlderFiles, Release OlderFiles] else []) @
     [Release ActiveFile]"

definition get_value_locks :: "lock_act list" where
  "get_value_locks = [Read ActiveFile, Read OlderFiles, Release OlderFiles, Release ActiveFile]"

definition sync_locks :: "lock_act list" where
  "sync_locks = [Read ActiveFile, Release ActiveFile]"

definition stat_locks :: "lock_act list" where
  "stat_locks = [Read OlderFiles, Release OlderFiles]"

definition commit_locks :: "nat \<Rightarrow> bool list \<Rightarrow> bool \<Rightarrow> lock_act list" where
  "commit_locks b rotates sync =
     [Write (PendingWrites b), Write BatchCommitLock] @ concat (map append_locks rotates) @
     (if sync then sync_locks else []) @ [Release BatchCommitLock, Release (PendingWrites b)]"

definition batch_put_locks :: "nat \<Rightarrow> lock_act list" where
  "batch_put_locks b = [Write (PendingWrites b), Release (PendingWrites b)]"

definition batch_delete_locks :: "nat \<Rightarrow> bool \<Rightarrow> lock_act list" where
  "batch_delete_locks b found =
     [Write (PendingWrites b)] @ (if found then get_value_locks else []) @ [Release (PendingWrites b)]"

definition iterator_move_locks :: "nat \<Rightarrow> lock_act list" where
  "iterator_move_locks i = [Write (IndexIterLock i), Release (IndexIterLock i)]"

definition iterator_next_locks :: "nat \<Rightarrow> bool \<Rightarrow> lock_act list" where
  "iterator_next_locks i found =
     [Write (IndexIterLock i)] @ (if found then get_value_locks else []) @ [Release (IndexIterLock i)]"

definition is_empty_locks :: "lock_act list" where
  "is_empty_locks = [Read ActiveFile, Read OlderFiles, Release OlderFiles, Release ActiveFile]"

text \<open>A merge takes the two locks of the files in the other order.\<close>

definition rotate_merge_locks :: "lock_act list" where
  "rotate_merge_locks = [Write OlderFiles, Write ActiveFile, Release ActiveFile, Release OlderFiles]"

text \<open>
  A call together with what decides its locks: whether an append starts a new file, whether the key
  was found in the index, whether the batch options ask for a sync.
\<close>

datatype call =
    CallPut bool
  | CallGet bool
  | CallDelete bool bool
  | CallSync
  | CallStat
  | CallClose
  | CallBatchPut nat
  | CallBatchDelete nat bool
  | CallCommit nat "bool list" bool
  | CallIterMove nat
  | CallIterNext nat bool
  | CallMerge

fun call_locks :: "call \<Rightarrow> lock_act list" where
  "call_locks (CallPut rotates) = append_locks rotates"
| "call_locks (CallGet found) = (if found then get_value_locks else [])"
| "call_locks (CallDelete found rotates) = (if found then append_locks rotates else [])"
| "call_locks CallSync = sync_locks"
| "call_locks CallStat = stat_locks"
| "call_locks CallClose = sync_locks"
| "call_locks (CallBatchPut b) = batch_put_locks b"
| "call_locks (CallBatchDelete b found) = batch_delete_locks b found"
| "call_locks (CallCommit b rotates sync) = commit_locks b rotates sync"
| "call_locks (CallIterMove i) = iterator_move_locks i"
| "call_locks (CallIterNext i found) = iterator_next_locks i found"
| "call_locks CallMerge = is_empty_locks @ rotate_merge_locks"

subsection \<open>Threads\<close>

text \<open>What a thread holds, each lock with whether it is for writing, and what it has left to do.\<close>

record lock_thread =
  held :: "(lock \<times> bool) list"
  todo :: "lock_act list"

definition thread_of_calls :: "call list \<Rightarrow> lock_thread" where
  "thread_of_calls cs = \<lparr>held = [], todo = concat (map call_locks cs)\<rparr>"

text \<open>A reader waits for a writer, a writer for everyone.\<close>

fun grants :: "(lock \<times> bool) set \<Rightarrow> lock_act \<Rightarrow> bool" where
  "grants H (Read l) \<longleftrightarrow> (l, True) \<notin> H"
| "grants H (Write l) \<longleftrightarrow> (l, True) \<notin> H \<and> (l, False) \<notin> H"
| "grants H (Release l) \<longleftrightarrow> True"

fun act_on :: "lock_act \<Rightarrow> (lock \<times> bool) list \<Rightarrow> (lock \<times> bool) list" where
  "act_on (Read l) hs = (l, False) # hs"
| "act_on (Write l) hs = (l, True) # hs"
| "act_on (Release l) hs = filter (\<lambda>h. fst h \<noteq> l) hs"

definition all_held :: "lock_thread list \<Rightarrow> (lock \<times> bool) set" where
  "all_held ts = (\<Union>t \<in> set ts. set (held t))"

inductive lock_step :: "lock_thread list \<Rightarrow> lock_thread list \<Rightarrow> bool" where
  "i < length ts \<Longrightarrow> todo (ts ! i) = a # as \<Longrightarrow> grants (all_held ts) a \<Longrightarrow>
   lock_step ts (ts[i := \<lparr>held = act_on a (held (ts ! i)), todo = as\<rparr>])"

inductive_cases lock_stepE: "lock_step ts ts'"

text \<open>
  A lock may also keep a reader waiting behind a writer that waits (\<open>parking_lot\<close> does): a thread
  is sure to move only when no other thread is about to lock for writing what it wants to read.
\<close>

fun about_to_write :: "lock \<Rightarrow> lock_act list \<Rightarrow> bool" where
  "about_to_write l (Write l' # as) \<longleftrightarrow> l' = l"
| "about_to_write l as \<longleftrightarrow> False"

definition sure_to_move :: "lock_thread list \<Rightarrow> nat \<Rightarrow> bool" where
  "sure_to_move ts i \<longleftrightarrow>
     (case todo (ts ! i) of
        [] \<Rightarrow> False
      | a # as \<Rightarrow>
          grants (all_held ts) a \<and>
          (case a of
             Read l \<Rightarrow> \<forall>j < length ts. \<not> about_to_write l (todo (ts ! j))
           | _ \<Rightarrow> True))"

definition finished :: "lock_thread list \<Rightarrow> bool" where
  "finished ts \<longleftrightarrow> (\<forall>t \<in> set ts. todo t = [])"

subsection \<open>The order of the locks\<close>

primrec rank :: "lock \<Rightarrow> nat" where
  "rank (IndexIterLock i) = 0"
| "rank (PendingWrites b) = 0"
| "rank BatchCommitLock = 1"
| "rank ActiveFile = 2"
| "rank OlderFiles = 3"

text \<open>Locks are acquired in ascending order, released when held, and none is left.\<close>

fun ordered :: "lock list \<Rightarrow> lock_act list \<Rightarrow> bool" where
  "ordered hs [] \<longleftrightarrow> hs = []"
| "ordered hs (Read l # as) \<longleftrightarrow> (\<forall>h \<in> set hs. rank h < rank l) \<and> ordered (l # hs) as"
| "ordered hs (Write l # as) \<longleftrightarrow> (\<forall>h \<in> set hs. rank h < rank l) \<and> ordered (l # hs) as"
| "ordered hs (Release l # as) \<longleftrightarrow> l \<in> set hs \<and> ordered (filter (\<lambda>h. h \<noteq> l) hs) as"

lemma ordered_append: "ordered hs as \<Longrightarrow> ordered [] bs \<Longrightarrow> ordered hs (as @ bs)"
  by (induction hs as rule: ordered.induct) auto

lemma ordered_concat: "(\<And>as. as \<in> set ass \<Longrightarrow> ordered [] as) \<Longrightarrow> ordered [] (concat ass)"
  by (induction ass) (auto intro: ordered_append)

text \<open>An append below locks that come before those of the files.\<close>

lemma append_locks_insert:
  assumes "\<forall>h \<in> set hs. rank h < 2" "ordered hs as"
  shows "ordered hs (concat (map append_locks rs) @ as)"
proof (induction rs)
  case (Cons r rs)
  have "filter (\<lambda>h. h \<noteq> ActiveFile) hs = hs" "filter (\<lambda>h. h \<noteq> OlderFiles) hs = hs"
    using assms(1) by (auto simp: filter_id_conv)
  with Cons assms(1) show ?case by (auto simp: append_locks_def simp del: filter_filter)
qed (use assms(2) in simp)

lemma call_locks_ordered: "c \<noteq> CallMerge \<Longrightarrow> ordered [] (call_locks c)"
proof (cases c)
  case (CallCommit b rs sync)
  have "ordered [BatchCommitLock, PendingWrites b]
      ((if sync then sync_locks else []) @ [Release BatchCommitLock, Release (PendingWrites b)])"
    by (simp add: sync_locks_def)
  from append_locks_insert [OF _ this, of rs] show ?thesis
    by (simp add: CallCommit commit_locks_def)
qed (simp_all add: append_locks_def get_value_locks_def sync_locks_def stat_locks_def batch_put_locks_def
    batch_delete_locks_def iterator_move_locks_def iterator_next_locks_def)

text \<open>The invariant of a thread.\<close>

definition thread_ordered :: "lock_thread \<Rightarrow> bool" where
  "thread_ordered t \<longleftrightarrow> ordered (map fst (held t)) (todo t)"

lemma thread_ordered_act:
  assumes "thread_ordered t" "todo t = a # as"
  shows "thread_ordered \<lparr>held = act_on a (held t), todo = as\<rparr>"
  using assms by (cases a) (auto simp: thread_ordered_def filter_map comp_def)

lemma thread_of_calls_ordered: "CallMerge \<notin> set cs \<Longrightarrow> thread_ordered (thread_of_calls cs)"
  unfolding thread_ordered_def thread_of_calls_def
  by (auto intro!: ordered_concat call_locks_ordered)

lemma lock_step_ordered:
  assumes "lock_step ts ts'" "\<forall>t \<in> set ts. thread_ordered t"
  shows "\<forall>t \<in> set ts'. thread_ordered t"
proof -
  obtain i a as where s: "i < length ts" "todo (ts ! i) = a # as"
    "ts' = ts[i := \<lparr>held = act_on a (held (ts ! i)), todo = as\<rparr>]"
    using assms(1) by (rule lock_stepE)
  then have "thread_ordered \<lparr>held = act_on a (held (ts ! i)), todo = as\<rparr>"
    using thread_ordered_act assms(2) by simp
  then show ?thesis using s(3) assms(2) set_update_subset_insert [of ts i] by (auto dest!: subsetD)
qed

lemma lock_steps_ordered:
  "lock_step\<^sup>*\<^sup>* ts ts' \<Longrightarrow> \<forall>t \<in> set ts. thread_ordered t \<Longrightarrow> \<forall>t \<in> set ts'. thread_ordered t"
  by (induction rule: rtranclp_induct) (auto dest: lock_step_ordered)

text \<open>The lock that a thread waits for, and that what it holds is below.\<close>

fun wanted :: "lock_act \<Rightarrow> lock option" where
  "wanted (Read l) = Some l"
| "wanted (Write l) = Some l"
| "wanted (Release l) = None"

lemma ordered_wanted:
  assumes "thread_ordered t" "todo t = a # as" "wanted a = Some l" "h \<in> set (held t)"
  shows "rank (fst h) < rank l"
  using assms by (cases a) (auto simp: thread_ordered_def)

definition waits_for :: "lock_thread list \<Rightarrow> nat \<Rightarrow> lock \<Rightarrow> bool" where
  "waits_for ts i l \<longleftrightarrow> i < length ts \<and> (\<exists>a as. todo (ts ! i) = a # as \<and> wanted a = Some l)"

text \<open>When no thread is sure to move, what a thread waits for is held by one that waits too, and for a
  lock of higher rank.\<close>

lemma stuck_waits:
  assumes stuck: "\<And>i. i < length ts \<Longrightarrow> \<not> sure_to_move ts i" and i: "i < length ts" "todo (ts ! i) \<noteq> []"
  obtains l m where "waits_for ts i l" "(l, m) \<in> all_held ts"
proof -
  obtain a as where a: "todo (ts ! i) = a # as" using i(2) by (cases "todo (ts ! i)") auto
  then have w: "wanted a = Some l \<Longrightarrow> waits_for ts i l" for l using i(1) by (simp add: waits_for_def)
  show ?thesis
  proof (cases "grants (all_held ts) a")
    case False
    then show ?thesis using that w by (cases a) auto
  next
    case True
    then obtain l j where l: "a = Read l" and j: "j < length ts" "about_to_write l (todo (ts ! j))"
      using stuck [OF i(1)] a by (auto simp: sure_to_move_def split: lock_act.splits)
    obtain bs where "todo (ts ! j) = Write l # bs" using j(2) by (cases "(l, todo (ts ! j))" rule: about_to_write.cases) auto
    have "\<not> grants (all_held ts) (Write l)" using stuck [OF j(1)] \<open>todo (ts ! j) = Write l # bs\<close> by (simp add: sure_to_move_def)
    then show ?thesis using that w l by auto
  qed
qed

lemma holder_waits_higher:
  assumes ord: "\<forall>t \<in> set ts. thread_ordered t" and "(l, m) \<in> all_held ts"
  obtains j where "j < length ts" "todo (ts ! j) \<noteq> []" "\<forall>l'. waits_for ts j l' \<longrightarrow> rank l < rank l'"
proof -
  obtain t where "t \<in> set ts" "(l, m) \<in> set (held t)" using assms(2) by (auto simp: all_held_def)
  then obtain j where j: "j < length ts" "(l, m) \<in> set (held (ts ! j))" by (metis in_set_conv_nth)
  have tj: "thread_ordered (ts ! j)" using ord j(1) by simp
  then have "todo (ts ! j) \<noteq> []" using j(2) by (auto simp: thread_ordered_def)
  moreover have "rank l < rank l'" if "waits_for ts j l'" for l'
    using that ordered_wanted [OF tj _ _ j(2)] by (auto simp: waits_for_def)
  ultimately show ?thesis using that j(1) by blast
qed

lemma some_thread_moves:
  assumes ord: "\<forall>t \<in> set ts. thread_ordered t" and "\<not> finished ts"
  shows "\<exists>i < length ts. sure_to_move ts i"
proof (rule ccontr)
  assume "\<not> ?thesis"
  then have stuck: "i < length ts \<Longrightarrow> \<not> sure_to_move ts i" for i by blast
  have none: "\<not> waits_for ts i l" if "(l, m) \<in> all_held ts" for i l m
    using that
  proof (induction "3 - rank l" arbitrary: i l m rule: less_induct)
    case less
    obtain j where j: "j < length ts" "todo (ts ! j) \<noteq> []" "\<forall>l'. waits_for ts j l' \<longrightarrow> rank l < rank l'"
      by (rule holder_waits_higher [OF ord less.prems])
    obtain l' m' where l': "waits_for ts j l'" "(l', m') \<in> all_held ts"
      by (rule stuck_waits [OF stuck j(1,2)])
    have "rank l' \<le> 3" by (cases l') auto
    with less.hyps [OF _ l'(2), of j] l'(1) j(3) show ?case by fastforce
  qed
  obtain i where "i < length ts" "todo (ts ! i) \<noteq> []"
    using assms(2) by (auto simp: finished_def in_set_conv_nth)
  from stuck_waits [OF stuck this] none show False by metis
qed

text \<open>Every step uses up an action.\<close>

definition work_left :: "lock_thread list \<Rightarrow> nat" where
  "work_left ts = sum_list (map (\<lambda>t. length (todo t)) ts)"

lemma lock_step_work:
  assumes "lock_step ts ts'"
  shows "work_left ts' < work_left ts"
proof -
  obtain i a as where i: "i < length ts" and todo: "todo (ts ! i) = a # as"
    and ts': "ts' = ts[i := \<lparr>held = act_on a (held (ts ! i)), todo = as\<rparr>]"
    using assms by (rule lock_stepE)
  have "length (todo (ts ! i)) \<in> set (map (\<lambda>t. length (todo t)) ts)" using i by simp
  then have "length (todo (ts ! i)) \<le> work_left ts"
    unfolding work_left_def by (rule member_le_sum_list) simp
  moreover have "length (todo (ts ! i)) = Suc (length as)" by (simp add: todo)
  ultimately show "work_left ts' < work_left ts"
    unfolding ts' work_left_def map_update using i by (simp add: sum_list_update)
qed

end
