(* ===== verification/LockProps.thy ===== *)
theory LockProps
  imports Locks
begin

text \<open>Whether threads can get stuck waiting for each other's locks.\<close>

subsection \<open>Schedules\<close>

text \<open>The state after the threads with these numbers have taken a step each.\<close>

fun run_schedule :: "nat list \<Rightarrow> lock_thread list \<Rightarrow> lock_thread list option" where
  "run_schedule [] ts = Some ts"
| "run_schedule (i # is) ts =
     (if i < length ts then
        (case todo (ts ! i) of
           [] \<Rightarrow> None
         | a # as \<Rightarrow>
             if grants (all_held ts) a
             then run_schedule is (ts[i := \<lparr>held = act_on a (held (ts ! i)), todo = as\<rparr>])
             else None)
      else None)"

lemma run_schedule_steps: "run_schedule is ts = Some ts' \<Longrightarrow> lock_step\<^sup>*\<^sup>* ts ts'"
proof (induction "is" ts rule: run_schedule.induct)
  case (2 i "is" ts)
  then obtain a as where a: "i < length ts" "todo (ts ! i) = a # as" "grants (all_held ts) a"
    by (auto split: if_splits list.splits)
  let ?ts = "ts[i := \<lparr>held = act_on a (held (ts ! i)), todo = as\<rparr>]"
  have "lock_step\<^sup>*\<^sup>* ?ts ts'" using "2.IH" [OF a] "2.prems" a by simp
  with lock_step.intros [OF a] show ?case by (rule converse_rtranclp_into_rtranclp)
qed simp

text \<open>Threads that can get to a state in which each has still to act and none can.\<close>

definition can_deadlock :: "call list list \<Rightarrow> bool" where
  "can_deadlock css \<longleftrightarrow>
     (\<exists>ts. lock_step\<^sup>*\<^sup>* (map thread_of_calls css) ts \<and> (\<forall>t \<in> set ts. todo t \<noteq> []) \<and>
        (\<forall>ts'. \<not> lock_step ts ts'))"

definition deadlocked :: "lock_thread list \<Rightarrow> bool" where
  "deadlocked ts \<longleftrightarrow>
     (\<forall>t \<in> set ts. case todo t of [] \<Rightarrow> False | a # as \<Rightarrow> \<not> grants (all_held ts) a)"

lemma deadlocked_by:
  assumes "run_schedule is (map thread_of_calls css) = Some ts" "deadlocked ts"
  shows "can_deadlock css"
proof -
  have "\<not> lock_step ts ts'" for ts'
  proof
    assume "lock_step ts ts'"
    then obtain i a as where "i < length ts" "todo (ts ! i) = a # as" "grants (all_held ts) a"
      by (rule lock_stepE)
    moreover have "ts ! i \<in> set ts" using calculation(1) by simp
    ultimately show False using assms(2) unfolding deadlocked_def by fastforce
  qed
  moreover have "\<forall>t \<in> set ts. todo t \<noteq> []" using assms(2) by (auto simp: deadlocked_def split: list.splits)
  ultimately show ?thesis
    using run_schedule_steps [OF assms(1)] unfolding can_deadlock_def by blast
qed

lemma sure_to_move_step:
  assumes "i < length ts" "sure_to_move ts i"
  shows "\<exists>ts'. lock_step ts ts'"
  using assms lock_step.intros [OF assms(1)] by (auto simp: sure_to_move_def split: list.splits)

lemma lock_steps_work: "(lock_step ^^ n) ts ts' \<Longrightarrow> work_left ts' + n \<le> work_left ts"
proof (induction n arbitrary: ts')
  case (Suc n)
  then obtain u where u: "(lock_step ^^ n) ts u" "lock_step u ts'" by auto
  with Suc.IH [OF u(1)] lock_step_work [OF u(2)] show ?case by simp
qed simp

subsection \<open>Properties\<close>

text \<open>C15: Without a merge the calls never deadlock: however threads that run any sequences of the other
  calls are scheduled, after \<open>n\<close> steps on locks all calls have returned or some thread is sure to
  move, even when locks prefer waiting writers; and \<open>n\<close> is at most the number of the lock actions,
  so every call returns.\<close>

theorem calls_never_deadlock:
  assumes "\<And>cs. cs \<in> set css \<Longrightarrow> CallMerge \<notin> set cs"
    and "(lock_step ^^ n) (map thread_of_calls css) ts"
  shows "(finished ts \<or> (\<exists>i < length ts. sure_to_move ts i)) \<and> n \<le> work_left (map thread_of_calls css)"
proof
  have "\<forall>t \<in> set (map thread_of_calls css). thread_ordered t"
    using assms(1) thread_of_calls_ordered by auto
  moreover have "lock_step\<^sup>*\<^sup>* (map thread_of_calls css) ts" using assms(2) by (rule relpowp_imp_rtranclp)
  ultimately have "\<forall>t \<in> set ts. thread_ordered t" using lock_steps_ordered by blast
  then show "finished ts \<or> (\<exists>i < length ts. sure_to_move ts i)" using some_thread_moves by blast
  show "n \<le> work_left (map thread_of_calls css)" using lock_steps_work [OF assms(2)] by simp
qed

lemma calls_never_deadlock_witness:
  "\<exists>ts. (lock_step ^^ 1) (map thread_of_calls [[CallPut True], [CallGet True, CallCommit 0 [False] True]]) ts \<and>
    (finished ts \<or> (\<exists>i < length ts. sure_to_move ts i)) \<and>
    1 \<le> work_left (map thread_of_calls [[CallPut True], [CallGet True, CallCommit 0 [False] True]])"
proof -
  let ?ts = "map thread_of_calls [[CallPut True], [CallGet True, CallCommit 0 [False] True]]"
  have "\<exists>ts. lock_step ?ts ts"
    by (rule sure_to_move_step [of 0])
      (simp_all add: sure_to_move_def thread_of_calls_def append_locks_def all_held_def)
  then obtain ts where ts: "(lock_step ^^ 1) ?ts ts" by (auto simp: relpowp_1)
  have "CallMerge \<notin> set cs" if "cs \<in> set [[CallPut True], [CallGet True, CallCommit 0 [False] True]]" for cs
    using that by auto
  from calls_never_deadlock [OF this ts] ts show ?thesis by blast
qed

text \<open>C36: A merge can deadlock with any call that locks both files: a \<open>merge\<close> next to a \<open>get\<close> of an
  indexed key, a \<open>put\<close> that starts a new file or the \<open>next\<close> of an iterator can reach a state in which
  neither has returned and no thread can move.\<close>

theorem merge_can_deadlock:
  "can_deadlock [[CallMerge], [CallGet True]] \<and> can_deadlock [[CallMerge], [CallPut True]] \<and>
   can_deadlock [[CallMerge], [CallIterNext i True]]"
proof (intro conjI)
  note defs = thread_of_calls_def is_empty_locks_def rotate_merge_locks_def get_value_locks_def
    append_locks_def iterator_next_locks_def all_held_def deadlocked_def
  show "can_deadlock [[CallMerge], [CallGet True]]"
    by (rule deadlocked_by [of "[0, 0, 0, 0, 0, 1]"], simp add: defs) (simp add: defs)
  show "can_deadlock [[CallMerge], [CallPut True]]"
    by (rule deadlocked_by [of "[0, 0, 0, 0, 0, 1]"], simp add: defs) (simp add: defs)
  show "can_deadlock [[CallMerge], [CallIterNext i True]]"
    by (rule deadlocked_by [of "[0, 0, 0, 0, 0, 1, 1]"], simp add: defs) (simp add: defs)
qed

end
