(* ===== verification/RedisMeta.thy ===== *)
theory RedisMeta
  imports Crates StdText
begin

text \<open>
  Model of \<^verbatim>\<open>redis/src/meta.rs\<close> and of the type tag of \<^verbatim>\<open>redis/src/types.rs\<close>: the metadata record
  of a Redis value and the keys under which its elements are stored in the engine.

  A \<^verbatim>\<open>&str\<close> is the list of its UTF-8 bytes; an \<open>f64\<close> is its IEEE 754 bit pattern.
\<close>

type_synonym f64 = "64 word"
type_synonym str = bytes

text \<open>
  \<^verbatim>\<open>bytes::BufMut\<close> and \<^verbatim>\<open>bytes::Buf\<close> on wider integers (\<open>None\<close> is the panic on a short buffer), and
  \<open>to_string\<close> and \<open>parse\<close> of floating point numbers.
\<close>

record redis_crates =
  put_u64 :: "u64 \<Rightarrow> bytes"
  get_u64 :: "bytes \<Rightarrow> (u64 \<times> bytes) option"
  put_u128 :: "u128 \<Rightarrow> bytes"
  get_u128 :: "bytes \<Rightarrow> (u128 \<times> bytes) option"
  f64_to_string :: "f64 \<Rightarrow> str"
  f64_parse :: "str \<Rightarrow> f64 option"

definition f64_is_nan :: "f64 \<Rightarrow> bool" where
  "f64_is_nan x \<longleftrightarrow> unat x mod 2 ^ 63 > 0x7FF0000000000000"

text \<open>The \<open>==\<close> of two floating point numbers: the two zeros are equal, a NaN equals nothing.\<close>

definition f64_eq :: "f64 \<Rightarrow> f64 \<Rightarrow> bool" where
  "f64_eq a b \<longleftrightarrow>
     \<not> f64_is_nan a \<and> \<not> f64_is_nan b \<and> (a = b \<or> unat a mod 2 ^ 63 = 0 \<and> unat b mod 2 ^ 63 = 0)"

abbreviation f64_0 :: f64 where "f64_0 \<equiv> 0"
abbreviation f64_minus_1 :: f64 where "f64_minus_1 \<equiv> 0xBFF0000000000000"

subsection \<open>UTF-8\<close>

text \<open>The check of \<open>String::from_utf8\<close>, by the table of well-formed byte sequences.\<close>

definition utf8_cont :: "u8 \<Rightarrow> bool" where
  "utf8_cont b \<longleftrightarrow> 0x80 \<le> b \<and> b \<le> 0xBF"

fun utf8_valid :: "bytes \<Rightarrow> bool" where
  "utf8_valid [] \<longleftrightarrow> True"
| "utf8_valid (a # bs) \<longleftrightarrow>
     (if a < 0x80 then utf8_valid bs
      else case bs of
        [] \<Rightarrow> False
      | b # cs \<Rightarrow>
          if 0xC2 \<le> a \<and> a \<le> 0xDF then utf8_cont b \<and> utf8_valid cs
          else case cs of
            [] \<Rightarrow> False
          | c # ds \<Rightarrow>
              if 0xE0 \<le> a \<and> a \<le> 0xEF then
                utf8_cont b \<and> (a = 0xE0 \<longrightarrow> 0xA0 \<le> b) \<and> (a = 0xED \<longrightarrow> b \<le> 0x9F) \<and>
                utf8_cont c \<and> utf8_valid ds
              else case ds of
                [] \<Rightarrow> False
              | d # es \<Rightarrow>
                  0xF0 \<le> a \<and> a \<le> 0xF4 \<and>
                  utf8_cont b \<and> (a = 0xF0 \<longrightarrow> 0x90 \<le> b) \<and> (a = 0xF4 \<longrightarrow> b \<le> 0x8F) \<and>
                  utf8_cont c \<and> utf8_cont d \<and> utf8_valid es)"

text \<open>\<open>String::from_utf8(bytes).unwrap()\<close>.\<close>

definition from_utf8 :: "bytes \<Rightarrow> str res" where
  "from_utf8 bs = (if utf8_valid bs then Ok bs else Panic)"

lemma from_utf8_valid [simp]: "utf8_valid bs \<Longrightarrow> from_utf8 bs = Ok bs"
  by (simp add: from_utf8_def)

subsection \<open>Types and metadata\<close>

datatype redis_data_type = String | Hash | Set | List | ZSet

fun redis_type_as_u8 :: "redis_data_type \<Rightarrow> u8" where
  "redis_type_as_u8 String = 0"
| "redis_type_as_u8 Hash = 1"
| "redis_type_as_u8 Set = 2"
| "redis_type_as_u8 List = 3"
| "redis_type_as_u8 ZSet = 4"

definition RedisDataType_from :: "u8 \<Rightarrow> redis_data_type res" where
  "RedisDataType_from b =
     (if b = 0 then Ok String else if b = 1 then Ok Hash else if b = 2 then Ok Set
      else if b = 3 then Ok List else if b = 4 then Ok ZSet else Panic)"

lemma RedisDataType_from_as_u8 [simp]: "RedisDataType_from (redis_type_as_u8 t) = Ok t"
  by (cases t) (simp_all add: RedisDataType_from_def)

record metadate =
  md_data_type :: redis_data_type
  md_expire :: u128
  md_version :: u128
  md_size :: u32
  md_head :: u64
  md_tail :: u64

record hash_internal_key =
  hk_key :: bytes
  hk_version :: u128
  hk_field :: bytes

record set_internal_key =
  sk_key :: bytes
  sk_version :: u128
  sk_member :: bytes

record list_internal_key =
  lk_key :: bytes
  lk_version :: u128
  lk_index :: u64

record zset_internal_key =
  zk_key :: bytes
  zk_version :: u128
  zk_score :: f64
  zk_member :: bytes

definition Metadate_encode :: "'z crates_scheme \<Rightarrow> redis_crates \<Rightarrow> metadate \<Rightarrow> bytes" where
  "Metadate_encode C R m =
     [redis_type_as_u8 (md_data_type m)] @ put_u128 R (md_expire m) @ put_u128 R (md_version m) @
     put_u32 C (md_size m) @
     (if md_data_type m = List then put_u64 R (md_head m) @ put_u64 R (md_tail m) else [])"

definition get_u8 :: "bytes \<Rightarrow> (u8 \<times> bytes) res" where
  "get_u8 buf = (case buf of [] \<Rightarrow> Panic | b # bs \<Rightarrow> Ok (b, bs))"

definition decode_metadata :: "'z crates_scheme \<Rightarrow> redis_crates \<Rightarrow> bytes \<Rightarrow> metadate res" where
  "decode_metadata C R buf =
     res_bind (get_u8 buf) (\<lambda>(b, buf).
     res_bind (RedisDataType_from b) (\<lambda>data_type.
     res_bind (expect (get_u128 R buf)) (\<lambda>(expire, buf).
     res_bind (expect (get_u128 R buf)) (\<lambda>(version, buf).
     res_bind (expect (get_u32 C buf)) (\<lambda>(sz, buf).
     res_bind
       (if data_type = List
        then res_bind (expect (get_u64 R buf)) (\<lambda>(head, buf).
             res_bind (expect (get_u64 R buf)) (\<lambda>(tail, buf). Ok (head, tail)))
        else Ok (0, 0)) (\<lambda>(head, tail).
       Ok \<lparr>md_data_type = data_type, md_expire = expire, md_version = version, md_size = sz,
           md_head = head, md_tail = tail\<rparr>))))))"

subsection \<open>Keys of elements\<close>

definition HashInternalKey_encode :: "redis_crates \<Rightarrow> hash_internal_key \<Rightarrow> bytes" where
  "HashInternalKey_encode R k = hk_key k @ put_u128 R (hk_version k) @ hk_field k"

definition SetInternalKey_encode :: "'z crates_scheme \<Rightarrow> redis_crates \<Rightarrow> set_internal_key \<Rightarrow> bytes" where
  "SetInternalKey_encode C R k =
     sk_key k @ put_u128 R (sk_version k) @ sk_member k @ put_u32 C (of_nat (length (sk_member k)))"

definition ListInternalKey_encode :: "redis_crates \<Rightarrow> list_internal_key \<Rightarrow> bytes" where
  "ListInternalKey_encode R k = lk_key k @ put_u128 R (lk_version k) @ put_u64 R (lk_index k)"

definition encode_member :: "redis_crates \<Rightarrow> zset_internal_key \<Rightarrow> bytes" where
  "encode_member R k = zk_key k @ put_u128 R (zk_version k) @ zk_member k"

definition encode_score :: "'z crates_scheme \<Rightarrow> redis_crates \<Rightarrow> zset_internal_key \<Rightarrow> bytes" where
  "encode_score C R k =
     zk_key k @ put_u128 R (zk_version k) @ f64_to_string R (zk_score k) @ zk_member k @
     put_u32 C (of_nat (length (zk_member k)))"

subsection \<open>What the crates document\<close>

definition redis_ok :: "redis_crates \<Rightarrow> bool" where
  "redis_ok R \<longleftrightarrow>
     (\<forall>x. length (put_u64 R x) = 8) \<and> (\<forall>x rest. get_u64 R (put_u64 R x @ rest) = Some (x, rest)) \<and>
     (\<forall>x. length (put_u128 R x) = 16) \<and> (\<forall>x rest. get_u128 R (put_u128 R x @ rest) = Some (x, rest)) \<and>
     (\<forall>x. \<not> f64_is_nan x \<longrightarrow> f64_parse R (f64_to_string R x) = Some x) \<and>
     (\<forall>x. utf8_valid (f64_to_string R x) \<and> length (f64_to_string R x) < 2 ^ 10)"

lemma redis_okD [crate_laws]:
  assumes "redis_ok R"
  shows "length (put_u64 R x) = 8" "get_u64 R (put_u64 R x @ rest) = Some (x, rest)"
    "length (put_u128 R v) = 16" "get_u128 R (put_u128 R v @ rest) = Some (v, rest)"
    "\<not> f64_is_nan d \<Longrightarrow> f64_parse R (f64_to_string R d) = Some d"
    "utf8_valid (f64_to_string R d)" "length (f64_to_string R d) < 2 ^ 10"
  using assms by (simp_all add: redis_ok_def)

lemma put_inject:
  assumes "redis_ok R" "crates_ok C"
  shows "put_u64 R x @ s = put_u64 R y @ t \<longleftrightarrow> x = y \<and> s = t"
    and "put_u128 R v @ s = put_u128 R w @ t \<longleftrightarrow> v = w \<and> s = t"
    and "put_u32 C a @ s = put_u32 C b @ t \<longleftrightarrow> a = b \<and> s = t"
proof -
  show "put_u64 R x @ s = put_u64 R y @ t \<longleftrightarrow> x = y \<and> s = t"
    by (metis redis_okD(2) [OF assms(1)] option.inject prod.inject)
  show "put_u128 R v @ s = put_u128 R w @ t \<longleftrightarrow> v = w \<and> s = t"
    by (metis redis_okD(4) [OF assms(1)] option.inject prod.inject)
  show "put_u32 C a @ s = put_u32 C b @ t \<longleftrightarrow> a = b \<and> s = t"
    by (metis get_put_u32 [OF assms(2)] option.inject prod.inject)
qed

lemma put_u64_inject: "redis_ok R \<Longrightarrow> put_u64 R x = put_u64 R y \<longleftrightarrow> x = y"
  by (metis redis_okD(2) append_Nil2 option.inject prod.inject)

text \<open>Only a list has a head and a tail to store.\<close>

definition stored_meta :: "metadate \<Rightarrow> metadate" where
  "stored_meta m = (if md_data_type m = List then m else m\<lparr>md_head := 0, md_tail := 0\<rparr>)"

lemma decode_encode_metadata:
  assumes "crates_ok C" "redis_ok R"
  shows "decode_metadata C R (Metadate_encode C R m) = Ok (stored_meta m)"
proof -
  have end64: "get_u64 R (put_u64 R x) = Some (x, [])" for x
    using redis_okD(2) [OF assms(2), of x "[]"] by simp
  show ?thesis
    by (cases m)
      (simp add: decode_metadata_def Metadate_encode_def get_u8_def stored_meta_def end64
        redis_okD(2,4) [OF assms(2)] get_put_u32 [OF assms(1)] get_put_u32_end [OF assms(1)])
qed

lemma length_Metadate_encode:
  assumes "crates_ok C" "redis_ok R"
  shows "length (Metadate_encode C R m) = (if md_data_type m = List then 53 else 37)"
  by (simp add: Metadate_encode_def redis_okD [OF assms(2)] length_put_u32 [OF assms(1)])

end
