(* ===== verification/Redis.thy ===== *)
theory Redis
  imports RedisMeta Batch Load
begin

text \<open>
  Model of \<^verbatim>\<open>redis/src/types.rs\<close> and \<^verbatim>\<open>redis/src/generic.rs\<close>: Redis values stored in the engine.  The
  state of \<^verbatim>\<open>RedisDataStructure\<close> is its engine, so a call works on the state of the engine.

  A call gets the readings of the clock it makes, in order: nanoseconds since the Unix epoch,
  negative before it.  A \<^verbatim>\<open>Duration\<close> is its nanoseconds.
\<close>

type_synonym system_time = int
type_synonym readings = "system_time \<times> system_time"

text \<open>\<open>duration_since(UNIX_EPOCH).unwrap().as_nanos()\<close> and \<open>checked_add\<close> (64-bit seconds).\<close>

definition as_nanos :: "system_time \<Rightarrow> u128 res" where
  "as_nanos t = (if t < 0 then Panic else Ok (of_int t))"

definition time_checked_add :: "system_time \<Rightarrow> nat \<Rightarrow> system_time option" where
  "time_checked_add t d =
     (let s = t + int d in if s div 10 ^ 9 < 2 ^ 63 then Some s else None)"

definition INITIAL_LIST_MARK :: u64 where "INITIAL_LIST_MARK = 0x7FFFFFFFFFFFFFFF"

definition RedisDataStructure_new ::
  "('s, 'b) env \<Rightarrow> options \<Rightarrow> fs \<Rightarrow> (('s, 'b) engine res \<times> fs) option" where
  "RedisDataStructure_new E opts fs = engine_open E opts fs"

subsection \<open>Strings\<close>

definition redis_set ::
  "('s, 'b) env \<Rightarrow> redis_crates \<Rightarrow> readings \<Rightarrow> str \<Rightarrow> str \<Rightarrow> nat \<Rightarrow> ('s, 'b) st \<Rightarrow>
   unit res \<times> ('s, 'b) st" where
  "redis_set E R now key val ttl st =
     (if val = [] then (Ok (), st)
      else
        and_then (if ttl = 0 then Ok 0
                  else case time_checked_add (fst now) ttl of
                         None \<Rightarrow> Ok 0
                       | Some v \<Rightarrow> as_nanos v, st) (\<lambda>exprie st.
          put E key ([redis_type_as_u8 String] @ put_u128 R exprie @ val) st))"

definition redis_get ::
  "('s, 'b) env \<Rightarrow> redis_crates \<Rightarrow> readings \<Rightarrow> str \<Rightarrow> ('s, 'b) st \<Rightarrow> str option res" where
  "redis_get E R now key st =
     res_bind (get E key st) (\<lambda>buf.
     res_bind (get_u8 buf) (\<lambda>(b, buf).
     res_bind (RedisDataType_from b) (\<lambda>key_type.
       if key_type \<noteq> String then Err WrongTypeOperation
       else
         res_bind (expect (get_u128 R buf)) (\<lambda>(exprie, buf).
         res_bind (if 0 < exprie then res_map (\<lambda>n. exprie \<le> n) (as_nanos (fst now)) else Ok False)
           (\<lambda>expired. if expired then Ok None else res_map Some (from_utf8 buf))))))"

subsection \<open>The generic commands\<close>

definition del :: "('s, 'b) env \<Rightarrow> str \<Rightarrow> ('s, 'b) st \<Rightarrow> unit res \<times> ('s, 'b) st" where
  "del E key st = delete E key st"

definition key_type :: "('s, 'b) env \<Rightarrow> str \<Rightarrow> ('s, 'b) st \<Rightarrow> redis_data_type res" where
  "key_type E key st =
     res_bind (get E key st) (\<lambda>buf. res_bind (get_u8 buf) (\<lambda>(b, _). RedisDataType_from b))"

subsection \<open>Metadata\<close>

definition new_metadata :: "redis_data_type \<Rightarrow> u128 \<Rightarrow> metadate" where
  "new_metadata data_type version =
     \<lparr>md_data_type = data_type, md_expire = 0, md_version = version, md_size = 0,
      md_head = (if data_type = List then INITIAL_LIST_MARK else 0),
      md_tail = (if data_type = List then INITIAL_LIST_MARK else 0)\<rparr>"

text \<open>
  The first reading of the clock is the one of the expiry check, the second one gives the version
  of new metadata.
\<close>

definition find_metadata ::
  "('s, 'b) env \<Rightarrow> redis_crates \<Rightarrow> readings \<Rightarrow> str \<Rightarrow> redis_data_type \<Rightarrow> ('s, 'b) st \<Rightarrow> metadate res" where
  "find_metadata E R now key data_type st =
     res_bind
       (case get E key st of
          Ok meta_buf \<Rightarrow>
            res_bind (get_u8 meta_buf) (\<lambda>(typ, _).
            res_bind (RedisDataType_from typ) (\<lambda>t.
              if data_type \<noteq> t then Err WrongTypeOperation
              else
                res_bind (decode_metadata E R meta_buf) (\<lambda>meta.
                res_bind (as_nanos (fst now)) (\<lambda>n.
                  Ok (if md_expire meta \<noteq> 0 \<and> md_expire meta \<le> n then None else Some meta)))))
        | Err e \<Rightarrow> if e \<noteq> KeyNotFound then Err e else Ok None
        | Panic \<Rightarrow> Panic)
       (\<lambda>found. case found of
          Some meta \<Rightarrow> Ok meta
        | None \<Rightarrow> res_map (new_metadata data_type) (as_nanos (snd now)))"

subsection \<open>Batches of a command\<close>

text \<open>
  Each writing command fills a batch of its own and commits it; the batch is dropped with the
  call.  Inside, the state is the batch with the state of the engine.
\<close>

type_synonym ('s, 'b) wst = "write_batch \<times> ('s, 'b) st"

definition wb_put :: "bytes \<Rightarrow> bytes \<Rightarrow> ('s, 'b) wst \<Rightarrow> unit res \<times> ('s, 'b) wst" where
  "wb_put k v ws = (case ws of (wb, st) \<Rightarrow> (case batch_put k v wb of (r, wb) \<Rightarrow> (r, wb, st)))"

definition wb_delete :: "('s, 'b) env \<Rightarrow> bytes \<Rightarrow> ('s, 'b) wst \<Rightarrow> unit res \<times> ('s, 'b) wst" where
  "wb_delete E k ws = (case ws of (wb, st) \<Rightarrow> (case batch_delete E st k wb of (r, wb) \<Rightarrow> (r, wb, st)))"

definition wb_commit :: "('s, 'b) env \<Rightarrow> ('s, 'b) wst \<Rightarrow> unit res \<times> ('s, 'b) wst" where
  "wb_commit E ws = (case ws of (wb, st) \<Rightarrow> commit E wb st)"

definition in_batch :: "(('s, 'b) wst \<Rightarrow> 'a res \<times> ('s, 'b) wst) \<Rightarrow> ('s, 'b) st \<Rightarrow> 'a res \<times> ('s, 'b) st" where
  "in_batch body st =
     and_then (new_write_batch WriteBatchOptions_default (fst st), st) (\<lambda>wb st.
       case body (wb, st) of (r, _, st) \<Rightarrow> (r, st))"

text \<open>\<open>if let Err(e) = self.engine.get(..) && e == AppError::KeyNotFound\<close>.\<close>

definition element_exists :: "('s, 'b) env \<Rightarrow> bytes \<Rightarrow> ('s, 'b) st \<Rightarrow> bool res" where
  "element_exists E k st =
     (case get E k st of Ok _ \<Rightarrow> Ok True | Err e \<Rightarrow> Ok (e \<noteq> KeyNotFound) | Panic \<Rightarrow> Panic)"

subsection \<open>Hashes\<close>

definition hset ::
  "('s, 'b) env \<Rightarrow> redis_crates \<Rightarrow> readings \<Rightarrow> str \<Rightarrow> str \<Rightarrow> str \<Rightarrow> ('s, 'b) st \<Rightarrow>
   bool res \<times> ('s, 'b) st" where
  "hset E R now key field val st =
     and_then (find_metadata E R now key Hash st, st) (\<lambda>meta st.
     let hk = HashInternalKey_encode R \<lparr>hk_key = key, hk_version = md_version meta, hk_field = field\<rparr> in
     and_then (element_exists E hk st, st) (\<lambda>exist st.
     in_batch (\<lambda>ws.
       and_then (if \<not> exist
                 then and_then (add_u32 (md_size meta) 1, ws) (\<lambda>n ws.
                        wb_put key (Metadate_encode E R (meta\<lparr>md_size := n\<rparr>)) ws)
                 else (Ok (), ws)) (\<lambda>_ ws.
       and_then (wb_put hk val ws) (\<lambda>_ ws.
       and_then (wb_commit E ws) (\<lambda>_ ws. (Ok (\<not> exist), ws))))) st))"

definition hget ::
  "('s, 'b) env \<Rightarrow> redis_crates \<Rightarrow> readings \<Rightarrow> str \<Rightarrow> str \<Rightarrow> ('s, 'b) st \<Rightarrow> str option res" where
  "hget E R now key field st =
     res_bind (find_metadata E R now key Hash st) (\<lambda>meta.
       if md_size meta = 0 then Ok None
       else
         let hk = HashInternalKey_encode R \<lparr>hk_key = key, hk_version = md_version meta, hk_field = field\<rparr>
         in res_bind (get E hk st) (\<lambda>val. res_map Some (from_utf8 val)))"

definition hdel ::
  "('s, 'b) env \<Rightarrow> redis_crates \<Rightarrow> readings \<Rightarrow> str \<Rightarrow> str \<Rightarrow> ('s, 'b) st \<Rightarrow> bool res \<times> ('s, 'b) st" where
  "hdel E R now key field st =
     and_then (find_metadata E R now key Hash st, st) (\<lambda>meta st.
       if md_size meta = 0 then (Ok False, st)
       else
         let hk = HashInternalKey_encode R \<lparr>hk_key = key, hk_version = md_version meta, hk_field = field\<rparr>
         in and_then (element_exists E hk st, st) (\<lambda>exist st.
            if exist
            then in_batch (\<lambda>ws.
              and_then (sub_u32 (md_size meta) 1, ws) (\<lambda>n ws.
              and_then (wb_put key (Metadate_encode E R (meta\<lparr>md_size := n\<rparr>)) ws) (\<lambda>_ ws.
              and_then (wb_delete E hk ws) (\<lambda>_ ws.
              and_then (wb_commit E ws) (\<lambda>_ ws. (Ok exist, ws)))))) st
            else (Ok exist, st)))"

subsection \<open>Sets\<close>

definition sadd ::
  "('s, 'b) env \<Rightarrow> redis_crates \<Rightarrow> readings \<Rightarrow> str \<Rightarrow> str \<Rightarrow> ('s, 'b) st \<Rightarrow> bool res \<times> ('s, 'b) st" where
  "sadd E R now key member st =
     and_then (find_metadata E R now key Set st, st) (\<lambda>meta st.
     let sk = SetInternalKey_encode E R \<lparr>sk_key = key, sk_version = md_version meta, sk_member = member\<rparr> in
     and_then (element_exists E sk st, st) (\<lambda>exist st.
       if \<not> exist
       then in_batch (\<lambda>ws.
         and_then (add_u32 (md_size meta) 1, ws) (\<lambda>n ws.
         and_then (wb_put key (Metadate_encode E R (meta\<lparr>md_size := n\<rparr>)) ws) (\<lambda>_ ws.
         and_then (wb_put sk [] ws) (\<lambda>_ ws.
         and_then (wb_commit E ws) (\<lambda>_ ws. (Ok True, ws)))))) st
       else (Ok False, st)))"

definition s_is_member ::
  "('s, 'b) env \<Rightarrow> redis_crates \<Rightarrow> readings \<Rightarrow> str \<Rightarrow> str \<Rightarrow> ('s, 'b) st \<Rightarrow> bool res" where
  "s_is_member E R now key member st =
     res_bind (find_metadata E R now key Set st) (\<lambda>meta.
       if md_size meta = 0 then Ok False
       else
         let sk = SetInternalKey_encode E R \<lparr>sk_key = key, sk_version = md_version meta, sk_member = member\<rparr>
         in case get E sk st of
              Ok _ \<Rightarrow> Ok True
            | Err e \<Rightarrow> if e \<noteq> KeyNotFound then Err e else Ok False
            | Panic \<Rightarrow> Panic)"

definition srem ::
  "('s, 'b) env \<Rightarrow> redis_crates \<Rightarrow> readings \<Rightarrow> str \<Rightarrow> str \<Rightarrow> ('s, 'b) st \<Rightarrow> bool res \<times> ('s, 'b) st" where
  "srem E R now key member st =
     and_then (find_metadata E R now key Set st, st) (\<lambda>meta st.
       if md_size meta = 0 then (Ok False, st)
       else
         let sk = SetInternalKey_encode E R \<lparr>sk_key = key, sk_version = md_version meta, sk_member = member\<rparr>
         in case get E sk st of
              Panic \<Rightarrow> (Panic, st)
            | Err _ \<Rightarrow> (Ok False, st)
            | Ok _ \<Rightarrow>
                and_then (sub_u32 (md_size meta) 1, st) (\<lambda>n st.
                in_batch (\<lambda>ws.
                  and_then (wb_put key (Metadate_encode E R (meta\<lparr>md_size := n\<rparr>)) ws) (\<lambda>_ ws.
                  and_then (wb_delete E sk ws) (\<lambda>_ ws.
                  and_then (wb_commit E ws) (\<lambda>_ ws. (Ok True, ws))))) st))"

subsection \<open>Lists\<close>

definition push_inner ::
  "('s, 'b) env \<Rightarrow> redis_crates \<Rightarrow> readings \<Rightarrow> str \<Rightarrow> str \<Rightarrow> bool \<Rightarrow> ('s, 'b) st \<Rightarrow>
   u32 res \<times> ('s, 'b) st" where
  "push_inner E R now key element is_left st =
     and_then (find_metadata E R now key List st, st) (\<lambda>meta st.
     and_then (if is_left then sub_u64 (md_head meta) 1 else Ok (md_tail meta), st) (\<lambda>idx st.
     let lk = ListInternalKey_encode R \<lparr>lk_key = key, lk_version = md_version meta, lk_index = idx\<rparr> in
     in_batch (\<lambda>ws.
       and_then (add_u32 (md_size meta) 1, ws) (\<lambda>n ws.
       and_then (if is_left
                 then res_map (\<lambda>h. meta\<lparr>md_size := n, md_head := h\<rparr>) (sub_u64 (md_head meta) 1)
                 else res_map (\<lambda>t. meta\<lparr>md_size := n, md_tail := t\<rparr>) (add_u64 (md_tail meta) 1), ws)
         (\<lambda>meta ws.
       and_then (wb_put key (Metadate_encode E R meta) ws) (\<lambda>_ ws.
       and_then (wb_put lk element ws) (\<lambda>_ ws.
       and_then (wb_commit E ws) (\<lambda>_ ws. (Ok (md_size meta), ws))))))) st))"

definition pop_inner ::
  "('s, 'b) env \<Rightarrow> redis_crates \<Rightarrow> readings \<Rightarrow> str \<Rightarrow> bool \<Rightarrow> ('s, 'b) st \<Rightarrow>
   str option res \<times> ('s, 'b) st" where
  "pop_inner E R now key is_left st =
     and_then (find_metadata E R now key List st, st) (\<lambda>meta st.
       if md_size meta = 0 then (Ok None, st)
       else
         and_then (if is_left then Ok (md_head meta) else sub_u64 (md_tail meta) 1, st) (\<lambda>idx st.
         let lk = ListInternalKey_encode R \<lparr>lk_key = key, lk_version = md_version meta, lk_index = idx\<rparr> in
         and_then (get E lk st, st) (\<lambda>element st.
         and_then (sub_u32 (md_size meta) 1, st) (\<lambda>n st.
         and_then (if is_left
                   then res_map (\<lambda>h. meta\<lparr>md_size := n, md_head := h\<rparr>) (add_u64 (md_head meta) 1)
                   else res_map (\<lambda>t. meta\<lparr>md_size := n, md_tail := t\<rparr>) (sub_u64 (md_tail meta) 1), st)
           (\<lambda>meta st.
         and_then (put E key (Metadate_encode E R meta) st) (\<lambda>_ st.
           (res_map Some (from_utf8 element), st)))))))"

definition lpush where "lpush E R now key element st = push_inner E R now key element True st"
definition rpush where "rpush E R now key element st = push_inner E R now key element False st"
definition lpop where "lpop E R now key st = pop_inner E R now key True st"
definition rpop where "rpop E R now key st = pop_inner E R now key False st"

subsection \<open>Sorted sets\<close>

definition zadd ::
  "('s, 'b) env \<Rightarrow> redis_crates \<Rightarrow> readings \<Rightarrow> str \<Rightarrow> f64 \<Rightarrow> str \<Rightarrow> ('s, 'b) st \<Rightarrow>
   bool res \<times> ('s, 'b) st" where
  "zadd E R now key score member st =
     and_then (find_metadata E R now key ZSet st, st) (\<lambda>meta st.
     let zk = \<lparr>zk_key = key, zk_version = md_version meta, zk_score = score, zk_member = member\<rparr> in
     and_then
       (case get E (encode_member R zk) st of
          Ok val \<Rightarrow> res_bind (from_utf8 val) (\<lambda>val. res_map Some (expect (f64_parse R val)))
        | Err e \<Rightarrow> if e \<noteq> KeyNotFound then Err e else Ok None
        | Panic \<Rightarrow> Panic, st) (\<lambda>old st.
     if (case old of None \<Rightarrow> False | Some old_score \<Rightarrow> f64_eq old_score score) then (Ok False, st)
     else
       in_batch (\<lambda>ws.
         and_then (case old of
                     None \<Rightarrow>
                       and_then (add_u32 (md_size meta) 1, ws) (\<lambda>n ws.
                         wb_put key (Metadate_encode E R (meta\<lparr>md_size := n\<rparr>)) ws)
                   | Some old_score \<Rightarrow> wb_delete E (encode_score E R (zk\<lparr>zk_score := old_score\<rparr>)) ws) (\<lambda>_ ws.
         and_then (wb_put (encode_member R zk) (f64_to_string R score) ws) (\<lambda>_ ws.
         and_then (wb_put (encode_score E R zk) [] ws) (\<lambda>_ ws.
         and_then (wb_commit E ws) (\<lambda>_ ws. (Ok (old = None), ws)))))) st))"

definition zscore ::
  "('s, 'b) env \<Rightarrow> redis_crates \<Rightarrow> readings \<Rightarrow> str \<Rightarrow> str \<Rightarrow> ('s, 'b) st \<Rightarrow> f64 res" where
  "zscore E R now key member st =
     res_bind (find_metadata E R now key ZSet st) (\<lambda>meta.
       if md_size meta = 0 then Ok f64_minus_1
       else
         let zk = \<lparr>zk_key = key, zk_version = md_version meta, zk_score = f64_0, zk_member = member\<rparr>
         in res_bind (get E (encode_member R zk) st) (\<lambda>score.
            res_bind (from_utf8 score) (\<lambda>s. expect (f64_parse R s))))"

end
