(* ===== verification/RedisEngine.thy ===== *)
theory RedisEngine
  imports Redis BatchProps
begin

text \<open>
  What the Redis layer needs of the engine: \<open>get\<close>, \<open>put\<close>, \<open>delete\<close> and a batch of a command on
  the map of the engine, as long as the engine has room for \<open>n\<close> more commands.
\<close>

definition ready :: "('s, 'b) env \<Rightarrow> nat \<Rightarrow> ('s, 'b) st \<Rightarrow> bool" where
  "ready E n st \<longleftrightarrow>
     engine_inv E st \<and> index_type (eng_options (fst st)) \<noteq> BPlusTree \<and>
     unat (active_id (fst st)) + 4 * n < 2 ^ 32 \<and> seq_no (fst st) + n < 2 ^ 64"

lemma ready_mono: "ready E n st \<Longrightarrow> m \<le> n \<Longrightarrow> ready E m st"
  by (simp add: ready_def)

lemma ready_get:
  assumes "crates_ok E" "os_ok E" "ready E n st" "k \<noteq> []"
  shows "get E k st = (case kv E st k of None \<Rightarrow> Err KeyNotFound | Some v \<Rightarrow> Ok v)"
  using get_cases [OF assms(1,2) engine_inv_reads, of st k] assms(3,4) by (simp add: ready_def)

lemma ready_put:
  assumes "crates_ok E" "os_ok E" "ready E (Suc n) st" "storable k v"
  obtains st' where "put E k v st = (Ok (), st')" "ready E n st'" "kv E st' = (kv E st)(k \<mapsto> v)"
proof -
  obtain e fs where st: "st = (e, fs)" by (cases st)
  have inv: "engine_inv E (e, fs)" and id: "unat (active_id e) + 1 < 2 ^ 32"
    and r: "index_type (eng_options e) \<noteq> BPlusTree" "unat (active_id e) + 4 * Suc n < 2 ^ 32"
      "seq_no e + Suc n < 2 ^ 64"
    using assms(3) by (simp_all add: ready_def st)
  from put_ok [OF assms(1,2) inv assms(4) id] obtain e' fs' where
    p: "put E k v (e, fs) = (Ok (), e', fs')" "engine_inv E (e', fs')" "kv E (e', fs') = (kv E (e, fs))(k \<mapsto> v)"
      "unat (active_id e') \<le> unat (active_id e) + 1" "seq_no e' = seq_no e" "eng_options e' = eng_options e"
    by blast
  have "ready E n (e', fs')" using p(2,4-6) r by (simp add: ready_def)
  then show thesis using that [of "(e', fs')"] p(1,3) by (simp add: st)
qed

lemma ready_delete:
  assumes "crates_ok E" "os_ok E" "ready E (Suc n) st" "k \<noteq> []" "length k < 2 ^ 32"
  obtains st' where "delete E k st = (Ok (), st')" "ready E n st'" "kv E st' = (kv E st)(k := None)"
proof -
  obtain e fs where st: "st = (e, fs)" by (cases st)
  have inv: "engine_inv E (e, fs)" and id: "unat (active_id e) + 1 < 2 ^ 32"
    and r: "index_type (eng_options e) \<noteq> BPlusTree" "unat (active_id e) + 4 * Suc n < 2 ^ 32"
      "seq_no e + Suc n < 2 ^ 64"
    using assms(3) by (simp_all add: ready_def st)
  from delete_ok [OF assms(1,2) inv assms(4,5) id] obtain e' fs' where
    p: "delete E k (e, fs) = (Ok (), e', fs')" "engine_inv E (e', fs')" "kv E (e', fs') = (kv E (e, fs))(k := None)"
      "unat (active_id e') \<le> unat (active_id e) + 1" "seq_no e' = seq_no e" "eng_options e' = eng_options e"
    by blast
  have "ready E n (e', fs')" using p(2,4-6) r by (simp add: ready_def)
  then show thesis using that [of "(e', fs')"] p(1,3) by (simp add: st)
qed

subsection \<open>Batches\<close>

fun wb_fill :: "('s, 'b) env \<Rightarrow> batch_op list \<Rightarrow> ('s, 'b) wst \<Rightarrow> unit res \<times> ('s, 'b) wst" where
  "wb_fill E [] ws = (Ok (), ws)"
| "wb_fill E (BPut k v # xs) ws = and_then (wb_put k v ws) (\<lambda>_ ws. wb_fill E xs ws)"
| "wb_fill E (BDelete k # xs) ws = and_then (wb_delete E k ws) (\<lambda>_ ws. wb_fill E xs ws)"

lemma wb_fill_eq:
  "wb_fill E xs (wb, st) = (case batch_fill E st xs wb of (r, wb) \<Rightarrow> (r, wb, st))"
proof (induction xs arbitrary: wb)
  case (Cons x xs)
  then show ?case
    by (cases x; cases "fst (batch_step E st x wb)")
      (auto simp: wb_put_def wb_delete_def and_then_def split: prod.splits res.splits)
qed simp

lemma batch_fill_keeps:
  assumes "crates_ok E" "os_ok E" "engine_inv E st" "batch_ok b" "list_all batch_op_fits xs"
    and "batch_fill E st xs b = (Ok (), b')"
  shows "length (pending_write b') \<le> length (pending_write b) + length xs \<and>
    (batch_view b k \<noteq> None \<or> (\<exists>v. BPut k v \<in> set xs) \<longrightarrow> BDelete k \<notin> set xs \<longrightarrow> batch_view b' k \<noteq> None)"
  using assms(4-)
proof (induction xs arbitrary: b)
  case (Cons x xs)
  have len: "length (AList.update a (v :: log_record) al) \<le> Suc (length al)" "length (AList.delete a al) \<le> length al" for a v and al :: "(bytes \<times> log_record) list"
    by (induction al) (simp_all add: AList.delete_eq le_SucI)
  have "\<exists>b1. batch_step E st x b = (Ok (), b1) \<and> batch_ok b1 \<and>
      length (pending_write b1) \<le> Suc (length (pending_write b)) \<and>
      (batch_view b k \<noteq> None \<or> (\<exists>v. x = BPut k v) \<longrightarrow> x \<noteq> BDelete k \<longrightarrow> batch_view b1 k \<noteq> None)"
  proof (cases x)
    case (BPut j v)
    then have fits: "loggable j v" using Cons.prems(2) by simp
    from batch_put_ok [OF Cons.prems(1) this] obtain b1 where
      b1: "batch_put j v b = (Ok (), b1)" "batch_ok b1" "batch_view b1 = (batch_view b)(j := Some (Some v))"
      by blast
    then have "b1 = b\<lparr>pending_write := AList.update j (LogRecord_new j v Normal) (pending_write b)\<rparr>"
      by (simp add: batch_put_def split: if_splits)
    then have "length (pending_write b1) \<le> Suc (length (pending_write b))" using len by simp
    then show ?thesis using b1 BPut by auto
  next
    case (BDelete j)
    then have "loggable j []" using Cons.prems(2) by simp
    from batch_delete_ok [OF assms(1-3) Cons.prems(1) this] obtain b1 v where
      b1: "batch_delete E st j b = (Ok (), b1)" "batch_ok b1" "batch_view b1 = (batch_view b)(j := v)"
      by blast
    then have "pending_write b1 = AList.update j (LogRecord_new j [] Delete) (pending_write b) \<or>
        pending_write b1 = AList.delete j (pending_write b)"
      by (auto simp: batch_delete_def Let_def split: if_splits res.splits)
    then have "length (pending_write b1) \<le> Suc (length (pending_write b))"
      using len(1) [of j "LogRecord_new j [] Delete" "pending_write b"] len(2) [of j "pending_write b"]
      by (auto intro: le_SucI)
    then show ?thesis using b1 BDelete by auto
  qed
  then obtain b1 where b1: "batch_step E st x b = (Ok (), b1)" "batch_ok b1"
    "length (pending_write b1) \<le> Suc (length (pending_write b))"
    "batch_view b k \<noteq> None \<or> (\<exists>v. x = BPut k v) \<longrightarrow> x \<noteq> BDelete k \<longrightarrow> batch_view b1 k \<noteq> None"
    by (elim exE conjE) (rule that)
  have "list_all batch_op_fits xs" "batch_fill E st xs b1 = (Ok (), b')"
    using Cons.prems(2,3) b1(1) by simp_all
  note IH = Cons.IH [OF b1(2) this]
  show ?case
  proof (intro conjI impI)
    show "length (pending_write b') \<le> length (pending_write b) + length (x # xs)"
      using IH b1(3) by simp
    assume a: "batch_view b k \<noteq> None \<or> (\<exists>v. BPut k v \<in> set (x # xs))" and n: "BDelete k \<notin> set (x # xs)"
    have "x \<noteq> BDelete k" using n by (metis list.set_intros(1))
    moreover have "(\<exists>v. x = BPut k v) \<or> (\<exists>v. BPut k v \<in> set xs) \<or> batch_view b k \<noteq> None"
      using a by (metis set_ConsD)
    ultimately have "batch_view b1 k \<noteq> None \<or> (\<exists>v. BPut k v \<in> set xs)" using b1(4) by blast
    then show "batch_view b' k \<noteq> None" using IH n by (metis list.set_intros(2))
  qed
qed auto

text \<open>A batch that puts a key it does not delete has something to commit.\<close>

lemma in_batch_ok:
  assumes ok: "crates_ok E" "os_ok E" "hash_ok E" and ready: "ready E (Suc n) st"
    and xs: "list_all batch_op_fits xs" "length xs \<le> 3" "BPut k v \<in> set xs" "BDelete k \<notin> set xs"
  obtains st' where
    "in_batch (\<lambda>ws. and_then (wb_fill E xs ws) (\<lambda>_ ws. and_then (wb_commit E ws) (\<lambda>_ ws. (r, ws)))) st =
       (r, st')"
    "ready E n st'" "kv E st' = fold apply_op xs (kv E st)"
proof -
  obtain e fs where st: "st = (e, fs)" by (cases st)
  have inv: "engine_inv E (e, fs)"
    and r: "index_type (eng_options e) \<noteq> BPlusTree" "unat (active_id e) + 4 * Suc n < 2 ^ 32"
      "seq_no e + Suc n < 2 ^ 64"
    using ready by (simp_all add: ready_def st)
  let ?b0 = "\<lparr>pending_write = [], wb_options = WriteBatchOptions_default\<rparr>"
  have b0: "batch_ok ?b0" by (rule new_batch_ok)
  obtain b where b: "batch_fill E (e, fs) xs ?b0 = (Ok (), b)" "batch_ok b"
      "wb_options b = WriteBatchOptions_default"
      "view_map b (kv E (e, fs)) = fold apply_op xs (view_map ?b0 (kv E (e, fs)))"
    using batch_fill_ok [OF ok(1,2) inv b0 xs(1)] by auto
  have v0: "view_map ?b0 m = m" for m
    by (simp add: view_map_def batch_view_def fun_eq_iff)
  have len: "length (pending_write b) \<le> 3" "batch_view b k \<noteq> None"
    using batch_fill_keeps [OF ok(1,2) inv b0 xs(1) b(1), of k] xs(2-4) by auto
  then have p: "pending_write b \<noteq> []" by (auto simp: batch_view_def)
  have max: "length (pending_write b) \<le> max_batch_num (wb_options b)"
    using len(1) b(3) by (simp add: WriteBatchOptions_default_def)
  have room: "seq_no e + 1 < 2 ^ 64" "unat (active_id e) + length (pending_write b) + 1 < 2 ^ 32"
    using r len(1) by simp_all
  obtain e' fs' where c: "commit E b (e, fs) = (Ok (), b\<lparr>pending_write := []\<rparr>, e', fs')"
    "engine_inv E (e', fs')" "kv E (e', fs') = view_map b (kv E (e, fs))" "seq_no e' = seq_no e + 1"
    "eng_options e' = eng_options e" "unat (active_id e') \<le> unat (active_id e) + length (pending_write b) + 1"
    using commit_ok [OF ok inv b(2) p max room] unfolding view_map_def by blast
  have "new_write_batch WriteBatchOptions_default e = Ok ?b0" using r(1) by (simp add: new_write_batch_def)
  moreover have "wb_fill E xs (?b0, e, fs) = (Ok (), b, e, fs)"
    using b(1) by (simp add: wb_fill_eq)
  ultimately have "in_batch (\<lambda>ws. and_then (wb_fill E xs ws)
      (\<lambda>_ ws. and_then (wb_commit E ws) (\<lambda>_ ws. (r, ws)))) st = (r, e', fs')"
    using c(1) by (simp add: in_batch_def st wb_commit_def)
  moreover have "ready E n (e', fs')" using c(2,4-6) r len(1) by (simp add: ready_def)
  moreover have "kv E (e', fs') = fold apply_op xs (kv E st)"
    using c(3) b(4) v0 by (simp add: st)
  ultimately show thesis using that by blast
qed

end
