(* ===== verification/RedisSpec.thy ===== *)
theory RedisSpec
  imports Redis
begin

text \<open>
  The abstract store of the Redis layer: a map from keys to typed values, and what each command
  answers and does to it.  Errors are those of the code: a value of another type, a missing key.
\<close>

datatype redis_value =
    StringVal str u128  \<comment> \<open>with its time of expiry in nanoseconds, \<open>0\<close> for none\<close>
  | HashVal "str \<Rightarrow> str option"
  | SetVal "str set"
  | ListVal "str list"
  | ZSetVal "str \<Rightarrow> f64 option"

type_synonym redis_store = "str \<Rightarrow> redis_value option"

datatype redis_cmd =
    CSet str str nat | CGet str | CDel str | CType str
  | CHSet str str str | CHGet str str | CHDel str str
  | CSAdd str str | CSIsMember str str | CSRem str str
  | CLPush str str | CRPush str str | CLPop str | CRPop str
  | CZAdd str f64 str | CZScore str str

datatype redis_out =
    OUnit "unit res" | OStr "str option res" | OType "redis_data_type res" | OBool "bool res"
  | OCount "u32 res" | OScore "f64 res"

primrec cmd_key :: "redis_cmd \<Rightarrow> str" where
  "cmd_key (CSet k v ttl) = k"
| "cmd_key (CGet k) = k"
| "cmd_key (CDel k) = k"
| "cmd_key (CType k) = k"
| "cmd_key (CHSet k f v) = k"
| "cmd_key (CHGet k f) = k"
| "cmd_key (CHDel k f) = k"
| "cmd_key (CSAdd k x) = k"
| "cmd_key (CSIsMember k x) = k"
| "cmd_key (CSRem k x) = k"
| "cmd_key (CLPush k x) = k"
| "cmd_key (CRPush k x) = k"
| "cmd_key (CLPop k) = k"
| "cmd_key (CRPop k) = k"
| "cmd_key (CZAdd k s x) = k"
| "cmd_key (CZScore k x) = k"

subsection \<open>The specification\<close>

primrec value_type :: "redis_value \<Rightarrow> redis_data_type" where
  "value_type (StringVal v e) = String"
| "value_type (HashVal f) = Hash"
| "value_type (SetVal A) = Set"
| "value_type (ListVal xs) = List"
| "value_type (ZSetVal z) = ZSet"

text \<open>A missing key is an empty value of the type that is asked for.\<close>

fun as_hash :: "redis_value option \<Rightarrow> (str \<Rightarrow> str option) res" where
  "as_hash None = Ok Map.empty"
| "as_hash (Some (HashVal f)) = Ok f"
| "as_hash (Some x) = Err WrongTypeOperation"

fun as_set :: "redis_value option \<Rightarrow> str set res" where
  "as_set None = Ok {}"
| "as_set (Some (SetVal A)) = Ok A"
| "as_set (Some x) = Err WrongTypeOperation"

fun as_list :: "redis_value option \<Rightarrow> str list res" where
  "as_list None = Ok []"
| "as_list (Some (ListVal xs)) = Ok xs"
| "as_list (Some x) = Err WrongTypeOperation"

fun as_zset :: "redis_value option \<Rightarrow> (str \<Rightarrow> f64 option) res" where
  "as_zset None = Ok Map.empty"
| "as_zset (Some (ZSetVal z)) = Ok z"
| "as_zset (Some x) = Err WrongTypeOperation"

definition expiry :: "system_time \<Rightarrow> nat \<Rightarrow> u128" where
  "expiry now ttl =
     (if ttl = 0 then 0
      else case time_checked_add now ttl of None \<Rightarrow> 0 | Some t \<Rightarrow> of_int t)"

fun redis_spec :: "readings \<Rightarrow> redis_cmd \<Rightarrow> redis_store \<Rightarrow> redis_out \<times> redis_store" where
  "redis_spec now (CSet k v ttl) S =
     (OUnit (Ok ()), if v = [] then S else S(k \<mapsto> StringVal v (expiry (fst now) ttl)))"
| "redis_spec now (CGet k) S =
     (OStr (case S k of
        None \<Rightarrow> Err KeyNotFound
      | Some (StringVal v e) \<Rightarrow> Ok (if 0 < e \<and> e \<le> of_int (fst now) then None else Some v)
      | Some _ \<Rightarrow> Err WrongTypeOperation), S)"
| "redis_spec now (CDel k) S = (OUnit (Ok ()), S(k := None))"
| "redis_spec now (CType k) S =
     (OType (case S k of None \<Rightarrow> Err KeyNotFound | Some x \<Rightarrow> Ok (value_type x)), S)"
| "redis_spec now (CHSet k f v) S =
     map_prod OBool id (and_then (as_hash (S k), S) (\<lambda>h S.
       (Ok (h f = None), S(k \<mapsto> HashVal (h(f \<mapsto> v))))))"
| "redis_spec now (CHGet k f) S =
     map_prod OStr id (and_then (as_hash (S k), S) (\<lambda>h S.
       (if h = Map.empty then Ok None
        else case h f of None \<Rightarrow> Err KeyNotFound | Some v \<Rightarrow> Ok (Some v), S)))"
| "redis_spec now (CHDel k f) S =
     map_prod OBool id (and_then (as_hash (S k), S) (\<lambda>h S.
       if h f = None then (Ok False, S) else (Ok True, S(k \<mapsto> HashVal (h(f := None))))))"
| "redis_spec now (CSAdd k x) S =
     map_prod OBool id (and_then (as_set (S k), S) (\<lambda>A S.
       if x \<in> A then (Ok False, S) else (Ok True, S(k \<mapsto> SetVal (insert x A)))))"
| "redis_spec now (CSIsMember k x) S =
     map_prod OBool id (and_then (as_set (S k), S) (\<lambda>A S. (Ok (x \<in> A), S)))"
| "redis_spec now (CSRem k x) S =
     map_prod OBool id (and_then (as_set (S k), S) (\<lambda>A S.
       if x \<in> A then (Ok True, S(k \<mapsto> SetVal (A - {x}))) else (Ok False, S)))"
| "redis_spec now (CLPush k x) S =
     map_prod OCount id (and_then (as_list (S k), S) (\<lambda>xs S.
       (Ok (of_nat (Suc (length xs))), S(k \<mapsto> ListVal (x # xs)))))"
| "redis_spec now (CRPush k x) S =
     map_prod OCount id (and_then (as_list (S k), S) (\<lambda>xs S.
       (Ok (of_nat (Suc (length xs))), S(k \<mapsto> ListVal (xs @ [x])))))"
| "redis_spec now (CLPop k) S =
     map_prod OStr id (and_then (as_list (S k), S) (\<lambda>xs S.
       if xs = [] then (Ok None, S) else (Ok (Some (hd xs)), S(k \<mapsto> ListVal (tl xs)))))"
| "redis_spec now (CRPop k) S =
     map_prod OStr id (and_then (as_list (S k), S) (\<lambda>xs S.
       if xs = [] then (Ok None, S) else (Ok (Some (last xs)), S(k \<mapsto> ListVal (butlast xs)))))"
| "redis_spec now (CZAdd k s x) S =
     map_prod OBool id (and_then (as_zset (S k), S) (\<lambda>z S.
       case z x of
         None \<Rightarrow> (Ok True, S(k \<mapsto> ZSetVal (z(x \<mapsto> s))))
       | Some old \<Rightarrow> (Ok False, if f64_eq old s then S else S(k \<mapsto> ZSetVal (z(x \<mapsto> s))))))"
| "redis_spec now (CZScore k x) S =
     map_prod OScore id (and_then (as_zset (S k), S) (\<lambda>z S.
       (if z = Map.empty then Ok f64_minus_1
        else case z x of None \<Rightarrow> Err KeyNotFound | Some s \<Rightarrow> Ok s, S)))"

subsection \<open>The commands of the code\<close>

fun redis_step ::
  "('s, 'b) env \<Rightarrow> redis_crates \<Rightarrow> readings \<Rightarrow> redis_cmd \<Rightarrow> ('s, 'b) st \<Rightarrow> redis_out \<times> ('s, 'b) st" where
  "redis_step E R now (CSet k v ttl) st = map_prod OUnit id (redis_set E R now k v ttl st)"
| "redis_step E R now (CGet k) st = (OStr (redis_get E R now k st), st)"
| "redis_step E R now (CDel k) st = map_prod OUnit id (del E k st)"
| "redis_step E R now (CType k) st = (OType (key_type E k st), st)"
| "redis_step E R now (CHSet k f v) st = map_prod OBool id (hset E R now k f v st)"
| "redis_step E R now (CHGet k f) st = (OStr (hget E R now k f st), st)"
| "redis_step E R now (CHDel k f) st = map_prod OBool id (hdel E R now k f st)"
| "redis_step E R now (CSAdd k x) st = map_prod OBool id (sadd E R now k x st)"
| "redis_step E R now (CSIsMember k x) st = (OBool (s_is_member E R now k x st), st)"
| "redis_step E R now (CSRem k x) st = map_prod OBool id (srem E R now k x st)"
| "redis_step E R now (CLPush k x) st = map_prod OCount id (lpush E R now k x st)"
| "redis_step E R now (CRPush k x) st = map_prod OCount id (rpush E R now k x st)"
| "redis_step E R now (CLPop k) st = map_prod OStr id (lpop E R now k st)"
| "redis_step E R now (CRPop k) st = map_prod OStr id (rpop E R now k st)"
| "redis_step E R now (CZAdd k s x) st = map_prod OBool id (zadd E R now k s x st)"
| "redis_step E R now (CZScore k x) st = (OScore (zscore E R now k x st), st)"

text \<open>A history: the commands with the readings of the clock each of them makes.\<close>

fun redis_spec_run :: "(readings \<times> redis_cmd) list \<Rightarrow> redis_store \<Rightarrow> redis_out list \<times> redis_store" where
  "redis_spec_run [] S = ([], S)"
| "redis_spec_run ((now, c) # cs) S =
     (case redis_spec now c S of (out, S') \<Rightarrow>
        (case redis_spec_run cs S' of (outs, S'') \<Rightarrow> (out # outs, S'')))"

fun redis_run ::
  "('s, 'b) env \<Rightarrow> redis_crates \<Rightarrow> (readings \<times> redis_cmd) list \<Rightarrow> ('s, 'b) st \<Rightarrow>
   redis_out list \<times> ('s, 'b) st" where
  "redis_run E R [] st = ([], st)"
| "redis_run E R ((now, c) # cs) st =
     (case redis_step E R now c st of (out, st') \<Rightarrow>
        (case redis_run E R cs st' of (outs, st'') \<Rightarrow> (out # outs, st'')))"

end
