(* ===== verification/RedisRepr.thy ===== *)
theory RedisRepr
  imports RedisEngine RedisSpec
begin

text \<open>
  How the map of the engine represents a store: the metadata under the key, the elements under the
  key followed by the version and a suffix.  Keys none of which begins another cannot interfere.
\<close>

definition element_key :: "redis_crates \<Rightarrow> str \<Rightarrow> u128 \<Rightarrow> bytes \<Rightarrow> bytes" where
  "element_key R k ver s = k @ put_u128 R ver @ s"

definition elems :: "redis_crates \<Rightarrow> (bytes \<Rightarrow> bytes option) \<Rightarrow> str \<Rightarrow> u128 \<Rightarrow> bytes \<Rightarrow> bytes option" where
  "elems R m k ver s = m (element_key R k ver s)"

definition prefix_free :: "str set \<Rightarrow> bool" where
  "prefix_free K \<longleftrightarrow> [] \<notin> K \<and> (\<forall>k \<in> K. \<forall>s. k @ s \<in> K \<longrightarrow> s = [])"

lemma prefix_free_append:
  assumes "prefix_free K" "k \<in> K" "k' \<in> K"
  shows "k @ s = k' @ t \<longleftrightarrow> k = k' \<and> s = t"
  using assms by (auto simp: prefix_free_def append_eq_append_conv2)

lemma element_key_simps:
  assumes "redis_ok R" "crates_ok C" "prefix_free K" "k \<in> K" "k' \<in> K"
  shows "element_key R k ver s = element_key R k' ver' s' \<longleftrightarrow> k = k' \<and> ver = ver' \<and> s = s'"
    and "element_key R k ver s \<noteq> k'" and "k' \<noteq> element_key R k ver s"
proof -
  show "element_key R k ver s = element_key R k' ver' s' \<longleftrightarrow> k = k' \<and> ver = ver' \<and> s = s'"
    using prefix_free_append [OF assms(3-5)] put_inject(2) [OF assms(1,2)]
    by (auto simp: element_key_def)
  have "put_u128 R ver \<noteq> []" using redis_okD(3) [OF assms(1), of ver] by auto
  then show "element_key R k ver s \<noteq> k'"
    using prefix_free_append [OF assms(3-5), of "put_u128 R ver @ s" "[]"] by (auto simp: element_key_def)
  then show "k' \<noteq> element_key R k ver s" by simp
qed

lemma encode_element_key:
  "HashInternalKey_encode R \<lparr>hk_key = k, hk_version = v, hk_field = f\<rparr> = element_key R k v f"
  "SetInternalKey_encode C R \<lparr>sk_key = k, sk_version = v, sk_member = x\<rparr> =
     element_key R k v (x @ put_u32 C (of_nat (length x)))"
  "ListInternalKey_encode R \<lparr>lk_key = k, lk_version = v, lk_index = i\<rparr> = element_key R k v (put_u64 R i)"
  "encode_member R \<lparr>zk_key = k, zk_version = v, zk_score = d, zk_member = x\<rparr> = element_key R k v x"
  "encode_score C R \<lparr>zk_key = k, zk_version = v, zk_score = d, zk_member = x\<rparr> =
     element_key R k v (f64_to_string R d @ x @ put_u32 C (of_nat (length x)))"
  by (simp_all add: element_key_def HashInternalKey_encode_def SetInternalKey_encode_def
      ListInternalKey_encode_def encode_member_def encode_score_def)

subsection \<open>One value\<close>

definition meta_ok :: "redis_data_type \<Rightarrow> nat \<Rightarrow> nat \<Rightarrow> nat \<Rightarrow> metadate \<Rightarrow> bool" where
  "meta_ok t now n sz md \<longleftrightarrow>
     md_data_type md = t \<and> md_expire md = 0 \<and> unat (md_version md) < now \<and>
     md_size md = of_nat sz \<and> sz \<le> n \<and> (t \<noteq> List \<longrightarrow> md_head md = 0 \<and> md_tail md = 0)"

definition hash_repr where
  "hash_repr R m k now n md h \<longleftrightarrow>
     finite (dom h) \<and> meta_ok Hash now n (card (dom h)) md \<and> elems R m k (md_version md) = h \<and>
     (\<forall>v \<in> ran h. utf8_valid v)"

definition set_repr where
  "set_repr C R m k now n md A \<longleftrightarrow>
     finite A \<and> meta_ok Set now n (card A) md \<and>
     (\<forall>x. elems R m k (md_version md) (x @ put_u32 C (of_nat (length x))) \<noteq> None \<longleftrightarrow> x \<in> A)"

text \<open>A list starts in the middle of the range of its indices; \<open>n\<close> bounds how far it has moved.\<close>

definition list_repr where
  "list_repr R m k now n md xs \<longleftrightarrow>
     meta_ok List now n (length xs) md \<and> 2 ^ 63 \<le> unat (md_head md) + Suc n \<and>
     unat (md_head md) + length xs < 2 ^ 63 + n \<and> md_tail md = md_head md + of_nat (length xs) \<and>
     (\<forall>i < length xs. elems R m k (md_version md) (put_u64 R (md_head md + of_nat i)) = Some (xs ! i)) \<and>
     (\<forall>x \<in> set xs. utf8_valid x)"

text \<open>The members \<open>M\<close> in use: no entry of a score may be taken for the one of a member.\<close>

definition plain_members :: "'z crates_scheme \<Rightarrow> redis_crates \<Rightarrow> str set \<Rightarrow> bool" where
  "plain_members C R M \<longleftrightarrow>
     (\<forall>x \<in> M. \<forall>y \<in> M. \<forall>d. x \<noteq> f64_to_string R d @ y @ put_u32 C (of_nat (length y)))"

definition zset_repr where
  "zset_repr R M m k now n md z \<longleftrightarrow>
     finite (dom z) \<and> dom z \<subseteq> M \<and> meta_ok ZSet now n (card (dom z)) md \<and>
     (\<forall>x \<in> M. elems R m k (md_version md) x = map_option (f64_to_string R) (z x)) \<and>
     (\<forall>d \<in> ran z. \<not> f64_is_nan d)"

fun value_repr where
  "value_repr C R M m k now n md (HashVal h) = hash_repr R m k now n md h"
| "value_repr C R M m k now n md (SetVal A) = set_repr C R m k now n md A"
| "value_repr C R M m k now n md (ListVal xs) = list_repr R m k now n md xs"
| "value_repr C R M m k now n md (ZSetVal z) = zset_repr R M m k now n md z"
| "value_repr C R M m k now n md (StringVal v e) = False"

text \<open>No element has a version that the clock has yet to give.\<close>

definition fresh where
  "fresh R m k now \<longleftrightarrow> (\<forall>ver s. now \<le> unat ver \<longrightarrow> elems R m k ver s = None)"

definition key_repr where
  "key_repr C R M m k now n x \<longleftrightarrow>
     (case x of
        None \<Rightarrow> m k = None
      | Some (StringVal v e) \<Rightarrow> utf8_valid v \<and> m k = Some ([redis_type_as_u8 String] @ put_u128 R e @ v)
      | Some y \<Rightarrow> \<exists>md. m k = Some (Metadate_encode C R md) \<and> value_repr C R M m k now n md y)"

definition store_repr where
  "store_repr C R K M m now n S \<longleftrightarrow> (\<forall>k \<in> K. fresh R m k now \<and> key_repr C R M m k now n (S k))"

lemma meta_ok_mono: "meta_ok t now n sz md \<Longrightarrow> now \<le> now' \<Longrightarrow> n \<le> n' \<Longrightarrow> meta_ok t now' n' sz md"
  by (auto simp: meta_ok_def)

lemma value_repr_frame:
  assumes "value_repr C R M m k now n md y" "now \<le> now'" "n \<le> n'"
    and "\<And>ver s. elems R m' k ver s = elems R m k ver s"
  shows "value_repr C R M m' k now' n' md y"
proof -
  have "elems R m' k = elems R m k" using assms(4) by (intro ext)
  then show ?thesis using assms(1-3)
    by (cases y) (auto simp: hash_repr_def set_repr_def list_repr_def zset_repr_def intro: meta_ok_mono)
qed

lemma key_repr_frame:
  assumes "key_repr C R M m k now n x" "now \<le> now'" "n \<le> n'"
    and "\<And>ver s. elems R m' k ver s = elems R m k ver s" "m' k = m k"
  shows "key_repr C R M m' k now' n' x"
proof (cases x)
  case None
  then show ?thesis using assms(1,5) by (simp add: key_repr_def)
next
  case (Some y)
  then show ?thesis using assms(1,5) value_repr_frame [OF _ assms(2,3), of C R M m k _ y m'] assms(4)
    by (cases y) (auto simp: key_repr_def)
qed

lemma store_repr_mono:
  "store_repr C R K M m now n S \<Longrightarrow> now \<le> now' \<Longrightarrow> n \<le> n' \<Longrightarrow> store_repr C R K M m now' n' S"
  using key_repr_frame by (fastforce simp: store_repr_def fresh_def)

subsection \<open>Changing one key\<close>

primrec op_key :: "batch_op \<Rightarrow> bytes" where
  "op_key (BPut k v) = k"
| "op_key (BDelete k) = k"

definition touches :: "redis_crates \<Rightarrow> str \<Rightarrow> nat \<Rightarrow> batch_op \<Rightarrow> bool" where
  "touches R k now x \<longleftrightarrow> op_key x = k \<or> (\<exists>ver s. unat ver < now \<and> op_key x = element_key R k ver s)"

lemma fold_apply_op_frame: "\<forall>x \<in> set xs. op_key x \<noteq> j \<Longrightarrow> fold apply_op xs m j = m j"
proof (induction xs arbitrary: m)
  case (Cons x xs)
  then show ?case by (cases x) auto
qed simp

lemma store_repr_update:
  assumes ok: "redis_ok R" "crates_ok C" "prefix_free K" and k: "k \<in> K"
    and S: "store_repr C R K M m now n S" and mono: "now \<le> now'" "n \<le> n'"
    and xs: "\<forall>x \<in> set xs. touches R k now' x"
    and new: "key_repr C R M (fold apply_op xs m) k now' n' y"
  shows "store_repr C R K M (fold apply_op xs m) now' n' (S(k := y))"
  unfolding store_repr_def
proof
  fix j
  assume j: "j \<in> K"
  note ek = element_key_simps [OF ok]
  have old: "fresh R m j now" "key_repr C R M m j now n (S j)"
    using S j by (auto simp: store_repr_def)
  have fresh: "fresh R (fold apply_op xs m) j now'"
    unfolding fresh_def elems_def
  proof (intro allI impI)
    fix ver :: u128 and s
    assume v: "now' \<le> unat ver"
    have "op_key x \<noteq> element_key R j ver s" if "x \<in> set xs" for x
      using xs that v ek(1) [OF k j] ek(3) [OF j k] unfolding touches_def
      by (metis leD)
    then have "fold apply_op xs m (element_key R j ver s) = m (element_key R j ver s)"
      by (simp add: fold_apply_op_frame)
    then show "fold apply_op xs m (element_key R j ver s) = None"
      using old(1) v mono(1) by (simp add: fresh_def elems_def)
  qed
  moreover have "key_repr C R M (fold apply_op xs m) j now' n' ((S(k := y)) j)"
  proof (cases "j = k")
    case True
    then show ?thesis using new by simp
  next
    case False
    have "elems R (fold apply_op xs m) j ver s = elems R m j ver s" for ver s
      unfolding elems_def using xs ek(1) [OF k j] ek(3) [OF j k] False
      by (intro fold_apply_op_frame) (metis touches_def)
    moreover have "fold apply_op xs m j = m j"
      using xs ek(2) [OF k j] False by (intro fold_apply_op_frame) (metis touches_def)
    ultimately show ?thesis using key_repr_frame [OF old(2) mono] False by simp
  qed
  ultimately show "fresh R (fold apply_op xs m) j now' \<and>
      key_repr C R M (fold apply_op xs m) j now' n' ((S(k := y)) j)" ..
qed

end
