(* ===== verification/RedisStep.thy ===== *)
theory RedisStep
  imports RedisRepr
begin

text \<open>
  One command of the Redis layer against the abstract store: the common steps (metadata, a batch),
  the string and the generic commands.
\<close>

definition redis_env :: "('s, 'b) env \<Rightarrow> redis_crates \<Rightarrow> bool" where
  "redis_env E R \<longleftrightarrow> crates_ok E \<and> os_ok E \<and> hash_ok E \<and> redis_ok R"

text \<open>
  Before a command on \<open>k\<close>: the engine has room for \<open>r\<close> commands after it, \<open>n\<close> were executed, the
  clock gives versions from \<open>now\<close> up to \<open>now'\<close>.
\<close>

definition cmd_pre ::
  "('s, 'b) env \<Rightarrow> redis_crates \<Rightarrow> str set \<Rightarrow> str set \<Rightarrow> nat \<Rightarrow> nat \<Rightarrow> nat \<Rightarrow> nat \<Rightarrow> readings \<Rightarrow> str \<Rightarrow>
   ('s, 'b) st \<Rightarrow> redis_store \<Rightarrow> bool" where
  "cmd_pre E R K M now n now' r t k st S \<longleftrightarrow>
     redis_env E R \<and> prefix_free K \<and> k \<in> K \<and> length k < 2 ^ 28 \<and> Suc n < 2 ^ 32 \<and> ready E (Suc r) st \<and>
     store_repr E R K M (kv E st) now n S \<and>
     0 \<le> fst t \<and> int now \<le> snd t \<and> snd t < int now' \<and> now' \<le> 2 ^ 128"

definition refines ::
  "('s, 'b) env \<Rightarrow> redis_crates \<Rightarrow> str set \<Rightarrow> str set \<Rightarrow> nat \<Rightarrow> nat \<Rightarrow> nat \<Rightarrow>
   'o \<times> ('s, 'b) st \<Rightarrow> 'o \<times> redis_store \<Rightarrow> bool" where
  "refines E R K M now n r out_st spec \<longleftrightarrow>
     fst out_st = fst spec \<and> ready E r (snd out_st) \<and> store_repr E R K M (kv E (snd out_st)) now n (snd spec)"

lemma cmd_preD:
  assumes "cmd_pre E R K M now n now' r t k st S"
  shows "crates_ok E" "os_ok E" "hash_ok E" "redis_ok R" "prefix_free K" "k \<in> K" "k \<noteq> []"
    "length k < 2 ^ 28" "Suc n < 2 ^ 32" "ready E (Suc r) st" "store_repr E R K M (kv E st) now n S"
    "fresh R (kv E st) k now" "key_repr E R M (kv E st) k now n (S k)" "0 \<le> fst t"
    "int now \<le> snd t" "snd t < int now'" "now' \<le> 2 ^ 128" "now \<le> now'" "as_nanos (fst t) = Ok (of_int (fst t))"
    "as_nanos (snd t) = Ok (of_int (snd t))" "unat (of_int (snd t) :: u128) = nat (snd t)"
proof -
  note p = assms [unfolded cmd_pre_def redis_env_def]
  show "crates_ok E" "os_ok E" "hash_ok E" "redis_ok R" "prefix_free K" "k \<in> K" "length k < 2 ^ 28"
    "Suc n < 2 ^ 32" "ready E (Suc r) st" "store_repr E R K M (kv E st) now n S" "0 \<le> fst t"
    "int now \<le> snd t" "snd t < int now'" "now' \<le> 2 ^ 128"
    using p by simp_all
  show "k \<noteq> []" using p by (auto simp: prefix_free_def)
  show "now \<le> now'" using p by linarith
  show "as_nanos (fst t) = Ok (of_int (fst t))" "as_nanos (snd t) = Ok (of_int (snd t))"
    using p by (simp_all add: as_nanos_def)
  show "fresh R (kv E st) k now" "key_repr E R M (kv E st) k now n (S k)"
    using p by (auto simp: store_repr_def)
  have "int now' \<le> int (2 ^ 128)" using p by (simp only: of_nat_le_iff)
  then have "0 \<le> snd t" "snd t < 2 ^ 128" using p by simp_all
  then show "unat (of_int (snd t) :: u128) = nat (snd t)"
    by (simp add: unsigned_of_int take_bit_int_eq_self)
qed

subsection \<open>Leaving the store alone\<close>

lemma refines_unchanged:
  assumes "cmd_pre E R K M now n now' r t k st S" "out = out'"
  shows "refines E R K M now' (Suc n) r (out, st) (out', S)"
  using assms(2) store_repr_mono [OF cmd_preD(11,18) [OF assms(1)], of "Suc n"]
    ready_mono [OF cmd_preD(10) [OF assms(1)], of r]
  by (simp add: refines_def)

lemma pre_get:
  assumes "cmd_pre E R K M now n now' r t k st S" "j \<noteq> []"
  shows "get E j st = (case kv E st j of None \<Rightarrow> Err KeyNotFound | Some v \<Rightarrow> Ok v)"
  by (rule ready_get [OF cmd_preD(1,2,10) [OF assms(1)] assms(2)])

lemma element_key_nonempty [simp]: "k \<noteq> [] \<Longrightarrow> element_key R k ver s \<noteq> []"
  by (simp add: element_key_def)

lemma pre_get_element:
  assumes "cmd_pre E R K M now n now' r t k st S"
  shows "get E (element_key R k ver s) st =
    (case elems R (kv E st) k ver s of None \<Rightarrow> Err KeyNotFound | Some v \<Rightarrow> Ok v)"
  unfolding elems_def
  by (rule pre_get [OF assms]) (simp add: cmd_preD(7) [OF assms])

lemma pre_element_exists:
  assumes "cmd_pre E R K M now n now' r t k st S"
  shows "element_exists E (element_key R k ver s) st = Ok (elems R (kv E st) k ver s \<noteq> None)"
  by (simp add: element_exists_def pre_get_element [OF assms] split: option.splits)

subsection \<open>Finding the metadata\<close>

lemma find_new:
  assumes "cmd_pre E R K M now n now' r t k st S" "S k = None"
  shows "find_metadata E R t k ty st = Ok (new_metadata ty (of_int (snd t)))"
proof -
  have "kv E st k = None" using cmd_preD(13) [OF assms(1)] assms(2) by (simp add: key_repr_def)
  then show ?thesis
    by (simp add: find_metadata_def pre_get [OF assms(1) cmd_preD(7) [OF assms(1)]] cmd_preD(20) [OF assms(1)])
qed

lemma find_old:
  assumes pre: "cmd_pre E R K M now n now' r t k st S" and "kv E st k = Some (Metadate_encode E R md)"
    and "md_data_type md = ty" "md_expire md = 0" "ty \<noteq> List \<longrightarrow> md_head md = 0 \<and> md_tail md = 0"
  shows "find_metadata E R t k ty st = Ok md"
proof -
  have "stored_meta md = md" using assms(3,5) by (auto simp: stored_meta_def)
  moreover have "get_u8 (Metadate_encode E R md) = Ok (redis_type_as_u8 ty, tl (Metadate_encode E R md))"
    by (simp add: Metadate_encode_def get_u8_def assms(3))
  ultimately show ?thesis
    using decode_encode_metadata [OF cmd_preD(1,4) [OF pre], of md] assms(2,4)
    by (simp add: find_metadata_def pre_get [OF pre cmd_preD(7) [OF pre]] cmd_preD(19) [OF pre])
qed

lemma stored_type:
  assumes "key_repr C R M m k now n (Some x)"
  obtains rest where "m k = Some (redis_type_as_u8 (value_type x) # rest)"
  using assms
  by (cases x)
    (auto simp: key_repr_def hash_repr_def set_repr_def list_repr_def zset_repr_def meta_ok_def Metadate_encode_def)

lemma find_other:
  assumes pre: "cmd_pre E R K M now n now' r t k st S" and "S k = Some x" "value_type x \<noteq> ty"
  shows "find_metadata E R t k ty st = Err WrongTypeOperation"
proof -
  obtain rest where "kv E st k = Some (redis_type_as_u8 (value_type x) # rest)"
    using stored_type cmd_preD(13) [OF pre] assms(2) by metis
  then show ?thesis
    using assms(3) by (simp add: find_metadata_def pre_get [OF pre cmd_preD(7) [OF pre]] get_u8_def)
qed

lemma new_meta_ok:
  assumes "cmd_pre E R K M now n now' r t k st S"
  shows "meta_ok ty now' n' 0 (new_metadata ty (of_int (snd t)))"
    and "elems R (kv E st) k (md_version (new_metadata ty (of_int (snd t)))) = Map.empty"
proof -
  note p = cmd_preD(12,14-17,21) [OF assms]
  have v: "unat (md_version (new_metadata ty (of_int (snd t)))) = nat (snd t)"
    using p(6) by (simp add: new_metadata_def)
  then show "meta_ok ty now' n' 0 (new_metadata ty (of_int (snd t)))"
    using p by (simp add: meta_ok_def) (simp add: new_metadata_def)
  show "elems R (kv E st) k (md_version (new_metadata ty (of_int (snd t)))) = Map.empty"
    using p(1,3) v by (auto simp: fresh_def fun_eq_iff)
qed

subsection \<open>Changing a key\<close>

lemma batch_refines:
  assumes pre: "cmd_pre E R K M now n now' r t k st S"
    and xs: "list_all batch_op_fits xs" "length xs \<le> 3" "BPut j v \<in> set xs" "BDelete j \<notin> set xs"
    and "\<forall>x \<in> set xs. touches R k now' x"
    and "key_repr E R M (fold apply_op xs (kv E st)) k now' (Suc n) y"
  shows "refines E R K M now' (Suc n) r
    (map_prod f id (in_batch (\<lambda>ws. and_then (wb_fill E xs ws) (\<lambda>_ ws. and_then (wb_commit E ws) (\<lambda>_ ws. (Ok a, ws)))) st))
    (f (Ok a), S(k := y))"
proof -
  obtain st' where st': "in_batch (\<lambda>ws. and_then (wb_fill E xs ws) (\<lambda>_ ws. and_then (wb_commit E ws) (\<lambda>_ ws. (Ok a, ws)))) st
      = (Ok a, st')" "ready E r st'" "kv E st' = fold apply_op xs (kv E st)"
    using in_batch_ok [OF cmd_preD(1-3,10) [OF pre] xs] by blast
  have "store_repr E R K M (kv E st') now' (Suc n) (S(k := y))"
    unfolding st'(3) using store_repr_update [OF cmd_preD(4,1,5,6,11,18) [OF pre] _ assms(6,7)] by simp
  then show ?thesis using st' by (simp add: refines_def)
qed

lemma put_refines:
  assumes pre: "cmd_pre E R K M now n now' r t k st S"
    and "length v < 2 ^ 32" "key_repr E R M ((kv E st)(k \<mapsto> v)) k now' (Suc n) y"
  obtains st' where "put E k v st = (Ok (), st')"
    "refines E R K M now' (Suc n) r (out, st') (out, S(k := y))"
proof -
  have "storable k v" using cmd_preD(7,8) [OF pre] assms(2) by (simp add: storable_def)
  from ready_put [OF cmd_preD(1,2,10) [OF pre] this] obtain st' where
    st': "put E k v st = (Ok (), st')" "ready E r st'" "kv E st' = (kv E st)(k \<mapsto> v)" by blast
  have "store_repr E R K M (kv E st') now' (Suc n) (S(k := y))"
    using store_repr_update [OF cmd_preD(4,1,5,6,11,18) [OF pre], of "Suc n" "[BPut k v]" y] assms(3)
    by (simp add: st'(3) touches_def)
  then show thesis using that [OF st'(1)] st'(2) by (simp add: refines_def)
qed

subsection \<open>Strings and generic commands\<close>

lemma set_refines:
  assumes pre: "cmd_pre E R K M now n now' r t k st S" and "utf8_valid v" "length v < 2 ^ 29"
    and "0 \<le> fst t"
  shows "refines E R K M now' (Suc n) r (redis_step E R t (CSet k v ttl) st) (redis_spec t (CSet k v ttl) S)"
proof (cases "v = []")
  case True
  then show ?thesis using refines_unchanged [OF pre] by (simp add: redis_set_def)
next
  case False
  let ?e = "expiry (fst t) ttl" and ?b = "[redis_type_as_u8 String] @ put_u128 R (expiry (fst t) ttl) @ v"
  have e: "(if ttl = 0 then Ok 0 else case time_checked_add (fst t) ttl of None \<Rightarrow> Ok 0 | Some v \<Rightarrow> as_nanos v) = Ok ?e"
    using assms(4) by (auto simp: expiry_def time_checked_add_def as_nanos_def Let_def)
  have "length ?b < 2 ^ 32" using assms(3) redis_okD(3) [OF cmd_preD(4) [OF pre]] by simp
  moreover have "key_repr E R M ((kv E st)(k \<mapsto> ?b)) k now' (Suc n) (Some (StringVal v ?e))"
    using assms(2) by (simp add: key_repr_def)
  ultimately obtain st' where "put E k ?b st = (Ok (), st')"
    "refines E R K M now' (Suc n) r (OUnit (Ok ()), st') (OUnit (Ok ()), S(k \<mapsto> StringVal v ?e))"
    using put_refines [OF pre] by metis
  then show ?thesis using False by (simp add: redis_set_def e)
qed

lemma get_refines:
  assumes pre: "cmd_pre E R K M now n now' r t k st S"
  shows "refines E R K M now' (Suc n) r (redis_step E R t (CGet k) st) (redis_spec t (CGet k) S)"
proof -
  note g = pre_get [OF pre cmd_preD(7) [OF pre]]
  have rep: "key_repr E R M (kv E st) k now n (S k)" by (rule cmd_preD(13) [OF pre])
  have "redis_get E R t k st = (case S k of
        None \<Rightarrow> Err KeyNotFound
      | Some (StringVal v e) \<Rightarrow> Ok (if 0 < e \<and> e \<le> of_int (fst t) then None else Some v)
      | Some _ \<Rightarrow> Err WrongTypeOperation)"
  proof (cases "S k")
    case None
    then show ?thesis using g rep by (simp add: redis_get_def key_repr_def)
  next
    case (Some x)
    show ?thesis
    proof (cases "value_type x = String")
      case True
      then obtain v e where x: "x = StringVal v e" by (cases x) auto
      then show ?thesis
        using g rep Some redis_okD(4) [OF cmd_preD(4) [OF pre]]
        by (simp add: redis_get_def key_repr_def get_u8_def RedisDataType_from_def cmd_preD(19) [OF pre])
    next
      case False
      obtain rest where "kv E st k = Some (redis_type_as_u8 (value_type x) # rest)"
        using stored_type rep Some by metis
      then have "redis_get E R t k st = Err WrongTypeOperation"
        using False g by (simp add: redis_get_def get_u8_def)
      then show ?thesis using Some False by (cases x) simp_all
    qed
  qed
  then show ?thesis using refines_unchanged [OF pre] by simp
qed

lemma del_refines:
  assumes pre: "cmd_pre E R K M now n now' r t k st S"
  shows "refines E R K M now' (Suc n) r (redis_step E R t (CDel k) st) (redis_spec t (CDel k) S)"
proof -
  have "length k < 2 ^ 32" using cmd_preD(8) [OF pre] by simp
  from ready_delete [OF cmd_preD(1,2,10,7) [OF pre] this] obtain st' where
    st': "delete E k st = (Ok (), st')" "ready E r st'" "kv E st' = (kv E st)(k := None)" by blast
  have "store_repr E R K M (kv E st') now' (Suc n) (S(k := None))"
    using store_repr_update [OF cmd_preD(4,1,5,6,11,18) [OF pre], of "Suc n" "[BDelete k]" None]
    by (simp add: st'(3) touches_def key_repr_def)
  then show ?thesis using st' by (simp add: refines_def del_def)
qed

lemma type_refines:
  assumes pre: "cmd_pre E R K M now n now' r t k st S"
  shows "refines E R K M now' (Suc n) r (redis_step E R t (CType k) st) (redis_spec t (CType k) S)"
proof -
  note g = pre_get [OF pre cmd_preD(7) [OF pre]]
  have rep: "key_repr E R M (kv E st) k now n (S k)" by (rule cmd_preD(13) [OF pre])
  have "key_type E k st = (case S k of None \<Rightarrow> Err KeyNotFound | Some x \<Rightarrow> Ok (value_type x))"
  proof (cases "S k")
    case None
    then show ?thesis using g rep by (simp add: key_type_def key_repr_def)
  next
    case (Some x)
    obtain rest where "kv E st k = Some (redis_type_as_u8 (value_type x) # rest)"
      using stored_type rep Some by metis
    then show ?thesis using g Some by (simp add: key_type_def get_u8_def)
  qed
  then show ?thesis using refines_unchanged [OF pre] by simp
qed

end
