(* ===== verification/RedisHash.thy ===== *)
theory RedisHash
  imports RedisStep
begin

text \<open>The commands on hashes against the abstract store.\<close>

lemma elems_simps:
  assumes "redis_ok R" "crates_ok C"
  shows "element_key R k ver s \<noteq> k" and "k \<noteq> element_key R k ver s"
    and "elems R (m(k := b)) k ver = elems R m k ver"
    and "elems R (m(element_key R k ver s := b)) k ver = (elems R m k ver)(s := b)"
proof -
  have "put_u128 R ver \<noteq> []" for ver using redis_okD(3) [OF assms(1), of ver] by auto
  then have ne: "element_key R k ver s \<noteq> k" for ver s by (simp add: element_key_def)
  then show "element_key R k ver s \<noteq> k" "k \<noteq> element_key R k ver s" by (metis)+
  show "elems R (m(k := b)) k ver = elems R m k ver"
    using ne by (simp add: elems_def fun_eq_iff)
  show "elems R (m(element_key R k ver s := b)) k ver = (elems R m k ver)(s := b)"
    by (simp add: elems_def fun_eq_iff element_key_def)
qed

lemma loggable_element:
  assumes "redis_ok R" "length k + length s + length v < 2 ^ 30" "k \<noteq> []"
  shows "loggable (element_key R k ver s) v"
  using assms redis_okD(3) [OF assms(1), of ver] by (simp add: loggable_def element_key_def)

lemma loggable_meta:
  assumes "redis_ok R" "crates_ok C" "length k < 2 ^ 28" "k \<noteq> []"
  shows "loggable k (Metadate_encode C R md)"
  using assms(3,4) length_Metadate_encode [OF assms(2,1), of md] by (simp add: loggable_def)

lemma size_step:
  assumes "meta_ok ty now n sz md" "Suc n < 2 ^ 32"
  shows "add_u32 (md_size md) 1 = Ok (of_nat (Suc sz))"
    and "0 < sz \<Longrightarrow> sub_u32 (md_size md) 1 = Ok (of_nat (sz - 1))"
    and "md_size md = 0 \<longleftrightarrow> sz = 0"
proof -
  have s: "md_size md = of_nat sz" "sz \<le> n" "sz < 2 ^ 32" using assms by (simp_all add: meta_ok_def)
  have u: "unat (md_size md) = sz" using s by (simp add: unat_of_nat)
  show "add_u32 (md_size md) 1 = Ok (of_nat (Suc sz))"
    using u s(1,2) assms(2) by (simp add: add_u32_def add.commute)
  show "md_size md = 0 \<longleftrightarrow> sz = 0" using u by (metis unat_eq_zero)
  assume "0 < sz"
  moreover have "1 \<le> md_size md" using u \<open>0 < sz\<close> by (simp add: word_le_nat_alt)
  ultimately show "sub_u32 (md_size md) 1 = Ok (of_nat (sz - 1))"
    using s(1) by (simp add: sub_u32_def of_nat_diff)
qed

lemma meta_ok_size:
  "meta_ok ty now n sz md \<Longrightarrow> sz' \<le> n' \<Longrightarrow> meta_ok ty now n' sz' (md\<lparr>md_size := of_nat sz'\<rparr>)"
  by (simp add: meta_ok_def)

lemma touches_simps [simp]:
  "touches R k now (BPut k v)" "touches R k now (BDelete k)"
  "unat ver < now \<Longrightarrow> touches R k now (BPut (element_key R k ver s) v)"
  "unat ver < now \<Longrightarrow> touches R k now (BDelete (element_key R k ver s))"
  by (auto simp: touches_def)

subsection \<open>Hashes\<close>

lemma hash_other:
  assumes pre: "cmd_pre E R K M now n now' r t k st S" and "as_hash (S k) = Err e"
  shows "find_metadata E R t k Hash st = Err e"
proof -
  obtain x where "S k = Some x" "value_type x \<noteq> Hash" "e = WrongTypeOperation"
    using assms(2) by (cases "S k" rule: as_hash.cases) auto
  then show ?thesis using find_other [OF pre] by simp
qed

lemma hash_open:
  assumes pre: "cmd_pre E R K M now n now' r t k st S" and "as_hash (S k) = Ok h"
  obtains md where "find_metadata E R t k Hash st = Ok md" "hash_repr R (kv E st) k now' n md h"
    "h \<noteq> Map.empty \<Longrightarrow> kv E st k = Some (Metadate_encode E R md) \<and> S k = Some (HashVal h)"
proof (cases "S k")
  case None
  let ?md = "new_metadata Hash (of_int (snd t))"
  have "h = Map.empty" using assms(2) None by simp
  then show thesis
    using that [of ?md] find_new [OF pre None] new_meta_ok(1) [OF pre, of Hash n] new_meta_ok(2) [OF pre, of Hash] by (simp add: hash_repr_def)
next
  case (Some x)
  then have S: "S k = Some (HashVal h)" using assms(2) by (cases "S k" rule: as_hash.cases) auto
  then obtain md where md: "kv E st k = Some (Metadate_encode E R md)" "hash_repr R (kv E st) k now n md h"
    using cmd_preD(13) [OF pre] by (auto simp: key_repr_def)
  then have "find_metadata E R t k Hash st = Ok md"
    using find_old [OF pre md(1)] by (simp add: hash_repr_def meta_ok_def)
  moreover have "hash_repr R (kv E st) k now' n md h"
    using md(2) cmd_preD(18) [OF pre] by (auto simp: hash_repr_def intro: meta_ok_mono)
  ultimately show thesis using that md(1) S by blast
qed

lemma key_repr_hash:
  assumes "redis_ok R" "crates_ok C" "hash_repr R m k now n md h" "finite (dom h')" "card (dom h') \<le> n'"
    and "\<forall>v \<in> ran h'. utf8_valid v"
    and "md' = md\<lparr>md_size := of_nat (card (dom h'))\<rparr>"
    and "h' = h(f := v)" "m' = m(k \<mapsto> Metadate_encode C R md', element_key R k (md_version md) f := v)"
  shows "key_repr C R M m' k now n' (Some (HashVal h'))"
proof -
  have md: "meta_ok Hash now n (card (dom h)) md" "elems R m k (md_version md) = h"
    using assms(3) by (simp_all add: hash_repr_def)
  have "m' k = Some (Metadate_encode C R md')" using elems_simps(1,2) [OF assms(1,2)] by (simp add: assms(9))
  moreover have "elems R m' k (md_version md') = h'"
    using elems_simps(3,4) [OF assms(1,2)] md(2) by (simp add: assms(7-9))
  moreover have "meta_ok Hash now n' (card (dom h')) md'"
    using meta_ok_size [OF md(1) assms(5)] by (simp add: assms(7))
  ultimately show ?thesis using assms(4,6) by (auto simp: key_repr_def hash_repr_def)
qed

lemma hset_refines:
  assumes pre: "cmd_pre E R K M now n now' r t k st S"
    and "utf8_valid v" "length f < 2 ^ 28" "length v < 2 ^ 29"
  shows "refines E R K M now' (Suc n) r (redis_step E R t (CHSet k f v) st) (redis_spec t (CHSet k f v) S)"
proof (cases "as_hash (S k)")
  case (Err e)
  then show ?thesis using hash_other [OF pre] by (simp add: hset_def refines_unchanged [OF pre])
next
  case Panic
  then show ?thesis by (cases "S k" rule: as_hash.cases) auto
next
  case (Ok h)
  then obtain md where md: "find_metadata E R t k Hash st = res.Ok md" "hash_repr R (kv E st) k now' n md h"
    "h \<noteq> Map.empty \<Longrightarrow> kv E st k = Some (Metadate_encode E R md) \<and> S k = Some (HashVal h)"
    using hash_open [OF pre] by metis
  let ?ek = "element_key R k (md_version md) f" and ?h = "h(f \<mapsto> v)"
  let ?md = "md\<lparr>md_size := of_nat (card (dom ?h))\<rparr>"
  note p = cmd_preD [OF pre]
  have h: "finite (dom h)" "meta_ok Hash now' n (card (dom h)) md" "elems R (kv E st) k (md_version md) = h"
    "\<forall>x \<in> ran h. utf8_valid x"
    using md(2) by (simp_all add: hash_repr_def)
  have ver: "unat (md_version md) < now'" and card: "card (dom h) \<le> n" using h(2) by (simp_all add: meta_ok_def)
  have card': "card (dom ?h) = (if h f = None then Suc (card (dom h)) else card (dom h))"
    using h(1) by (auto simp: card_insert_if domIff)
  have ran: "\<forall>x \<in> ran ?h. utf8_valid x" using h(4) assms(2) by (auto simp: ran_def)
  let ?xs = "if h f = None then [BPut k (Metadate_encode E R ?md), BPut ?ek v] else [BPut ?ek v]"
  have log: "loggable k (Metadate_encode E R ?md)" "loggable ?ek v"
    using loggable_meta [OF p(4,1,8,7)] loggable_element [OF p(4) _ p(7), of f v] p(8) assms(3,4) by simp_all
  have md_same: "?md = md" if "h f \<noteq> None" using that card' h(2) by (simp add: meta_ok_def)
  have fold: "fold apply_op ?xs (kv E st) = (kv E st)(k \<mapsto> Metadate_encode E R ?md, ?ek \<mapsto> v)"
  proof (cases "h f = None")
    case False
    then have "h \<noteq> Map.empty" by auto
    from md(3) [OF this] have "(kv E st)(k \<mapsto> Metadate_encode E R ?md) = kv E st"
      using md_same [OF False] by (auto simp: fun_eq_iff)
    then show ?thesis using False by simp
  qed simp
  have "key_repr E R M (fold apply_op ?xs (kv E st)) k now' (Suc n) (Some (HashVal ?h))"
    unfolding fold by (rule key_repr_hash [OF p(4,1) md(2) _ _ ran refl refl refl])
      (use h(1) card card' in auto)
  from batch_refines [OF pre _ _ _ _ _ this, of ?ek v OBool "h f = None"]
  have b: "refines E R K M now' (Suc n) r
    (map_prod OBool id (in_batch (\<lambda>ws. and_then (wb_fill E ?xs ws) (\<lambda>_ ws. and_then (wb_commit E ws) (\<lambda>_ ws. (res.Ok (h f = None), ws)))) st))
    (OBool (res.Ok (h f = None)), S(k \<mapsto> HashVal ?h))"
    using log ver by (auto split: if_splits)
  have "hset E R t k f v st =
    in_batch (\<lambda>ws. and_then (wb_fill E ?xs ws) (\<lambda>_ ws. and_then (wb_commit E ws) (\<lambda>_ ws. (res.Ok (h f = None), ws)))) st"
    using size_step(1) [OF h(2) p(9)] card'
    by (cases "h f")
      (simp_all add: hset_def md(1) Let_def encode_element_key pre_element_exists [OF pre] h(3) and_then_assoc)
  then show ?thesis using b Ok by simp
qed

lemma hget_refines:
  assumes pre: "cmd_pre E R K M now n now' r t k st S"
  shows "refines E R K M now' (Suc n) r (redis_step E R t (CHGet k f) st) (redis_spec t (CHGet k f) S)"
proof (cases "as_hash (S k)")
  case (Err e)
  then show ?thesis using hash_other [OF pre] by (simp add: hget_def refines_unchanged [OF pre])
next
  case Panic
  then show ?thesis by (cases "S k" rule: as_hash.cases) auto
next
  case (Ok h)
  then obtain md where md: "find_metadata E R t k Hash st = res.Ok md" "hash_repr R (kv E st) k now' n md h"
    using hash_open [OF pre] by metis
  then have h: "finite (dom h)" "meta_ok Hash now' n (card (dom h)) md" "elems R (kv E st) k (md_version md) = h"
    "\<forall>x \<in> ran h. utf8_valid x"
    by (simp_all add: hash_repr_def)
  have "md_size md = 0 \<longleftrightarrow> h = Map.empty" using size_step(3) [OF h(2) cmd_preD(9) [OF pre]] h(1) by simp
  then have "hget E R t k f st =
     (if h = Map.empty then res.Ok None else case h f of None \<Rightarrow> Err KeyNotFound | Some v \<Rightarrow> res.Ok (Some v))"
    using h(4)
    by (auto simp: hget_def md(1) encode_element_key pre_get_element [OF pre] h(3) ran_def split: option.splits)
  then show ?thesis using Ok by (simp add: refines_unchanged [OF pre])
qed

lemma hdel_refines:
  assumes pre: "cmd_pre E R K M now n now' r t k st S" and "length f < 2 ^ 28"
  shows "refines E R K M now' (Suc n) r (redis_step E R t (CHDel k f) st) (redis_spec t (CHDel k f) S)"
proof (cases "as_hash (S k)")
  case (Err e)
  then show ?thesis using hash_other [OF pre] by (simp add: hdel_def refines_unchanged [OF pre])
next
  case Panic
  then show ?thesis by (cases "S k" rule: as_hash.cases) auto
next
  case (Ok h)
  then obtain md where md: "find_metadata E R t k Hash st = res.Ok md" "hash_repr R (kv E st) k now' n md h"
    using hash_open [OF pre] by metis
  let ?ek = "element_key R k (md_version md) f" and ?h = "h(f := None)"
  let ?md = "md\<lparr>md_size := of_nat (card (dom ?h))\<rparr>"
  note p = cmd_preD [OF pre]
  have h: "finite (dom h)" "meta_ok Hash now' n (card (dom h)) md" "elems R (kv E st) k (md_version md) = h"
    "\<forall>x \<in> ran h. utf8_valid x"
    using md(2) by (simp_all add: hash_repr_def)
  have ver: "unat (md_version md) < now'" and card: "card (dom h) \<le> n" using h(2) by (simp_all add: meta_ok_def)
  show ?thesis
  proof (cases "h f = None")
    case True
    then have "hdel E R t k f st = (res.Ok False, st)"
      by (simp add: hdel_def md(1) Let_def encode_element_key pre_element_exists [OF pre] h(3))
    then show ?thesis using Ok True by (simp add: refines_unchanged [OF pre])
  next
    case False
    have card': "card (dom ?h) = card (dom h) - 1" "0 < card (dom h)"
      using h(1) False by (auto simp: card_gt_0_iff card_Diff_singleton domIff)
    have ran: "\<forall>x \<in> ran ?h. utf8_valid x" using h(4) by (auto simp: ran_def split: if_splits)
    let ?xs = "[BPut k (Metadate_encode E R ?md), BDelete ?ek]"
    have log: "loggable k (Metadate_encode E R ?md)" "loggable ?ek []"
      using loggable_meta [OF p(4,1,8,7)] loggable_element [OF p(4) _ p(7), of f "[]"] p(8) assms(2) by simp_all
    have "key_repr E R M (fold apply_op ?xs (kv E st)) k now' (Suc n) (Some (HashVal ?h))"
      by (rule key_repr_hash [OF p(4,1) md(2) _ _ ran refl refl]) (use h(1) card card' in auto)
    from batch_refines [OF pre _ _ _ _ _ this, of k "Metadate_encode E R ?md" OBool True]
    have b: "refines E R K M now' (Suc n) r
      (map_prod OBool id (in_batch (\<lambda>ws. and_then (wb_fill E ?xs ws) (\<lambda>_ ws. and_then (wb_commit E ws) (\<lambda>_ ws. (res.Ok True, ws)))) st))
      (OBool (res.Ok True), S(k \<mapsto> HashVal ?h))"
      using log ver elems_simps(2) [OF p(4,1)] by auto
    have "md_size md \<noteq> 0" using size_step(3) [OF h(2) p(9)] card'(2) by simp
    then have "hdel E R t k f st =
      in_batch (\<lambda>ws. and_then (wb_fill E ?xs ws) (\<lambda>_ ws. and_then (wb_commit E ws) (\<lambda>_ ws. (res.Ok True, ws)))) st"
      using size_step(2) [OF h(2) p(9) card'(2)] card' False
      by (simp add: hdel_def md(1) Let_def encode_element_key pre_element_exists [OF pre] h(3) and_then_assoc)
    then show ?thesis using b Ok False by (simp del: not_None_eq)
  qed
qed

end
