(* ===== verification/RedisSet.thy ===== *)
theory RedisSet
  imports RedisHash
begin

text \<open>The commands on sets against the abstract store.\<close>

abbreviation member_suffix :: "'z crates_scheme \<Rightarrow> str \<Rightarrow> bytes" where
  "member_suffix C x \<equiv> x @ put_u32 C (of_nat (length x))"

lemma member_suffix_inject: "crates_ok C \<Longrightarrow> member_suffix C x = member_suffix C y \<longleftrightarrow> x = y"
  using length_put_u32 [of C] by (metis append_eq_append_conv length_append add_right_cancel)

lemma set_other:
  assumes pre: "cmd_pre E R K M now n now' r t k st S" and "as_set (S k) = Err e"
  shows "find_metadata E R t k Set st = Err e"
proof -
  obtain x where "S k = Some x" "value_type x \<noteq> Set" "e = WrongTypeOperation"
    using assms(2) by (cases "S k" rule: as_set.cases) auto
  then show ?thesis using find_other [OF pre] by simp
qed

lemma as_set_no_panic [simp]: "as_set x \<noteq> Panic"
  by (cases x rule: as_set.cases) simp_all

lemma set_open:
  assumes pre: "cmd_pre E R K M now n now' r t k st S" and "as_set (S k) = Ok A"
  obtains md where "find_metadata E R t k Set st = Ok md" "set_repr E R (kv E st) k now' n md A"
proof (cases "S k")
  case None
  let ?md = "new_metadata Set (of_int (snd t))"
  have "A = {}" using assms(2) None by simp
  then show thesis
    using that [of ?md] find_new [OF pre None] new_meta_ok(1) [OF pre, of Set n] new_meta_ok(2) [OF pre, of Set]
    by (simp add: set_repr_def)
next
  case (Some x)
  then have S: "S k = Some (SetVal A)" using assms(2) by (cases "S k" rule: as_set.cases) auto
  then obtain md where md: "kv E st k = Some (Metadate_encode E R md)" "set_repr E R (kv E st) k now n md A"
    using cmd_preD(13) [OF pre] by (auto simp: key_repr_def)
  then have "find_metadata E R t k Set st = Ok md"
    using find_old [OF pre md(1)] by (simp add: set_repr_def meta_ok_def)
  moreover have "set_repr E R (kv E st) k now' n md A"
    using md(2) cmd_preD(18) [OF pre] by (auto simp: set_repr_def intro: meta_ok_mono)
  ultimately show thesis using that by blast
qed

lemma key_repr_set:
  assumes "redis_ok R" "crates_ok C" "set_repr C R m k now n md A" "finite A'" "card A' \<le> n'"
    and "A' = (if v = None then A - {x} else insert x A)" "md' = md\<lparr>md_size := of_nat (card A')\<rparr>"
    and "m' = m(k \<mapsto> Metadate_encode C R md', element_key R k (md_version md) (member_suffix C x) := v)"
  shows "key_repr C R M m' k now n' (Some (SetVal A'))"
proof -
  have md: "meta_ok Set now n (card A) md"
    "\<And>y. elems R m k (md_version md) (member_suffix C y) \<noteq> None \<longleftrightarrow> y \<in> A"
    using assms(3) by (simp_all add: set_repr_def)
  have "m' k = Some (Metadate_encode C R md')" using elems_simps(1,2) [OF assms(1,2)] by (simp add: assms(8))
  moreover have el: "elems R m' k (md_version md') = (elems R m k (md_version md))(member_suffix C x := v)"
    using elems_simps(3,4) [OF assms(1,2)] by (simp add: assms(7,8))
  have "elems R m' k (md_version md') (member_suffix C y) \<noteq> None \<longleftrightarrow> y \<in> A'" for y
    unfolding el using md(2) [of y] member_suffix_inject [OF assms(2), of y x] by (auto simp: assms(6))
  moreover have "meta_ok Set now n' (card A') md'"
    using meta_ok_size [OF md(1) assms(5)] by (simp add: assms(7))
  ultimately show ?thesis using assms(4) by (auto simp: key_repr_def set_repr_def)
qed

lemma set_reprD:
  assumes "set_repr C R m k now n md A"
  shows "finite A" "meta_ok Set now n (card A) md" "card A \<le> n" "unat (md_version md) < now"
    "elems R m k (md_version md) (member_suffix C x) = None \<longleftrightarrow> x \<notin> A"
  using assms by (auto simp: set_repr_def meta_ok_def simp del: not_None_eq)

lemma sadd_refines:
  assumes pre: "cmd_pre E R K M now n now' r t k st S" and "length x < 2 ^ 28"
  shows "refines E R K M now' (Suc n) r (redis_step E R t (CSAdd k x) st) (redis_spec t (CSAdd k x) S)"
proof (cases "as_set (S k)")
  case (Err e)
  then show ?thesis using set_other [OF pre] by (simp add: sadd_def refines_unchanged [OF pre])
next
  case (Ok A)
  then obtain md where md: "find_metadata E R t k Set st = res.Ok md" "set_repr E R (kv E st) k now' n md A"
    using set_open [OF pre] by metis
  note p = cmd_preD [OF pre] and A = set_reprD [OF md(2)]
  let ?ek = "element_key R k (md_version md) (member_suffix E x)"
  let ?md = "md\<lparr>md_size := of_nat (card (insert x A))\<rparr>"
  show ?thesis
  proof (cases "x \<in> A")
    case True
    then have "sadd E R t k x st = (res.Ok False, st)"
      using A(5) [of x] by (simp add: sadd_def md(1) Let_def encode_element_key pre_element_exists [OF pre])
    then show ?thesis using Ok True by (simp add: refines_unchanged [OF pre])
  next
    case False
    then have card: "card (insert x A) = Suc (card A)" using A(1) by simp
    let ?xs = "[BPut k (Metadate_encode E R ?md), BPut ?ek []]"
    have log: "loggable k (Metadate_encode E R ?md)" "loggable ?ek []"
      using loggable_meta [OF p(4,1,8,7)] loggable_element [OF p(4) _ p(7), of "member_suffix E x" "[]"] p(8)
        assms(2) length_put_u32 [OF p(1)] by simp_all
    have "key_repr E R M (fold apply_op ?xs (kv E st)) k now' (Suc n) (Some (SetVal (insert x A)))"
      by (rule key_repr_set [OF p(4,1) md(2), where v = "Some []" and x = x]) (use A card in auto)
    from batch_refines [OF pre _ _ _ _ _ this, of k "Metadate_encode E R ?md" OBool True]
    have b: "refines E R K M now' (Suc n) r
      (map_prod OBool id (in_batch (\<lambda>ws. and_then (wb_fill E ?xs ws) (\<lambda>_ ws. and_then (wb_commit E ws) (\<lambda>_ ws. (res.Ok True, ws)))) st))
      (OBool (res.Ok True), S(k \<mapsto> SetVal (insert x A)))"
      using log A(4) by auto
    have "sadd E R t k x st =
      in_batch (\<lambda>ws. and_then (wb_fill E ?xs ws) (\<lambda>_ ws. and_then (wb_commit E ws) (\<lambda>_ ws. (res.Ok True, ws)))) st"
      using size_step(1) [OF A(2) p(9)] card False A(5) [of x]
      by (simp add: sadd_def md(1) Let_def encode_element_key pre_element_exists [OF pre] and_then_assoc)
    then show ?thesis using b Ok False by simp
  qed
qed simp

lemma s_is_member_refines:
  assumes pre: "cmd_pre E R K M now n now' r t k st S"
  shows "refines E R K M now' (Suc n) r (redis_step E R t (CSIsMember k x) st) (redis_spec t (CSIsMember k x) S)"
proof (cases "as_set (S k)")
  case (Err e)
  then show ?thesis using set_other [OF pre] by (simp add: s_is_member_def refines_unchanged [OF pre])
next
  case (Ok A)
  then obtain md where md: "find_metadata E R t k Set st = res.Ok md" "set_repr E R (kv E st) k now' n md A"
    using set_open [OF pre] by metis
  note A = set_reprD [OF md(2)]
  have "s_is_member E R t k x st = res.Ok (x \<in> A)"
    using size_step(3) [OF A(2) cmd_preD(9) [OF pre]] A(1) A(5) [of x]
    by (auto simp: s_is_member_def md(1) Let_def encode_element_key pre_get_element [OF pre] split: option.splits)
  then show ?thesis using Ok by (simp add: refines_unchanged [OF pre])
qed simp

lemma srem_refines:
  assumes pre: "cmd_pre E R K M now n now' r t k st S" and "length x < 2 ^ 28"
  shows "refines E R K M now' (Suc n) r (redis_step E R t (CSRem k x) st) (redis_spec t (CSRem k x) S)"
proof (cases "as_set (S k)")
  case (Err e)
  then show ?thesis using set_other [OF pre] by (simp add: srem_def refines_unchanged [OF pre])
next
  case (Ok A)
  then obtain md where md: "find_metadata E R t k Set st = res.Ok md" "set_repr E R (kv E st) k now' n md A"
    using set_open [OF pre] by metis
  note p = cmd_preD [OF pre] and A = set_reprD [OF md(2)]
  let ?ek = "element_key R k (md_version md) (member_suffix E x)"
  let ?md = "md\<lparr>md_size := of_nat (card (A - {x}))\<rparr>"
  have size0: "md_size md = 0 \<longleftrightarrow> A = {}" using size_step(3) [OF A(2) p(9)] A(1) by simp
  show ?thesis
  proof (cases "x \<in> A")
    case False
    then have "srem E R t k x st = (res.Ok False, st)"
      using A(5) [of x] by (simp add: srem_def md(1) Let_def encode_element_key pre_get_element [OF pre])
    then show ?thesis using Ok False by (simp add: refines_unchanged [OF pre])
  next
    case True
    then have card: "card (A - {x}) = card A - 1" "0 < card A" and ne: "md_size md \<noteq> 0"
      using A(1) size0 by (auto simp: card_gt_0_iff)
    obtain v where v: "elems R (kv E st) k (md_version md) (member_suffix E x) = Some v"
      using A(5) [of x] True by auto
    let ?xs = "[BPut k (Metadate_encode E R ?md), BDelete ?ek]"
    have log: "loggable k (Metadate_encode E R ?md)" "loggable ?ek []"
      using loggable_meta [OF p(4,1,8,7)] loggable_element [OF p(4) _ p(7), of "member_suffix E x" "[]"] p(8)
        assms(2) length_put_u32 [OF p(1)] by simp_all
    have "key_repr E R M (fold apply_op ?xs (kv E st)) k now' (Suc n) (Some (SetVal (A - {x})))"
      by (rule key_repr_set [OF p(4,1) md(2), where v = None and x = x]) (use A card in auto)
    from batch_refines [OF pre _ _ _ _ _ this, of k "Metadate_encode E R ?md" OBool True]
    have b: "refines E R K M now' (Suc n) r
      (map_prod OBool id (in_batch (\<lambda>ws. and_then (wb_fill E ?xs ws) (\<lambda>_ ws. and_then (wb_commit E ws) (\<lambda>_ ws. (res.Ok True, ws)))) st))
      (OBool (res.Ok True), S(k \<mapsto> SetVal (A - {x})))"
      using log A(4) elems_simps(2) [OF p(4,1)] by auto
    have "srem E R t k x st =
      in_batch (\<lambda>ws. and_then (wb_fill E ?xs ws) (\<lambda>_ ws. and_then (wb_commit E ws) (\<lambda>_ ws. (res.Ok True, ws)))) st"
      using size_step(2) [OF A(2) p(9) card(2)] card(1) ne v
      by (simp add: srem_def md(1) Let_def encode_element_key pre_get_element [OF pre] and_then_assoc)
    then show ?thesis using b Ok True by simp
  qed
qed simp

end
