(* ===== verification/RedisZSet.thy ===== *)
theory RedisZSet
  imports RedisSet
begin

text \<open>The commands on sorted sets against the abstract store.\<close>

lemma zset_other:
  assumes pre: "cmd_pre E R K M now n now' r t k st S" and "as_zset (S k) = Err e"
  shows "find_metadata E R t k ZSet st = Err e"
proof -
  obtain x where "S k = Some x" "value_type x \<noteq> ZSet" "e = WrongTypeOperation"
    using assms(2) by (cases "S k" rule: as_zset.cases) auto
  then show ?thesis using find_other [OF pre] by simp
qed

lemma as_zset_no_panic [simp]: "as_zset x \<noteq> Panic"
  by (cases x rule: as_zset.cases) simp_all

lemma zset_open:
  assumes pre: "cmd_pre E R K M now n now' r t k st S" and "as_zset (S k) = Ok z"
  obtains md where "find_metadata E R t k ZSet st = Ok md" "zset_repr R M (kv E st) k now' n md z"
    "z \<noteq> Map.empty \<Longrightarrow> kv E st k = Some (Metadate_encode E R md) \<and> S k = Some (ZSetVal z)"
proof (cases "S k")
  case None
  let ?md = "new_metadata ZSet (of_int (snd t))"
  have "z = Map.empty" using assms(2) None by simp
  then show thesis
    using that [of ?md] find_new [OF pre None] new_meta_ok(1) [OF pre, of ZSet n] new_meta_ok(2) [OF pre, of ZSet]
    by (simp add: zset_repr_def)
next
  case (Some x)
  then have S: "S k = Some (ZSetVal z)" using assms(2) by (cases "S k" rule: as_zset.cases) auto
  then obtain md where md: "kv E st k = Some (Metadate_encode E R md)" "zset_repr R M (kv E st) k now n md z"
    using cmd_preD(13) [OF pre] by (auto simp: key_repr_def)
  then have "find_metadata E R t k ZSet st = Ok md"
    using find_old [OF pre md(1)] by (simp add: zset_repr_def meta_ok_def)
  moreover have "zset_repr R M (kv E st) k now' n md z"
    using md(2) cmd_preD(18) [OF pre] by (auto simp: zset_repr_def intro: meta_ok_mono)
  ultimately show thesis using that md(1) S by blast
qed

lemma zset_reprD:
  assumes "zset_repr R M m k now n md z"
  shows "finite (dom z)" "dom z \<subseteq> M" "meta_ok ZSet now n (card (dom z)) md" "card (dom z) \<le> n"
    "unat (md_version md) < now" "x \<in> M \<Longrightarrow> elems R m k (md_version md) x = map_option (f64_to_string R) (z x)"
    "d \<in> ran z \<Longrightarrow> \<not> f64_is_nan d" "md_size md = of_nat (card (dom z))"
  using assms by (auto simp: zset_repr_def meta_ok_def)

abbreviation score_suffix :: "'z crates_scheme \<Rightarrow> redis_crates \<Rightarrow> f64 \<Rightarrow> str \<Rightarrow> bytes" where
  "score_suffix C R d x \<equiv> f64_to_string R d @ member_suffix C x"

lemma plain_membersD:
  assumes "plain_members C R M" "x \<in> M" "y \<in> M"
  shows "score_suffix C R d y \<noteq> x" "x \<noteq> score_suffix C R d y"
  using assms unfolding plain_members_def by metis+

lemma key_repr_zset:
  assumes ok: "redis_ok R" "crates_ok C" and z: "zset_repr R M m k now n md z"
    and z': "z' = z(x \<mapsto> d)" "card (dom z') \<le> n'" and x: "x \<in> M" "\<not> f64_is_nan d"
    and md': "md' = md\<lparr>md_size := of_nat (card (dom z'))\<rparr>"
    and m': "m' k = Some (Metadate_encode C R md')"
      "\<And>y. y \<in> M \<Longrightarrow> elems R m' k (md_version md) y = ((elems R m k (md_version md))(x := Some (f64_to_string R d))) y"
  shows "key_repr C R M m' k now n' (Some (ZSetVal z'))"
proof -
  note zD = zset_reprD [OF z]
  have "meta_ok ZSet now n' (card (dom z')) md'"
    using meta_ok_size [OF zD(3) z'(2)] by (simp add: md')
  moreover have "elems R m' k (md_version md') y = map_option (f64_to_string R) (z' y)" if "y \<in> M" for y
    using m'(2) [OF that] zD(6) [OF that] by (simp add: md' z'(1))
  moreover have "finite (dom z')" "dom z' \<subseteq> M" using zD(1,2) x(1) by (auto simp: z'(1))
  moreover have "\<forall>d \<in> ran z'. \<not> f64_is_nan d" using zD(7) x(2) by (auto simp: z'(1) ran_def)
  ultimately show ?thesis using m'(1) by (simp add: key_repr_def zset_repr_def) blast
qed

lemma zadd_refines:
  assumes pre: "cmd_pre E R K M now n now' r t k st S"
    and x: "x \<in> M" "length x < 2 ^ 27" "\<not> f64_is_nan d" and plain: "plain_members E R M"
  shows "refines E R K M now' (Suc n) r (redis_step E R t (CZAdd k d x) st) (redis_spec t (CZAdd k d x) S)"
proof (cases "as_zset (S k)")
  case (Err e)
  then show ?thesis using zset_other [OF pre] by (simp add: zadd_def refines_unchanged [OF pre])
next
  case (Ok z)
  then obtain md where md: "find_metadata E R t k ZSet st = res.Ok md" "zset_repr R M (kv E st) k now' n md z"
    "z \<noteq> Map.empty \<Longrightarrow> kv E st k = Some (Metadate_encode E R md) \<and> S k = Some (ZSetVal z)"
    using zset_open [OF pre] by metis
  note p = cmd_preD [OF pre] and z = zset_reprD [OF md(2)] and R = redis_okD [OF p(4)]
  note el = elems_simps [OF p(4,1)] and plain = plain_membersD [OF plain]
  let ?mk = "element_key R k (md_version md) x" and ?sk = "\<lambda>d. element_key R k (md_version md) (score_suffix E R d x)"
  let ?md = "md\<lparr>md_size := of_nat (card (dom (z(x \<mapsto> d))))\<rparr>"
  let ?m = "kv E st" and ?s = "f64_to_string R d"
  have get: "get E ?mk st = (case z x of None \<Rightarrow> Err KeyNotFound | Some old \<Rightarrow> res.Ok (f64_to_string R old))"
    using z(6) [OF x(1)] by (simp add: pre_get_element [OF pre] split: option.splits)
  have log: "loggable k (Metadate_encode E R ?md)" "loggable ?mk ?s"
    using loggable_meta [OF p(4,1,8,7)] loggable_element [OF p(4) _ p(7), of x ?s] R(7) [of d] p(8) x(2) by simp_all
  have log3: "loggable (?sk e) []" for e
    using loggable_element [OF p(4) _ p(7), of "score_suffix E R e x" "[]"] p(8) x(2) R(7) [of e]
      length_put_u32 [OF p(1), of "of_nat (length x)"] by simp
  have keys: "?sk e \<noteq> ?mk" "?mk \<noteq> ?sk e" for e
    using plain [OF x(1,1)] by (simp_all add: element_key_def)
  have other: "((elems R m k ver)(score_suffix E R e x := b)) y = elems R m k ver y" if "y \<in> M" for m ver e b y
    using plain(2) [OF that x(1), of e] by simp
  show ?thesis
  proof (cases "z x")
    case None
    have card: "card (dom (z(x \<mapsto> d))) = Suc (card (dom z))" using z(1) None by (simp add: card_insert_if domIff)
    let ?xs = "[BPut k (Metadate_encode E R ?md), BPut ?mk ?s, BPut (?sk d) []]"
    have "key_repr E R M (fold apply_op ?xs ?m) k now' (Suc n) (Some (ZSetVal (z(x \<mapsto> d))))"
    proof (rule key_repr_zset [OF p(4,1) md(2) refl _ x(1,3) refl])
      show "fold apply_op ?xs ?m k = Some (Metadate_encode E R ?md)" using el(1,2) by simp
      show "elems R (fold apply_op ?xs ?m) k (md_version md) y = ((elems R ?m k (md_version md))(x := Some ?s)) y"
        if "y \<in> M" for y using other [OF that] plain(2) [OF that x(1)] by (simp add: el(3,4))
    qed (use card z(4) in simp)
    from batch_refines [OF pre _ _ _ _ _ this, of ?mk ?s OBool True]
    have b: "refines E R K M now' (Suc n) r
      (map_prod OBool id (in_batch (\<lambda>ws. and_then (wb_fill E ?xs ws) (\<lambda>_ ws. and_then (wb_commit E ws) (\<lambda>_ ws. (res.Ok True, ws)))) st))
      (OBool (res.Ok True), S(k \<mapsto> ZSetVal (z(x \<mapsto> d))))"
      using log log3 z(5) by auto
    have "zadd E R t k d x st =
      in_batch (\<lambda>ws. and_then (wb_fill E ?xs ws) (\<lambda>_ ws. and_then (wb_commit E ws) (\<lambda>_ ws. (res.Ok True, ws)))) st"
      using size_step(1) [OF z(3) p(9)] card None
      by (simp add: zadd_def md(1) Let_def encode_element_key get and_then_assoc)
    then show ?thesis using b Ok None by simp
  next
    case (Some old)
    have old: "get E ?mk st = res.Ok (f64_to_string R old)" "f64_parse R (f64_to_string R old) = Some old"
      using get Some R(5) z(7) [of old] by (auto simp: ran_def)
    have ne: "z \<noteq> Map.empty" using Some by auto
    have card: "card (dom (z(x \<mapsto> d))) = card (dom z)"
      using Some by (metis domI dom_fun_upd insert_absorb option.distinct(1))
    have md_eq: "?md = md" using card z(8) by simp
    show ?thesis
    proof (cases "f64_eq old d")
      case True
      then have "zadd E R t k d x st = (res.Ok False, st)"
        using old R(6) by (simp add: zadd_def md(1) Let_def encode_element_key)
      then show ?thesis using Ok Some True by (simp add: refines_unchanged [OF pre])
    next
      case False
      let ?xs = "[BDelete (?sk old), BPut ?mk ?s, BPut (?sk d) []]"
      have "key_repr E R M (fold apply_op ?xs ?m) k now' (Suc n) (Some (ZSetVal (z(x \<mapsto> d))))"
      proof (rule key_repr_zset [OF p(4,1) md(2) refl _ x(1,3) refl])
        show "fold apply_op ?xs ?m k = Some (Metadate_encode E R ?md)"
          using el(1,2) md(3) [OF ne] md_eq by simp
        show "elems R (fold apply_op ?xs ?m) k (md_version md) y = ((elems R ?m k (md_version md))(x := Some ?s)) y"
          if "y \<in> M" for y using other [OF that] plain(2) [OF that x(1)] by (simp add: el(3,4))
      qed (use card z(4) in simp)
      from batch_refines [OF pre _ _ _ _ _ this, of ?mk ?s OBool False]
      have b: "refines E R K M now' (Suc n) r
        (map_prod OBool id (in_batch (\<lambda>ws. and_then (wb_fill E ?xs ws) (\<lambda>_ ws. and_then (wb_commit E ws) (\<lambda>_ ws. (res.Ok False, ws)))) st))
        (OBool (res.Ok False), S(k \<mapsto> ZSetVal (z(x \<mapsto> d))))"
        using log log3 z(5) keys by auto
      have "zadd E R t k d x st =
        in_batch (\<lambda>ws. and_then (wb_fill E ?xs ws) (\<lambda>_ ws. and_then (wb_commit E ws) (\<lambda>_ ws. (res.Ok False, ws)))) st"
        using old R(6) False
        by (simp add: zadd_def md(1) Let_def encode_element_key and_then_assoc)
      then show ?thesis using b Ok Some False by simp
    qed
  qed
qed simp

lemma zscore_refines:
  assumes pre: "cmd_pre E R K M now n now' r t k st S" and x: "x \<in> M"
  shows "refines E R K M now' (Suc n) r (redis_step E R t (CZScore k x) st) (redis_spec t (CZScore k x) S)"
proof (cases "as_zset (S k)")
  case (Err e)
  then show ?thesis using zset_other [OF pre] by (simp add: zscore_def refines_unchanged [OF pre])
next
  case (Ok z)
  then obtain md where md: "find_metadata E R t k ZSet st = res.Ok md" "zset_repr R M (kv E st) k now' n md z"
    using zset_open [OF pre] by metis
  note z = zset_reprD [OF md(2)] and R = redis_okD [OF cmd_preD(4) [OF pre]]
  have "md_size md = 0 \<longleftrightarrow> z = Map.empty"
    using size_step(3) [OF z(3) cmd_preD(9) [OF pre]] z(1) by simp
  moreover have "f64_parse R (f64_to_string R s) = Some s" if "z x = Some s" for s
    using R(5) z(7) [of s] that by (auto simp: ran_def)
  ultimately have "zscore E R t k x st =
     (if z = Map.empty then res.Ok f64_minus_1 else case z x of None \<Rightarrow> Err KeyNotFound | Some s \<Rightarrow> res.Ok s)"
    using z(6) [OF x] R(6)
    by (auto simp: zscore_def md(1) Let_def encode_element_key pre_get_element [OF pre] split: option.splits)
  then show ?thesis using Ok by (simp add: refines_unchanged [OF pre])
qed simp

end
