(* ===== verification/RedisList.thy ===== *)
theory RedisList
  imports RedisSet
begin

text \<open>The commands on lists against the abstract store: a list is a double-ended queue.\<close>

lemma list_other:
  assumes pre: "cmd_pre E R K M now n now' r t k st S" and "as_list (S k) = Err e"
  shows "find_metadata E R t k List st = Err e"
proof -
  obtain x where "S k = Some x" "value_type x \<noteq> List" "e = WrongTypeOperation"
    using assms(2) by (cases "S k" rule: as_list.cases) auto
  then show ?thesis using find_other [OF pre] by simp
qed

lemma as_list_no_panic [simp]: "as_list x \<noteq> Panic"
  by (cases x rule: as_list.cases) simp_all

lemma list_open:
  assumes pre: "cmd_pre E R K M now n now' r t k st S" and "as_list (S k) = Ok xs"
  obtains md where "find_metadata E R t k List st = Ok md" "list_repr R (kv E st) k now' n md xs"
proof (cases "S k")
  case None
  let ?md = "new_metadata List (of_int (snd t))"
  have "xs = []" using assms(2) None by simp
  moreover have "list_repr R (kv E st) k now' n ?md []"
    using new_meta_ok(1) [OF pre, of List n]
    by (simp add: list_repr_def) (simp add: new_metadata_def INITIAL_LIST_MARK_def)
  ultimately show thesis using that [of ?md] find_new [OF pre None] by simp
next
  case (Some x)
  then have S: "S k = Some (ListVal xs)" using assms(2) by (cases "S k" rule: as_list.cases) auto
  then obtain md where md: "kv E st k = Some (Metadate_encode E R md)" "list_repr R (kv E st) k now n md xs"
    using cmd_preD(13) [OF pre] by (auto simp: key_repr_def)
  then have "find_metadata E R t k List st = Ok md"
    using find_old [OF pre md(1)] by (simp add: list_repr_def meta_ok_def)
  moreover have "list_repr R (kv E st) k now' n md xs"
    using md(2) cmd_preD(18) [OF pre] by (auto simp: list_repr_def intro: meta_ok_mono)
  ultimately show thesis using that by blast
qed

text \<open>The indices of a list stay in the range of their type.\<close>

lemma list_reprD:
  assumes "list_repr R m k now n md xs" "Suc n < 2 ^ 32"
  shows "meta_ok List now n (length xs) md" "length xs \<le> n" "unat (md_version md) < now"
    "sub_u64 (md_head md) 1 = Ok (md_head md - 1)" "unat (md_head md - 1) = unat (md_head md) - 1" "0 < unat (md_head md)"
    "add_u64 (md_tail md) 1 = Ok (md_tail md + 1)" "md_tail md = md_head md + of_nat (length xs)"
    "unat (md_tail md) = unat (md_head md) + length xs"
    "i \<le> length xs \<Longrightarrow> unat (md_head md + of_nat i) = unat (md_head md) + i"
proof -
  show m: "meta_ok List now n (length xs) md" and t: "md_tail md = md_head md + of_nat (length xs)"
    using assms(1) by (simp_all add: list_repr_def)
  then show len: "length xs \<le> n" and "unat (md_version md) < now" by (simp_all add: meta_ok_def)
  have h: "2 ^ 63 \<le> unat (md_head md) + Suc n" "unat (md_head md) + length xs < 2 ^ 63 + n"
    using assms(1) by (simp_all add: list_repr_def)
  then show pos: "0 < unat (md_head md)" using assms(2) by simp
  then have one: "1 \<le> md_head md" by (simp add: word_le_nat_alt)
  then show "sub_u64 (md_head md) 1 = Ok (md_head md - 1)" "unat (md_head md - 1) = unat (md_head md) - 1"
    by (simp_all add: sub_u64_def unat_sub)
  have idx: "unat (md_head md + of_nat i) = unat (md_head md) + i" if "i \<le> length xs" for i
    using add_u64_of_nat(2) [of "md_head md" i] h(2) that assms(2) by simp
  then show "i \<le> length xs \<Longrightarrow> unat (md_head md + of_nat i) = unat (md_head md) + i" .
  from idx show u: "unat (md_tail md) = unat (md_head md) + length xs" by (simp add: t)
  then have "unat (md_tail md) + 1 < 2 ^ 64" using h(2) assms(2) by simp
  then show "add_u64 (md_tail md) 1 = Ok (md_tail md + 1)" using add_u64_of_nat(1) [of "md_tail md" 1] by simp
qed

lemma key_repr_list:
  assumes "list_repr R m k now n md xs" "length ys \<le> n'" "\<forall>y \<in> set ys. utf8_valid y"
    and "md' = md\<lparr>md_size := of_nat (length ys), md_head := h, md_tail := h + of_nat (length ys)\<rparr>"
    and "2 ^ 63 \<le> unat h + Suc n'" "unat h + length ys < 2 ^ 63 + n'"
    and "m' k = Some (Metadate_encode C R md')"
    and "\<And>i. i < length ys \<Longrightarrow> elems R m' k (md_version md) (put_u64 R (h + of_nat i)) = Some (ys ! i)"
  shows "key_repr C R M m' k now n' (Some (ListVal ys))"
proof -
  have "list_repr R m' k now n' md' ys"
    using assms(1-6) assms(8) by (simp add: list_repr_def meta_ok_def)
  then show ?thesis using assms(7) by (auto simp: key_repr_def)
qed

lemma push_refines:
  assumes pre: "cmd_pre E R K M now n now' r t k st S" and x: "utf8_valid x" "length x < 2 ^ 29"
    and xs: "as_list (S k) = Ok xs"
  shows "refines E R K M now' (Suc n) r (map_prod OCount id (push_inner E R t k x is_left st))
    (OCount (Ok (of_nat (Suc (length xs)))), S(k \<mapsto> ListVal (if is_left then x # xs else xs @ [x])))"
proof -
  obtain md where md: "find_metadata E R t k List st = Ok md" "list_repr R (kv E st) k now' n md xs"
    using list_open [OF pre xs] by metis
  note p = cmd_preD [OF pre] and el = elems_simps [OF p(4,1)]
  note l = list_reprD [OF md(2) p(9)]
  let ?ys = "if is_left then x # xs else xs @ [x]"
  let ?h = "if is_left then md_head md - 1 else md_head md" and ?i = "if is_left then md_head md - 1 else md_tail md"
  let ?md = "md\<lparr>md_size := of_nat (length ?ys), md_head := ?h, md_tail := ?h + of_nat (length ?ys)\<rparr>"
  let ?ek = "element_key R k (md_version md) (put_u64 R ?i)" and ?m = "kv E st"
  let ?xs = "[BPut k (Metadate_encode E R ?md), BPut ?ek x]"
  have log: "loggable k (Metadate_encode E R ?md)" "loggable ?ek x"
    using loggable_meta [OF p(4,1,8,7)] loggable_element [OF p(4) _ p(7), of "put_u64 R ?i" x] p(8) x(2)
      redis_okD(1) [OF p(4)] by simp_all
  have old: "elems R ?m k (md_version md) (put_u64 R (md_head md + of_nat i)) = Some (xs ! i)" if "i < length xs" for i
    using md(2) that by (simp add: list_repr_def)
  have new: "elems R (fold apply_op ?xs ?m) k (md_version md) (put_u64 R (?h + of_nat i)) = Some (?ys ! i)"
    if i: "i < length ?ys" for i
  proof (cases is_left)
    case True
    have idx: "md_head md - 1 + of_nat i = md_head md - 1 \<longleftrightarrow> i = 0"
      using l(2) i p(9) True by (auto simp: word_of_nat_eq_0_iff unat_of_nat dest!: nat_dvd_not_less)
    show ?thesis
    proof (cases i)
      case 0
      then show ?thesis using True by (simp add: el)
    next
      case (Suc j)
      then have "md_head md - 1 + of_nat i = md_head md + of_nat j" by simp
      then show ?thesis using old [of j] i idx Suc True by (simp add: el put_u64_inject [OF p(4)])
    qed
  next
    case False
    show ?thesis
    proof (cases "i = length xs")
      case True
      then show ?thesis using False l(8) by (simp add: el)
    next
      case neq: False
      then have "i < length xs" using i False by simp
      moreover from this have "unat (md_head md + of_nat i) \<noteq> unat (md_tail md)" using l(9) l(10) [of i] by simp
      then have "md_head md + of_nat i \<noteq> md_tail md" by auto
      ultimately show ?thesis using old [of i] False by (simp add: el put_u64_inject [OF p(4)] nth_append)
    qed
  qed
  have rng: "2 ^ 63 \<le> unat (md_head md) + Suc n" "unat (md_head md) + length xs < 2 ^ 63 + n" "\<forall>y \<in> set xs. utf8_valid y"
    using md(2) by (simp_all add: list_repr_def)
  have "key_repr E R M (fold apply_op ?xs ?m) k now' (Suc n) (Some (ListVal ?ys))"
    by (rule key_repr_list [OF md(2) _ _ refl _ _ _ new]) (use l(2,5,6) rng x(1) el(1,2) in auto)
  from batch_refines [OF pre _ _ _ _ _ this, of k "Metadate_encode E R ?md" OCount "of_nat (Suc (length xs))"]
  have b: "refines E R K M now' (Suc n) r
    (map_prod OCount id (in_batch (\<lambda>ws. and_then (wb_fill E ?xs ws) (\<lambda>_ ws. and_then (wb_commit E ws) (\<lambda>_ ws. (Ok (of_nat (Suc (length xs))), ws)))) st))
    (OCount (Ok (of_nat (Suc (length xs)))), S(k \<mapsto> ListVal ?ys))"
    using log l(3) by auto
  have md_eq: "?md = (if is_left then md\<lparr>md_size := of_nat (Suc (length xs)), md_head := md_head md - 1\<rparr>
      else md\<lparr>md_size := of_nat (Suc (length xs)), md_tail := md_tail md + 1\<rparr>)"
    using l(8) by (cases md) (simp add: algebra_simps)
  have "push_inner E R t k x is_left st =
    in_batch (\<lambda>ws. and_then (wb_fill E ?xs ws) (\<lambda>_ ws. and_then (wb_commit E ws) (\<lambda>_ ws. (Ok (of_nat (Suc (length xs))), ws)))) st"
    unfolding md_eq using size_step(1) [OF l(1) p(9)] l(4,7)
    by (cases is_left) (simp_all add: push_inner_def md(1) Let_def encode_element_key and_then_assoc)
  then show ?thesis using b by simp
qed

lemma pop_refines:
  assumes pre: "cmd_pre E R K M now n now' r t k st S" and xs: "as_list (S k) = Ok xs"
  shows "refines E R K M now' (Suc n) r (map_prod OStr id (pop_inner E R t k is_left st))
    (if xs = [] then (OStr (Ok None), S)
     else (OStr (Ok (Some (if is_left then hd xs else last xs))),
           S(k \<mapsto> ListVal (if is_left then tl xs else butlast xs))))"
proof -
  obtain md where md: "find_metadata E R t k List st = Ok md" "list_repr R (kv E st) k now' n md xs"
    using list_open [OF pre xs] by metis
  note p = cmd_preD [OF pre] and el = elems_simps [OF p(4,1)]
  note l = list_reprD [OF md(2) p(9)]
  have size0: "md_size md = 0 \<longleftrightarrow> xs = []" using size_step(3) [OF l(1) p(9)] by simp
  show ?thesis
  proof (cases "xs = []")
    case True
    then show ?thesis using size0 by (simp add: pop_inner_def md(1) refines_unchanged [OF pre])
  next
    case False
    let ?ys = "if is_left then tl xs else butlast xs" and ?e = "if is_left then hd xs else last xs"
    let ?h = "if is_left then md_head md + 1 else md_head md"
    let ?md = "md\<lparr>md_size := of_nat (length ?ys), md_head := ?h, md_tail := ?h + of_nat (length ?ys)\<rparr>"
    have len: "length xs = Suc (length ?ys)" "length ?ys = length xs - 1" using False by simp_all
    have old: "elems R (kv E st) k (md_version md) (put_u64 R (md_head md + of_nat i)) = Some (xs ! i)" if "i < length xs" for i
      using md(2) that by (simp add: list_repr_def)
    have rng: "2 ^ 63 \<le> unat (md_head md) + Suc n" "unat (md_head md) + length xs < 2 ^ 63 + n" "\<forall>y \<in> set xs. utf8_valid y"
      using md(2) by (simp_all add: list_repr_def)
    have e: "?e \<in> set xs" using False by simp
    have tail1: "md_tail md - 1 = md_head md + of_nat (length xs - 1)"
      using False by (simp add: l(8) of_nat_diff Suc_le_eq)
    have tail_pos: "sub_u64 (md_tail md) 1 = Ok (md_tail md - 1)"
      using l(6,9) by (simp add: sub_u64_def word_le_nat_alt)
    have get: "get E (element_key R k (md_version md) (put_u64 R (if is_left then md_head md else md_tail md - 1))) st = Ok ?e"
      using old [of 0] old [of "length xs - 1"] False
      by (auto simp: pre_get_element [OF pre] tail1 hd_conv_nth last_conv_nth)
    have new: "elems R ((kv E st)(k \<mapsto> Metadate_encode E R ?md)) k (md_version md) (put_u64 R (?h + of_nat i)) = Some (?ys ! i)"
      if i: "i < length ?ys" for i
    proof (cases is_left)
      case True
      have "md_head md + 1 + of_nat i = md_head md + of_nat (Suc i)" by simp
      then show ?thesis using old [of "Suc i"] i True by (simp add: el nth_tl less_diff_conv add.assoc)
    next
      case left: False
      then show ?thesis using old [of i] i by (simp add: el nth_butlast)
    qed
    have h1: "unat (md_head md + 1) = unat (md_head md) + 1" using l(10) [of 1] False by (simp add: Suc_le_eq)
    have ys: "set ?ys \<subseteq> set xs" by (auto dest: in_set_butlastD list.set_sel(2) [OF False])
    have "key_repr E R M ((kv E st)(k \<mapsto> Metadate_encode E R ?md)) k now' (Suc n) (Some (ListVal ?ys))"
    proof (rule key_repr_list [OF md(2) _ _ refl _ _ _ new])
      show "length ?ys \<le> Suc n" using len(2) l(2) by simp
      show "\<forall>y \<in> set ?ys. utf8_valid y" using rng(3) ys by blast
      show "2 ^ 63 \<le> unat ?h + Suc (Suc n)" using rng(1) h1 by simp
      show "unat ?h + length ?ys < 2 ^ 63 + Suc n" using rng(2) h1 False by (cases xs) (simp_all split: if_split)
    qed simp_all
    moreover have "length (Metadate_encode E R ?md) < 2 ^ 32" using length_Metadate_encode [OF p(1,4)] by simp
    ultimately obtain st' where st': "put E k (Metadate_encode E R ?md) st = (Ok (), st')"
      "refines E R K M now' (Suc n) r (OStr (Ok (Some ?e)), st') (OStr (Ok (Some ?e)), S(k \<mapsto> ListVal ?ys))"
      using put_refines [OF pre] by metis
    have md_eq: "?md = (if is_left then md\<lparr>md_size := of_nat (length xs - 1), md_head := md_head md + 1\<rparr>
        else md\<lparr>md_size := of_nat (length xs - 1), md_tail := md_tail md - 1\<rparr>)"
      using tail1 by (cases md; cases is_left) (simp_all add: l(8) of_nat_diff Suc_le_eq False)
    have "add_u64 (md_head md) 1 = Ok (md_head md + 1)"
      using rng(2) p(9) add_u64_of_nat(1) [of "md_head md" 1] by simp
    then have "pop_inner E R t k is_left st = (Ok (Some ?e), st')"
      using st'(1) get size0 False size_step(2) [OF l(1) p(9)] tail_pos rng(3) e unfolding md_eq
      by (cases is_left) (simp_all add: pop_inner_def md(1) Let_def encode_element_key)
    then show ?thesis using st'(2) False by simp
  qed
qed

lemma list_cmd_other:
  assumes pre: "cmd_pre E R K M now n now' r t k st S" and "as_list (S k) = Err e"
  shows "push_inner E R t k x is_left st = (Err e, st)" and "pop_inner E R t k is_left st = (Err e, st)"
  using list_other [OF assms] by (simp_all add: push_inner_def pop_inner_def)

lemma list_cmd_refines:
  assumes pre: "cmd_pre E R K M now n now' r t k st S"
  shows "utf8_valid x \<Longrightarrow> length x < 2 ^ 29 \<Longrightarrow>
      refines E R K M now' (Suc n) r (redis_step E R t (CLPush k x) st) (redis_spec t (CLPush k x) S)"
    and "utf8_valid x \<Longrightarrow> length x < 2 ^ 29 \<Longrightarrow>
      refines E R K M now' (Suc n) r (redis_step E R t (CRPush k x) st) (redis_spec t (CRPush k x) S)"
    and "refines E R K M now' (Suc n) r (redis_step E R t (CLPop k) st) (redis_spec t (CLPop k) S)"
    and "refines E R K M now' (Suc n) r (redis_step E R t (CRPop k) st) (redis_spec t (CRPop k) S)"
proof -
  note d = lpush_def rpush_def lpop_def rpop_def
  note other = list_cmd_other [OF pre] refines_unchanged [OF pre]
  note left = push_refines [OF pre, where is_left = True] pop_refines [OF pre, where is_left = True]
  note right = push_refines [OF pre, where is_left = False] pop_refines [OF pre, where is_left = False]
  show "refines E R K M now' (Suc n) r (redis_step E R t (CLPush k x) st) (redis_spec t (CLPush k x) S)"
    if "utf8_valid x" "length x < 2 ^ 29"
    using left(1) [OF that] by (cases "as_list (S k)") (simp_all add: d other)
  show "refines E R K M now' (Suc n) r (redis_step E R t (CRPush k x) st) (redis_spec t (CRPush k x) S)"
    if "utf8_valid x" "length x < 2 ^ 29"
    using right(1) [OF that] by (cases "as_list (S k)") (simp_all add: d other)
  show "refines E R K M now' (Suc n) r (redis_step E R t (CLPop k) st) (redis_spec t (CLPop k) S)"
  proof (cases "as_list (S k)")
    case (Ok xs)
    then show ?thesis using left(2) [OF Ok] by (cases "xs = []") (simp_all add: d)
  qed (simp_all add: d other)
  show "refines E R K M now' (Suc n) r (redis_step E R t (CRPop k) st) (redis_spec t (CRPop k) S)"
  proof (cases "as_list (S k)")
    case (Ok xs)
    then show ?thesis using right(2) [OF Ok] by (cases "xs = []") (simp_all add: d)
  qed (simp_all add: d other)
qed

end
