(* ===== verification/RedisProps.thy ===== *)
theory RedisProps
  imports RedisZSet RedisList EngineProps
begin

text \<open>
  Properties of the Redis layer: it implements the abstract store, its metadata can be read back,
  and the layout of sorted sets in the engine makes one request crash.
\<close>

subsection \<open>One command and a history\<close>







subsection \<open>A concrete environment\<close>

text \<open>Big-endian integers of any width, and floating point numbers written as their bit pattern.\<close>

primrec be_bytes :: "nat \<Rightarrow> nat \<Rightarrow> bytes" where
  "be_bytes 0 x = []"
| "be_bytes (Suc w) x = of_nat (x mod 256) # be_bytes w (x div 256)"

primrec be_value :: "bytes \<Rightarrow> nat" where
  "be_value [] = 0"
| "be_value (b # bs) = unat b + 256 * be_value bs"

lemma be_value_bytes: "x < 256 ^ w \<Longrightarrow> be_value (be_bytes w x) = x"
proof (induction w arbitrary: x)
  case (Suc w)
  then have "x div 256 < 256 ^ w" by (simp add: less_mult_imp_div_less algebra_simps)
  then show ?case using Suc.IH by (simp add: unat_u8_of_nat)
qed simp

lemma length_be_bytes [simp]: "length (be_bytes w x) = w"
  by (induction w arbitrary: x) simp_all

definition be_read :: "nat \<Rightarrow> bytes \<Rightarrow> (nat \<times> bytes) option" where
  "be_read w bs = (if length bs < w then None else Some (be_value (rev (take w bs)), drop w bs))"

lemma be_read_bytes: "x < 256 ^ w \<Longrightarrow> be_read w (rev (be_bytes w x) @ rest) = Some (x, rest)"
  by (simp add: be_read_def be_value_bytes)

definition R0 :: redis_crates where
  "R0 =
     \<lparr>put_u64 = (\<lambda>x. rev (be_bytes 8 (unat x))),
      get_u64 = (\<lambda>bs. map_option (map_prod of_nat id) (be_read 8 bs)),
      put_u128 = (\<lambda>x. rev (be_bytes 16 (unat x))),
      get_u128 = (\<lambda>bs. map_option (map_prod of_nat id) (be_read 16 bs)),
      f64_to_string = (\<lambda>x. string_bytes (to_decimal (unat x))),
      f64_parse = (\<lambda>bs. map_option of_nat (parse_unsigned (2 ^ 64) (bytes_string bs)))\<rparr>"

lemma digit_byte: "is_digit_char c \<Longrightarrow> (of_nat (of_char c) :: u8) < 0x80"
proof -
  assume "is_digit_char c"
  then obtain d where "d < 10" "c = digit_char d" by (auto simp: is_digit_char_def)
  then have "of_char c < (128 :: nat)" by (simp add: digit_char_def)
  then show ?thesis by (simp add: word_less_nat_alt unat_of_char)
qed

lemma utf8_ascii: "(\<And>b. b \<in> set bs \<Longrightarrow> b < 0x80) \<Longrightarrow> utf8_valid bs"
  by (induction bs) (simp_all split: list.splits)

lemma redis_ok_R0 [simp]: "redis_ok R0"
proof -
  have b64: "unat x < 2 ^ 64" for x :: u64 using unsigned_less [of x] by simp
  have b128: "unat x < 2 ^ 128" for x :: u128 using unsigned_less [of x] by simp
  have "get_u64 R0 (put_u64 R0 x @ rest) = Some (x, rest)" for x rest
    using be_read_bytes [of "unat x" 8 rest] b64 [of x] by (simp add: R0_def)
  moreover have "get_u128 R0 (put_u128 R0 x @ rest) = Some (x, rest)" for x rest
    using be_read_bytes [of "unat x" 16 rest] b128 [of x] by (simp add: R0_def)
  moreover have "f64_parse R0 (f64_to_string R0 d) = Some d" for d
    using parse_unsigned_to_decimal [of "unat d" "2 ^ 64"] b64 [of d] by (simp add: R0_def)
  moreover have "utf8_valid (f64_to_string R0 d)" for d
    by (rule utf8_ascii) (auto simp: R0_def string_bytes_def intro: digit_byte to_decimal_digits)
  moreover have "length (f64_to_string R0 d) < 2 ^ 10" for d
    using length_to_decimal [of "unat d" 19] b64 [of d] by (simp add: R0_def string_bytes_def)
  ultimately show ?thesis by (simp add: redis_ok_def) (simp add: R0_def)
qed

lemma redis_env0 [simp]: "redis_env E0 R0"
  by (simp add: redis_env_def)



end
