(* ===== verification/RedisTypes.thy ===== *)
theory RedisTypes
  imports RedisProps
begin















end
