(* ===== verification/RedisDefects.thy ===== *)
theory RedisDefects
  imports RedisProps
begin

text \<open>
  Round trips of the Redis layer, and the request that its layout of sorted sets makes panic.
\<close>

text \<open>Metadata is read back as it was stored: the type tag first (which \<open>key_type\<close> and the check of
  the type use), then expiry, version and size, and for a list its head and tail; the metadata of the
  other types keeps no head and tail.\<close>

lemma metadata_round_trip:
  assumes "crates_ok C" "redis_ok R"
  shows "decode_metadata C R (Metadate_encode C R m) =
      Ok (if md_data_type m = List then m else m\<lparr>md_head := 0, md_tail := 0\<rparr>) \<and>
    RedisDataType_from (Metadate_encode C R m ! 0) = Ok (md_data_type m) \<and>
    length (Metadate_encode C R m) = (if md_data_type m = List then 53 else 37)"
  using decode_encode_metadata [OF assms, of m] length_Metadate_encode [OF assms, of m]
  by (simp add: stored_meta_def) (simp add: Metadate_encode_def)

lemma metadata_round_trip_witness:
  "decode_metadata E0 R0 (Metadate_encode E0 R0 (new_metadata List 7)) =
      Ok (if md_data_type (new_metadata List 7) = List then new_metadata List 7
          else (new_metadata List 7)\<lparr>md_head := 0, md_tail := 0\<rparr>) \<and>
    RedisDataType_from (Metadate_encode E0 R0 (new_metadata List 7) ! 0) = Ok (md_data_type (new_metadata List 7)) \<and>
    length (Metadate_encode E0 R0 (new_metadata List 7)) =
      (if md_data_type (new_metadata List 7) = List then 53 else 37)"
  by (rule metadata_round_trip) simp_all

text \<open>C40: A client can make the service panic: after \<open>zadd k d x\<close> on a new key, asking for the score of the
  member that is spelled like the internal entry of the score (the score, \<open>x\<close> and the four bytes of
  its length) finds that entry, which is empty, and fails to parse it.\<close>

theorem zscore_panics:
  assumes env: "redis_env E R" and ready: "ready E 2 st" "kv E st = Map.empty"
    and k: "k \<noteq> []" "length k < 2 ^ 28" and x: "length x < 2 ^ 27" "\<not> f64_is_nan d"
    and clock: "0 \<le> fst t" "0 \<le> snd t" "0 \<le> fst t'" "snd t < snd t'" "snd t' < 2 ^ 100"
    and parse: "f64_parse R [] = None"
  shows "\<exists>st1. zadd E R t k d x st = (Ok True, st1) \<and>
    zscore E R t' k (f64_to_string R d @ x @ put_u32 E (of_nat (length x))) st1 = Panic"
proof -
  have "ready E (Suc 1) st" using ready(1) by (simp add: numeral_2_eq_2)
  moreover have now: "int (nat (snd t) + 1) = snd t + 1" "nat (snd t) + 1 \<le> 2 ^ 100"
    using clock by simp_all
  ultimately have pre: "cmd_pre E R {k} {x} 0 0 (nat (snd t) + 1) 1 t k st Map.empty"
    using env ready(2) k clock
    by (simp add: cmd_pre_def prefix_free_def store_repr_def fresh_def elems_def key_repr_def)
  note p = cmd_preD [OF pre]
  have len: "length (score_suffix E R d x) < 2 ^ 28"
    using x(1) redis_okD(7) [OF p(4), of d] length_put_u32 [OF p(1), of "of_nat (length x)"] by simp
  have "plain_members E R {x}"
    using length_put_u32 [OF p(1), of "of_nat (length x)"] by (auto simp: plain_members_def dest: arg_cong [of _ _ length])
  note plain = plain_membersD [OF this, of x x]
  let ?md0 = "new_metadata ZSet (of_int (snd t))"
  let ?md = "?md0\<lparr>md_size := 1\<rparr>" and ?mk = "element_key R k (md_version ?md0) x"
    and ?sk = "element_key R k (md_version ?md0) (score_suffix E R d x)"
  let ?xs = "[BPut k (Metadate_encode E R ?md), BPut ?mk (f64_to_string R d), BPut ?sk []]"
  have get: "get E ?mk st = Err KeyNotFound"
    using pre_get_element [OF pre] by (simp add: elems_def ready(2))
  have log: "loggable k (Metadate_encode E R ?md)" "loggable ?mk (f64_to_string R d)" "loggable ?sk []"
    using loggable_meta [OF p(4,1,8,7)] loggable_element [OF p(4) _ p(7), of x "f64_to_string R d"]
      loggable_element [OF p(4) _ p(7), of "score_suffix E R d x" "[]"] len x(1) k(2) redis_okD(7) [OF p(4), of d]
    by simp_all
  have zadd: "zadd E R t k d x st =
      in_batch (\<lambda>ws. and_then (wb_fill E ?xs ws) (\<lambda>_ ws. and_then (wb_commit E ws) (\<lambda>_ ws. (Ok True, ws)))) st"
    using get find_new [OF pre]
    by (simp add: zadd_def Let_def encode_element_key and_then_assoc add_u32_def) (simp add: new_metadata_def)
  obtain st1 where st1: "zadd E R t k d x st = (Ok True, st1)" "ready E 1 st1" "kv E st1 = fold apply_op ?xs (kv E st)"
    unfolding zadd by (rule in_batch_ok [OF p(1-3,10), of ?xs ?mk "f64_to_string R d" "Ok True"]) (use log in simp_all)
  have kv1: "kv E st1 k = Some (Metadate_encode E R ?md)" "kv E st1 ?sk = Some []"
    using elems_simps(1,2) [OF p(4,1)] by (simp_all add: st1(3))
  have "store_repr E R {k} {x} (kv E st1) (nat (snd t) + 1) 1 (Map.empty(k \<mapsto> ZSetVal [x \<mapsto> d]))"
    using zadd_refines [OF pre _ x(1,2)] st1(1) \<open>plain_members E R {x}\<close> by (simp add: refines_def)
  then have pre1: "cmd_pre E R {k} {x} (nat (snd t) + 1) 1 (2 ^ 100) 0 t' k st1 (Map.empty(k \<mapsto> ZSetVal [x \<mapsto> d]))"
    using env st1(2) k clock now(1) by (simp add: cmd_pre_def prefix_free_def)
  have "find_metadata E R t' k ZSet st1 = Ok ?md"
    by (rule find_old [OF pre1 kv1(1)]) (simp_all add: new_metadata_def)
  moreover have "get E ?sk st1 = Ok []"
    using pre_get_element [OF pre1] kv1(2) by (simp add: elems_def)
  ultimately have "zscore E R t' k (score_suffix E R d x) st1 = Panic"
    by (simp add: zscore_def encode_element_key parse)
  then show ?thesis using st1(1) by auto
qed

lemma zscore_panics_witness:
  "utf8_valid [49, 97, 0, 0, 0, 1] \<and>
   f64_to_string R0 1 @ [97] @ put_u32 E0 (of_nat (length [97 :: u8])) = [49, 97, 0, 0, 0, 1] \<and>
   (\<exists>st1. zadd E0 R0 (0, 1) [107] 1 [97] st0 = (Ok True, st1) \<and>
      zscore E0 R0 (0, 2) [107] (f64_to_string R0 1 @ [97] @ put_u32 E0 (of_nat (length [97 :: u8]))) st1 = Panic)"
proof (intro conjI)
  show "utf8_valid [49, 97, 0, 0, 0, 1]" by simp
  show "f64_to_string R0 1 @ [97] @ put_u32 E0 (of_nat (length [97 :: u8])) = [49, 97, 0, 0, 0, 1]"
    by (simp add: R0_def string_bytes_def to_decimal.simps digit_char_def be_u32_def)
  show "\<exists>st1. zadd E0 R0 (0, 1) [107] 1 [97] st0 = (Ok True, st1) \<and>
      zscore E0 R0 (0, 2) [107] (f64_to_string R0 1 @ [97] @ put_u32 E0 (of_nat (length [97 :: u8]))) st1 = Panic"
  proof (rule zscore_panics)
    show "ready E0 2 st0" using engine_inv0 by (simp add: ready_def) (simp add: st0_def)
    show "f64_parse R0 [] = None" by (simp add: R0_def bytes_string_def parse_unsigned_def)
  qed (simp_all add: kv0 f64_is_nan_def)
qed

end
