(* ===== verification/RedisServer.thy ===== *)
theory RedisServer
  imports Redis
begin

text \<open>
  Model of \<^verbatim>\<open>redis/src/main.rs\<close>: the command handlers of the server.  A handler appends replies to its
  connection.  The data structure is behind a \<^verbatim>\<open>std::sync::Mutex\<close>, which a panic while it is held
  poisons: every later \<open>lock().unwrap()\<close> panics.
\<close>

primrec error_message :: "app_error \<Rightarrow> string" where
  "error_message FailedToReadFromDataFile = ''failed to read from data file''"
| "error_message FailedToWriteDataFile = ''failed to write data file''"
| "error_message FailedToSyncDataFile = ''failed to write data file''"
| "error_message FailedToOpenDataFile = ''failed to open data file''"
| "error_message KeyIsEmpty = ''the key is empty''"
| "error_message KeyNotFound = ''key is not found in database''"
| "error_message FileNotFound = ''file is not found in data file''"
| "error_message DataFileNotFound = ''data file not found in database''"
| "error_message DirPathIsEmpty = ''database dir can not be empty''"
| "error_message DataFileSizeTooSmall = ''database data file size must be greater than 0''"
| "error_message FailedToCreateDatabaseDir = ''failed to create the database directory''"
| "error_message FailedToReadDatabaseDir = ''failed to read the database directory''"
| "error_message FailedToDeleteDatabaseDir = ''failed to delete the database directory''"
| "error_message FailedToDeleteFile = ''failed to delete file''"
| "error_message FailedToRename = ''failed to rename''"
| "error_message FailedToGetMergeFile = ''failed to get merge file''"
| "error_message DataDirectoryCorrupted = ''the database directory maybe corrupted''"
| "error_message ReadDataFileEOF = ''read data file eof''"
| "error_message IndexUpdateFailed = ''index update failed''"
| "error_message InvalidPath = ''invalid path''"
| "error_message DecodeError = ''decode error''"
| "error_message EncodeError = ''decode error''"
| "error_message GetValueFailed = ''get value failed''"
| "error_message InvalidLogRecordCrc = ''invalid crc value, log record maybe corrupted''"
| "error_message IteratorNextError = ''iterator next error''"
| "error_message ExceedMaxBatchNum = ''exceed the max batch num''"
| "error_message MergeInProgress = ''merge is in progress, try again later''"
| "error_message ParseError = ''parse error''"
| "error_message UnableToUserWriteBatch = ''can not use write batch, seq file not exists''"
| "error_message DatabaseIsUsing = ''the database directory is used by another process''"
| "error_message FailedToUnlockFile = ''failed to unlock file''"
| "error_message InvalidMergeRatio = ''invalid merge ratio, must between 0 and 1''"
| "error_message MergeRatioUnreached = ''do not reach the merge ratio''"
| "error_message MergeNoEnoughSpace = ''disk space is not enough of merge''"
| "error_message FailedToCopyDir = ''failed to copy dir''"
| "error_message WrongTypeOperation = ''wrong operation against a key holding the wrong king of value''"

subsection \<open>Text\<close>

text \<open>
  \<open>String::from_utf8_lossy\<close>: well-formed sequences stay, a replacement character (\<open>EF BF BD\<close>) stands
  for each longest beginning of a sequence that is broken off.
\<close>

definition second_ok :: "u8 \<Rightarrow> u8 \<Rightarrow> bool" where
  "second_ok a b \<longleftrightarrow>
     utf8_cont b \<and> (a = 0xE0 \<longrightarrow> 0xA0 \<le> b) \<and> (a = 0xED \<longrightarrow> b \<le> 0x9F) \<and>
     (a = 0xF0 \<longrightarrow> 0x90 \<le> b) \<and> (a = 0xF4 \<longrightarrow> b \<le> 0x8F)"

abbreviation utf8_replacement :: str where "utf8_replacement \<equiv> [0xEF, 0xBF, 0xBD]"

fun utf8_lossy :: "bytes \<Rightarrow> str" where
  "utf8_lossy [] = []"
| "utf8_lossy (a # bs) =
     (if a < 0x80 then a # utf8_lossy bs
      else if \<not> (0xC2 \<le> a \<and> a \<le> 0xF4) then utf8_replacement @ utf8_lossy bs
      else case bs of
        [] \<Rightarrow> utf8_replacement @ utf8_lossy bs
      | b # cs \<Rightarrow>
          if \<not> second_ok a b then utf8_replacement @ utf8_lossy bs
          else if a \<le> 0xDF then a # b # utf8_lossy cs
          else case cs of
            [] \<Rightarrow> utf8_replacement @ utf8_lossy cs
          | c # ds \<Rightarrow>
              if \<not> utf8_cont c then utf8_replacement @ utf8_lossy cs
              else if a \<le> 0xEF then a # b # c # utf8_lossy ds
              else case ds of
                [] \<Rightarrow> utf8_replacement @ utf8_lossy ds
              | d # es \<Rightarrow>
                  if \<not> utf8_cont d then utf8_replacement @ utf8_lossy ds else a # b # c # d # utf8_lossy es)"

text \<open>
  \<open>to_lowercase\<close> on the letters of ASCII; no other character has a letter of a command name as its
  lower case.
\<close>

definition to_lowercase :: "str \<Rightarrow> str" where
  "to_lowercase s = map (\<lambda>b. if 0x41 \<le> b \<and> b \<le> 0x5A then b + 0x20 else b) s"

subsection \<open>The state of the server\<close>

datatype reply = WriteError str | WriteString str | WriteInteger int

type_synonym conn = "reply list"

record ('s, 'b) mutex_rds =
  rds_st :: "('s, 'b) st"
  poisoned :: bool

text \<open>\<open>rds.lock().unwrap()\<close>, then the rest of the handler, which gives the replies it writes.\<close>

definition with_lock ::
  "(('s, 'b) st \<Rightarrow> reply list res \<times> ('s, 'b) st) \<Rightarrow> conn \<times> ('s, 'b) mutex_rds \<Rightarrow>
   unit res \<times> conn \<times> ('s, 'b) mutex_rds" where
  "with_lock body s =
     (case s of (conn, rds) \<Rightarrow>
        if poisoned rds then (Panic, conn, rds)
        else case body (rds_st rds) of
          (Ok out, st) \<Rightarrow> (Ok (), conn @ out, rds\<lparr>rds_st := st\<rparr>)
        | (Err x, st) \<Rightarrow> (Err x, conn, rds\<lparr>rds_st := st\<rparr>)
        | (Panic, st) \<Rightarrow> (Panic, conn, rds\<lparr>rds_st := st, poisoned := True\<rparr>))"

definition err_reply :: "app_error \<Rightarrow> reply" where
  "err_reply e = WriteError (string_bytes (error_message e))"

definition wrong_args ::
  "conn \<times> ('s, 'b) mutex_rds \<Rightarrow> unit res \<times> conn \<times> ('s, 'b) mutex_rds" where
  "wrong_args s =
     (case s of (conn, rds) \<Rightarrow>
        (Ok (), conn @ [WriteError (string_bytes ''Err wrong number of arguments'')], rds))"

text \<open>The two arms \<open>Ok(val) => conn.write_integer(val as i64)\<close> and \<open>Err(e) => conn.write_error(..)\<close>.\<close>

definition integer_reply :: "('a \<Rightarrow> int) \<Rightarrow> 'a res \<times> 'st \<Rightarrow> reply list res \<times> 'st" where
  "integer_reply f r =
     (case r of
        (Ok a, st) \<Rightarrow> (Ok [WriteInteger (f a)], st)
      | (Err e, st) \<Rightarrow> (Ok [err_reply e], st)
      | (Panic, st) \<Rightarrow> (Panic, st))"

subsection \<open>The handlers\<close>

definition cmd_set where
  "cmd_set E R now args s =
     (if length args \<noteq> 3 then wrong_args s
      else with_lock (\<lambda>st.
        case redis_set E R now (utf8_lossy (args ! 1)) (utf8_lossy (args ! 2)) 0 st of
          (Ok _, st) \<Rightarrow> (Ok [WriteString (string_bytes ''OK'')], st)
        | (Err e, st) \<Rightarrow> (Ok [err_reply e, WriteString (string_bytes ''OK'')], st)
        | (Panic, st) \<Rightarrow> (Panic, st)) s)"

definition cmd_get where
  "cmd_get E R now args s =
     (if length args \<noteq> 2 then wrong_args s
      else with_lock (\<lambda>st.
        (case redis_get E R now (utf8_lossy (args ! 1)) st of
           Ok val \<Rightarrow> res_map (\<lambda>v. [WriteString v]) (expect val)
         | Err e \<Rightarrow> Ok [err_reply e]
         | Panic \<Rightarrow> Panic, st)) s)"

definition cmd_hset where
  "cmd_hset E R now args s =
     (if length args \<noteq> 4 then wrong_args s
      else with_lock (\<lambda>st. integer_reply of_bool
        (hset E R now (utf8_lossy (args ! 1)) (utf8_lossy (args ! 2)) (utf8_lossy (args ! 3)) st)) s)"

definition cmd_sadd where
  "cmd_sadd E R now args s =
     (if length args \<noteq> 3 then wrong_args s
      else with_lock (\<lambda>st. integer_reply of_bool
        (sadd E R now (utf8_lossy (args ! 1)) (utf8_lossy (args ! 2)) st)) s)"

definition cmd_lpush where
  "cmd_lpush E R now args s =
     (if length args \<noteq> 3 then wrong_args s
      else with_lock (\<lambda>st. integer_reply uint
        (lpush E R now (utf8_lossy (args ! 1)) (utf8_lossy (args ! 2)) st)) s)"

definition cmd_rpush where
  "cmd_rpush E R now args s =
     (if length args \<noteq> 3 then wrong_args s
      else with_lock (\<lambda>st. integer_reply uint
        (rpush E R now (utf8_lossy (args ! 1)) (utf8_lossy (args ! 2)) st)) s)"

definition cmd_zadd where
  "cmd_zadd E R now args s =
     (if length args \<noteq> 4 then wrong_args s
      else with_lock (\<lambda>st.
        case f64_parse R (utf8_lossy (args ! 2)) of
          None \<Rightarrow> (Panic, st)
        | Some score \<Rightarrow> integer_reply of_bool
            (zadd E R now (utf8_lossy (args ! 1)) score (utf8_lossy (args ! 3)) st)) s)"

text \<open>The command callback: \<open>args[0]\<close>, in any case of letters, selects the handler.\<close>

definition server_command ::
  "('s, 'b) env \<Rightarrow> redis_crates \<Rightarrow> readings \<Rightarrow> bytes list \<Rightarrow> conn \<times> ('s, 'b) mutex_rds \<Rightarrow>
   unit res \<times> conn \<times> ('s, 'b) mutex_rds" where
  "server_command E R now args s =
     (if args = [] then (Panic, s)
      else
        let name = to_lowercase (utf8_lossy (args ! 0)) in
        if name = string_bytes ''set'' then cmd_set E R now args s
        else if name = string_bytes ''get'' then cmd_get E R now args s
        else if name = string_bytes ''hset'' then cmd_hset E R now args s
        else if name = string_bytes ''sadd'' then cmd_sadd E R now args s
        else if name = string_bytes ''lpush'' then cmd_lpush E R now args s
        else if name = string_bytes ''rpush'' then cmd_rpush E R now args s
        else if name = string_bytes ''zadd'' then cmd_zadd E R now args s
        else (case s of (conn, rds) \<Rightarrow>
                (Ok (), conn @ [WriteError (string_bytes ''Err unknown command'')], rds)))"

end
