(* ===== verification/RedisServerProps.thy ===== *)
theory RedisServerProps
  imports RedisServer RedisProps
begin

text \<open>
  The Redis server of \<^verbatim>\<open>redis/src/main.rs\<close> as a whole: the commands it makes of the arguments it gets,
  its replies against the abstract store, and what a panic does to it.
\<close>

subsection \<open>Lossy text is text\<close>





subsection \<open>The commands of the server\<close>

text \<open>A request that is refused with a message, one that panics before its command, or a command.\<close>

datatype server_call = Refused string | BadScore | Call redis_cmd

definition call_of :: "nat \<Rightarrow> bytes list \<Rightarrow> server_call \<Rightarrow> server_call" where
  "call_of n args c = (if length args \<noteq> n then Refused ''Err wrong number of arguments'' else c)"

definition parse_call :: "redis_crates \<Rightarrow> bytes list \<Rightarrow> server_call" where
  "parse_call R args =
     (let name = to_lowercase (utf8_lossy (args ! 0));
          arg = (\<lambda>i. utf8_lossy (args ! i))
      in if name = string_bytes ''set'' then call_of 3 args (Call (CSet (arg 1) (arg 2) 0))
         else if name = string_bytes ''get'' then call_of 2 args (Call (CGet (arg 1)))
         else if name = string_bytes ''hset'' then call_of 4 args (Call (CHSet (arg 1) (arg 2) (arg 3)))
         else if name = string_bytes ''sadd'' then call_of 3 args (Call (CSAdd (arg 1) (arg 2)))
         else if name = string_bytes ''lpush'' then call_of 3 args (Call (CLPush (arg 1) (arg 2)))
         else if name = string_bytes ''rpush'' then call_of 3 args (Call (CRPush (arg 1) (arg 2)))
         else if name = string_bytes ''zadd'' then
           call_of 4 args (case f64_parse R (arg 2) of None \<Rightarrow> BadScore | Some s \<Rightarrow> Call (CZAdd (arg 1) s (arg 3)))
         else Refused ''Err unknown command'')"

text \<open>The replies to the result of a command.  A string that has expired makes the handler panic.\<close>

fun server_replies :: "redis_out \<Rightarrow> reply list res" where
  "server_replies (OUnit (Ok _)) = Ok [WriteString (string_bytes ''OK'')]"
| "server_replies (OUnit (Err e)) = Ok [err_reply e, WriteString (string_bytes ''OK'')]"
| "server_replies (OStr (Ok (Some v))) = Ok [WriteString v]"
| "server_replies (OStr (Err e)) = Ok [err_reply e]"
| "server_replies (OBool (Ok b)) = Ok [WriteInteger (of_bool b)]"
| "server_replies (OBool (Err e)) = Ok [err_reply e]"
| "server_replies (OCount (Ok n)) = Ok [WriteInteger (uint n)]"
| "server_replies (OCount (Err e)) = Ok [err_reply e]"
| "server_replies _ = Panic"

lemma integer_reply_bool:
  "integer_reply of_bool r = (server_replies (OBool (fst r)), snd r)"
  by (auto simp: integer_reply_def split: prod.split res.split)

lemma integer_reply_count:
  "integer_reply uint r = (server_replies (OCount (fst r)), snd r)"
  by (auto simp: integer_reply_def split: prod.split res.split)

text \<open>The command callback in one equation.\<close>

lemma server_command_call:
  fixes E :: "('a, 'b) env"
  assumes "args \<noteq> []"
  shows "server_command E R now args (conn, rds) =
    (case parse_call R args of
       Refused msg \<Rightarrow> (Ok (), conn @ [WriteError (string_bytes msg)], rds)
     | BadScore \<Rightarrow> with_lock (\<lambda>st. (Panic, st)) (conn, rds)
     | Call c \<Rightarrow> with_lock (\<lambda>st. case redis_step E R now c st of (out, st') \<Rightarrow> (server_replies out, st')) (conn, rds))"
proof -
  have set: "(case fst r of
       Ok _ \<Rightarrow> (Ok [WriteString (string_bytes ''OK'')], snd r)
     | Err e \<Rightarrow> (Ok [err_reply e, WriteString (string_bytes ''OK'')], snd r)
     | Panic \<Rightarrow> (Panic, snd r)) = (server_replies (OUnit (fst r)), snd r)" for r :: "unit res \<times> ('a, 'b) st"
    by (cases "fst r") simp_all
  have get: "(case redis_get E R now k st of
       Ok val \<Rightarrow> res_map (\<lambda>v. [WriteString v]) (expect val)
     | Err e \<Rightarrow> Ok [err_reply e]
     | Panic \<Rightarrow> Panic) = server_replies (OStr (redis_get E R now k st))" for k st
  proof (cases "redis_get E R now k st")
    case (Ok val)
    then show ?thesis by (cases val) simp_all
  qed simp_all
  note defs = cmd_set_def cmd_get_def cmd_hset_def cmd_sadd_def cmd_lpush_def cmd_rpush_def cmd_zadd_def
  show ?thesis
    using assms
    by (simp add: server_command_def parse_call_def Let_def call_of_def wrong_args_def set get defs
        integer_reply_bool integer_reply_count map_prod_def case_prod_unfold split: option.split)
qed

subsection \<open>The specification\<close>










subsection \<open>The simulation\<close>





subsection \<open>Properties\<close>



lemma not_a_number: "f64_parse R0 [120] = None"
proof -
  have "char_of (120 :: nat) \<noteq> CHR ''+''" "char_digit (char_of (120 :: nat)) = None"
    by (simp_all add: char_of_eq_iff char_digit_def)
  then show ?thesis by (simp add: R0_def bytes_string_def parse_unsigned_def)
qed



text \<open>One request can shut the server down: a \<open>ZADD\<close> whose score is not a number panics with the
  mutex locked, and after that every command of every client panics.\<close>

lemma bad_score_kills_server:
  assumes "to_lowercase (utf8_lossy (args ! 0)) = string_bytes ''zadd''" "length args = 4"
    and "f64_parse R (utf8_lossy (args ! 2)) = None"
  shows "\<exists>rds'. server_command E R now args (conn, rds) = (Panic, conn, rds') \<and> rds_st rds' = rds_st rds \<and>
    (\<forall>now' args' conn' c. args' \<noteq> [] \<longrightarrow> parse_call R args' = Call c \<longrightarrow>
       server_command E R now' args' (conn', rds') = (Panic, conn', rds'))"
proof -
  have "args \<noteq> []" "parse_call R args = BadScore"
    using assms by (auto simp: parse_call_def call_of_def string_bytes_def)
  then have "\<exists>rds'. server_command E R now args (conn, rds) = (Panic, conn, rds') \<and> rds_st rds' = rds_st rds \<and>
      poisoned rds'" by (simp add: server_command_call with_lock_def)
  then show ?thesis by (auto simp: server_command_call with_lock_def)
qed

lemma bad_score_kills_server_witness:
  "\<exists>rds'. server_command E0 R0 (0, 1) [string_bytes ''ZADD'', [107], [120], [109]] ([], \<lparr>rds_st = st0, poisoned = False\<rparr>) =
       (Panic, [], rds') \<and> rds_st rds' = st0 \<and>
    (\<forall>now' args' conn' c. args' \<noteq> [] \<longrightarrow> parse_call R0 args' = Call c \<longrightarrow>
       server_command E0 R0 now' args' (conn', rds') = (Panic, conn', rds'))"
  using bad_score_kills_server [of "[string_bytes ''ZADD'', [107], [120], [109]]" R0 E0 "(0, 1)" "[]"
      "\<lparr>rds_st = st0, poisoned = False\<rparr>"]
  by (simp add: to_lowercase_def string_bytes_def not_a_number)

end
