(* ===== verification/Http.thy ===== *)
theory Http
  imports RedisMeta Batch
begin

text \<open>
  Model of the request handlers of \<^verbatim>\<open>http/src/main.rs\<close>.  The texts that \<^verbatim>\<open>serde_json\<close> makes are
  parameters; a request with a JSON object gives its entries in the order of its \<open>HashMap\<close>.
\<close>

datatype http_response = Ok200 bytes | InternalServerError bytes

fun put_entries ::
  "('s, 'b) env \<Rightarrow> (str \<times> str) list \<Rightarrow> ('s, 'b) st \<Rightarrow> http_response res \<times> ('s, 'b) st" where
  "put_entries E [] st = (Ok (Ok200 (string_bytes ''OK'')), st)"
| "put_entries E ((k, v) # data) st =
     (case put E k v st of
        (Ok _, st) \<Rightarrow> put_entries E data st
      | (Err _, st) \<Rightarrow> (Ok (InternalServerError (string_bytes ''failed to put value in engine'')), st)
      | (Panic, st) \<Rightarrow> (Panic, st))"

definition put_handler where
  "put_handler E data st = put_entries E data st"

definition get_handler :: "('s, 'b) env \<Rightarrow> str \<Rightarrow> ('s, 'b) st \<Rightarrow> http_response res" where
  "get_handler E key st =
     (case get E key st of
        Ok val \<Rightarrow> Ok (Ok200 val)
      | Err e \<Rightarrow>
          if e \<noteq> KeyNotFound then Ok (InternalServerError (string_bytes ''failed to get value in engine''))
          else Ok (Ok200 (string_bytes ''key not found''))
      | Panic \<Rightarrow> Panic)"

definition delete_handler ::
  "('s, 'b) env \<Rightarrow> str \<Rightarrow> ('s, 'b) st \<Rightarrow> http_response res \<times> ('s, 'b) st" where
  "delete_handler E key st =
     (case delete E key st of
        (Ok _, st) \<Rightarrow> (Ok (Ok200 (string_bytes ''OK'')), st)
      | (Err e, st) \<Rightarrow>
          (Ok (if e \<noteq> KeyIsEmpty
               then InternalServerError (string_bytes ''failed to delete value in engine'')
               else Ok200 (string_bytes ''OK'')), st)
      | (Panic, st) \<Rightarrow> (Panic, st))"

text \<open>\<open>keys.into_iter().map(|key| String::from_utf8(key.to_vec()).unwrap()).collect()\<close>.\<close>

fun utf8_all :: "bytes list \<Rightarrow> str list res" where
  "utf8_all [] = Ok []"
| "utf8_all (k # ks) = res_bind (from_utf8 k) (\<lambda>s. res_map (\<lambda>ss. s # ss) (utf8_all ks))"

definition listkeys_handler ::
  "(str list \<Rightarrow> bytes) \<Rightarrow> ('s, 'b) env \<Rightarrow> ('s, 'b) st \<Rightarrow> http_response res" where
  "listkeys_handler json E st =
     res_bind (list_keys E st) (\<lambda>keys. res_map (\<lambda>ss. Ok200 (json ss)) (utf8_all keys))"

definition stat_handler ::
  "((string \<times> nat) list \<Rightarrow> bytes) \<Rightarrow> ('s, 'b) env \<Rightarrow> ('s, 'b) st \<Rightarrow> http_response res" where
  "stat_handler json E st =
     (case engine_stat E st of
        Ok s \<Rightarrow> Ok (Ok200 (json [(''key_num'', stat_key_num s), (''data_file_num'', stat_data_file_num s),
                  (''reclaim_size'', stat_reclaim_size s), (''disk_size'', unat (stat_disk_size s))]))
      | Err _ \<Rightarrow> Ok (InternalServerError (string_bytes ''failed to get stat in engine''))
      | Panic \<Rightarrow> Panic)"

end
