(* ===== verification/HttpProps.thy ===== *)
theory HttpProps
  imports Http KvSpec EngineIter Reopen EngineProps
begin

text \<open>
  The HTTP service of \<^verbatim>\<open>http/src/main.rs\<close> as a whole: its options, its requests, and what it answers
  to any sequence of them, against a map from strings to strings.
\<close>

definition http_options :: "path \<Rightarrow> options" where
  "http_options tmp = (Options_default tmp)\<lparr>dir_path := [''/'', ''tmp'', ''bitcask-rs-http'']\<rparr>"

datatype http_request =
    PutRequest "(str \<times> str) list"
  | GetRequest str
  | DeleteRequest str
  | ListKeysRequest
  | StatRequest

text \<open>The two texts that \<^verbatim>\<open>serde_json\<close> makes.\<close>

record json_texts =
  json_keys :: "str list \<Rightarrow> bytes"
  json_stat :: "(string \<times> nat) list \<Rightarrow> bytes"

fun http_step ::
  "json_texts \<Rightarrow> ('s, 'b) env \<Rightarrow> http_request \<Rightarrow> ('s, 'b) st \<Rightarrow> http_response res \<times> ('s, 'b) st" where
  "http_step J E (PutRequest data) st = put_handler E data st"
| "http_step J E (GetRequest k) st = (get_handler E k st, st)"
| "http_step J E (DeleteRequest k) st = delete_handler E k st"
| "http_step J E ListKeysRequest st = (listkeys_handler (json_keys J) E st, st)"
| "http_step J E StatRequest st = (stat_handler (json_stat J) E st, st)"

fun http_run ::
  "json_texts \<Rightarrow> ('s, 'b) env \<Rightarrow> http_request list \<Rightarrow> ('s, 'b) st \<Rightarrow> http_response res list \<times> ('s, 'b) st" where
  "http_run J E [] st = ([], st)"
| "http_run J E (q # qs) st =
     (case http_step J E q st of (out, st') \<Rightarrow>
        (case http_run J E qs st' of (outs, st'') \<Rightarrow> (out # outs, st'')))"

subsection \<open>The specification\<close>

text \<open>Entries are stored up to the first with an empty key, which makes the request fail.\<close>

fun store_entries :: "(str \<times> str) list \<Rightarrow> (str \<Rightarrow> str option) \<Rightarrow> bool \<times> (str \<Rightarrow> str option)" where
  "store_entries [] m = (True, m)"
| "store_entries ((k, v) # data) m = (if k = [] then (False, m) else store_entries data (m(k \<mapsto> v)))"

fun http_effect :: "http_request \<Rightarrow> (str \<Rightarrow> str option) \<Rightarrow> str \<Rightarrow> str option" where
  "http_effect (PutRequest data) m = snd (store_entries data m)"
| "http_effect (DeleteRequest k) m = m(k := None)"
| "http_effect q m = m"

text \<open>Whether an answer is right for a map; of the statistics only the number of keys is determined.\<close>

fun http_answer :: "json_texts \<Rightarrow> http_request \<Rightarrow> (str \<Rightarrow> str option) \<Rightarrow> http_response res \<Rightarrow> bool" where
  "http_answer J (PutRequest data) m out \<longleftrightarrow>
     out = Ok (if fst (store_entries data m) then Ok200 (string_bytes ''OK'')
               else InternalServerError (string_bytes ''failed to put value in engine''))"
| "http_answer J (GetRequest k) m out \<longleftrightarrow>
     out = Ok (if k = [] then InternalServerError (string_bytes ''failed to get value in engine'')
               else case m k of None \<Rightarrow> Ok200 (string_bytes ''key not found'') | Some v \<Rightarrow> Ok200 v)"
| "http_answer J (DeleteRequest k) m out \<longleftrightarrow> out = Ok (Ok200 (string_bytes ''OK''))"
| "http_answer J ListKeysRequest m out \<longleftrightarrow>
     out = Ok (Ok200 (json_keys J (sorted_list_of_set (dom m))))"
| "http_answer J StatRequest m out \<longleftrightarrow>
     (\<exists>files reclaim disk. out = Ok (Ok200 (json_stat J [(''key_num'', card (dom m)),
        (''data_file_num'', files), (''reclaim_size'', reclaim), (''disk_size'', disk)])))"

fun http_answers ::
  "json_texts \<Rightarrow> http_request list \<Rightarrow> (str \<Rightarrow> str option) \<Rightarrow> http_response res list \<Rightarrow> bool" where
  "http_answers J [] m outs \<longleftrightarrow> outs = []"
| "http_answers J (q # qs) m outs \<longleftrightarrow>
     (case outs of
        [] \<Rightarrow> False
      | out # outs \<Rightarrow> http_answer J q m out \<and> http_answers J qs (http_effect q m) outs)"

text \<open>What a \<open>String\<close> is, and the sizes a record is made for.\<close>

definition text_ok :: "nat \<Rightarrow> str \<Rightarrow> bool" where
  "text_ok n s \<longleftrightarrow> utf8_valid s \<and> length s + n < 2 ^ 32"

fun request_ok :: "http_request \<Rightarrow> bool" where
  "request_ok (PutRequest data) \<longleftrightarrow> list_all (\<lambda>(k, v). text_ok 10 k \<and> text_ok 0 v) data"
| "request_ok (DeleteRequest k) \<longleftrightarrow> text_ok 0 k"
| "request_ok q \<longleftrightarrow> True"

fun request_writes :: "http_request \<Rightarrow> nat" where
  "request_writes (PutRequest data) = length data"
| "request_writes (DeleteRequest k) = 1"
| "request_writes q = 0"

subsection \<open>The engine behind the service\<close>

text \<open>An engine that stands for the map \<open>m\<close>, and has room for \<open>n\<close> more writes.\<close>

definition serves :: "('s, 'b) env \<Rightarrow> (str \<Rightarrow> str option) \<Rightarrow> nat \<Rightarrow> ('s, 'b) st \<Rightarrow> bool" where
  "serves E m n st \<longleftrightarrow>
     engine_inv E st \<and> kv E st = m \<and> m [] = None \<and> (\<forall>k \<in> dom m. utf8_valid k) \<and>
     unat (active_id (fst st)) + n < 2 ^ 32"

lemma serves_mono: "serves E m n st \<Longrightarrow> k \<le> n \<Longrightarrow> serves E m k st"
  by (simp add: serves_def)

lemma serves_put:
  assumes ok: "crates_ok E" "os_ok E" and st: "serves E m (Suc n) st"
    and k: "k \<noteq> []" "text_ok 10 k" "text_ok 0 v"
  obtains st' where "put E k v st = (Ok (), st')" "serves E (m(k \<mapsto> v)) n st'"
proof -
  obtain e fs where st': "st = (e, fs)" by (cases st)
  have s: "engine_inv E (e, fs)" "kv E (e, fs) = m" "unat (active_id e) + 1 < 2 ^ 32"
    using st by (simp_all add: serves_def st')
  have "storable k v" using k by (simp add: storable_def text_ok_def)
  from put_ok [OF ok s(1) this s(3)] obtain e' fs' where
    p: "put E k v (e, fs) = (Ok (), e', fs')" "engine_inv E (e', fs')" "kv E (e', fs') = m(k \<mapsto> v)"
      "unat (active_id e') \<le> unat (active_id e) + 1" by (auto simp: s(2))
  then have "serves E (m(k \<mapsto> v)) n (e', fs')"
    using st k by (auto simp: serves_def st' text_ok_def)
  then show ?thesis using that p(1) by (simp add: st')
qed

lemma put_entries_serves:
  assumes ok: "crates_ok E" "os_ok E"
  shows "serves E m (length data + n) st \<Longrightarrow> list_all (\<lambda>(k, v). text_ok 10 k \<and> text_ok 0 v) data \<Longrightarrow>
    \<exists>out st'. put_entries E data st = (out, st') \<and> http_answer J (PutRequest data) m out \<and>
      serves E (snd (store_entries data m)) n st'"
proof (induction data arbitrary: m st)
  case (Cons kv data)
  obtain k v where kv: "kv = (k, v)" by (cases kv)
  show ?case
  proof (cases "k = []")
    case True
    then show ?thesis using serves_mono [OF Cons.prems(1), of n] by (simp add: put_def kv)
  next
    case False
    obtain st1 where p: "put E k v st = (Ok (), st1)" "serves E (m(k \<mapsto> v)) (length data + n) st1"
      using serves_put [OF ok, of m "length data + n" st k v] Cons.prems False kv by auto
    obtain out st' where "put_entries E data st1 = (out, st')" "http_answer J (PutRequest data) (m(k \<mapsto> v)) out"
      "serves E (snd (store_entries data (m(k \<mapsto> v)))) n st'"
      using Cons.IH [OF p(2)] Cons.prems(2) by (simp only: kv list.pred_inject) blast
    then show ?thesis using p(1) False by (intro exI [of _ out] exI [of _ st']) (simp add: kv)
  qed
qed simp

lemma serves_delete:
  assumes ok: "crates_ok E" "os_ok E" and st: "serves E m (Suc n) st" and k: "text_ok 0 k"
  shows "\<exists>st'. delete_handler E k st = (Ok (Ok200 (string_bytes ''OK'')), st') \<and> serves E (m(k := None)) n st'"
proof (cases "k = []")
  case True
  have "m(k := None) = m" using st True by (auto simp: serves_def)
  then show ?thesis using True serves_mono [OF st, of n] by (simp add: delete_handler_def delete_def)
next
  case False
  obtain e fs where st': "st = (e, fs)" by (cases st)
  have s: "engine_inv E (e, fs)" "kv E (e, fs) = m" "unat (active_id e) + 1 < 2 ^ 32"
    using st by (simp_all add: serves_def st')
  from delete_ok [OF ok s(1) False _ s(3)] k obtain e' fs' where
    "delete E k (e, fs) = (Ok (), e', fs')" "engine_inv E (e', fs')" "kv E (e', fs') = m(k := None)"
    "unat (active_id e') \<le> unat (active_id e) + 1" by (auto simp: s(2) text_ok_def)
  then show ?thesis using st by (auto simp: serves_def st' delete_handler_def)
qed

lemma utf8_all_valid: "\<forall>k \<in> set ks. utf8_valid k \<Longrightarrow> utf8_all ks = Ok ks"
  by (induction ks) simp_all

lemma serves_keys:
  assumes ok: "crates_ok E" "os_ok E" and st: "serves E m n st"
  shows "list_keys E st = Ok (sorted_list_of_set (dom m))" "utf8_all (sorted_list_of_set (dom m)) = Ok (sorted_list_of_set (dom m))"
proof -
  have inv: "engine_inv E st" and m: "kv E st = m" using st by (simp_all add: serves_def)
  note reads = engine_inv_reads [OF inv]
  have idx: "index_inv E (eng_index (fst st))" using inv by (simp add: engine_inv_def)
  obtain ks where ks: "index_list_keys E (eng_index (fst st)) = Ok ks" "sorted_wrt (<) ks"
    "set ks = dom (index_entries E (eng_index (fst st)))"
    using ix.list_keys_sorted [OF idx] by blast
  have dom: "set ks = dom m" using kv_indexed_iff [OF ok reads] by (auto simp: ks(3) dom_def m)
  then have fin: "finite (dom m)" by (metis finite_set)
  have "sorted_list_of_set (dom m) = ks"
    using ks(2) dom by (metis List.finite_set sorted_list_of_set_unique distinct_card strict_sorted_iff)
  then show "list_keys E st = Ok (sorted_list_of_set (dom m))" using ks(1) by (simp add: list_keys_def)
  show "utf8_all (sorted_list_of_set (dom m)) = Ok (sorted_list_of_set (dom m))"
    by (rule utf8_all_valid) (use st fin in \<open>simp add: serves_def\<close>)
qed

lemma http_step_serves:
  assumes ok: "crates_ok E" "os_ok E" and st: "serves E m (request_writes q + n) st" and q: "request_ok q"
  shows "\<exists>out st'. http_step J E q st = (out, st') \<and> http_answer J q m out \<and> serves E (http_effect q m) n st'"
proof (cases q)
  case (PutRequest data)
  then show ?thesis using put_entries_serves [OF ok, of m data n st J] st q by (simp add: put_handler_def)
next
  case (GetRequest k)
  have "engine_inv E st" "kv E st = m" using st by (simp_all add: serves_def)
  with get_cases [OF ok engine_inv_reads, of st k] have
    "get E k st = (if k = [] then Err KeyIsEmpty else case m k of None \<Rightarrow> Err KeyNotFound | Some v \<Rightarrow> Ok v)" by simp
  then show ?thesis using st GetRequest by (auto simp: get_handler_def split: option.split)
next
  case (DeleteRequest k)
  then show ?thesis using serves_delete [OF ok, of m n st k] st q by auto
next
  case ListKeysRequest
  then show ?thesis using serves_keys [OF ok st] st by (simp add: listkeys_handler_def)
next
  case StatRequest
  have "length (sorted_list_of_set (dom m)) = card (dom m)" by simp
  then show ?thesis using serves_keys [OF ok st] st StatRequest
    by (cases st) (auto simp: stat_handler_def engine_stat_def)
qed

lemma http_run_serves:
  assumes ok: "crates_ok E" "os_ok E"
  shows "serves E m (sum_list (map request_writes qs)) st \<Longrightarrow> list_all request_ok qs \<Longrightarrow>
    http_answers J qs m (fst (http_run J E qs st))"
proof (induction qs arbitrary: m st)
  case (Cons q qs)
  then obtain out st' where s: "http_step J E q st = (out, st')" "http_answer J q m out"
    "serves E (http_effect q m) (sum_list (map request_writes qs)) st'"
    using http_step_serves [OF ok, of m q "sum_list (map request_writes qs)" st J] by auto
  with Cons.IH [OF s(3)] Cons.prems(2) show ?case by (simp add: case_prod_unfold)
qed simp

subsection \<open>The property\<close>

text \<open>C11: The HTTP service, started on a directory that does not exist yet, answers any sequence of
  requests as a map from strings to strings that starts empty: entries of a request are stored in
  their order up to an empty key, for which the request fails; every other request succeeds, the
  keys are listed in order and the statistics count them.  No request makes it panic.\<close>

theorem http_refines_map:
  assumes "crates_ok E" "os_ok E" "skipmap_ok (skipmap E)"
    and "\<not> is_dir fs (dir_path (http_options tmp))" "fs_wf fs"
      "\<not> is_dir fs [''/'', ''tmp'', ''bitcask-rs-http-merge'']"
      "(dir_path (http_options tmp), FILE_LOCK_NAME) \<notin> set (fs_locks fs)"
    and "list_all request_ok qs" "sum_list (map request_writes qs) < 2 ^ 32"
  shows "\<exists>e fs'. engine_open E (http_options tmp) fs = Some (Ok e, fs') \<and>
    http_answers J qs Map.empty (fst (http_run J E qs (e, fs')))"
proof -
  let ?o = "http_options tmp"
  have o: "check_options ?o = Ok ()" "index_type ?o \<noteq> BPlusTree" "unat (data_file_size ?o) \<le> 2 ^ 63"
    "bytes_per_sync ?o \<le> 2 ^ 63"
    "get_merge_path (dir_path ?o) = Ok [''/'', ''tmp'', ''bitcask-rs-http-merge'']"
    by (simp_all add: http_options_def Options_default_def check_options_def get_merge_path_def
        path_file_name_def path_parent_def MERGE_DIR_NAME_def f32_less_def f32_key_def f32_is_nan_def)
  obtain e fs' where e: "engine_open E ?o fs = Some (Ok e, fs')" "engine_inv E (e, fs')"
    "kv E (e, fs') = Map.empty" "active_id e = 0"
    by (rule engine_open_new [OF assms(1-3) o(1-4) assms(4,5) o(5) assms(6,7)]) blast
  have "serves E Map.empty (sum_list (map request_writes qs)) (e, fs')"
    using e(2-4) assms(9) by (simp add: serves_def)
  from http_run_serves [OF assms(1,2) this assms(8), of J] show ?thesis using e(1) by blast
qed

definition requests0 :: "http_request list" where
  "requests0 = [PutRequest [([107], [118]), ([], [1])], GetRequest [107], ListKeysRequest, DeleteRequest [107],
     GetRequest [107], StatRequest]"

lemma http_refines_map_witness:
  "\<exists>e fs'. engine_open E0 (http_options [''/'', ''tmp'']) no_fs = Some (Ok e, fs') \<and>
    http_answers \<lparr>json_keys = concat, json_stat = (\<lambda>xs. [of_nat (length xs)])\<rparr> requests0 Map.empty
      (fst (http_run \<lparr>json_keys = concat, json_stat = (\<lambda>xs. [of_nat (length xs)])\<rparr> E0 requests0 (e, fs')))"
  by (rule http_refines_map)
    (simp_all add: http_options_def Options_default_def no_fs_def is_dir_def fs_wf_def requests0_def text_ok_def)

end
