(* ===== verification/Spec2Isabelle.thy ===== *)
theory Spec2Isabelle
  imports FormatProps IndexProps EngineProps SafetyProps BatchProps RecoveryProps Defects
    MergeProps MergeRace BackupDefect IterProps SnapshotProps LockProps RedisTypes RedisDefects RedisServerProps HttpProps
begin

text \<open>
  A verification library for bitcask-rs: a Bitcask key-value store (\<^verbatim>\<open>src/bitcask-rs\<close>), a Redis
  data layer with its server (\<^verbatim>\<open>src/redis\<close>) and an HTTP front end (\<^verbatim>\<open>src/http\<close>).

  \<^bold>\<open>The program.\<close>  An engine appends records (a key, a value, a type; a tombstone for a deleted
  key) to the active one of the data files of its directory, and keeps an index from keys to
  record positions in memory.  Reading looks the position up and reads one record.  A full
  active file is synced and a new one started.  A write batch is logged under a sequence number
  and counts only when its finishing record is in the log.  Opening a database replays the data
  files into the index; merging rewrites the records that the index still points to.  The Redis
  layer stores a value of any type as one metadata record under its key and one record per
  element under a key made of the key, a version and the element; its server runs the commands
  under a mutex.  The HTTP server maps five requests to calls of the engine.

  \<^bold>\<open>Conventions.\<close>  Every call is a function from a state to a result and a state, or only to a
  result when it changes nothing.  A result is \<open>Ok\<close>, \<open>Err\<close> of an \<open>app_error\<close>, or \<open>Panic\<close>: every
  early return and every panic (arithmetic overflow in a debug build, \<open>unwrap\<close>) is a branch
  (\<open>Prelude\<close>).  Integers have their width (\<open>u8\<close>, \<open>u32\<close>, \<open>u64\<close>, \<open>u128\<close>); \<open>usize\<close> is \<open>nat\<close> with its
  bound of 64 bits written out in \<open>add_usize\<close>.  Loops over a log file are partial functions in
  the option monad: \<open>None\<close> is a loop that never returns, and \<open>open_returns\<close> proves that it does
  not happen.

  \<^bold>\<open>Code outside the repository\<close> is a parameter of the model: the record \<open>crates\<close> (varints and
  length delimiters of prost, crc32fast, bytes) and its extensions \<open>os\<close> (what the operating system
  decides: failing calls, short writes, sizes), \<open>env\<close> (the skip list and the B+ tree library) and
  \<open>redis_crates\<close> (formatting and parsing of floating point numbers, UTF-8).  Their laws are the
  hypotheses \<open>crates_ok\<close>, \<open>os_ok\<close>, \<open>list_dir_ok\<close>, \<open>skipmap_ok\<close>, \<open>jammdb_ok\<close>, \<open>hash_ok\<close>, \<open>redis_ok\<close>; \<open>RefEnv\<close> and
  \<open>RedisProps\<close> give concrete functions that satisfy all of them, on which the closed examples run.

  \<^bold>\<open>The model\<close>, in the order of the code:
  \<^item> \<open>LogRecord\<close>: \<^verbatim>\<open>data/log_record.rs\<close>; \<open>TxnKey\<close>: the record keys of \<^verbatim>\<open>batch.rs\<close>; \<open>Options\<close>:
    \<^verbatim>\<open>options.rs\<close>; \<open>StdText\<close>: number formatting and parsing of the standard library.
  \<^item> \<open>Fio\<close>: the file system (directories of files with their bytes and the durable part of them,
    locks) and both IO managers of \<^verbatim>\<open>fio/\<close>; \<open>DataFile\<close>: \<^verbatim>\<open>data/data_file.rs\<close>.
  \<^item> \<open>Index\<close>, \<open>IndexIter\<close>: \<^verbatim>\<open>index/\<close>, the trait as the locale \<open>indexer\<close>, interpreted on its three
    implementations and on the dispatch between them; the iterator of the B-tree with its binary
    search.  \<open>IndexIterImpl\<close>: the iterators of the other two and the trait \<open>IndexIterator\<close> as the
    locale \<open>iterator_contract\<close>, whose sublocale \<open>simulates\<close> carries the contract from one to the others.
  \<^item> \<open>Engine\<close>: the state of \<open>Engine\<close> (\<^verbatim>\<open>db.rs\<close>) and \<open>append_log_record\<close>, \<open>put\<close>, \<open>get\<close>, \<open>delete\<close>,
    \<open>sync\<close>, \<open>stat\<close>, \<open>close\<close>; \<open>EngineIter\<close>: \<^verbatim>\<open>iterator.rs\<close>; \<open>Batch\<close>: \<^verbatim>\<open>batch.rs\<close>; \<open>Backup\<close>: \<open>backup\<close>
    with \<open>copy_dir\<close> of \<^verbatim>\<open>util/file.rs\<close>, sub-directories included.
  \<^item> \<open>Concurrent\<close>: interleavings of \<open>put\<close>, \<open>get\<close>, \<open>delete\<close> and commits of batches from several
    threads, cut into the parts that the locks make atomic, one commit at a time; \<open>Locks\<close>: the order in which each call takes the locks of the engine,
    and threads that wait for them.
  \<^item> \<open>Load\<close>: \<open>Engine::open\<close> with all it calls, \<open>load_merge_files\<close> and the hint file of \<^verbatim>\<open>merge.rs\<close>
    included; \<open>Merge\<close>: \<open>Engine::merge\<close>, with the \<open>f32\<close> quotient it compares.
  \<^item> \<open>RedisMeta\<close>, \<open>Redis\<close>: \<^verbatim>\<open>meta.rs\<close>, \<^verbatim>\<open>types.rs\<close> and \<^verbatim>\<open>generic.rs\<close> of \<^verbatim>\<open>redis/\<close>; \<open>RedisServer\<close>: the
    command callback of \<^verbatim>\<open>redis/src/main.rs\<close>, with its poisoned mutex; \<open>Http\<close>: the handlers of
    \<^verbatim>\<open>http/src/main.rs\<close>.

  \<^bold>\<open>The lemmas.\<close>
  \<^item> \<open>EngineFiles\<close>, \<open>EngineInv\<close>: the invariant \<open>engine_inv\<close> (the files of the directory and the
    handles fit, every index entry points to a whole record of its key); every call keeps it.
  \<^item> \<open>KvSpec\<close>: the engine as a map from keys to values, for any sequence of calls.
  \<^item> \<open>Replay\<close>: what a log means, as a fold over its records; \<open>Recovery\<close>: opening implements it;
    \<open>Durable\<close>, \<open>Commit\<close>: the calls keep the log and the index in step; \<open>Reopen\<close>, \<open>Restart\<close>: a
    database opened again; \<open>Session\<close>: its whole life as a step relation.
  \<^item> \<open>ConcLog\<close>: the log that interleaved calls leave means these calls in the order of their records,
    although the index of the running engine may disagree.
  \<^item> \<open>AppendOnly\<close>, \<open>Durability\<close>: no byte of the log is changed, and what a crash can lose;
    \<open>Elsewhere\<close>: an engine leaves the other directories as they are.
  \<^item> \<open>MergeFrame\<close>: what no step of a merge touches; \<open>MergeRotate\<close>: the active file is closed and a new
    one started; \<open>MergeKeeps\<close>: whatever happens the running engine keeps its map; \<open>MergeLive\<close>,
    \<open>MergeRun\<close>: the records a merge writes are the live ones, and its log and hint file say the
    same; \<open>MergeDone\<close>: what a finished merge leaves; \<open>MergeMove\<close>, \<open>MergeHint\<close>, \<open>MergeReopen\<close>: opening
    moves the files, loads the hint file and replays the rest.
  \<^item> \<open>RedisSpec\<close>: the abstract store of the Redis layer; \<open>RedisRepr\<close>: how the map of the engine
    represents it; \<open>RedisEngine\<close>, \<open>RedisStep\<close>, \<open>RedisHash\<close>, \<open>RedisSet\<close>, \<open>RedisZSet\<close>, \<open>RedisList\<close>: each
    command against the abstract one.
  \<^item> The properties are in the theories named \<open>Props\<close> (\<open>FormatProps\<close>, \<open>IndexProps\<close>, \<open>EngineProps\<close>,
    \<open>SafetyProps\<close>, \<open>BatchProps\<close>, \<open>RecoveryProps\<close>, \<open>MergeProps\<close>, \<open>BackupProps\<close>, \<open>IterProps\<close>, \<open>ConcProps\<close>,
    \<open>SnapshotProps\<close> (an iterator while other threads go on), \<open>LockProps\<close>, \<open>RedisProps\<close>,
    \<open>RedisServerProps\<close> and \<open>HttpProps\<close>, where each server is opened and answers a sequence of
    requests), in \<open>RedisTypes\<close> (a typing of the Redis keys), in \<open>MergeRace\<close> (a
    merge between two steps of a \<open>put\<close>), and in \<open>Defects\<close>, \<open>BackupDefect\<close>
    and \<open>RedisDefects\<close>, which state what the code does against its own comments and tests.

  \<^bold>\<open>Bounds.\<close>  A data file and a key or value are shorter than \<open>2 ^ 32\<close> bytes (\<open>wf_record\<close>), file ids
  are below \<open>2 ^ 32\<close>.  A merge is shown to finish when the log fits the option it is rewritten
  under and is shorter than \<open>2 ^ 58\<close> bytes (\<open>merge_fits\<close>), so that its hint file is below
  \<open>2 ^ 61\<close>.  The theorems about the Redis layer give the engine a budget of writes
  (\<open>ready\<close>: no file id can run over in so many appends), let the clock advance between commands
  (\<open>clock_ok\<close>) and need that no key begins another (\<open>prefix_free\<close>), since the code concatenates
  keys without a separator; \<open>plain_members\<close> excludes the members of \<open>zscore_panics\<close>.

  \<^bold>\<open>Not modelled.\<close>  The steps of a merge or of \<open>close\<close> between those of other calls: there a call is one
  step (in \<open>MergeRace\<close> one between two steps of a \<open>put\<close>), except that \<open>Locks\<close> has the locks of all of them; a batch that several threads fill or commit; weak memory does not show, since every
  shared value is behind a lock or a sequentially consistent atomic.  Sub-directories of a data directory,
  except in \<open>copy_dir\<close>; the properties of \<open>backup\<close> are about a directory without them.  How the
  servers set up their sockets and logging, and the crates that parse and route requests (redcon,
  actix-web, serde).  Tests, benchmarks and the generator of random test data.
\<close>

end
